(* ===== verification/Prelude.thy ===== *)
theory Prelude
  imports Main "HOL-Library.Word" "HOL-Library.List_Lexorder" "HOL-Library.Char_ord"
begin

text \<open>
  Shared vocabulary of the development: the result type of code that can fail, its
  sequencing operator, the ways in which a C++ statement of this repository can go wrong,
  and the list, map and word lemmas that several components use.
\<close>

named_theorems exec \<open>definitions to unfold when a closed call is evaluated\<close>

section \<open>Faults and results\<close>

text \<open>
  A C++ operation of this code base either returns or goes wrong. What can go wrong is a
  value of \<open>fault\<close>:
  \<^item> \<open>NullDeref\<close>: a null pointer is dereferenced;
  \<^item> \<open>UseAfterFree\<close>: a pointer (or a list iterator) to an object that was deleted is used;
  \<^item> \<open>DoubleFree\<close>: \<^verbatim>\<open>delete\<close> is applied to an object that was deleted before;
  \<^item> \<open>OutOfBounds\<close>: an array or vector is indexed outside its length;
  \<^item> \<open>Uninit\<close>: a local variable is read before it was assigned;
  \<^item> \<open>Diverges\<close>: a loop never ends;
  \<^item> \<open>InvalidArgument\<close>, \<open>OutOfRange\<close>: the exceptions of \<^verbatim>\<open>std::stoi\<close>;
  \<^item> \<open>BadFunctionCall\<close>: an empty \<^verbatim>\<open>std::function\<close> is called;
  \<^item> \<open>SignedOverflow\<close>, \<open>DivideByZero\<close>: arithmetic that the language leaves undefined;
  \<^item> \<open>AssertFailed\<close>: an \<^verbatim>\<open>assert\<close> does not hold;
  \<^item> \<open>Blocked\<close>: a lock is taken that its holder never releases;
  \<^item> \<open>LengthError\<close>: a container is asked for a negative number of elements.
\<close>

datatype fault =
    NullDeref | UseAfterFree | DoubleFree | OutOfBounds | Uninit | Diverges
  | InvalidArgument | OutOfRange | BadFunctionCall | SignedOverflow | DivideByZero
  | AssertFailed | Blocked | LengthError

type_synonym 'a res = "fault + 'a"

type_synonym u8 = "8 word"
type_synonym u32 = "32 word"
type_synonym u64 = "64 word"

fun bindE :: "'e + 'a \<Rightarrow> ('a \<Rightarrow> 'e + 'b) \<Rightarrow> 'e + 'b" where
  "bindE (Inl e) f = Inl e"
| "bindE (Inr x) f = f x"

lemma bindE_cong [fundef_cong]:
  "m = m' \<Longrightarrow> (\<And>x. m' = Inr x \<Longrightarrow> f x = g x) \<Longrightarrow> bindE m f = bindE m' g"
  by (cases m') auto

text \<open>For evaluation: only the first argument is simplified until it is a value.\<close>

lemma bindE_weak_cong: "m = m' \<Longrightarrow> bindE m f = bindE m' f"
  by simp

lemma bindE_Inr_iff: "bindE m f = Inr y \<longleftrightarrow> (\<exists>x. m = Inr x \<and> f x = Inr y)"
  by (cases m) auto

lemma bindE_Inl_iff:
  "bindE m f = Inl e \<longleftrightarrow> m = Inl e \<or> (\<exists>x. m = Inr x \<and> f x = Inl e)"
  by (cases m) auto

lemma bindE_InrE:
  assumes "bindE m f = Inr y"
  obtains x where "m = Inr x" and "f x = Inr y"
  using assms by (cases m) auto

lemma bindE_Inr_right [simp]: "bindE m Inr = m"
  by (cases m) auto

lemma bindE_assoc: "bindE (bindE m f) g = bindE m (\<lambda>x. bindE (f x) g)"
  by (cases m) auto

text \<open>Repeating a fallible state change over a list: the range-based \<^verbatim>\<open>for\<close> loops.\<close>

fun foldE :: "('a \<Rightarrow> 's \<Rightarrow> 'e + 's) \<Rightarrow> 'a list \<Rightarrow> 's \<Rightarrow> 'e + 's" where
  "foldE f [] s = Inr s"
| "foldE f (x # xs) s = bindE (f x s) (foldE f xs)"

lemma foldE_append: "foldE f (xs @ ys) s = bindE (foldE f xs s) (\<lambda>t. foldE f ys t)"
proof (induction xs arbitrary: s)
  case (Cons x xs)
  then show ?case by (cases "f x s") auto
qed simp

lemma foldE_invariant:
  assumes "P s"
    and "\<And>x t. x \<in> set xs \<Longrightarrow> P t \<Longrightarrow> \<exists>t'. f x t = Inr t' \<and> P t'"
  shows "\<exists>t. foldE f xs s = Inr t \<and> P t"
  using assms
proof (induction xs arbitrary: s)
  case Nil
  then show ?case by simp
next
  case (Cons x xs)
  from Cons.prems(1) Cons.prems(2) [of x s] obtain t where "f x s = Inr t" "P t" by auto
  with Cons.IH [of t] Cons.prems(2) show ?case by auto
qed

end
