(* ===== verification/Skip_Node.thy ===== *)
theory Skip_Node
  imports Prelude
begin

text \<open>
  The nodes of \<^verbatim>\<open>skiplist.h\<close> (\<^verbatim>\<open>class SkipListNode\<close>) in an explicit store: a heap maps
  addresses to live nodes, reading or writing through an address that is not live is a fault,
  and so is an index outside the arrays \<^verbatim>\<open>forward_\<close> and \<^verbatim>\<open>span_\<close>. The second half
  relates the pointers of one level to the list of addresses they chain together.
\<close>

section \<open>Nodes and the heap\<close>

type_synonym addr = nat

record 'k SkipListNode =
  nd_level :: nat
  nd_backward :: "addr option"
  nd_forward :: "addr option list"
  nd_span :: "u32 list"
  nd_ele :: 'k
  nd_score :: int

type_synonym 'k heap = "addr \<rightharpoonup> 'k SkipListNode"

definition SkipListNode_new :: "'k \<Rightarrow> int \<Rightarrow> nat \<Rightarrow> 'k SkipListNode" where
  "SkipListNode_new ele score level =
     \<lparr>nd_level = level, nd_backward = None, nd_forward = replicate level None,
      nd_span = replicate level 0, nd_ele = ele, nd_score = score\<rparr>"

definition rd_node :: "'k heap \<Rightarrow> addr \<Rightarrow> 'k SkipListNode res" where
  "rd_node h a = (case h a of None \<Rightarrow> Inl UseAfterFree | Some n \<Rightarrow> Inr n)"

definition deref :: "addr option \<Rightarrow> addr res" where
  "deref p = (case p of None \<Rightarrow> Inl NullDeref | Some a \<Rightarrow> Inr a)"

definition rd_forward :: "'k heap \<Rightarrow> addr \<Rightarrow> nat \<Rightarrow> addr option res" where
  "rd_forward h a i =
     bindE (rd_node h a) (\<lambda>n.
     if i < length (nd_forward n) then Inr (nd_forward n ! i) else Inl OutOfBounds)"

definition rd_span :: "'k heap \<Rightarrow> addr \<Rightarrow> nat \<Rightarrow> u32 res" where
  "rd_span h a i =
     bindE (rd_node h a) (\<lambda>n.
     if i < length (nd_span n) then Inr (nd_span n ! i) else Inl OutOfBounds)"

definition wr_forward :: "'k heap \<Rightarrow> addr \<Rightarrow> nat \<Rightarrow> addr option \<Rightarrow> 'k heap res" where
  "wr_forward h a i p =
     bindE (rd_node h a) (\<lambda>n.
     if i < length (nd_forward n) then Inr (h(a \<mapsto> n\<lparr>nd_forward := (nd_forward n)[i := p]\<rparr>))
     else Inl OutOfBounds)"

definition wr_span :: "'k heap \<Rightarrow> addr \<Rightarrow> nat \<Rightarrow> u32 \<Rightarrow> 'k heap res" where
  "wr_span h a i w =
     bindE (rd_node h a) (\<lambda>n.
     if i < length (nd_span n) then Inr (h(a \<mapsto> n\<lparr>nd_span := (nd_span n)[i := w]\<rparr>))
     else Inl OutOfBounds)"

definition wr_backward :: "'k heap \<Rightarrow> addr \<Rightarrow> addr option \<Rightarrow> 'k heap res" where
  "wr_backward h a p =
     bindE (rd_node h a) (\<lambda>n. Inr (h(a \<mapsto> n\<lparr>nd_backward := p\<rparr>)))"

text \<open>\<^verbatim>\<open>delete p\<close>: no effect on a null pointer, a fault on an address that is not live.\<close>

definition delete_node :: "'k heap \<Rightarrow> addr option \<Rightarrow> 'k heap res" where
  "delete_node h p =
     (case p of None \<Rightarrow> Inr h
      | Some a \<Rightarrow> if h a = None then Inl DoubleFree else Inr (h(a := None)))"

text \<open>Array elements of the local arrays \<^verbatim>\<open>update\<close> and \<^verbatim>\<open>rank\<close>.\<close>

definition rd_arr :: "'a list \<Rightarrow> nat \<Rightarrow> 'a res" where
  "rd_arr xs i = (if i < length xs then Inr (xs ! i) else Inl OutOfBounds)"

section \<open>What a heap says about a node\<close>

definition fwd :: "'k heap \<Rightarrow> nat \<Rightarrow> addr \<Rightarrow> addr option option" where
  "fwd h i a = (case h a of None \<Rightarrow> None
     | Some n \<Rightarrow> if i < length (nd_forward n) then Some (nd_forward n ! i) else None)"

definition spn :: "'k heap \<Rightarrow> nat \<Rightarrow> addr \<Rightarrow> u32 option" where
  "spn h i a = (case h a of None \<Rightarrow> None
     | Some n \<Rightarrow> if i < length (nd_span n) then Some (nd_span n ! i) else None)"

definition height :: "'k heap \<Rightarrow> addr \<Rightarrow> nat" where
  "height h a = (case h a of None \<Rightarrow> 0 | Some n \<Rightarrow> length (nd_forward n))"

text \<open>The part of a node that linking never changes.\<close>

definition core :: "'k heap \<Rightarrow> addr \<Rightarrow> ('k \<times> int \<times> nat \<times> nat \<times> nat) option" where
  "core h a = map_option (\<lambda>n. (nd_ele n, nd_score n, nd_level n, length (nd_forward n), length (nd_span n))) (h a)"

lemma rd_forward_fwd: "rd_forward h a i = Inr p \<longleftrightarrow> fwd h i a = Some p"
  by (auto simp: rd_forward_def rd_node_def fwd_def split: option.splits)

lemma rd_span_spn: "rd_span h a i = Inr w \<longleftrightarrow> spn h i a = Some w"
  by (auto simp: rd_span_def rd_node_def spn_def split: option.splits)

lemma rd_node_Some: "h a = Some n \<Longrightarrow> rd_node h a = Inr n"
  by (simp add: rd_node_def)

lemma height_via_core:
  "height h a = (case core h a of None \<Rightarrow> 0 | Some (k, v, l, f, s) \<Rightarrow> f)"
  by (simp add: height_def core_def split: option.split)

lemma height_core: "core h = core h' \<Longrightarrow> height h = height h'"
  by (simp add: fun_eq_iff height_via_core)

section \<open>Chains of one level\<close>

text \<open>
  \<open>seg h i a us p\<close>: on level \<open>i\<close> the node \<open>a\<close> leads through exactly the nodes \<open>us\<close> to the
  pointer \<open>p\<close>; a whole level is a segment that ends in the null pointer.
\<close>

primrec seg :: "'k heap \<Rightarrow> nat \<Rightarrow> addr \<Rightarrow> addr list \<Rightarrow> addr option \<Rightarrow> bool" where
  "seg h i a [] p \<longleftrightarrow> fwd h i a = Some p"
| "seg h i a (b # us) p \<longleftrightarrow> fwd h i a = Some (Some b) \<and> seg h i b us p"

definition first :: "addr list \<Rightarrow> addr option \<Rightarrow> addr option" where
  "first us p = (case us of [] \<Rightarrow> p | b # _ \<Rightarrow> Some b)"

lemma first_simps [simp]: "first [] p = p" "first (b # us) p = Some b"
  by (simp_all add: first_def)

lemma seg_append:
  "seg h i a (us @ vs) p \<longleftrightarrow>
     seg h i a us (first vs p) \<and> (vs = [] \<or> seg h i (hd vs) (tl vs) p)"
proof (induction us arbitrary: a)
  case Nil
  then show ?case by (cases vs) auto
next
  case (Cons b us)
  then show ?case by auto
qed

lemma seg_cong:
  "(\<And>x. x \<in> set (a # us) \<Longrightarrow> fwd h' i x = fwd h i x) \<Longrightarrow> seg h' i a us p = seg h i a us p"
  by (induction us arbitrary: a) auto

lemma seg_last: "seg h i a us p \<Longrightarrow> fwd h i (last (a # us)) = Some p"
  by (induction us arbitrary: a) auto

lemma seg_retarget:
  assumes "seg h i a us p" and "distinct (a # us)"
    and "\<And>x. x \<in> set (a # us) \<Longrightarrow> x \<noteq> last (a # us) \<Longrightarrow> fwd h' i x = fwd h i x"
    and "fwd h' i (last (a # us)) = Some q"
  shows "seg h' i a us q"
  using assms
proof (induction us arbitrary: a)
  case Nil
  then show ?case by simp
next
  case (Cons b us)
  have "last (b # us) \<in> set (b # us)" by (rule last_in_set) simp
  with Cons.prems(2) have "a \<noteq> last (a # b # us)" by auto
  with Cons show ?case by auto
qed

text \<open>Linking \<open>n\<close> behind the last node of \<open>us\<close>, and unlinking it again.\<close>

lemma seg_insert:
  assumes "seg h i a (us @ vs) None" and "distinct (a # us @ n # vs)"
    and "\<And>x. x \<in> set (a # us @ vs) \<Longrightarrow> x \<noteq> last (a # us) \<Longrightarrow> fwd h' i x = fwd h i x"
    and "fwd h' i (last (a # us)) = Some (Some n)"
    and "fwd h' i n = fwd h i (last (a # us))"
  shows "seg h' i a (us @ n # vs) None"
proof -
  have l: "seg h i a us (first vs None)" and r: "vs = [] \<or> seg h i (hd vs) (tl vs) None"
    using assms(1) by (simp_all add: seg_append)
  have "seg h' i a us (Some n)"
    by (rule seg_retarget [OF l]) (use assms in auto)
  moreover have "seg h' i n vs None"
  proof (cases vs)
    case Nil
    then show ?thesis using assms(5) seg_last [OF l] by simp
  next
    case (Cons b ws)
    have lastin: "last (a # us) \<in> set (a # us)" by (rule last_in_set) simp
    have "seg h' i b ws None = seg h i b ws None"
    proof (rule seg_cong)
      fix x assume "x \<in> set (b # ws)"
      with assms(2) lastin Cons have "x \<noteq> last (a # us)" by auto
      with assms(3) \<open>x \<in> set (b # ws)\<close> Cons show "fwd h' i x = fwd h i x" by auto
    qed
    with r Cons assms(5) seg_last [OF l] show ?thesis by simp
  qed
  ultimately show ?thesis by (simp add: seg_append)
qed

lemma seg_remove:
  assumes "seg h i a (us @ n # vs) None" and "distinct (a # us @ n # vs)"
    and "\<And>x. x \<in> set (a # us @ vs) \<Longrightarrow> x \<noteq> last (a # us) \<Longrightarrow> fwd h' i x = fwd h i x"
    and "fwd h' i (last (a # us)) = fwd h i n"
  shows "seg h' i a (us @ vs) None"
proof -
  have l: "seg h i a us (Some n)" and r: "seg h i n vs None"
    using assms(1) by (simp_all add: seg_append)
  have lastin: "last (a # us) \<in> set (a # us)" by (rule last_in_set) simp
  have n: "fwd h i n = Some (first vs None)"
    using r by (cases vs) auto
  have "seg h' i a us (first vs None)"
    by (rule seg_retarget [OF l]) (use assms n in auto)
  moreover have "vs = [] \<or> seg h' i (hd vs) (tl vs) None"
  proof (cases vs)
    case (Cons b ws)
    have "seg h' i b ws None = seg h i b ws None"
    proof (rule seg_cong)
      fix x assume "x \<in> set (b # ws)"
      with assms(2) lastin Cons have "x \<noteq> last (a # us)" by auto
      with assms(3) \<open>x \<in> set (b # ws)\<close> Cons show "fwd h' i x = fwd h i x" by auto
    qed
    with r Cons show ?thesis by simp
  qed simp
  ultimately show ?thesis by (simp add: seg_append)
qed

text \<open>The nodes of the bottom level, read off the heap.\<close>

fun collect :: "nat \<Rightarrow> 'k heap \<Rightarrow> addr option \<Rightarrow> addr list" where
  "collect n h None = []"
| "collect 0 h (Some a) = []"
| "collect (Suc n) h (Some a) =
     a # collect n h (case fwd h 0 a of None \<Rightarrow> None | Some p \<Rightarrow> p)"

lemma collect_seg:
  "seg h 0 a us None \<Longrightarrow> length us \<le> n \<Longrightarrow>
     collect n h (case fwd h 0 a of None \<Rightarrow> None | Some p \<Rightarrow> p) = us"
proof (induction us arbitrary: a n)
  case Nil
  then show ?case by (cases n) auto
next
  case (Cons b us)
  then obtain m where "n = Suc m" by (cases n) auto
  with Cons show ?case by auto
qed

section \<open>Effects of the writes\<close>

lemma wr_forward_ok:
  assumes "fwd h i a \<noteq> None"
  shows "\<exists>h'. wr_forward h a i p = Inr h' \<and> core h' = core h \<and> dom h' = dom h \<and>
    spn h' = spn h \<and>
    (\<forall>j x. fwd h' j x = (if j = i \<and> x = a then Some p else fwd h j x))"
proof -
  obtain n where n: "h a = Some n" "i < length (nd_forward n)"
    using assms by (auto simp: fwd_def split: option.splits if_splits)
  let ?h = "h(a \<mapsto> n\<lparr>nd_forward := (nd_forward n)[i := p]\<rparr>)"
  have "wr_forward h a i p = Inr ?h"
    using n by (simp add: wr_forward_def rd_node_def)
  moreover have "core ?h = core h" and "spn ?h = spn h" and "dom ?h = dom h"
    using n by (auto simp: core_def spn_def fun_eq_iff)
  moreover have "fwd ?h j x = (if j = i \<and> x = a then Some p else fwd h j x)" for j x
    using n by (auto simp: fwd_def)
  ultimately show ?thesis by blast
qed

lemma wr_span_ok:
  assumes "spn h i a \<noteq> None"
  shows "\<exists>h'. wr_span h a i w = Inr h' \<and> core h' = core h \<and> dom h' = dom h \<and> fwd h' = fwd h \<and>
    (\<forall>j x. spn h' j x = (if j = i \<and> x = a then Some w else spn h j x))"
proof -
  obtain n where n: "h a = Some n" "i < length (nd_span n)"
    using assms by (auto simp: spn_def split: option.splits if_splits)
  let ?h = "h(a \<mapsto> n\<lparr>nd_span := (nd_span n)[i := w]\<rparr>)"
  have "wr_span h a i w = Inr ?h"
    using n by (simp add: wr_span_def rd_node_def)
  moreover have "core ?h = core h" and "fwd ?h = fwd h" and "dom ?h = dom h"
    using n by (auto simp: core_def fwd_def fun_eq_iff)
  moreover have "spn ?h j x = (if j = i \<and> x = a then Some w else spn h j x)" for j x
    using n by (auto simp: spn_def)
  ultimately show ?thesis by blast
qed

lemma wr_backward_ok:
  assumes "a \<in> dom h"
  shows "\<exists>h'. wr_backward h a p = Inr h' \<and> core h' = core h \<and> dom h' = dom h \<and>
    fwd h' = fwd h \<and> spn h' = spn h"
proof -
  obtain n where n: "h a = Some n" using assms by auto
  let ?h = "h(a \<mapsto> n\<lparr>nd_backward := p\<rparr>)"
  have "wr_backward h a p = Inr ?h"
    using n by (simp add: wr_backward_def rd_node_def)
  moreover have "core ?h = core h" and "fwd ?h = fwd h" and "dom ?h = dom h" and "spn ?h = spn h"
    using n by (auto simp: core_def fwd_def spn_def fun_eq_iff)
  ultimately show ?thesis by blast
qed

section \<open>Backward pointers\<close>

definition bwd :: "'k heap \<Rightarrow> addr \<Rightarrow> addr option option" where
  "bwd h a = map_option nd_backward (h a)"

lemma bwd_upd [simp]: "bwd (h(a := x)) = (bwd h)(a := map_option nd_backward x)"
  by (rule ext) (simp add: bwd_def)

lemma wr_forward_bwd: "wr_forward h a i p = Inr h' \<Longrightarrow> bwd h' = bwd h"
  by (auto simp: wr_forward_def rd_node_def bwd_def intro!: fun_upd_idem split: option.splits if_splits)

lemma wr_span_bwd: "wr_span h a i w = Inr h' \<Longrightarrow> bwd h' = bwd h"
  by (auto simp: wr_span_def rd_node_def bwd_def intro!: fun_upd_idem split: option.splits if_splits)

lemma wr_backward_bwd: "wr_backward h a p = Inr h' \<Longrightarrow> bwd h' = (bwd h)(a \<mapsto> p)"
  by (auto simp: wr_backward_def rd_node_def split: option.splits)

end
