(* ===== verification/Cpp_Containers.thy ===== *)
theory Cpp_Containers
  imports Prelude
begin

text \<open>
  The standard containers this code base uses, as far as it uses them:
  \<^item> \<^verbatim>\<open>std::unordered_map\<close> as an association list with distinct keys. The code calls
    \<^verbatim>\<open>find\<close>, \<^verbatim>\<open>insert\<close> (which leaves an existing entry alone), \<^verbatim>\<open>erase\<close>,
    \<^verbatim>\<open>size\<close> and iterates; only the iteration order depends on the representation;
  \<^item> \<^verbatim>\<open>std::list\<close> with stable iterators: a list of cells, each with an identity that its
    iterator carries. An iterator to an erased cell is invalid, and using it is a fault.
\<close>

section \<open>Unordered maps\<close>

type_synonym ('k, 'a) umap = "('k \<times> 'a) list"

definition umap_ok :: "('k, 'a) umap \<Rightarrow> bool" where
  "umap_ok m \<longleftrightarrow> distinct (map fst m)"

definition umap_find :: "('k, 'a) umap \<Rightarrow> 'k \<Rightarrow> 'a option" where
  "umap_find m k = map_of m k"

definition umap_insert :: "'k \<Rightarrow> 'a \<Rightarrow> ('k, 'a) umap \<Rightarrow> ('k, 'a) umap" where
  "umap_insert k v m = (if map_of m k = None then (k, v) # m else m)"

definition umap_erase :: "'k \<Rightarrow> ('k, 'a) umap \<Rightarrow> ('k, 'a) umap" where
  "umap_erase k m = filter (\<lambda>p. fst p \<noteq> k) m"

text \<open>Assignment through \<^verbatim>\<open>m[k]\<close> to a key that is present.\<close>

definition umap_set :: "'k \<Rightarrow> 'a \<Rightarrow> ('k, 'a) umap \<Rightarrow> ('k, 'a) umap" where
  "umap_set k v m = map (\<lambda>p. if fst p = k then (k, v) else p) m"

lemma umap_find_Nil [simp]: "umap_find [] k = None"
  by (simp add: umap_find_def)

lemma umap_ok_Nil [simp]: "umap_ok []"
  by (simp add: umap_ok_def)

lemma umap_find_insert [simp]:
  "umap_find (umap_insert k v m) k' =
     (if k' = k \<and> umap_find m k = None then Some v else umap_find m k')"
  by (auto simp: umap_find_def umap_insert_def)

lemma umap_find_erase [simp]:
  "umap_find (umap_erase k m) k' = (if k' = k then None else umap_find m k')"
  by (induction m) (auto simp: umap_find_def umap_erase_def)

lemma umap_find_set [simp]:
  "umap_find (umap_set k v m) k' =
     (if k' = k \<and> umap_find m k \<noteq> None then Some v else umap_find m k')"
  by (induction m) (auto simp: umap_find_def umap_set_def)

text \<open>The same, as an equation between maps.\<close>

lemma umap_find_set_map:
  "umap_find m k = Some w \<Longrightarrow> umap_find (umap_set k v m) = (umap_find m)(k \<mapsto> v)"
  by (auto simp: fun_eq_iff)

lemma umap_find_insert_map:
  "umap_find m k = None \<Longrightarrow> umap_find (umap_insert k v m) = (umap_find m)(k \<mapsto> v)"
  by (auto simp: fun_eq_iff)

lemma umap_ok_insert [simp]: "umap_ok m \<Longrightarrow> umap_ok (umap_insert k v m)"
  by (auto simp: umap_ok_def umap_insert_def map_of_eq_None_iff)

lemma umap_ok_erase [simp]: "umap_ok m \<Longrightarrow> umap_ok (umap_erase k m)"
  by (simp add: umap_ok_def umap_erase_def distinct_map_filter)

lemma umap_set_keys [simp]: "map fst (umap_set k v m) = map fst m"
  by (induction m) (auto simp: umap_set_def)

lemma umap_ok_set [simp]: "umap_ok (umap_set k v m) = umap_ok m"
  by (simp add: umap_ok_def)

lemma umap_find_None_iff: "umap_find m k = None \<longleftrightarrow> k \<notin> fst ` set m"
  by (simp add: umap_find_def map_of_eq_None_iff)

lemma umap_find_Some_in: "umap_find m k = Some v \<Longrightarrow> (k, v) \<in> set m"
  by (simp add: umap_find_def map_of_SomeD)

lemma umap_find_Some_iff: "umap_ok m \<Longrightarrow> umap_find m k = Some v \<longleftrightarrow> (k, v) \<in> set m"
  by (auto simp: umap_find_def umap_ok_def map_of_eq_Some_iff)

lemma umap_size_eq:
  assumes "umap_ok m" and "distinct ks" and "\<And>k. k \<in> set ks \<longleftrightarrow> umap_find m k \<noteq> None"
  shows "length m = length ks"
proof -
  have "set (map fst m) = set ks"
    using assms(3) by (auto simp: umap_find_def map_of_eq_None_iff image_iff)
  with assms(1,2) show ?thesis
    unfolding umap_ok_def by (metis distinct_card length_map)
qed

section \<open>Lists with stable iterators\<close>

type_synonym iterator = nat
type_synonym 'a cells = "(iterator \<times> 'a) list"

definition cell_read :: "'a cells \<Rightarrow> iterator \<Rightarrow> 'a res" where
  "cell_read l it = (case map_of l it of None \<Rightarrow> Inl UseAfterFree | Some x \<Rightarrow> Inr x)"

definition cell_write :: "'a cells \<Rightarrow> iterator \<Rightarrow> 'a \<Rightarrow> 'a cells res" where
  "cell_write l it x =
     (if map_of l it = None then Inl UseAfterFree
      else Inr (map (\<lambda>c. if fst c = it then (it, x) else c) l))"

definition cell_erase :: "'a cells \<Rightarrow> iterator \<Rightarrow> 'a cells res" where
  "cell_erase l it =
     (if map_of l it = None then Inl UseAfterFree else Inr (filter (\<lambda>c. fst c \<noteq> it) l))"

text \<open>\<^verbatim>\<open>l.splice(l.begin(), l, it)\<close>: the cell moves to the front and keeps its identity.\<close>

definition cell_splice_front :: "'a cells \<Rightarrow> iterator \<Rightarrow> 'a cells res" where
  "cell_splice_front l it =
     (case map_of l it of None \<Rightarrow> Inl UseAfterFree
      | Some x \<Rightarrow> Inr ((it, x) # filter (\<lambda>c. fst c \<noteq> it) l))"

lemma map_of_splitI:
  assumes "distinct (map fst l)" and "(it, x) \<in> set l"
  shows "map_of l it = Some x"
  using assms by (simp add: map_of_eq_Some_iff)

lemma filter_neq_last:
  assumes "distinct (map fst l)" and "l \<noteq> []"
  shows "filter (\<lambda>c. fst c \<noteq> fst (last l)) l = butlast l"
proof -
  obtain m c where l: "l = m @ [c]" using assms(2) by (metis rev_exhaust)
  from assms(1) have "filter (\<lambda>d. fst d \<noteq> fst c) m = m"
    by (intro filter_True) (auto simp: l image_iff)
  then show ?thesis by (simp add: l)
qed

lemma map_of_cell_upd:
  "map_of l it \<noteq> None \<Longrightarrow> map_of (map (\<lambda>x. if fst x = it then (it, y) else x) l) it = Some y"
  by (induction l) auto

lemma filter_cell_upd:
  "filter (\<lambda>x. fst x \<noteq> it) (map (\<lambda>x. if fst x = it then (it, y) else x) l) =
     filter (\<lambda>x. fst x \<noteq> it) l"
  by (induction l) auto

end
