(* ===== verification/Lru.thy ===== *)
theory Lru
  imports Cpp_Containers
begin

text \<open>
  The cache of \<^verbatim>\<open>lru.h\<close>: a list of cells in order of recency, an index from keys to
  cells, a capacity (0 means unbounded) and the keys that were evicted and still await their
  deletion from the skip list. Its operations refine functions on plain association lists;
  the interface \<open>recency_cache\<close> states what the skip list relies on.
\<close>

section \<open>The cache and its operations\<close>

record ('k, 'v) LRUCache =
  delete_keys :: "'k list"
  capacity :: int
  cache :: "('k, iterator) umap"
  lru :: "('k \<times> 'v) cells"
  next_cell :: iterator

definition LRUCache_new :: "int \<Rightarrow> ('k, 'v) LRUCache" where
  "LRUCache_new cap =
     \<lparr>delete_keys = [], capacity = cap, cache = [], lru = [], next_cell = 0\<rparr>"

definition lru_get :: "'k \<Rightarrow> ('k, int) LRUCache \<Rightarrow> (int \<times> ('k, int) LRUCache) res" where
  "lru_get key c =
     (case umap_find (cache c) key of
        None \<Rightarrow> Inr (-1, c)
      | Some it \<Rightarrow>
          bindE (cell_splice_front (lru c) it) (\<lambda>l.
          bindE (cell_read l it) (\<lambda>p.
          Inr (snd p, c\<lparr>lru := l\<rparr>))))"

text \<open>
  The eviction block of \<^verbatim>\<open>put\<close> and \<^verbatim>\<open>set_capacity\<close>. The code reads
  \<^verbatim>\<open>it->first\<close> once more after \<^verbatim>\<open>lru.erase(it)\<close>. The language leaves that read undefined,
  so its outcome is the parameter \<open>stale\<close>, applied to what the erased cell held: the read
  faults (\<open>dangling\<close>), or it yields some key, which need not be the one the cell held. No
  theorem of the development assumes anything of \<open>stale\<close>.
\<close>

abbreviation dangling :: "'p \<Rightarrow> 'k res" where
  "dangling \<equiv> \<lambda>_. Inl UseAfterFree"

definition evict_back ::
  "('k \<times> 'v \<Rightarrow> 'k res) \<Rightarrow> ('k, 'v) LRUCache \<Rightarrow> ('k, 'v) LRUCache res" where
  "evict_back stale c =
     (if lru c = [] then Inl OutOfBounds
      else let (it, p) = last (lru c) in
        bindE (cell_erase (lru c) it) (\<lambda>l.
        bindE (stale p) (\<lambda>k.
        Inr (c\<lparr>lru := l, cache := umap_erase (fst p) (cache c),
               delete_keys := delete_keys c @ [k]\<rparr>))))"

definition lru_put ::
  "('k \<times> 'v \<Rightarrow> 'k res) \<Rightarrow> 'k \<Rightarrow> 'v \<Rightarrow> ('k, 'v) LRUCache \<Rightarrow> ('k, 'v) LRUCache res" where
  "lru_put stale key value c =
     (case umap_find (cache c) key of
        Some it \<Rightarrow>
          bindE (cell_read (lru c) it) (\<lambda>p.
          bindE (cell_write (lru c) it (fst p, value)) (\<lambda>l.
          bindE (cell_splice_front l it) (\<lambda>l'.
          Inr (c\<lparr>lru := l'\<rparr>))))
      | None \<Rightarrow>
          bindE (if capacity c > 0 \<and> int (length (cache c)) = capacity c
                 then evict_back stale c else Inr c) (\<lambda>c'.
          Inr (c'\<lparr>lru := (next_cell c', (key, value)) # lru c',
                  cache := umap_insert key (next_cell c') (cache c'),
                  next_cell := Suc (next_cell c')\<rparr>)))"

definition lru_remove :: "'k \<Rightarrow> ('k, 'v) LRUCache \<Rightarrow> ('k, 'v) LRUCache res" where
  "lru_remove key c =
     (case umap_find (cache c) key of
        None \<Rightarrow> Inr c
      | Some it \<Rightarrow>
          bindE (cell_erase (lru c) it) (\<lambda>l.
          Inr (c\<lparr>lru := l, cache := umap_erase key (cache c)\<rparr>)))"

lemma cell_erase_length:
  "cell_erase l it = Inr l' \<Longrightarrow> length l' < length l"
  by (induction l arbitrary: l')
    (auto simp: cell_erase_def le_imp_less_Suc split: if_splits)

lemma evict_back_length:
  "evict_back stale c = Inr c' \<Longrightarrow> length (lru c') < length (lru c)"
  by (auto simp: evict_back_def Let_def split_def bindE_Inr_iff dest: cell_erase_length
      split: if_splits)

text \<open>The loop of \<^verbatim>\<open>set_capacity\<close>: each round erases one cell, so it ends.\<close>

function shrink ::
  "('k \<times> 'v \<Rightarrow> 'k res) \<Rightarrow> int \<Rightarrow> ('k, 'v) LRUCache \<Rightarrow> ('k, 'v) LRUCache res" where
  "shrink stale cap c =
     (if cap > 0 \<and> int (length (cache c)) > cap
      then bindE (evict_back stale c) (\<lambda>c'. shrink stale cap c')
      else Inr c)"
  by pat_completeness auto
termination
  by (relation "measure (\<lambda>(stale, cap, c). length (lru c))") (auto dest: evict_back_length)

declare shrink.simps [simp del]

definition set_capacity ::
  "('k \<times> 'v \<Rightarrow> 'k res) \<Rightarrow> int \<Rightarrow> ('k, 'v) LRUCache \<Rightarrow> (int \<times> ('k, 'v) LRUCache) res" where
  "set_capacity stale cap c =
     (if cap < 0 then Inr (-1, c)
      else bindE (shrink stale cap (c\<lparr>capacity := cap\<rparr>)) (\<lambda>c'. Inr (0, c')))"

section \<open>Reference behaviour on association lists\<close>

text \<open>The entries of a cache, most recently used first.\<close>

definition entries :: "('k, 'v) LRUCache \<Rightarrow> ('k \<times> 'v) list" where
  "entries c = map snd (lru c)"

definition touch :: "'k \<Rightarrow> ('k \<times> 'v) list \<Rightarrow> ('k \<times> 'v) list" where
  "touch k xs =
     (case map_of xs k of None \<Rightarrow> xs | Some v \<Rightarrow> (k, v) # filter (\<lambda>p. fst p \<noteq> k) xs)"

definition is_full :: "int \<Rightarrow> 'a list \<Rightarrow> bool" where
  "is_full cap xs \<longleftrightarrow> cap > 0 \<and> int (length xs) = cap"

definition store :: "int \<Rightarrow> 'k \<Rightarrow> 'v \<Rightarrow> ('k \<times> 'v) list \<Rightarrow> ('k \<times> 'v) list" where
  "store cap k v xs =
     (k, v) # (if k \<in> fst ` set xs then filter (\<lambda>p. fst p \<noteq> k) xs
               else if is_full cap xs then butlast xs else xs)"

definition victims :: "int \<Rightarrow> 'k \<Rightarrow> ('k \<times> 'v) list \<Rightarrow> ('k \<times> 'v) list" where
  "victims cap k xs =
     (if k \<notin> fst ` set xs \<and> is_full cap xs then [last xs] else [])"

definition trim :: "int \<Rightarrow> 'a list \<Rightarrow> 'a list" where
  "trim cap xs = (if cap > 0 then take (nat cap) xs else xs)"

definition trimmed :: "int \<Rightarrow> 'a list \<Rightarrow> 'a list" where
  "trimmed cap xs = (if cap > 0 then drop (nat cap) xs else [])"

text \<open>The reads of several erased cells, one after the other.\<close>

fun read_all :: "('p \<Rightarrow> 'k res) \<Rightarrow> 'p list \<Rightarrow> 'k list res" where
  "read_all stale [] = Inr []"
| "read_all stale (p # ps) =
     bindE (stale p) (\<lambda>k. bindE (read_all stale ps) (\<lambda>ks. Inr (k # ks)))"

lemma read_all_append:
  "read_all stale (ps @ qs) =
     bindE (read_all stale ps) (\<lambda>ks. bindE (read_all stale qs) (\<lambda>ls. Inr (ks @ ls)))"
  by (induction ps) (auto simp: bindE_assoc)

lemma read_all_defined: "read_all (\<lambda>p. Inr (f p)) ps = Inr (map f ps)"
  by (induction ps) auto

section \<open>Well-formed caches\<close>

text \<open>
  The index and the list describe the same cells: identities and keys are distinct, every
  index entry points at the cell of its key and every cell is indexed.
\<close>

definition lru_wf :: "('k, 'v) LRUCache \<Rightarrow> bool" where
  "lru_wf c \<longleftrightarrow>
     distinct (map fst (lru c)) \<and> (\<forall>x \<in> set (lru c). fst x < next_cell c) \<and>
     distinct (map (\<lambda>x. fst (snd x)) (lru c)) \<and> umap_ok (cache c) \<and>
     (\<forall>k it. umap_find (cache c) k = Some it \<longleftrightarrow> (\<exists>v. (it, k, v) \<in> set (lru c)))"

definition lru_inv :: "('k, 'v) LRUCache \<Rightarrow> bool" where
  "lru_inv c \<longleftrightarrow>
     lru_wf c \<and> 0 \<le> capacity c \<and> (0 < capacity c \<longrightarrow> int (length (lru c)) \<le> capacity c)"

lemma lru_wf_find_iff:
  "lru_wf c \<Longrightarrow> umap_find (cache c) k = Some it \<longleftrightarrow> (\<exists>v. (it, k, v) \<in> set (lru c))"
  by (simp add: lru_wf_def)

lemma lru_wf_find_None:
  assumes "lru_wf c"
  shows "umap_find (cache c) k = None \<longleftrightarrow> k \<notin> fst ` set (entries c)"
proof -
  have "umap_find (cache c) k \<noteq> None \<longleftrightarrow> (\<exists>it v. (it, k, v) \<in> set (lru c))"
    using lru_wf_find_iff [OF assms, of k] by auto
  also have "\<dots> \<longleftrightarrow> k \<in> fst ` set (entries c)"
    by (force simp: entries_def)
  finally show ?thesis by (cases "umap_find (cache c) k") auto
qed

lemma lru_wf_keys_distinct: "lru_wf c \<Longrightarrow> distinct (map fst (entries c))"
  by (simp add: lru_wf_def entries_def comp_def)

lemma lru_wf_cell:
  assumes "lru_wf c" and "(it, k, v) \<in> set (lru c)"
  shows "map_of (lru c) it = Some (k, v)" and "map_of (entries c) k = Some v"
  using assms lru_wf_keys_distinct [OF assms(1)]
  by (force simp: lru_wf_def entries_def map_of_eq_Some_iff)+

lemma lru_wf_same_cell:
  assumes "lru_wf c" and "(it, k, v) \<in> set (lru c)" and "x \<in> set (lru c)"
  shows "fst x = it \<longleftrightarrow> fst (snd x) = k"
proof -
  have i1: "inj_on fst (set (lru c))" and i2: "inj_on (\<lambda>x. fst (snd x)) (set (lru c))"
    using assms(1) by (auto simp: lru_wf_def distinct_map)
  from inj_on_eq_iff [OF i1 assms(3,2)] inj_on_eq_iff [OF i2 assms(3,2)] show ?thesis
    by simp
qed

lemma lru_wf_filter:
  assumes "lru_wf c" and "(it, k, v) \<in> set (lru c)"
  shows "map snd (filter (\<lambda>x. fst x \<noteq> it) (lru c)) = filter (\<lambda>p. fst p \<noteq> k) (entries c)"
proof -
  have "filter (\<lambda>x. fst x \<noteq> it) (lru c) = filter (\<lambda>x. fst (snd x) \<noteq> k) (lru c)"
    using lru_wf_same_cell [OF assms] by (intro filter_cong) auto
  then show ?thesis by (simp add: entries_def filter_map comp_def)
qed

lemma lru_wf_size: "lru_wf c \<Longrightarrow> length (cache c) = length (lru c)"
  using umap_size_eq [of "cache c" "map fst (entries c)"] lru_wf_keys_distinct [of c]
    lru_wf_find_None [of c]
  by (auto simp: lru_wf_def entries_def)

lemma lru_wf_capacity [simp]: "lru_wf (c\<lparr>capacity := n\<rparr>) = lru_wf c"
  by (simp add: lru_wf_def)

lemma entries_capacity [simp]: "entries (c\<lparr>capacity := n\<rparr>) = entries c"
  by (simp add: entries_def)

lemma length_entries: "length (entries c) = length (lru c)"
  by (simp add: entries_def)

lemma lru_new_inv [simp]: "0 \<le> cap \<Longrightarrow> lru_inv (LRUCache_new cap)"
  by (simp add: lru_inv_def lru_wf_def LRUCache_new_def)

lemma lru_new_entries [simp]: "entries (LRUCache_new cap) = []"
  by (simp add: LRUCache_new_def entries_def)

text \<open>Moving a cell to the front keeps the cache well formed.\<close>

lemma lru_wf_front:
  assumes "lru_wf c" and "(it, k, v) \<in> set (lru c)"
  shows "lru_wf (c\<lparr>lru := (it, k, w) # filter (\<lambda>x. fst x \<noteq> it) (lru c)\<rparr>)"
proof -
  let ?l = "filter (\<lambda>x. fst x \<noteq> it) (lru c)"
  have k: "k \<notin> (\<lambda>x. fst (snd x)) ` set ?l"
    using lru_wf_same_cell [OF assms] by auto
  have "umap_find (cache c) k' = Some it' \<longleftrightarrow> (\<exists>v'. (it', k', v') \<in> set ((it, k, w) # ?l))" for k' it'
    using lru_wf_find_iff [OF assms(1), of k' it'] lru_wf_same_cell [OF assms] assms(2)
    by fastforce
  with assms k show ?thesis
    by (auto simp: lru_wf_def distinct_map_filter)
qed

lemma lru_wf_erase:
  assumes "lru_wf c" and "(it, k, v) \<in> set (lru c)"
  shows "lru_wf (c\<lparr>lru := filter (\<lambda>x. fst x \<noteq> it) (lru c), cache := umap_erase k (cache c)\<rparr>)"
proof -
  have "umap_find (umap_erase k (cache c)) k' = Some it' \<longleftrightarrow>
      (\<exists>v'. (it', k', v') \<in> set (filter (\<lambda>x. fst x \<noteq> it) (lru c)))" for k' it'
  proof -
    have "it' = it \<longleftrightarrow> k' = k" if "(it', k', v') \<in> set (lru c)" for v'
      using lru_wf_same_cell [OF assms that] by simp
    then show ?thesis
      using lru_wf_find_iff [OF assms(1), of k' it'] by auto
  qed
  with assms show ?thesis
    by (auto simp: lru_wf_def distinct_map_filter)
qed

lemma lru_wf_delete_keys [simp]: "lru_wf (c\<lparr>delete_keys := ks\<rparr>) = lru_wf c"
  by (simp add: lru_wf_def)

lemma lru_wf_push:
  assumes "lru_wf c" and "k \<notin> fst ` set (entries c)"
  shows "lru_wf (c\<lparr>lru := (next_cell c, k, v) # lru c,
    cache := umap_insert k (next_cell c) (cache c), next_cell := Suc (next_cell c)\<rparr>)"
proof -
  have none: "umap_find (cache c) k = None"
    using assms by (simp add: lru_wf_find_None)
  have fresh: "next_cell c \<notin> fst ` set (lru c)"
    using assms(1) by (force simp: lru_wf_def)
  have key: "k \<notin> (\<lambda>x. fst (snd x)) ` set (lru c)"
    using assms(2) by (force simp: entries_def)
  have "umap_find (umap_insert k (next_cell c) (cache c)) k' = Some it' \<longleftrightarrow>
      (\<exists>v'. (it', k', v') \<in> set ((next_cell c, k, v) # lru c))" for k' it'
  proof (cases "k' = k")
    case True
    then have "\<not> (\<exists>v'. (it', k', v') \<in> set (lru c))" using key by force
    with True none show ?thesis by auto
  next
    case False
    then show ?thesis using lru_wf_find_iff [OF assms(1), of k' it'] by simp
  qed
  moreover have "\<forall>x \<in> set (lru c). fst x < Suc (next_cell c)"
    using assms(1) by (auto simp: lru_wf_def less_Suc_eq)
  ultimately show ?thesis
    using assms(1) fresh key unfolding lru_wf_def by simp
qed

section \<open>The operations refine their reference\<close>

lemma lru_get_spec:
  assumes "lru_inv c"
  shows "\<exists>c'. lru_get k c = Inr (case map_of (entries c) k of None \<Rightarrow> -1 | Some v \<Rightarrow> v, c') \<and>
    lru_inv c' \<and> entries c' = touch k (entries c) \<and> delete_keys c' = delete_keys c \<and>
    capacity c' = capacity c"
proof (cases "umap_find (cache c) k")
  case None
  then have "map_of (entries c) k = None"
    using assms lru_wf_find_None [of c k] by (simp add: lru_inv_def map_of_eq_None_iff)
  with None assms show ?thesis
    by (simp add: lru_get_def touch_def)
next
  case (Some it)
  have wf: "lru_wf c" using assms by (simp add: lru_inv_def)
  with Some obtain v where v: "(it, k, v) \<in> set (lru c)"
    by (auto simp: lru_wf_find_iff)
  let ?l = "(it, k, v) # filter (\<lambda>x. fst x \<noteq> it) (lru c)"
  note m = lru_wf_cell [OF wf v]
  have "lru_get k c = Inr (v, c\<lparr>lru := ?l\<rparr>)"
    by (simp add: lru_get_def Some cell_splice_front_def cell_read_def m)
  moreover have "lru_inv (c\<lparr>lru := ?l\<rparr>)"
    using assms lru_wf_front [OF wf v, of v] cell_erase_length [of "lru c" it]
    by (auto simp: lru_inv_def cell_erase_def m)
  moreover have "entries (c\<lparr>lru := ?l\<rparr>) = touch k (entries c)"
    using lru_wf_filter [OF wf v] by (simp add: touch_def m(2)) (simp add: entries_def)
  ultimately show ?thesis by (simp add: m)
qed

lemma lru_remove_spec:
  assumes "lru_inv c"
  shows "\<exists>c'. lru_remove k c = Inr c' \<and> lru_inv c' \<and>
    entries c' = filter (\<lambda>p. fst p \<noteq> k) (entries c) \<and> delete_keys c' = delete_keys c \<and>
    capacity c' = capacity c"
proof (cases "umap_find (cache c) k")
  case None
  then have "k \<notin> fst ` set (entries c)"
    using assms lru_wf_find_None [of c k] by (simp add: lru_inv_def)
  then have "filter (\<lambda>p. fst p \<noteq> k) (entries c) = entries c"
    by (intro filter_True) auto
  with None assms show ?thesis
    by (simp add: lru_remove_def)
next
  case (Some it)
  have wf: "lru_wf c" using assms by (simp add: lru_inv_def)
  with Some obtain v where v: "(it, k, v) \<in> set (lru c)"
    by (auto simp: lru_wf_find_iff)
  note m = lru_wf_cell [OF wf v]
  let ?c = "c\<lparr>lru := filter (\<lambda>x. fst x \<noteq> it) (lru c), cache := umap_erase k (cache c)\<rparr>"
  have "lru_remove k c = Inr ?c"
    by (simp add: lru_remove_def Some cell_erase_def m)
  moreover have "lru_inv ?c"
    using assms lru_wf_erase [OF wf v] cell_erase_length [of "lru c" it]
    by (auto simp: lru_inv_def cell_erase_def m)
  moreover have "entries ?c = filter (\<lambda>p. fst p \<noteq> k) (entries c)"
    using lru_wf_filter [OF wf v] by (simp add: entries_def)
  ultimately show ?thesis by simp
qed

lemma evict_back_spec:
  assumes "lru_wf c" and "lru c \<noteq> []"
  shows "case stale (last (entries c)) of Inl e \<Rightarrow> evict_back stale c = Inl e
    | Inr k \<Rightarrow> \<exists>c'. evict_back stale c = Inr c' \<and> lru_wf c' \<and> entries c' = butlast (entries c) \<and>
        delete_keys c' = delete_keys c @ [k] \<and> capacity c' = capacity c"
proof -
  obtain it k v where last: "last (lru c) = (it, k, v)"
    by (metis prod_cases3)
  then have mem: "(it, k, v) \<in> set (lru c)"
    using assms(2) last_in_set by fastforce
  have d: "distinct (map fst (lru c))" using assms(1) by (simp add: lru_wf_def)
  have b: "filter (\<lambda>x. fst x \<noteq> it) (lru c) = butlast (lru c)"
    using filter_neq_last [OF d assms(2)] last by simp
  have kv: "last (entries c) = (k, v)"
    using assms(2) last by (simp add: entries_def last_map)
  have e: "evict_back stale c = bindE (stale (k, v)) (\<lambda>k'. Inr (c\<lparr>lru := butlast (lru c),
      cache := umap_erase k (cache c), delete_keys := delete_keys c @ [k']\<rparr>))"
    using assms(2) lru_wf_cell [OF assms(1) mem] b by (simp add: evict_back_def last cell_erase_def)
  show ?thesis
  proof (cases "stale (k, v)")
    case (Inr k')
    let ?c = "c\<lparr>lru := butlast (lru c), cache := umap_erase k (cache c),
      delete_keys := delete_keys c @ [k']\<rparr>"
    have "lru_wf ?c"
      using lru_wf_erase [OF assms(1) mem] b by simp
    moreover have "entries ?c = butlast (entries c)"
      by (simp add: entries_def map_butlast)
    ultimately show ?thesis using e kv Inr by simp
  qed (use e kv in simp)
qed

lemma shrink_spec:
  assumes "lru_wf c"
  shows "case read_all stale (rev (trimmed cap (entries c))) of Inl e \<Rightarrow> shrink stale cap c = Inl e
    | Inr ks \<Rightarrow> \<exists>c'. shrink stale cap c = Inr c' \<and> lru_wf c' \<and> entries c' = trim cap (entries c) \<and>
        delete_keys c' = delete_keys c @ ks \<and> capacity c' = capacity c"
  using assms
proof (induction stale cap c rule: shrink.induct)
  case (1 stale cap c)
  have len: "length (entries c) = length (cache c)"
    using lru_wf_size [OF "1.prems"] by (simp add: length_entries)
  show ?case
  proof (cases "cap > 0 \<and> int (length (cache c)) > cap")
    case True
    then have ne: "lru c \<noteq> []" using len by (auto simp: entries_def)
    have n: "nat cap < length (entries c)" using True len by linarith
    have t: "trim cap (butlast (entries c)) = trim cap (entries c)"
      using n True by (simp add: trim_def take_butlast)
    have r: "rev (trimmed cap (entries c)) =
        last (entries c) # rev (trimmed cap (butlast (entries c)))"
      using n True
      by (simp add: trimmed_def drop_butlast flip: rev.simps(2))
        (metis append_butlast_last_id drop_eq_Nil last_drop leD rev_append rev_singleton_conv
          append_Cons append_Nil rev_rev_ident)
    show ?thesis
    proof (cases "stale (last (entries c))")
      case (Inl e)
      with evict_back_spec [OF "1.prems" ne, of stale] True r show ?thesis
        by (simp add: shrink.simps [of stale cap c])
    next
      case (Inr k)
      with evict_back_spec [OF "1.prems" ne, of stale] obtain c1 where
        c1: "evict_back stale c = Inr c1" "lru_wf c1" "entries c1 = butlast (entries c)"
          "delete_keys c1 = delete_keys c @ [k]" "capacity c1 = capacity c"
        by auto
      have "shrink stale cap c = shrink stale cap c1"
        using True c1(1) by (simp add: shrink.simps [of stale cap c])
      with "1.IH" [OF True c1(1,2)] c1 r t Inr show ?thesis
        by (cases "read_all stale (rev (trimmed cap (butlast (entries c))))") auto
    qed
  next
    case False
    then have "trim cap (entries c) = entries c" and "trimmed cap (entries c) = []"
      using len by (auto simp: trim_def trimmed_def)
    with False "1.prems" show ?thesis by (auto simp: shrink.simps [of stale cap c])
  qed
qed

lemma length_trim: "0 < cap \<Longrightarrow> int (length (trim cap xs)) \<le> cap"
  by (simp add: trim_def)

lemma set_capacity_spec:
  assumes "lru_inv c" and "0 \<le> cap" and "read_all stale (rev (trimmed cap (entries c))) = Inr ks"
  shows "\<exists>c'. set_capacity stale cap c = Inr (0, c') \<and> lru_inv c' \<and>
    entries c' = trim cap (entries c) \<and> capacity c' = cap \<and> delete_keys c' = delete_keys c @ ks"
proof -
  have "lru_wf (c\<lparr>capacity := cap\<rparr>)" using assms by (simp add: lru_inv_def)
  from shrink_spec [OF this, of stale cap] assms(3) obtain c' where
    c': "shrink stale cap (c\<lparr>capacity := cap\<rparr>) = Inr c'" "lru_wf c'"
      "entries c' = trim cap (entries c)" "capacity c' = cap" "delete_keys c' = delete_keys c @ ks"
    by auto
  moreover have "0 < cap \<Longrightarrow> int (length (lru c')) \<le> cap"
    using length_trim [of cap "entries c"] c'(3) by (simp flip: length_entries)
  ultimately show ?thesis
    using assms(2) by (simp add: set_capacity_def lru_inv_def)
qed

lemma set_capacity_fault:
  assumes "lru_inv c" and "0 \<le> cap" and "read_all stale (rev (trimmed cap (entries c))) = Inl e"
  shows "set_capacity stale cap c = Inl e"
  using shrink_spec [of "c\<lparr>capacity := cap\<rparr>" stale cap] assms
  by (simp add: set_capacity_def lru_inv_def)

lemma lru_put_hit_spec:
  assumes "lru_inv c" and "k \<in> fst ` set (entries c)"
  shows "\<exists>c'. lru_put stale k v c = Inr c' \<and> lru_inv c' \<and>
    entries c' = (k, v) # filter (\<lambda>p. fst p \<noteq> k) (entries c) \<and>
    delete_keys c' = delete_keys c \<and> capacity c' = capacity c"
proof -
  have wf: "lru_wf c" using assms by (simp add: lru_inv_def)
  with assms(2) obtain it w where f: "umap_find (cache c) k = Some it"
      and w: "(it, k, w) \<in> set (lru c)"
    using lru_wf_find_None [of c k] lru_wf_find_iff [of c k] by fastforce
  note m = lru_wf_cell [OF wf w]
  let ?l = "(it, k, v) # filter (\<lambda>x. fst x \<noteq> it) (lru c)"
  have "lru_put stale k v c = Inr (c\<lparr>lru := ?l\<rparr>)"
    by (simp add: lru_put_def f cell_read_def cell_write_def cell_splice_front_def m
        map_of_cell_upd filter_cell_upd)
  moreover have "lru_inv (c\<lparr>lru := ?l\<rparr>)"
    using assms lru_wf_front [OF wf w, of v] cell_erase_length [of "lru c" it]
    by (auto simp: lru_inv_def cell_erase_def m)
  moreover have "entries (c\<lparr>lru := ?l\<rparr>) = (k, v) # filter (\<lambda>p. fst p \<noteq> k) (entries c)"
    using lru_wf_filter [OF wf w] by (simp add: entries_def)
  ultimately show ?thesis by simp
qed

lemma lru_put_miss_spec:
  assumes "lru_inv c" and "k \<notin> fst ` set (entries c)"
    and "read_all stale (victims (capacity c) k (entries c)) = Inr ks"
  shows "\<exists>c'. lru_put stale k v c = Inr c' \<and> lru_inv c' \<and>
    entries c' = (k, v) # (if is_full (capacity c) (entries c) then butlast (entries c) else entries c) \<and>
    delete_keys c' = delete_keys c @ ks \<and> capacity c' = capacity c"
proof -
  have wf: "lru_wf c" using assms by (simp add: lru_inv_def)
  have none: "umap_find (cache c) k = None" using lru_wf_find_None [OF wf] assms(2) by simp
  let ?full = "capacity c > 0 \<and> int (length (cache c)) = capacity c"
  have full: "?full \<longleftrightarrow> is_full (capacity c) (entries c)"
    using lru_wf_size [OF wf] by (simp add: is_full_def length_entries)
  have "\<exists>c1. (if ?full then evict_back stale c else Inr c) = Inr c1 \<and> lru_wf c1 \<and>
      entries c1 = (if ?full then butlast (entries c) else entries c) \<and>
      delete_keys c1 = delete_keys c @ ks \<and> capacity c1 = capacity c"
  proof (cases ?full)
    case True
    then have "lru c \<noteq> []" using lru_wf_size [OF wf] by auto
    from evict_back_spec [OF wf this, of stale] show ?thesis
      using True full assms(2,3)
      by (cases "stale (last (entries c))") (auto simp: victims_def)
  next
    case False
    with wf full assms(3) show ?thesis by (auto simp: victims_def)
  qed
  then obtain c1 where c1: "(if ?full then evict_back stale c else Inr c) = Inr c1" "lru_wf c1"
      "entries c1 = (if ?full then butlast (entries c) else entries c)"
      "delete_keys c1 = delete_keys c @ ks" "capacity c1 = capacity c"
    by blast
  let ?c = "c1\<lparr>lru := (next_cell c1, k, v) # lru c1,
    cache := umap_insert k (next_cell c1) (cache c1), next_cell := Suc (next_cell c1)\<rparr>"
  have "k \<notin> fst ` set (entries c1)"
    using assms(2) c1(3) by (auto dest: in_set_butlastD split: if_splits)
  then have "lru_wf ?c" by (rule lru_wf_push [OF c1(2)])
  moreover have "0 < capacity c \<Longrightarrow> int (length (lru ?c)) \<le> capacity c"
    using c1(3) assms(1) lru_wf_size [OF wf] length_entries [of c1] length_entries [of c]
    by (auto simp: lru_inv_def split: if_splits)
  moreover have "lru_put stale k v c = Inr ?c"
    using c1(1) by (simp add: lru_put_def none)
  moreover have "entries ?c = (k, v) # entries c1" by (simp add: entries_def)
  ultimately show ?thesis
    using c1 full assms(1) by (auto simp: lru_inv_def)
qed

lemma lru_put_spec:
  assumes "lru_inv c" and "read_all stale (victims (capacity c) k (entries c)) = Inr ks"
  shows "\<exists>c'. lru_put stale k v c = Inr c' \<and> lru_inv c' \<and>
    entries c' = store (capacity c) k v (entries c) \<and>
    delete_keys c' = delete_keys c @ ks \<and> capacity c' = capacity c"
  using lru_put_hit_spec [OF assms(1)] lru_put_miss_spec [OF assms(1) _ assms(2)] assms(2)
  by (cases "k \<in> fst ` set (entries c)") (auto simp: store_def victims_def)

lemma lru_put_fault:
  assumes "lru_inv c" and "read_all stale (victims (capacity c) k (entries c)) = Inl e"
  shows "lru_put stale k v c = Inl e"
proof -
  have wf: "lru_wf c" using assms by (simp add: lru_inv_def)
  have k: "k \<notin> fst ` set (entries c)" and full: "is_full (capacity c) (entries c)"
    and st: "stale (last (entries c)) = Inl e"
    using assms(2) by (auto simp: victims_def bindE_Inl_iff split: if_splits)
  have "umap_find (cache c) k = None" using lru_wf_find_None [OF wf] k by simp
  moreover have "lru c \<noteq> []" "capacity c > 0 \<and> int (length (cache c)) = capacity c"
    using full lru_wf_size [OF wf] by (auto simp: is_full_def entries_def)
  ultimately show ?thesis
    using evict_back_spec [OF wf, of stale] st by (simp add: lru_put_def)
qed

section \<open>The interface the skip list uses\<close>

text \<open>
  A cache ordered by recency: \<open>ents\<close> are its entries, most recent first, \<open>pending\<close> the
  keys evicted so far that nobody has deleted yet, \<open>cap\<close> its bound, and \<open>stale\<close> what a read
  of an evicted entry does.
\<close>

locale recency_cache =
  fixes stale :: "'k \<times> int \<Rightarrow> 'k res"
    and inv :: "'c \<Rightarrow> bool"
    and ents :: "'c \<Rightarrow> ('k \<times> int) list"
    and pending :: "'c \<Rightarrow> 'k list"
    and cap :: "'c \<Rightarrow> int"
    and get :: "'k \<Rightarrow> 'c \<Rightarrow> (int \<times> 'c) res"
    and put :: "'k \<Rightarrow> int \<Rightarrow> 'c \<Rightarrow> 'c res"
    and rem :: "'k \<Rightarrow> 'c \<Rightarrow> 'c res"
    and set_cap :: "int \<Rightarrow> 'c \<Rightarrow> (int \<times> 'c) res"
  assumes keys_distinct: "inv c \<Longrightarrow> distinct (map fst (ents c))"
    and cap_nonneg: "inv c \<Longrightarrow> 0 \<le> cap c"
    and bounded: "inv c \<Longrightarrow> 0 < cap c \<Longrightarrow> int (length (ents c)) \<le> cap c"
    and get_law: "inv c \<Longrightarrow>
      \<exists>c'. get k c = Inr (case map_of (ents c) k of None \<Rightarrow> -1 | Some v \<Rightarrow> v, c') \<and> inv c' \<and>
        ents c' = touch k (ents c) \<and> pending c' = pending c \<and> cap c' = cap c"
    and put_law: "inv c \<Longrightarrow> read_all stale (victims (cap c) k (ents c)) = Inr ks \<Longrightarrow>
      \<exists>c'. put k v c = Inr c' \<and> inv c' \<and> ents c' = store (cap c) k v (ents c) \<and>
        pending c' = pending c @ ks \<and> cap c' = cap c"
    and put_fault: "inv c \<Longrightarrow> read_all stale (victims (cap c) k (ents c)) = Inl e \<Longrightarrow>
      put k v c = Inl e"
    and rem_law: "inv c \<Longrightarrow>
      \<exists>c'. rem k c = Inr c' \<and> inv c' \<and> ents c' = filter (\<lambda>p. fst p \<noteq> k) (ents c) \<and>
        pending c' = pending c \<and> cap c' = cap c"
    and set_cap_law: "inv c \<Longrightarrow> 0 \<le> n \<Longrightarrow> read_all stale (rev (trimmed n (ents c))) = Inr ks \<Longrightarrow>
      \<exists>c'. set_cap n c = Inr (0, c') \<and> inv c' \<and> ents c' = trim n (ents c) \<and> cap c' = n \<and>
        pending c' = pending c @ ks"
    and set_cap_fault: "inv c \<Longrightarrow> 0 \<le> n \<Longrightarrow> read_all stale (rev (trimmed n (ents c))) = Inl e \<Longrightarrow>
      set_cap n c = Inl e"
begin

lemma touch_keys: "fst ` set (touch k xs) = fst ` set xs"
  by (auto simp: touch_def map_of_eq_None_iff image_iff dest: map_of_SomeD split: option.splits)
    (metis fst_conv map_of_SomeD)+

text \<open>Whatever the reads did, a call that returned left the entries of the reference.\<close>

lemma put_returned:
  assumes "inv c" and "put k v c = Inr c'"
  shows "inv c' \<and> ents c' = store (cap c) k v (ents c) \<and> cap c' = cap c"
  using put_law [OF assms(1), of k _ v] put_fault [OF assms(1), of k _ v] assms(2)
  by (cases "read_all stale (victims (cap c) k (ents c))") auto

lemma set_cap_returned:
  assumes "inv c" and "0 \<le> n" and "set_cap n c = Inr (r, c')"
  shows "r = 0 \<and> inv c' \<and> ents c' = trim n (ents c) \<and> cap c' = n"
  using set_cap_law [OF assms(1,2)] set_cap_fault [OF assms(1,2)] assms(3)
  by (cases "read_all stale (rev (trimmed n (ents c)))") auto

text \<open>Nothing is read while there is room, or no bound.\<close>

lemma put_with_room:
  assumes "inv c" and "\<not> is_full (cap c) (ents c)"
  shows "\<exists>c'. put k v c = Inr c' \<and> pending c' = pending c"
  using put_law [OF assms(1), of k "[]" v] assms(2) by (auto simp: victims_def)

lemma get_after_put:
  assumes "inv c" and "put k v c = Inr c'"
  shows "\<exists>c''. get k c' = Inr (v, c'')"
  using put_returned [OF assms] get_law [of c' k] by (auto simp: store_def)

text \<open>Recent entries survive: an entry moves back by at most one place per \<open>put\<close>.\<close>

lemma store_keeps:
  assumes "xs = us @ (k, v) # vs" and "k' \<noteq> k" and "int (length us) + 1 < n \<or> n \<le> 0"
  shows "\<exists>us' vs'. store n k' v' xs = us' @ (k, v) # vs' \<and> length us' \<le> Suc (length us)"
proof (cases "k' \<in> fst ` set xs")
  case True
  then show ?thesis using assms
    by (intro exI [of _ "(k', v') # filter (\<lambda>p. fst p \<noteq> k') us"]
        exI [of _ "filter (\<lambda>p. fst p \<noteq> k') vs"]) (auto simp: store_def)
next
  case False
  show ?thesis
  proof (cases "is_full n xs")
    case True
    then have "vs \<noteq> []" using assms(1,3) by (auto simp: is_full_def)
    with False True assms(1) show ?thesis
      by (intro exI [of _ "(k', v') # us"] exI [of _ "butlast vs"])
        (auto simp: store_def butlast_append)
  next
    case notfull: False
    with False assms(1) show ?thesis
      by (intro exI [of _ "(k', v') # us"] exI [of _ vs]) (auto simp: store_def)
  qed
qed

lemma puts_keep_recent:
  assumes "inv c" and "ents c = us @ (k, v) # vs" and "k \<notin> fst ` set kvs"
    and "int (length us + length kvs) < cap c \<or> cap c = 0"
    and "foldE (\<lambda>p. put (fst p) (snd p)) kvs c = Inr c'"
  shows "inv c' \<and> map_of (ents c') k = Some v"
  using assms
proof (induction kvs arbitrary: c us vs)
  case Nil
  have "map_of (ents c) k = Some v"
    by (rule map_of_is_SomeI) (use keys_distinct [OF Nil.prems(1)] Nil.prems(2) in auto)
  with Nil.prems(1,5) show ?case by simp
next
  case (Cons p kvs)
  from Cons.prems(5) obtain c1 where p: "put (fst p) (snd p) c = Inr c1"
      and rest: "foldE (\<lambda>p. put (fst p) (snd p)) kvs c1 = Inr c'"
    by (auto simp: bindE_Inr_iff)
  note c1 = put_returned [OF Cons.prems(1) p]
  obtain us1 vs1 where "ents c1 = us1 @ (k, v) # vs1" "length us1 \<le> Suc (length us)"
    using store_keeps [OF Cons.prems(2), of "fst p" "cap c" "snd p"] Cons.prems(3,4) c1
    by fastforce
  with Cons.IH [of c1 us1 vs1] Cons.prems(3,4) c1 rest show ?case by fastforce
qed

end

interpretation lc: recency_cache stale lru_inv entries delete_keys capacity lru_get "lru_put stale"
  lru_remove "set_capacity stale" for stale :: "'k \<times> int \<Rightarrow> 'k res"
proof
  fix c :: "('k, int) LRUCache"
  assume i: "lru_inv c"
  then show "distinct (map fst (entries c))"
    by (simp add: lru_inv_def lru_wf_keys_distinct)
  from i show "0 \<le> capacity c" by (simp add: lru_inv_def)
  from i show "0 < capacity c \<Longrightarrow> int (length (entries c)) \<le> capacity c"
    by (simp add: lru_inv_def length_entries)
qed (rule lru_get_spec lru_put_spec lru_put_fault lru_remove_spec set_capacity_spec set_capacity_fault;
  assumption)+

end
