(* ===== verification/Skip_List.thy ===== *)
theory Skip_List
  imports Skip_Node Lru
begin

text \<open>
  The operations of \<^verbatim>\<open>class SkipList\<close> (\<^verbatim>\<open>skiplist.h\<close>) for the instance the server uses
  (scores are \<^verbatim>\<open>int\<close>; the key type is any linear order, \<^verbatim>\<open>std::string\<close> in the server).
  Every operation is one transition of the whole list object: \<^verbatim>\<open>InsertElement\<close> and
  \<^verbatim>\<open>DeleteElement\<close> hold the global mutex from their first to their last statement.
  Diagnostics on the console are left out; what \<^verbatim>\<open>DisplayList\<close>, \<^verbatim>\<open>DumpFile\<close> and
  \<^verbatim>\<open>Save\<close> print is in \<open>Skip_List_File\<close>.
\<close>

section \<open>The list object\<close>

record 'k SkipList =
  sl_header :: addr
  sl_tail :: "addr option"
  sl_length :: u32
  sl_level :: nat
  sl_max_level :: nat
  sl_max_capacity :: int
  sl_node_map :: "('k, addr) umap"
  sl_lru_cache :: "('k, int) LRUCache"
  sl_heap :: "'k heap"
  sl_next_addr :: addr

text \<open>
  The constructor. \<open>k0\<close> is the default key that the header gets, \<open>g\<close> the indeterminate
  score it gets (the constructor passes an uninitialised \<^verbatim>\<open>double\<close>).
\<close>

definition SkipList_new ::
  "('k \<times> int \<Rightarrow> 'k res) \<Rightarrow> 'k \<Rightarrow> int \<Rightarrow> nat \<Rightarrow> int \<Rightarrow> 'k SkipList res" where
  "SkipList_new stale k0 g max_level max_capacity =
     bindE (set_capacity stale max_capacity (LRUCache_new 0)) (\<lambda>(_, c).
     Inr \<lparr>sl_header = 0, sl_tail = None, sl_length = 0, sl_level = 0,
          sl_max_level = max_level, sl_max_capacity = max_capacity,
          sl_node_map = [], sl_lru_cache = c,
          sl_heap = [0 \<mapsto> SkipListNode_new k0 g max_level], sl_next_addr = 1\<rparr>)"

text \<open>
  The destructor: walk from \<^verbatim>\<open>tail_\<close> over \<^verbatim>\<open>backward_\<close>, deleting each node, then delete
  the header. An address is never used twice, so a walk that visits more addresses than were
  ever allocated would go on forever; \<open>sl_next_addr\<close> rounds therefore decide it.
\<close>

fun destroy_walk :: "nat \<Rightarrow> 'k heap \<Rightarrow> addr option \<Rightarrow> 'k heap res" where
  "destroy_walk n h None = Inr h"
| "destroy_walk 0 h (Some a) = Inl Diverges"
| "destroy_walk (Suc n) h (Some a) =
     bindE (rd_node h a) (\<lambda>nd.
     bindE (delete_node h (Some a)) (\<lambda>h'.
     destroy_walk n h' (nd_backward nd)))"

definition SkipList_destroy :: "'k SkipList \<Rightarrow> 'k heap res" where
  "SkipList_destroy s =
     bindE (destroy_walk (sl_next_addr s) (sl_heap s) (sl_tail s)) (\<lambda>h.
     delete_node h (Some (sl_header s)))"

section \<open>Random levels\<close>

text \<open>
  \<open>GetRandomLevel\<close> on the outputs \<open>rs\<close> that \<^verbatim>\<open>random()\<close> is going to give; the outputs that
  remain are returned. \<^verbatim>\<open>SKIPLIST_P * 0xFFFF\<close> is the real number 32767.5, so the integer
  \<^verbatim>\<open>random() & 0xFFFF\<close> is below it exactly when it is at most 32767.
\<close>

fun count_level :: "nat \<Rightarrow> nat list \<Rightarrow> (nat \<times> nat list) res" where
  "count_level level [] = Inl Diverges"
| "count_level level (r # rs) =
     (if r mod 65536 \<le> 32767 then count_level (level + 1) rs else Inr (level, rs))"

definition GetRandomLevel :: "nat \<Rightarrow> nat list \<Rightarrow> (nat \<times> nat list) res" where
  "GetRandomLevel max_level rs =
     bindE (count_level 1 rs) (\<lambda>(level, rs').
     Inr (if level < max_level then level else max_level, rs'))"

section \<open>Searching\<close>

text \<open>The order of the list: by score, then by key.\<close>

definition node_before :: "'k::linorder SkipListNode \<Rightarrow> int \<Rightarrow> 'k \<Rightarrow> bool" where
  "node_before n score ele \<longleftrightarrow>
     nd_score n < score \<or> (score = nd_score n \<and> nd_ele n < ele)"

text \<open>
  The inner loop of \<^verbatim>\<open>InsertElement\<close> on one level, and the loop over the levels. Again a
  walk longer than the number of addresses ever allocated is an infinite one.
\<close>

fun insert_walk ::
  "nat \<Rightarrow> 'k::linorder heap \<Rightarrow> nat \<Rightarrow> int \<Rightarrow> 'k \<Rightarrow> addr \<Rightarrow> u32 \<Rightarrow> (addr \<times> u32) res" where
  "insert_walk 0 h i score ele cur rnk = Inl Diverges"
| "insert_walk (Suc n) h i score ele cur rnk =
     bindE (rd_forward h cur i) (\<lambda>f.
     case f of
       None \<Rightarrow> Inr (cur, rnk)
     | Some b \<Rightarrow>
         bindE (rd_node h b) (\<lambda>nd.
         if node_before nd score ele
         then bindE (rd_span h cur i) (\<lambda>w. insert_walk n h i score ele b (rnk + w))
         else Inr (cur, rnk)))"

fun insert_search ::
  "nat \<Rightarrow> 'k::linorder heap \<Rightarrow> nat \<Rightarrow> int \<Rightarrow> 'k \<Rightarrow> addr \<Rightarrow> addr option list \<Rightarrow> u32 list \<Rightarrow>
   (addr \<times> addr option list \<times> u32 list) res" where
  "insert_search n h 0 score ele cur upd rnk = Inr (cur, upd, rnk)"
| "insert_search n h (Suc i) score ele cur upd rnk =
     bindE (insert_walk n h i score ele cur (rnk ! i)) (\<lambda>(c, w).
     insert_search n h i score ele c (upd[i := Some c]) (rnk[i := w]))"

text \<open>The search of \<^verbatim>\<open>DeleteElement\<close>: it also notes the highest level that holds the node.\<close>

fun delete_walk :: "nat \<Rightarrow> 'k::linorder heap \<Rightarrow> nat \<Rightarrow> int \<Rightarrow> 'k \<Rightarrow> addr \<Rightarrow> addr res" where
  "delete_walk 0 h i score ele cur = Inl Diverges"
| "delete_walk (Suc n) h i score ele cur =
     bindE (rd_forward h cur i) (\<lambda>f.
     case f of
       None \<Rightarrow> Inr cur
     | Some b \<Rightarrow>
         bindE (rd_node h b) (\<lambda>nd.
         if node_before nd score ele then delete_walk n h i score ele b else Inr cur))"

fun delete_search ::
  "nat \<Rightarrow> 'k::linorder heap \<Rightarrow> nat \<Rightarrow> nat \<Rightarrow> int \<Rightarrow> 'k \<Rightarrow> addr \<Rightarrow> addr option option \<Rightarrow> nat \<Rightarrow>
   addr option list \<Rightarrow> (addr option option \<times> nat \<times> addr option list) res" where
  "delete_search n h maxl 0 score ele cur node level upd = Inr (node, level, upd)"
| "delete_search n h maxl (Suc i) score ele cur node level upd =
     bindE (delete_walk n h i score ele cur) (\<lambda>c.
     bindE (rd_forward h c i) (\<lambda>f.
     bindE (case f of
              None \<Rightarrow> Inr level
            | Some b \<Rightarrow>
                bindE (rd_node h b) (\<lambda>nd.
                Inr (if nd_ele nd = ele \<and> nd_score nd = score \<and> level = maxl then i else level)))
       (\<lambda>level'.
        delete_search n h maxl i score ele c (Some f) level' (upd[i := Some c]))))"

section \<open>Linking and unlinking\<close>

text \<open>
  \<^verbatim>\<open>for(i = 0; i < level; ++i)\<close> of lines 210 to 214: \<open>todo\<close> is the number of rounds left.
  \<open>nxt\<close> is the local variable \<^verbatim>\<open>next\<close>, \<^const>\<open>None\<close> while it is unassigned.
\<close>

fun link_loop ::
  "'k heap \<Rightarrow> addr option list \<Rightarrow> addr \<Rightarrow> nat \<Rightarrow> nat \<Rightarrow> addr option option \<Rightarrow>
   ('k heap \<times> addr option option) res" where
  "link_loop h upd node i 0 nxt = Inr (h, nxt)"
| "link_loop h upd node i (Suc todo) nxt =
     bindE (rd_arr upd i) (\<lambda>u.
     bindE (deref u) (\<lambda>p.
     bindE (rd_forward h p i) (\<lambda>f.
     bindE (wr_forward h p i (Some node)) (\<lambda>h1.
     bindE (wr_forward h1 node i f) (\<lambda>h2.
     link_loop h2 upd node (Suc i) todo (Some f))))))"

text \<open>The loop of lines 230 to 233.\<close>

fun span_loop ::
  "'k heap \<Rightarrow> addr option list \<Rightarrow> u32 list \<Rightarrow> nat \<Rightarrow> nat \<Rightarrow> 'k heap res" where
  "span_loop h upd rnk i 0 = Inr h"
| "span_loop h upd rnk i (Suc todo) =
     bindE (rd_arr upd i) (\<lambda>u.
     bindE (deref u) (\<lambda>p.
     bindE (rd_forward h p i) (\<lambda>f.
     bindE (deref f) (\<lambda>q.
     bindE (rd_span h p i) (\<lambda>w.
     bindE (rd_arr rnk 0) (\<lambda>r0.
     bindE (rd_arr rnk i) (\<lambda>ri.
     bindE (wr_span h q i (w - (r0 - ri))) (\<lambda>h1.
     bindE (wr_span h1 p i (r0 - ri + 1)) (\<lambda>h2.
     span_loop h2 upd rnk (Suc i) todo)))))))))"

text \<open>The loop \<^verbatim>\<open>for(i = 0; i <= level; ++i)\<close> of lines 282 to 295 (and 348 to 361).\<close>

fun unlink_loop ::
  "'k heap \<Rightarrow> addr option \<Rightarrow> addr option list \<Rightarrow> addr \<Rightarrow> nat \<Rightarrow> nat \<Rightarrow>
   ('k heap \<times> addr option) res" where
  "unlink_loop h tail upd node i 0 = Inr (h, tail)"
| "unlink_loop h tail upd node i (Suc todo) =
     bindE (rd_forward h node i) (\<lambda>f.
     bindE (rd_arr upd i) (\<lambda>u.
     bindE (deref u) (\<lambda>p.
     case f of
       None \<Rightarrow>
         bindE (wr_span h p i 0) (\<lambda>h1.
         bindE (wr_forward h1 p i None) (\<lambda>h2.
         unlink_loop h2 (if i = 0 then u else tail) upd node (Suc i) todo))
     | Some b \<Rightarrow>
         bindE (rd_span h p i) (\<lambda>w.
         bindE (rd_span h node i) (\<lambda>wn.
         bindE (wr_span h p i (w + (wn - 1))) (\<lambda>h1.
         bindE (wr_forward h1 p i f) (\<lambda>h2.
         bindE (if i = 0 then wr_backward h2 b u else Inr h2) (\<lambda>h3.
         unlink_loop h3 tail upd node (Suc i) todo))))))))"

section \<open>Deletion\<close>

definition DeleteElementInLock :: "'k::linorder \<Rightarrow> 'k SkipList \<Rightarrow> (int \<times> 'k SkipList) res" where
  "DeleteElementInLock ele s =
     (case umap_find (sl_node_map s) ele of
        None \<Rightarrow> Inr (0, s)
      | Some a \<Rightarrow>
          bindE (rd_node (sl_heap s) a) (\<lambda>nd.
          bindE (delete_search (sl_next_addr s) (sl_heap s) (sl_max_level s) (sl_level s)
                   (nd_score nd) ele (sl_header s) None (sl_max_level s)
                   (replicate (sl_max_level s) None)) (\<lambda>(node, level, upd).
          case node of
            None \<Rightarrow> Inl Uninit
          | Some node' \<Rightarrow>
              bindE (deref node') (\<lambda>b.
              bindE (unlink_loop (sl_heap s) (sl_tail s) upd b 0 (level + 1)) (\<lambda>(h, tail).
              bindE (lru_remove ele (sl_lru_cache s)) (\<lambda>c.
              bindE (delete_node h (Some b)) (\<lambda>h'.
              Inr (1, s\<lparr>sl_tail := tail, sl_length := sl_length s - 1,
                         sl_node_map := umap_erase ele (sl_node_map s),
                         sl_lru_cache := c, sl_heap := h'\<rparr>))))))))"

text \<open>The same statements once more, between \<^verbatim>\<open>mtx.lock()\<close> and \<^verbatim>\<open>mtx.unlock()\<close>.\<close>

definition DeleteElement :: "'k::linorder \<Rightarrow> 'k SkipList \<Rightarrow> (int \<times> 'k SkipList) res" where
  "DeleteElement ele s =
     (if umap_find (sl_node_map s) ele = None then Inr (0, s)
      else bindE (deref (umap_find (sl_node_map s) ele)) (\<lambda>a.
          bindE (rd_node (sl_heap s) a) (\<lambda>nd.
          bindE (delete_search (sl_next_addr s) (sl_heap s) (sl_max_level s) (sl_level s)
                   (nd_score nd) ele (sl_header s) None (sl_max_level s)
                   (replicate (sl_max_level s) None)) (\<lambda>(node, level, upd).
          case node of
            None \<Rightarrow> Inl Uninit
          | Some node' \<Rightarrow>
              bindE (deref node') (\<lambda>b.
              bindE (unlink_loop (sl_heap s) (sl_tail s) upd b 0 (level + 1)) (\<lambda>(h, tail).
              bindE (lru_remove ele (sl_lru_cache s)) (\<lambda>c.
              bindE (delete_node h (Some b)) (\<lambda>h'.
              Inr (1, s\<lparr>sl_tail := tail, sl_length := sl_length s - 1,
                         sl_node_map := umap_erase ele (sl_node_map s),
                         sl_lru_cache := c, sl_heap := h'\<rparr>)))))))))"

section \<open>Insertion\<close>

text \<open>Lines 169 to 238: find the place, allocate the node, link it, register it.\<close>

definition insert_new ::
  "nat list \<Rightarrow> 'k::linorder \<Rightarrow> int \<Rightarrow> 'k SkipList \<Rightarrow> (nat list \<times> 'k SkipList) res" where
  "insert_new rs ele score s =
     bindE (insert_search (sl_next_addr s) (sl_heap s) (sl_max_level s) score ele (sl_header s)
              (replicate (sl_max_level s) None) (replicate (sl_max_level s) 0))
       (\<lambda>(cur, upd, rnk).
     bindE (GetRandomLevel (sl_max_level s) rs) (\<lambda>(level, rs').
     let node = sl_next_addr s;
         h0 = (sl_heap s)(node \<mapsto> SkipListNode_new ele score level)
     in
     bindE (link_loop h0 upd node 0 level None) (\<lambda>(h1, nxt).
     case nxt of
       None \<Rightarrow> Inl Uninit
     | Some nx \<Rightarrow>
         bindE (case nx of None \<Rightarrow> Inr (h1, Some node)
                | Some b \<Rightarrow> bindE (wr_backward h1 b (Some node)) (\<lambda>h. Inr (h, sl_tail s)))
           (\<lambda>(h2, tail).
         bindE (wr_backward h2 node (if cur \<noteq> sl_header s then Some cur else None)) (\<lambda>h3.
         bindE (span_loop h3 upd rnk 0 level) (\<lambda>h4.
         Inr (rs', s\<lparr>sl_tail := tail, sl_length := sl_length s + 1,
                      sl_level := max level (sl_level s),
                      sl_node_map := umap_insert ele node (sl_node_map s),
                      sl_heap := h4, sl_next_addr := Suc node\<rparr>)))))))"

text \<open>Lines 239 to 246: the cache is told, and what it evicts leaves the list.\<close>

definition evict_keys :: "'k::linorder list \<Rightarrow> 'k SkipList \<Rightarrow> 'k SkipList res" where
  "evict_keys ks s = foldE (\<lambda>k t. bindE (DeleteElementInLock k t) (\<lambda>(_, t'). Inr t')) ks s"

definition register_lru ::
  "('k \<times> int \<Rightarrow> 'k res) \<Rightarrow> 'k::linorder \<Rightarrow> int \<Rightarrow> 'k SkipList \<Rightarrow> 'k SkipList res" where
  "register_lru stale ele score s =
     bindE (lru_put stale ele score (sl_lru_cache s)) (\<lambda>c.
     bindE (evict_keys (delete_keys c) (s\<lparr>sl_lru_cache := c\<rparr>)) (\<lambda>t.
     Inr (t\<lparr>sl_lru_cache := (sl_lru_cache t)\<lparr>delete_keys := []\<rparr>\<rparr>)))"

definition InsertElement ::
  "('k \<times> int \<Rightarrow> 'k res) \<Rightarrow> nat list \<Rightarrow> 'k::linorder \<Rightarrow> int \<Rightarrow> 'k SkipList \<Rightarrow>
   (int \<times> nat list \<times> 'k SkipList) res" where
  "InsertElement stale rs ele score s =
     (case umap_find (sl_node_map s) ele of
        Some a \<Rightarrow>
          bindE (rd_node (sl_heap s) a) (\<lambda>nd.
          if nd_score nd = score
          then bindE (lru_get ele (sl_lru_cache s)) (\<lambda>(_, c).
               Inr (0, rs, s\<lparr>sl_lru_cache := c\<rparr>))
          else bindE (DeleteElementInLock ele s) (\<lambda>(_, s1).
               bindE (insert_new rs ele score s1) (\<lambda>(rs', s2).
               bindE (register_lru stale ele score s2) (\<lambda>s3.
               Inr (0, rs', s3)))))
      | None \<Rightarrow>
          bindE (insert_new rs ele score s) (\<lambda>(rs', s2).
          bindE (register_lru stale ele score s2) (\<lambda>s3.
          Inr (1, rs', s3))))"

section \<open>Lookup, size, capacity\<close>

definition SearchElement :: "'k \<Rightarrow> 'k SkipList \<Rightarrow> (int \<times> 'k SkipList) res" where
  "SearchElement ele s =
     (case umap_find (sl_node_map s) ele of
        None \<Rightarrow> Inr (-1, s)
      | Some a \<Rightarrow>
          bindE (lru_get ele (sl_lru_cache s)) (\<lambda>(_, c).
          bindE (rd_node (sl_heap s) a) (\<lambda>nd.
          Inr (nd_score nd, s\<lparr>sl_lru_cache := c\<rparr>))))"

text \<open>\<^verbatim>\<open>Length\<close> returns the unsigned counter as an \<^verbatim>\<open>int\<close>.\<close>

definition SkipList_Length :: "'k SkipList \<Rightarrow> int" where
  "SkipList_Length s = sint (sl_length s)"

text \<open>\<^verbatim>\<open>SetMaxMemory\<close>: \<open>m\<close> is what \<^verbatim>\<open>Configs::GetMaxMemory\<close> returns.\<close>

definition SkipList_SetMaxMemory ::
  "('k \<times> int \<Rightarrow> 'k res) \<Rightarrow> int \<Rightarrow> 'k SkipList \<Rightarrow> (int \<times> 'k SkipList) res" where
  "SkipList_SetMaxMemory stale m s =
     bindE (set_capacity stale m (sl_lru_cache s)) (\<lambda>(_, c).
     Inr (0, s\<lparr>sl_lru_cache := c\<rparr>))"

section \<open>Evaluation\<close>

lemmas list_exec [exec] =
  SkipList_new_def InsertElement_def DeleteElement_def DeleteElementInLock_def SkipList_destroy_def
  SearchElement_def SkipList_Length_def SkipList_SetMaxMemory_def insert_new_def GetRandomLevel_def
  register_lru_def evict_keys_def node_before_def

lemmas node_exec [exec] =
  rd_node_def rd_forward_def rd_span_def wr_forward_def wr_span_def wr_backward_def deref_def
  rd_arr_def delete_node_def SkipListNode_new_def

lemmas cache_exec [exec] =
  set_capacity_def LRUCache_new_def shrink.simps evict_back_def lru_put_def lru_get_def
  lru_remove_def umap_find_def umap_insert_def umap_erase_def umap_set_def cell_erase_def
  cell_read_def cell_write_def cell_splice_front_def

end
