(* ===== verification/Skip_List_Search.thy ===== *)
theory Skip_List_Search
  imports Skip_List
begin

text \<open>
  The shape of a skip list in memory, and the two searches on it: on every level they stop at
  the last node that precedes the wanted position.
\<close>

section \<open>The order of the list\<close>

definition zless :: "'k::linorder \<times> int \<Rightarrow> 'k \<times> int \<Rightarrow> bool" where
  "zless p q \<longleftrightarrow> snd p < snd q \<or> (snd p = snd q \<and> fst p < fst q)"

lemma zless_irrefl [simp]: "\<not> zless p p"
  by (simp add: zless_def)

lemma zless_trans: "zless p q \<Longrightarrow> zless q r \<Longrightarrow> zless p r"
  by (auto simp: zless_def)

lemma zless_total: "p \<noteq> q \<Longrightarrow> \<not> zless p q \<Longrightarrow> zless q p"
  by (cases p, cases q) (auto simp: zless_def)

lemma zless_transp: "transp zless"
  by (rule transpI) (rule zless_trans)

lemma zless_sorted_distinct: "sorted_wrt zless ps \<Longrightarrow> distinct ps"
  by (induction ps) auto

text \<open>What precedes an item in a sorted list is an initial part of it.\<close>

lemma dropWhile_zless:
  assumes "sorted_wrt zless ps" and "p \<in> set (dropWhile (\<lambda>p. zless p q) ps)"
  shows "\<not> zless p q"
  using assms
proof (induction ps)
  case (Cons r ps)
  then show ?case by (cases "zless r q") (auto dest: zless_trans)
qed simp

definition item :: "'k heap \<Rightarrow> addr \<Rightarrow> 'k \<times> int" where
  "item h a = (nd_ele (the (h a)), nd_score (the (h a)))"

lemma item_core: "core h a = Some (k, v, r) \<Longrightarrow> item h a = (k, v)"
  by (auto simp: core_def item_def)

lemma item_cong: "core h' a = core h a \<Longrightarrow> a \<in> dom h \<Longrightarrow> item h' a = item h a"
  by (auto simp: core_def item_def)

lemma node_before_item: "h a = Some n \<Longrightarrow> node_before n v k = zless (item h a) (k, v)"
  by (auto simp: node_before_def zless_def item_def)

section \<open>The shape of the list\<close>

definition on_level :: "'k heap \<Rightarrow> nat \<Rightarrow> addr list \<Rightarrow> addr list" where
  "on_level h i xs = filter (\<lambda>a. i < height h a) xs"

definition shape :: "'k::linorder heap \<Rightarrow> addr \<Rightarrow> nat \<Rightarrow> addr list \<Rightarrow> bool" where
  "shape h hdr M xs \<longleftrightarrow>
     (\<exists>k v l. core h hdr = Some (k, v, l, M, M)) \<and> distinct (hdr # xs) \<and>
     (\<forall>a \<in> set xs. \<exists>k v n. core h a = Some (k, v, n, n, n) \<and> 1 \<le> n \<and> n \<le> M) \<and>
     (\<forall>i < M. seg h i hdr (on_level h i xs) None) \<and>
     sorted_wrt zless (map (item h) xs)"

lemma on_level_append [simp]: "on_level h i (xs @ ys) = on_level h i xs @ on_level h i ys"
  by (simp add: on_level_def)

lemma on_level_Cons:
  "on_level h i (a # xs) = (if i < height h a then a # on_level h i xs else on_level h i xs)"
  by (simp add: on_level_def)

lemma on_level_subset: "set (on_level h i xs) \<subseteq> set xs"
  by (auto simp: on_level_def)

lemma on_level_cong:
  "(\<And>a. a \<in> set xs \<Longrightarrow> height h' a = height h a) \<Longrightarrow> on_level h' i xs = on_level h i xs"
  unfolding on_level_def by (rule filter_cong) auto

lemma core_height: "core h a = Some (k, v, l, f, s) \<Longrightarrow> height h a = f"
  by (simp add: height_via_core)

lemma core_fwd: "core h a = Some (k, v, l, f, s) \<Longrightarrow> i < f \<Longrightarrow> fwd h i a \<noteq> None"
  by (auto simp: core_def fwd_def)

lemma core_spn: "core h a = Some (k, v, l, f, s) \<Longrightarrow> i < s \<Longrightarrow> spn h i a \<noteq> None"
  by (auto simp: core_def spn_def)

lemma dom_core: "a \<in> dom h \<longleftrightarrow> core h a \<noteq> None"
  by (simp add: core_def dom_def)

lemma core_dom: "core h a = Some c \<Longrightarrow> a \<in> dom h"
  by (auto simp: core_def)

lemma shape_node:
  assumes "shape h hdr M xs" and "a \<in> set xs"
  obtains k v n where "core h a = Some (k, v, n, n, n)" "1 \<le> n" "n \<le> M" "height h a = n"
proof -
  from assms have "\<exists>k v n. core h a = Some (k, v, n, n, n) \<and> 1 \<le> n \<and> n \<le> M"
    unfolding shape_def by blast
  then show thesis by (metis core_height that)
qed

lemma shape_height: "shape h hdr M xs \<Longrightarrow> a \<in> set xs \<Longrightarrow> 1 \<le> height h a \<and> height h a \<le> M"
  by (metis shape_node)

lemma shape_dom: "shape h hdr M xs \<Longrightarrow> a \<in> set (hdr # xs) \<Longrightarrow> a \<in> dom h"
  by (auto simp: shape_def dest!: bspec dest: core_dom)

lemma on_level_0: "shape h hdr M xs \<Longrightarrow> set ys \<subseteq> set xs \<Longrightarrow> on_level h 0 ys = ys"
  unfolding on_level_def
  by (rule filter_True) (metis (no_types, lifting) One_nat_def less_eq_Suc_le shape_node subsetD)

lemma shape_seg0: "shape h hdr M xs \<Longrightarrow> 0 < M \<Longrightarrow> seg h 0 hdr xs None"
  using on_level_0 [of h hdr M xs xs] by (auto simp: shape_def)

lemma shape_spn:
  assumes "shape h hdr M xs" and "i < M" and "a \<in> set (hdr # on_level h i xs)"
  shows "spn h i a \<noteq> None"
proof (cases "a = hdr")
  case True
  with assms show ?thesis by (auto simp: shape_def dest: core_spn)
next
  case False
  then have "a \<in> set xs" "i < height h a" using assms(3) by (auto simp: on_level_def)
  with assms(1) show ?thesis by (metis core_spn shape_node)
qed

text \<open>The nodes that precede an item, and the last of them on a level (or the header).\<close>

definition before :: "'k::linorder heap \<Rightarrow> 'k \<times> int \<Rightarrow> addr list \<Rightarrow> addr list" where
  "before h q xs = takeWhile (\<lambda>a. zless (item h a) q) xs"

definition onward :: "'k::linorder heap \<Rightarrow> 'k \<times> int \<Rightarrow> addr list \<Rightarrow> addr list" where
  "onward h q xs = dropWhile (\<lambda>a. zless (item h a) q) xs"

definition pred_at :: "'k heap \<Rightarrow> addr \<Rightarrow> nat \<Rightarrow> addr list \<Rightarrow> addr" where
  "pred_at h hdr i us = last (hdr # on_level h i us)"

lemma before_onward [simp]: "before h q xs @ onward h q xs = xs"
  by (simp add: before_def onward_def)

lemma before_zless: "a \<in> set (before h q xs) \<Longrightarrow> zless (item h a) q"
  unfolding before_def by (rule set_takeWhileD [THEN conjunct2])

lemma onward_not_zless:
  assumes "sorted_wrt zless (map (item h) xs)" and "a \<in> set (onward h q xs)"
  shows "\<not> zless (item h a) q"
proof (rule dropWhile_zless [OF assms(1)])
  have "dropWhile (\<lambda>p. zless p q) (map (item h) xs) = map (item h) (onward h q xs)"
    by (simp add: onward_def dropWhile_map comp_def)
  with assms(2) show "item h a \<in> set (dropWhile (\<lambda>p. zless p q) (map (item h) xs))" by simp
qed

lemma seg_suffix:
  assumes "seg h i a xs p" and "a # xs = as @ c # us"
  shows "seg h i c us p"
  using assms
proof (induction as arbitrary: a xs)
  case (Cons b as)
  then show ?case by (cases xs) (auto simp: Cons_eq_append_conv)
qed simp

section \<open>One level\<close>

lemma insert_walk_ok:
  assumes "seg h i a (us @ vs) None" and "set (us @ vs) \<subseteq> dom h" and "length us < n"
    and "\<And>x. x \<in> set us \<Longrightarrow> zless (item h x) (ele, score)"
    and "\<And>x. x \<in> set vs \<Longrightarrow> \<not> zless (item h x) (ele, score)"
    and "\<And>x. x \<in> set (a # us) \<Longrightarrow> spn h i x \<noteq> None"
  shows "\<exists>w'. insert_walk n h i score ele a w = Inr (last (a # us), w')"
  using assms
proof (induction us arbitrary: a n w)
  case Nil
  then obtain m where n: "n = Suc m" by (cases n) auto
  show ?case
  proof (cases vs)
    case Nil': Nil
    then have "rd_forward h a i = Inr None" using Nil.prems by (simp add: rd_forward_fwd)
    with n show ?thesis by simp
  next
    case (Cons b ws)
    then have "rd_forward h a i = Inr (Some b)" using Nil.prems by (simp add: rd_forward_fwd)
    moreover obtain nd where nd: "h b = Some nd" using Nil.prems Cons by auto
    moreover have "\<not> node_before nd score ele"
      using Nil.prems(5) [of b] Cons by (simp add: node_before_item [of h b, OF nd])
    ultimately show ?thesis using n by (simp add: rd_node_def)
  qed
next
  case (Cons b us)
  then obtain m where n: "n = Suc m" by (cases n) auto
  have f: "rd_forward h a i = Inr (Some b)" using Cons.prems by (simp add: rd_forward_fwd)
  obtain nd where nd: "h b = Some nd" using Cons.prems by auto
  have nb: "node_before nd score ele"
    using Cons.prems(4) [of b] by (simp add: node_before_item [of h b, OF nd])
  obtain w0 where w0: "rd_span h a i = Inr w0"
    using Cons.prems(6) [of a] by (auto simp: rd_span_spn)
  have "\<exists>w'. insert_walk m h i score ele b (w + w0) = Inr (last (b # us), w')"
    by (rule Cons.IH) (use Cons.prems n in auto)
  with f nd nb w0 n show ?case by (simp add: rd_node_def)
qed

lemma delete_walk_insert_walk:
  "insert_walk n h i score ele a w = Inr (c, w') \<Longrightarrow> delete_walk n h i score ele a = Inr c"
proof (induction n arbitrary: a w)
  case (Suc n)
  then obtain f where f: "rd_forward h a i = Inr f"
    by (auto simp: bindE_Inr_iff)
  show ?case
  proof (cases f)
    case None
    with Suc.prems f show ?thesis by simp
  next
    case (Some b)
    with Suc.prems f obtain nd where nd: "rd_node h b = Inr nd"
      by (auto simp: bindE_Inr_iff)
    show ?thesis
    proof (cases "node_before nd score ele")
      case True
      with Suc.prems f nd Some obtain w1 where "insert_walk n h i score ele b w1 = Inr (c, w')"
        by (auto simp: bindE_Inr_iff)
      from Suc.IH [OF this] True f nd Some show ?thesis by simp
    next
      case False
      with Suc.prems f nd Some show ?thesis by simp
    qed
  qed
qed simp

lemma insert_walk_level:
  assumes s: "shape h hdr M xs" and i: "i < M" and n: "length xs < n"
    and a: "a \<in> set (hdr # on_level h i (before h (ele, score) xs))"
  shows "\<exists>w'. insert_walk n h i score ele a w =
    Inr (pred_at h hdr i (before h (ele, score) xs), w')"
proof -
  let ?us = "on_level h i (before h (ele, score) xs)"
  let ?vs = "on_level h i (onward h (ele, score) xs)"
  have xs: "on_level h i xs = ?us @ ?vs"
    by (metis before_onward on_level_append)
  obtain as us where as: "hdr # ?us = as @ a # us"
    using split_list [OF a] by blast
  have "seg h i hdr (?us @ ?vs) None"
    using s i by (simp add: shape_def flip: xs)
  then have g: "seg h i a (us @ ?vs) None"
    by (rule seg_suffix [where as = as]) (use as in simp)
  have us: "set us \<subseteq> set ?us"
    using as by (cases as) auto
  have len: "length us < n"
  proof -
    have "length us \<le> length ?us" using as by (cases as) (auto dest: arg_cong [of _ _ length])
    also have "\<dots> \<le> length (on_level h i xs)" by (simp add: xs)
    also have "\<dots> \<le> length xs" by (simp add: on_level_def)
    finally show ?thesis using n by simp
  qed
  have sub: "set (?us @ ?vs) \<subseteq> set xs"
    using on_level_subset [of h i xs] xs by simp
  have "\<exists>w'. insert_walk n h i score ele a w = Inr (last (a # us), w')"
  proof (rule insert_walk_ok [OF g _ len])
    show "set (us @ ?vs) \<subseteq> dom h"
    proof -
      have "set xs \<subseteq> dom h" using shape_dom [OF s] by (meson list.set_intros(2) subsetI)
      then show ?thesis using us sub unfolding set_append by blast
    qed
    show "zless (item h x) (ele, score)" if "x \<in> set us" for x
      using that us on_level_subset before_zless by fastforce
    show "\<not> zless (item h x) (ele, score)" if "x \<in> set ?vs" for x
      using that onward_not_zless [of h xs x] on_level_subset s by (fastforce simp: shape_def)
    show "spn h i x \<noteq> None" if "x \<in> set (a # us)" for x
      using shape_spn [OF s i, of x] that us a xs by auto
  qed
  moreover have "last (a # us) = last (hdr # ?us)"
    using as by (metis last_appendR list.discI)
  ultimately show ?thesis by (simp add: pred_at_def)
qed

lemma delete_walk_level:
  assumes "shape h hdr M xs" and "i < M" and "length xs < n"
    and "a \<in> set (hdr # on_level h i (before h (ele, score) xs))"
  shows "delete_walk n h i score ele a = Inr (pred_at h hdr i (before h (ele, score) xs))"
  using insert_walk_level [OF assms, of 0] delete_walk_insert_walk by blast

section \<open>All levels\<close>

lemma pred_at_mono:
  assumes "j \<le> i"
  shows "pred_at h hdr i us \<in> set (hdr # on_level h j us)"
proof -
  have "pred_at h hdr i us \<in> set (hdr # on_level h i us)"
    unfolding pred_at_def by (rule last_in_set) simp
  with assms show ?thesis by (auto simp: on_level_def)
qed

text \<open>The local array \<^verbatim>\<open>update\<close> holds the predecessor on each of the first \<open>m\<close> levels.\<close>

definition updates :: "'k heap \<Rightarrow> addr \<Rightarrow> addr list \<Rightarrow> nat \<Rightarrow> addr option list \<Rightarrow> bool" where
  "updates h hdr us m upd \<longleftrightarrow>
     m \<le> length upd \<and> (\<forall>i < m. upd ! i = Some (pred_at h hdr i us))"

lemma insert_search_ok:
  assumes s: "shape h hdr M xs" and n: "length xs < n"
    and "m \<le> M" and "length upd = M" and "length rnk = M"
    and "a \<in> set (hdr # on_level h (m - 1) (before h (ele, score) xs))"
  shows "\<exists>upd' rnk'. insert_search n h m score ele a upd rnk =
      Inr (if m = 0 then a else pred_at h hdr 0 (before h (ele, score) xs), upd', rnk') \<and>
    updates h hdr (before h (ele, score) xs) m upd' \<and> length upd' = M \<and> length rnk' = M \<and>
    (\<forall>i. m \<le> i \<longrightarrow> upd' ! i = upd ! i)"
  using assms(3-6)
proof (induction m arbitrary: a upd rnk)
  case 0
  then show ?case by (simp add: updates_def)
next
  case (Suc i)
  let ?us = "before h (ele, score) xs"
  let ?c = "pred_at h hdr i ?us"
  obtain w where w: "insert_walk n h i score ele a (rnk ! i) = Inr (?c, w)"
    using insert_walk_level [OF s _ n] Suc.prems by fastforce
  obtain upd' rnk' where r:
      "insert_search n h i score ele ?c (upd[i := Some ?c]) (rnk[i := w]) =
        Inr (if i = 0 then ?c else pred_at h hdr 0 ?us, upd', rnk')"
      "updates h hdr ?us i upd'" "length upd' = M" "length rnk' = M"
      "\<forall>j. i \<le> j \<longrightarrow> upd' ! j = upd[i := Some ?c] ! j"
    using Suc.IH [of "upd[i := Some ?c]" "rnk[i := w]" ?c] Suc.prems
      pred_at_mono [of "i - 1" i h hdr ?us] by auto
  have "upd' ! i = Some ?c" using r(5) Suc.prems by simp
  then have "updates h hdr ?us (Suc i) upd'"
    using r(2,3) Suc.prems by (auto simp: updates_def less_Suc_eq)
  moreover have "\<forall>j. Suc i \<le> j \<longrightarrow> upd' ! j = upd ! j" using r(5) by auto
  ultimately show ?case using w r(1,3,4) by auto
qed

text \<open>
  The deletion search for a node \<open>b\<close> of the list: it ends with \<open>b\<close> in \<^verbatim>\<open>node\<close> and the top
  level of \<open>b\<close> in \<^verbatim>\<open>level\<close>.
\<close>

lemma before_member:
  assumes "sorted_wrt zless (map (item h) (us @ b # vs))"
  shows "before h (item h b) (us @ b # vs) = us" and "onward h (item h b) (us @ b # vs) = b # vs"
proof -
  have "\<And>a. a \<in> set us \<Longrightarrow> zless (item h a) (item h b)"
    using assms by (auto simp: sorted_wrt_append)
  then show "before h (item h b) (us @ b # vs) = us"
    and "onward h (item h b) (us @ b # vs) = b # vs"
    by (auto simp: before_def onward_def)
qed

lemma pred_at_fwd:
  assumes "shape h hdr M (us @ vs)" and "i < M"
  shows "fwd h i (pred_at h hdr i us) = Some (first (on_level h i vs) None)"
proof -
  have "seg h i hdr (on_level h i us @ on_level h i vs) None"
    using assms by (simp add: shape_def)
  then have "seg h i hdr (on_level h i us) (first (on_level h i vs) None)"
    by (simp add: seg_append)
  then show ?thesis unfolding pred_at_def by (rule seg_last)
qed

lemma first_member: "first xs None = Some a \<Longrightarrow> a \<in> set xs"
  by (cases xs) auto

definition found_level :: "nat \<Rightarrow> nat \<Rightarrow> nat \<Rightarrow> nat" where
  "found_level M ht m = (if ht \<le> m then M else ht - 1)"

lemma delete_level_step:
  assumes s: "shape h hdr M (us @ b # vs)" and i: "i < M" and b: "item h b = (ele, score)"
  shows "\<exists>f. rd_forward h (pred_at h hdr i us) i = Inr f \<and> (i = 0 \<longrightarrow> f = Some b) \<and>
    (case f of None \<Rightarrow> Inr (found_level M (height h b) (Suc i))
     | Some c \<Rightarrow> bindE (rd_node h c) (\<lambda>nd.
         Inr (if nd_ele nd = ele \<and> nd_score nd = score \<and> found_level M (height h b) (Suc i) = M
              then i else found_level M (height h b) (Suc i)))) =
    Inr (found_level M (height h b) i)"
proof -
  let ?f = "first (on_level h i (b # vs)) None"
  have f: "rd_forward h (pred_at h hdr i us) i = Inr ?f"
    using pred_at_fwd [OF s i] by (simp add: rd_forward_fwd)
  obtain nb where nb: "1 \<le> height h b" "height h b \<le> M"
    using shape_node [OF s, of b] by auto
  show ?thesis
  proof (cases "i < height h b")
    case True
    obtain nd where "h b = Some nd" using shape_dom [OF s, of b] by auto
    with True b f i nb show ?thesis
      by (auto simp: rd_node_def item_def found_level_def on_level_Cons)
  next
    case False
    have nomatch: "\<not> (nd_ele nd = ele \<and> nd_score nd = score)" if "?f = Some c" "h c = Some nd" for c nd
    proof -
      have "c \<in> set vs" using that(1) False first_member [of "on_level h i vs"]
        by (auto simp: on_level_Cons on_level_def)
      then have "zless (item h b) (item h c)" using s by (auto simp: shape_def sorted_wrt_append)
      with b that(2) show ?thesis by (auto simp: item_def)
    qed
    have live: "\<exists>nd. h c = Some nd" if "?f = Some c" for c
      using first_member [OF that] on_level_subset shape_dom [OF s, of c] by fastforce
    show ?thesis
    proof (cases ?f)
      case None
      with False f nb show ?thesis by (auto simp: found_level_def)
    next
      case (Some c)
      then obtain nd where nd: "h c = Some nd" using live by blast
      from nomatch [OF Some nd] False f nb Some nd show ?thesis
        by (auto simp: rd_node_def found_level_def)
    qed
  qed
qed

lemma delete_search_ok:
  assumes s: "shape h hdr M (us @ b # vs)" and n: "length (us @ b # vs) < n"
    and b: "item h b = (ele, score)" and "m \<le> M" and "length upd = M"
    and "a \<in> set (hdr # on_level h (m - 1) us)"
  shows "\<exists>upd'. delete_search n h M m score ele a node (found_level M (height h b) m) upd =
      Inr (if m = 0 then node else Some (Some b), found_level M (height h b) 0, upd') \<and>
    updates h hdr us m upd' \<and> length upd' = M \<and> (\<forall>i. m \<le> i \<longrightarrow> upd' ! i = upd ! i)"
  using assms(4-6)
proof (induction m arbitrary: a upd node)
  case 0
  then show ?case by (simp add: updates_def)
next
  case (Suc i)
  have us: "before h (ele, score) (us @ b # vs) = us"
    using before_member [of h us b vs] s b by (simp add: shape_def)
  let ?c = "pred_at h hdr i us"
  have i: "i < M" using Suc.prems by simp
  have w: "delete_walk n h i score ele a = Inr ?c"
    using delete_walk_level [OF s i n, of a ele score] Suc.prems us by simp
  obtain f where f: "rd_forward h ?c i = Inr f" "i = 0 \<longrightarrow> f = Some b"
    "(case f of None \<Rightarrow> Inr (found_level M (height h b) (Suc i))
     | Some c \<Rightarrow> bindE (rd_node h c) (\<lambda>nd.
         Inr (if nd_ele nd = ele \<and> nd_score nd = score \<and> found_level M (height h b) (Suc i) = M
              then i else found_level M (height h b) (Suc i)))) =
    Inr (found_level M (height h b) i)"
    using delete_level_step [OF s i b] by blast
  obtain upd' where r:
      "delete_search n h M i score ele ?c (Some f) (found_level M (height h b) i) (upd[i := Some ?c]) =
        Inr (if i = 0 then Some f else Some (Some b), found_level M (height h b) 0, upd')"
      "updates h hdr us i upd'" "length upd' = M"
      "\<forall>j. i \<le> j \<longrightarrow> upd' ! j = upd[i := Some ?c] ! j"
    using Suc.IH [of "upd[i := Some ?c]" ?c "Some f"] Suc.prems
      pred_at_mono [of "i - 1" i h hdr us] by auto
  have "upd' ! i = Some ?c" using r(4) Suc.prems by simp
  then have "updates h hdr us (Suc i) upd'"
    using r(2,3) Suc.prems by (auto simp: updates_def less_Suc_eq)
  moreover have "\<forall>j. Suc i \<le> j \<longrightarrow> upd' ! j = upd ! j" using r(4) by auto
  ultimately show ?case using w f r(1,3) by (auto split: if_splits)
qed

end
