(* ===== verification/Skip_List_Link.thy ===== *)
theory Skip_List_Link
  imports Skip_List_Search
begin

text \<open>
  The three pointer loops of \<^verbatim>\<open>skiplist.h\<close>: linking a new node behind its predecessors,
  setting the spans, and unlinking a node. Each loop is followed level by level; \<open>g\<close> is a
  heap with the same keys, scores and heights, in which the lists of addresses are read.
\<close>

lemma core_node_alive:
  assumes "core h = core g" and "i < height g a"
  shows "fwd h i a \<noteq> None"
proof -
  have "height h a = height g a" using height_core [OF assms(1)] by simp
  with assms(2) show ?thesis by (auto simp: height_def fwd_def split: option.splits)
qed

definition linked :: "'k heap \<Rightarrow> 'k heap \<Rightarrow> addr \<Rightarrow> nat \<Rightarrow> addr list \<Rightarrow> bool" where
  "linked g h hdr i xs \<longleftrightarrow> seg h i hdr (on_level g i xs) None"

lemma linked_cong: "(\<And>x. fwd h' i x = fwd h i x) \<Longrightarrow> linked g h' hdr i xs = linked g h hdr i xs"
  unfolding linked_def by (rule seg_cong) simp

lemma linked_skip:
  "height g a \<le> i \<Longrightarrow> linked g h hdr i (us @ a # vs) = linked g h hdr i (us @ vs)"
  by (simp add: linked_def on_level_Cons)

lemma linked_pred:
  "linked g h hdr i (us @ vs) \<Longrightarrow> fwd h i (pred_at g hdr i us) = Some (first (on_level g i vs) None)"
  using seg_last [of h i hdr "on_level g i us" "first (on_level g i vs) None"]
  by (simp add: linked_def seg_append pred_at_def)

lemma distinct_on_level:
  assumes "distinct (hdr # us @ a # vs)"
  shows "distinct (hdr # on_level g i us @ a # on_level g i vs)"
  using assms by (auto simp: on_level_def)

lemma pred_at_in: "pred_at g hdr i us \<in> set (hdr # us)"
  using pred_at_mono [of i i g hdr us] on_level_subset [of g i us] by auto

lemma linked_insert:
  assumes "linked g h hdr i (us @ vs)" and "i < height g a" and "distinct (hdr # us @ a # vs)"
    and "\<And>x. x \<noteq> a \<Longrightarrow> x \<noteq> pred_at g hdr i us \<Longrightarrow> fwd h' i x = fwd h i x"
    and "fwd h' i (pred_at g hdr i us) = Some (Some a)"
    and "fwd h' i a = fwd h i (pred_at g hdr i us)"
  shows "linked g h' hdr i (us @ a # vs)"
proof -
  have "seg h' i hdr (on_level g i us @ a # on_level g i vs) None"
  proof (rule seg_insert [OF _ distinct_on_level [OF assms(3)]])
    show "seg h i hdr (on_level g i us @ on_level g i vs) None"
      using assms(1) by (simp add: linked_def)
    show "fwd h' i x = fwd h i x"
      if "x \<in> set (hdr # on_level g i us @ on_level g i vs)" "x \<noteq> last (hdr # on_level g i us)" for x
    proof (rule assms(4))
      show "x \<noteq> a"
        using that(1) assms(3) on_level_subset [of g i us] on_level_subset [of g i vs] by auto
      show "x \<noteq> pred_at g hdr i us" using that(2) by (simp only: pred_at_def not_False_eq_True)
    qed
  qed (use assms(5,6) in \<open>simp_all add: pred_at_def\<close>)
  with assms(2) show ?thesis by (simp add: linked_def on_level_Cons)
qed

lemma linked_remove:
  assumes "linked g h hdr i (us @ a # vs)" and "i < height g a" and "distinct (hdr # us @ a # vs)"
    and "\<And>x. x \<noteq> pred_at g hdr i us \<Longrightarrow> fwd h' i x = fwd h i x"
    and "fwd h' i (pred_at g hdr i us) = fwd h i a"
  shows "linked g h' hdr i (us @ vs)"
proof -
  have "seg h' i hdr (on_level g i us @ on_level g i vs) None"
  proof (rule seg_remove [OF _ distinct_on_level [OF assms(3)]])
    show "seg h i hdr (on_level g i us @ a # on_level g i vs) None"
      using assms(1,2) by (simp add: linked_def on_level_Cons)
  qed (use assms(4,5) in \<open>simp_all add: pred_at_def\<close>)
  then show ?thesis by (simp add: linked_def)
qed

section \<open>Linking\<close>

lemma link_loop_ok:
  assumes "core h = core g" and d: "distinct (hdr # us @ a # vs)"
    and "\<And>j. j < M \<Longrightarrow> linked g h hdr j (if j < i then us @ a # vs else us @ vs)"
    and "i + todo = height g a" and M: "height g a \<le> M" and u: "updates g hdr us M upd"
  shows "\<exists>h' nxt'. link_loop h upd a i todo nxt = Inr (h', nxt') \<and> core h' = core g \<and>
    dom h' = dom h \<and> spn h' = spn h \<and> (\<forall>j < M. linked g h' hdr j (us @ a # vs)) \<and>
    nxt' = (if todo = 0 then nxt else Some (first (on_level g (height g a - 1) vs) None))"
  using assms(1,3,4)
proof (induction todo arbitrary: h i nxt)
  case 0
  have "linked g h hdr j (us @ a # vs)" if "j < M" for j
    using "0.prems"(2) [OF that] "0.prems"(3) linked_skip [of g a j h hdr us vs]
    by (auto split: if_splits)
  with "0.prems"(1) show ?case by simp
next
  case (Suc todo)
  let ?p = "pred_at g hdr i us" and ?f = "first (on_level g i vs) None"
  have i: "i < height g a" "i < M" using Suc.prems(3) M by simp_all
  have l: "linked g h hdr i (us @ vs)" using Suc.prems(2) [OF i(2)] by simp
  have pf: "fwd h i ?p = Some ?f" by (rule linked_pred [OF l])
  have pa: "?p \<noteq> a" using pred_at_in [of g hdr i us] d by auto
  obtain h1 where h1: "wr_forward h ?p i (Some a) = Inr h1" "core h1 = core h" "dom h1 = dom h"
      "spn h1 = spn h" "\<And>j x. fwd h1 j x = (if j = i \<and> x = ?p then Some (Some a) else fwd h j x)"
    using wr_forward_ok [of h i ?p "Some a"] pf by auto
  have "fwd h1 i a \<noteq> None"
    using core_node_alive [of h1 g i a] h1(2) Suc.prems(1) i by simp
  then obtain h2 where h2: "wr_forward h1 a i ?f = Inr h2" "core h2 = core h1" "dom h2 = dom h1"
      "spn h2 = spn h1" "\<And>j x. fwd h2 j x = (if j = i \<and> x = a then Some ?f else fwd h1 j x)"
    using wr_forward_ok [of h1 i a ?f] by auto
  have fw: "fwd h2 j x = (if j = i \<and> x = a then Some ?f
      else if j = i \<and> x = ?p then Some (Some a) else fwd h j x)" for j x
    using h1(5) h2(5) by simp
  have "linked g h2 hdr i (us @ a # vs)"
    by (rule linked_insert [OF l i(1) d]) (use fw pf pa in auto)
  moreover have "linked g h2 hdr j xs = linked g h hdr j xs" if "j \<noteq> i" for j xs
    by (rule linked_cong) (use fw that in auto)
  ultimately have "\<And>j. j < M \<Longrightarrow> linked g h2 hdr j (if j < Suc i then us @ a # vs else us @ vs)"
    using Suc.prems(2) by (fastforce simp: less_Suc_eq)
  from Suc.IH [of h2 "Suc i" "Some ?f", OF _ this] Suc.prems(1,3) h1(2,3,4) h2(2,3,4)
  obtain h' nxt' where r: "link_loop h2 upd a (Suc i) todo (Some ?f) = Inr (h', nxt')"
      "core h' = core g" "dom h' = dom h" "spn h' = spn h" "\<forall>j < M. linked g h' hdr j (us @ a # vs)"
      "nxt' = (if todo = 0 then Some ?f else Some (first (on_level g (height g a - 1) vs) None))"
    by auto
  have "rd_arr upd i = Inr (Some ?p)" using u i(2) by (simp add: updates_def rd_arr_def)
  moreover have "rd_forward h ?p i = Inr ?f" using pf by (simp add: rd_forward_fwd)
  moreover have "nxt' = Some (first (on_level g (height g a - 1) vs) None)"
    using r(6) Suc.prems(3) by (cases "todo = 0") (simp_all flip: Suc.prems(3))
  ultimately show ?case using r h1(1) h2(1) by (simp add: deref_def)
qed

section \<open>Spans\<close>

text \<open>
  The spans of the bottom level after the loop; nothing is said about higher levels, where
  the spans are wrong (an example is in \<open>Skip_List_Faults\<close>).
\<close>

lemma span_loop_ok:
  assumes "core h = core g" and "a \<notin> set (hdr # us)"
    and "\<And>j. j < i + todo \<Longrightarrow> fwd h j (pred_at g hdr j us) = Some (Some a)"
    and "\<And>j. j < i + todo \<Longrightarrow> spn h j a \<noteq> None \<and> spn h j (pred_at g hdr j us) \<noteq> None"
    and u: "updates g hdr us M upd" and M: "i + todo \<le> M" and rnk: "length rnk = M"
  shows "\<exists>h'. span_loop h upd rnk i todo = Inr h' \<and> core h' = core g \<and> dom h' = dom h \<and>
    fwd h' = fwd h \<and>
    (\<forall>x. spn h' 0 x = (if i = 0 \<and> 0 < todo
       then (if x = pred_at g hdr 0 us then Some 1
             else if x = a then spn h 0 (pred_at g hdr 0 us) else spn h 0 x)
       else spn h 0 x))"
  using assms(1,3,4) M
proof (induction todo arbitrary: h i)
  case 0
  then show ?case by simp
next
  case (Suc todo)
  let ?p = "pred_at g hdr i us"
  have i: "i < M" using Suc.prems(4) by simp
  have pa: "?p \<noteq> a" using pred_at_in [of g hdr i us] assms(2) by auto
  obtain w where w: "spn h i ?p = Some w" using Suc.prems(3) [of i] by auto
  let ?r0 = "rnk ! 0" and ?ri = "rnk ! i"
  obtain h1 where h1: "wr_span h a i (w - (?r0 - ?ri)) = Inr h1" "core h1 = core h"
      "dom h1 = dom h" "fwd h1 = fwd h"
      "\<And>j x. spn h1 j x = (if j = i \<and> x = a then Some (w - (?r0 - ?ri)) else spn h j x)"
    using wr_span_ok [of h i a "w - (?r0 - ?ri)"] Suc.prems(3) [of i] by auto
  then obtain h2 where h2: "wr_span h1 ?p i (?r0 - ?ri + 1) = Inr h2" "core h2 = core h1"
      "dom h2 = dom h1" "fwd h2 = fwd h1"
      "\<And>j x. spn h2 j x = (if j = i \<and> x = ?p then Some (?r0 - ?ri + 1) else spn h1 j x)"
    using wr_span_ok [of h1 i ?p "?r0 - ?ri + 1"] w pa by auto
  have alive: "spn h2 j a \<noteq> None \<and> spn h2 j (pred_at g hdr j us) \<noteq> None" if "j < Suc i + todo" for j
    using Suc.prems(3) [of j] that h1(5) h2(5) by auto
  have "\<exists>h'. span_loop h2 upd rnk (Suc i) todo = Inr h' \<and> core h' = core g \<and> dom h' = dom h2 \<and>
      fwd h' = fwd h2 \<and> (\<forall>x. spn h' 0 x = spn h2 0 x)"
    using Suc.IH [of h2 "Suc i"] Suc.prems(1,2,4) h1(2,4) h2(2,4) alive by auto
  then obtain h' where r: "span_loop h2 upd rnk (Suc i) todo = Inr h'" "core h' = core g"
      "dom h' = dom h" "fwd h' = fwd h" "\<forall>x. spn h' 0 x = spn h2 0 x"
    using h1(3,4) h2(3,4) by auto
  have "rd_arr upd i = Inr (Some ?p)" using u i by (simp add: updates_def rd_arr_def)
  moreover have "rd_forward h ?p i = Inr (Some a)"
    using Suc.prems(2) [of i] by (simp add: rd_forward_fwd)
  moreover have "rd_span h ?p i = Inr w" using w by (simp add: rd_span_spn)
  moreover have "rd_arr rnk 0 = Inr ?r0" "rd_arr rnk i = Inr ?ri"
    using rnk i by (auto simp: rd_arr_def)
  ultimately have "span_loop h upd rnk i (Suc todo) = Inr h'"
    using h1(1) h2(1) r(1) by (simp add: deref_def)
  moreover have "spn h' 0 x = (if i = 0 then (if x = pred_at g hdr 0 us then Some 1
      else if x = a then spn h 0 (pred_at g hdr 0 us) else spn h 0 x) else spn h 0 x)" for x
    using r(5) h1(5) h2(5) w pa by auto
  ultimately show ?case using r by auto
qed

section \<open>Unlinking\<close>

lemma unlink_step:
  assumes "fwd h i p \<noteq> None" and "spn h i p \<noteq> None" and "spn h i a \<noteq> None"
    and "fwd h i a = Some f" and "\<And>b. f = Some b \<Longrightarrow> b \<in> dom h"
    and "upd ! i = Some p" and "i < length upd"
  shows "\<exists>h' tail'. unlink_loop h tail upd a i (Suc todo) = unlink_loop h' tail' upd a (Suc i) todo \<and>
    core h' = core h \<and> dom h' = dom h \<and>
    (\<forall>j x. fwd h' j x = (if j = i \<and> x = p then Some f else fwd h j x)) \<and>
    (\<forall>j x. spn h' j x = (if j = i \<and> x = p then (if f = None then Some 0
        else Some (the (spn h i p) + (the (spn h i a) - 1))) else spn h j x))"
proof -
  have a: "rd_forward h a i = Inr f" using assms(4) by (simp add: rd_forward_fwd)
  have u: "rd_arr upd i = Inr (Some p)" using assms(6,7) by (simp add: rd_arr_def)
  let ?w = "if f = None then 0 else the (spn h i p) + (the (spn h i a) - 1)"
  obtain h1 where h1: "wr_span h p i ?w = Inr h1" "core h1 = core h" "dom h1 = dom h" "fwd h1 = fwd h"
      "\<And>j x. spn h1 j x = (if j = i \<and> x = p then Some ?w else spn h j x)"
    using wr_span_ok [of h i p ?w] assms(2) by auto
  obtain h2 where h2: "wr_forward h1 p i f = Inr h2" "core h2 = core h1" "dom h2 = dom h1"
      "spn h2 = spn h1" "\<And>j x. fwd h2 j x = (if j = i \<and> x = p then Some f else fwd h1 j x)"
    using wr_forward_ok [of h1 i p f] assms(1) h1(4) by auto
  show ?thesis
  proof (cases f)
    case None
    then have "unlink_loop h tail upd a i (Suc todo) =
        unlink_loop h2 (if i = 0 then Some p else tail) upd a (Suc i) todo"
      using a u h1(1) h2(1) by (simp add: deref_def)
    with h1 h2 None show ?thesis by auto
  next
    case (Some b)
    then have "b \<in> dom h2" using assms(5) h1(3) h2(3) by simp
    then obtain h3 where h3: "(if i = 0 then wr_backward h2 b (Some p) else Inr h2) = Inr h3"
        "core h3 = core h2" "dom h3 = dom h2" "fwd h3 = fwd h2" "spn h3 = spn h2"
      using wr_backward_ok [of b h2 "Some p"] by (cases "i = 0") auto
    have "rd_span h p i = Inr (the (spn h i p))" "rd_span h a i = Inr (the (spn h i a))"
      using assms(2,3) by (auto simp: rd_span_spn)
    then have "unlink_loop h tail upd a i (Suc todo) = unlink_loop h3 tail upd a (Suc i) todo"
      using a u h1(1) h2(1) h3(1) Some by (simp add: deref_def)
    with h1 h2 h3 Some show ?thesis by auto
  qed
qed

lemma unlink_loop_ok:
  assumes "core h = core g" and d: "distinct (hdr # us @ a # vs)" and "set vs \<subseteq> dom h"
    and "\<And>j. j < M \<Longrightarrow> linked g h hdr j (if j < i then us @ vs else us @ a # vs)"
    and "i + todo = height g a" and M: "height g a \<le> m" "m \<le> M"
    and u: "updates g hdr us m upd"
    and "\<And>j. j < height g a \<Longrightarrow> spn h j a \<noteq> None \<and> spn h j (pred_at g hdr j us) \<noteq> None"
  shows "\<exists>h' tail'. unlink_loop h tail upd a i todo = Inr (h', tail') \<and> core h' = core g \<and>
    dom h' = dom h \<and> (\<forall>j < M. linked g h' hdr j (us @ vs)) \<and>
    (\<forall>x. spn h' 0 x = (if i = 0 \<and> 0 < todo \<and> x = pred_at g hdr 0 us
       then (if fwd h 0 a = Some None then Some 0
             else Some (the (spn h 0 x) + (the (spn h 0 a) - 1)))
       else spn h 0 x))"
  using assms(1,3,4,5,9)
proof (induction todo arbitrary: h i tail)
  case 0
  have "linked g h hdr j (us @ vs)" if "j < M" for j
    using "0.prems"(3) [OF that] "0.prems"(4) linked_skip [of g a j h hdr us vs]
    by (auto split: if_splits)
  with "0.prems"(1) show ?case by simp
next
  case (Suc todo)
  let ?p = "pred_at g hdr i us" and ?f = "first (on_level g i vs) None"
  have i: "i < height g a" "i < M" "i < m" using Suc.prems(4) M by simp_all
  have l: "linked g h hdr i (us @ a # vs)" using Suc.prems(3) [OF i(2)] by simp
  have pf: "fwd h i ?p \<noteq> None" using linked_pred [OF l] by simp
  have pa: "?p \<noteq> a" using pred_at_in [of g hdr i us] d by auto
  have l': "linked g h hdr i ((us @ [a]) @ vs)" using l by simp
  have "fwd h i a = Some ?f"
    using linked_pred [OF l'] i(1) by (simp add: pred_at_def on_level_def)
  moreover have "b \<in> dom h" if "?f = Some b" for b
    using first_member [OF that] on_level_subset [of g i vs] Suc.prems(2) by blast
  ultimately obtain h1 tail1 where h1:
      "unlink_loop h tail upd a i (Suc todo) = unlink_loop h1 tail1 upd a (Suc i) todo"
      "core h1 = core h" "dom h1 = dom h"
      "\<And>j x. fwd h1 j x = (if j = i \<and> x = ?p then Some ?f else fwd h j x)"
      "\<And>j x. spn h1 j x = (if j = i \<and> x = ?p then (if ?f = None then Some 0
         else Some (the (spn h i ?p) + (the (spn h i a) - 1))) else spn h j x)"
    using unlink_step [of h i ?p a ?f upd tail todo] pf Suc.prems(5) [OF i(1)] u i(3)
    by (auto simp: updates_def)
  have "linked g h1 hdr i (us @ vs)"
    by (rule linked_remove [OF l i(1) d]) (use h1(4) \<open>fwd h i a = Some ?f\<close> in auto)
  moreover have "linked g h1 hdr j xs = linked g h hdr j xs" if "j \<noteq> i" for j xs
    by (rule linked_cong) (use h1(4) that in auto)
  ultimately have lk: "\<And>j. j < M \<Longrightarrow> linked g h1 hdr j (if j < Suc i then us @ vs else us @ a # vs)"
    using Suc.prems(3) by (fastforce simp: less_Suc_eq)
  have "\<exists>h' tail'. unlink_loop h1 tail1 upd a (Suc i) todo = Inr (h', tail') \<and> core h' = core g \<and>
      dom h' = dom h1 \<and> (\<forall>j < M. linked g h' hdr j (us @ vs)) \<and> (\<forall>x. spn h' 0 x = spn h1 0 x)"
    using Suc.IH [of h1 "Suc i" tail1, OF _ _ lk] Suc.prems(1,2,4,5) h1(2,3,5) by auto
  then obtain h' tail' where r: "unlink_loop h1 tail1 upd a (Suc i) todo = Inr (h', tail')"
      "core h' = core g" "dom h' = dom h" "\<forall>j < M. linked g h' hdr j (us @ vs)"
      "\<forall>x. spn h' 0 x = spn h1 0 x"
    using h1(3) by auto
  then show ?case using h1(1,5) \<open>fwd h i a = Some ?f\<close> by auto
qed

section \<open>Backward pointers and the tail\<close>

lemma link_loop_bwd: "link_loop h upd a i n nxt = Inr (h', nxt') \<Longrightarrow> bwd h' = bwd h"
  by (induction n arbitrary: h i nxt) (auto simp: bindE_Inr_iff dest!: wr_forward_bwd)

lemma span_loop_bwd: "span_loop h upd rnk i n = Inr h' \<Longrightarrow> bwd h' = bwd h"
  by (induction n arbitrary: h i) (auto simp: bindE_Inr_iff dest!: wr_span_bwd)

lemma unlink_loop_above:
  "0 < i \<Longrightarrow> unlink_loop h tail upd a i n = Inr (h', t) \<Longrightarrow> bwd h' = bwd h \<and> t = tail"
proof (induction n arbitrary: h i tail)
  case (Suc n)
  then obtain f where f: "rd_forward h a i = Inr f" by (auto simp: bindE_Inr_iff)
  with Suc.prems obtain h1 where "unlink_loop h1 tail upd a (Suc i) n = Inr (h', t)" "bwd h1 = bwd h"
    by (cases f) (auto simp: bindE_Inr_iff dest!: wr_forward_bwd wr_span_bwd)
  with Suc.IH [of "Suc i" h1 tail] show ?case by simp
qed simp

lemma unlink_loop_bwd:
  assumes "unlink_loop h tail upd a 0 (Suc n) = Inr (h', t)" and "fwd h 0 a = Some f"
  shows "bwd h' = (case f of None \<Rightarrow> bwd h | Some b \<Rightarrow> (bwd h)(b \<mapsto> upd ! 0)) \<and>
    t = (case f of None \<Rightarrow> upd ! 0 | Some b \<Rightarrow> tail)"
proof -
  have "rd_forward h a 0 = Inr f" using assms(2) by (simp add: rd_forward_fwd)
  then obtain h1 t1 where r: "unlink_loop h1 t1 upd a (Suc 0) n = Inr (h', t)"
      "bwd h1 = (case f of None \<Rightarrow> bwd h | Some b \<Rightarrow> (bwd h)(b \<mapsto> upd ! 0))"
      "t1 = (case f of None \<Rightarrow> upd ! 0 | Some b \<Rightarrow> tail)"
    using assms(1)
    by (cases f) (auto simp: bindE_Inr_iff rd_arr_def split: if_splits
        dest!: wr_forward_bwd wr_span_bwd wr_backward_bwd)
  with unlink_loop_above [OF _ r(1)] show ?thesis by simp
qed

end
