(* ===== verification/Skip_List_Ops.thy ===== *)
theory Skip_List_Ops
  imports Skip_List_Link
begin

text \<open>
  The invariant of a skip list object and what its operations do under it: insertion and
  deletion never fault, keep the invariant, and change the sorted sequence of members exactly
  as the reference functions on association lists say.
\<close>

section \<open>The reference: sorted association lists\<close>

definition zset_insert ::
  "'k::linorder \<Rightarrow> int \<Rightarrow> ('k \<times> int) list \<Rightarrow> ('k \<times> int) list" where
  "zset_insert k v ps =
     takeWhile (\<lambda>p. zless p (k, v)) ps @ (k, v) # dropWhile (\<lambda>p. zless p (k, v)) ps"

definition zset_delete :: "'k \<Rightarrow> ('k \<times> int) list \<Rightarrow> ('k \<times> int) list" where
  "zset_delete k ps = filter (\<lambda>p. fst p \<noteq> k) ps"

lemma set_zset_insert [simp]: "set (zset_insert k v ps) = insert (k, v) (set ps)"
  unfolding zset_insert_def
  by (metis Un_insert_right list.simps(15) set_append takeWhile_dropWhile_id)

lemma length_zset_insert [simp]: "length (zset_insert k v ps) = Suc (length ps)"
  unfolding zset_insert_def
  by (metis add_Suc_right length_Cons length_append takeWhile_dropWhile_id)

section \<open>The invariant\<close>

text \<open>The spans of the bottom level: 1 to a successor, 0 at the end.\<close>

definition spans_ok :: "'k heap \<Rightarrow> addr \<Rightarrow> addr list \<Rightarrow> bool" where
  "spans_ok h hdr xs \<longleftrightarrow>
     (\<forall>a \<in> set (hdr # xs). spn h 0 a = Some (if fwd h 0 a = Some None then 0 else 1))"

text \<open>
  \<open>sl_rep s xs\<close>: the list object \<open>s\<close> holds exactly the nodes at the addresses \<open>xs\<close>, in this
  order. Nothing else is allocated, so no operation leaks a node.
\<close>

definition sl_rep :: "'k::linorder SkipList \<Rightarrow> addr list \<Rightarrow> bool" where
  "sl_rep s xs \<longleftrightarrow>
     1 \<le> sl_max_level s \<and> shape (sl_heap s) (sl_header s) (sl_max_level s) xs \<and>
     dom (sl_heap s) = set (sl_header s # xs) \<and> (\<forall>a \<in> dom (sl_heap s). a < sl_next_addr s) \<and>
     spans_ok (sl_heap s) (sl_header s) xs \<and> umap_ok (sl_node_map s) \<and>
     (\<forall>k a. umap_find (sl_node_map s) k = Some a \<longleftrightarrow>
            a \<in> set xs \<and> fst (item (sl_heap s) a) = k) \<and>
     sl_length s = of_nat (length xs) \<and>
     (\<forall>a \<in> set xs. height (sl_heap s) a \<le> sl_level s) \<and> sl_level s \<le> sl_max_level s"

definition nodes :: "'k SkipList \<Rightarrow> addr list" where
  "nodes s = collect (sl_next_addr s) (sl_heap s)
     (case fwd (sl_heap s) 0 (sl_header s) of None \<Rightarrow> None | Some p \<Rightarrow> p)"

text \<open>The members with their scores, in list order.\<close>

definition content :: "'k SkipList \<Rightarrow> ('k \<times> int) list" where
  "content s = map (item (sl_heap s)) (nodes s)"

definition members :: "'k SkipList \<Rightarrow> 'k set" where
  "members s = fst ` set (content s)"

definition sl_struct :: "'k::linorder SkipList \<Rightarrow> bool" where
  "sl_struct s \<longleftrightarrow> sl_rep s (nodes s)"

text \<open>
  The nodes, the index and the counter agree, the cache is well formed and holds members
  only. \<open>sl_inv\<close> holds between two operations and between the statements of
  \<^verbatim>\<open>InsertElement\<close> that change the list or the cache.
\<close>

definition sl_inv :: "'k::linorder SkipList \<Rightarrow> bool" where
  "sl_inv s \<longleftrightarrow> sl_struct s \<and> lru_inv (sl_lru_cache s) \<and>
     fst ` set (entries (sl_lru_cache s)) \<subseteq> members s"

lemma sl_rep_fuel:
  assumes "sl_rep s xs"
  shows "length xs < sl_next_addr s"
proof -
  have "set (sl_header s # xs) \<subseteq> {..<sl_next_addr s}"
    using assms unfolding sl_rep_def by blast
  then have "card (set (sl_header s # xs)) \<le> sl_next_addr s"
    by (metis card_lessThan card_mono finite_lessThan)
  moreover have "distinct (sl_header s # xs)" using assms by (simp add: sl_rep_def shape_def)
  ultimately show ?thesis using distinct_card [of "sl_header s # xs"] by simp
qed

lemma sl_rep_nodes: "sl_rep s xs \<Longrightarrow> nodes s = xs"
  using collect_seg [of "sl_heap s" "sl_header s" xs "sl_next_addr s"] sl_rep_fuel [of s xs]
    shape_seg0 [of "sl_heap s" "sl_header s" "sl_max_level s" xs]
  by (simp add: nodes_def sl_rep_def)

lemma sl_rep_struct: "sl_rep s xs \<Longrightarrow> sl_struct s \<and> content s = map (item (sl_heap s)) xs"
  by (simp add: sl_struct_def content_def sl_rep_nodes)

lemma sl_struct_sorted: "sl_struct s \<Longrightarrow> sorted_wrt zless (content s)"
  by (simp add: sl_struct_def sl_rep_def shape_def content_def)

text \<open>The index finds exactly the members.\<close>

lemma sl_rep_find_iff:
  "sl_rep s xs \<Longrightarrow> umap_find (sl_node_map s) k = Some a \<longleftrightarrow>
     a \<in> set xs \<and> fst (item (sl_heap s) a) = k"
  by (simp add: sl_rep_def)

lemma sl_rep_find:
  assumes "sl_rep s xs" and "umap_find (sl_node_map s) k = Some a"
  shows "a \<in> set xs" and "item (sl_heap s) a = (k, nd_score (the (sl_heap s a)))"
  using assms by (auto simp: sl_rep_def item_def)

lemma sl_struct_keys_distinct:
  assumes "sl_struct s"
  shows "distinct (map fst (content s))"
proof -
  let ?h = "sl_heap s"
  have r: "sl_rep s (nodes s)" using assms by (simp add: sl_struct_def)
  then have "distinct (nodes s)" by (simp add: sl_rep_def shape_def)
  moreover have "inj_on (\<lambda>a. fst (item ?h a)) (set (nodes s))"
  proof (rule inj_onI)
    fix a b assume "a \<in> set (nodes s)" "b \<in> set (nodes s)" "fst (item ?h a) = fst (item ?h b)"
    with sl_rep_find_iff [OF r, of "fst (item ?h a)"] show "a = b" by (metis option.inject)
  qed
  ultimately show ?thesis by (simp add: content_def distinct_map comp_def)
qed

lemma sl_struct_find:
  assumes "sl_struct s"
  shows "map_option (\<lambda>a. nd_score (the (sl_heap s a))) (umap_find (sl_node_map s) k) =
    map_of (content s) k"
proof -
  have r: "sl_rep s (nodes s)" using assms by (simp add: sl_struct_def)
  show ?thesis
  proof (cases "umap_find (sl_node_map s) k")
    case None
    then have "k \<noteq> fst (item (sl_heap s) a)" if "a \<in> set (nodes s)" for a
      using sl_rep_find_iff [OF r, of k a] that by auto
    then have "k \<notin> fst ` set (content s)"
      by (auto simp: content_def image_image)
    then have "map_of (content s) k = None" by (simp add: map_of_eq_None_iff)
    with None show ?thesis by simp
  next
    case (Some a)
    from sl_rep_find [OF r Some] have "(k, nd_score (the (sl_heap s a))) \<in> set (content s)"
      by (force simp: content_def)
    with Some sl_struct_keys_distinct [OF assms] show ?thesis by simp
  qed
qed

lemma sl_struct_find_None:
  "sl_struct s \<Longrightarrow> umap_find (sl_node_map s) k = None \<longleftrightarrow> k \<notin> members s"
  using sl_struct_find [of s k] map_of_eq_None_iff [of "content s" k]
  by (cases "umap_find (sl_node_map s) k") (auto simp: members_def)

section \<open>Random levels\<close>

lemma count_level_ge: "count_level l rs = Inr (l', rs') \<Longrightarrow> l \<le> l'"
  by (induction l rs rule: count_level.induct) (auto split: if_splits)

lemma GetRandomLevel_bounds:
  "GetRandomLevel M rs = Inr (level, rs') \<Longrightarrow> 1 \<le> M \<Longrightarrow> 1 \<le> level \<and> level \<le> M"
  using count_level_ge [of 1 rs] by (auto simp: GetRandomLevel_def bindE_Inr_iff split: if_splits)

text \<open>The loop ends as soon as one of the coming random numbers ends it.\<close>

definition draws_ok :: "nat list \<Rightarrow> bool" where
  "draws_ok rs \<longleftrightarrow> (\<exists>r \<in> set rs. r mod 65536 > 32767)"

lemma count_level_returns: "draws_ok rs \<Longrightarrow> \<exists>l' rs'. count_level l rs = Inr (l', rs')"
  by (induction l rs rule: count_level.induct) (auto simp: draws_ok_def)

lemma GetRandomLevel_returns:
  assumes "draws_ok rs"
  shows "\<exists>level rs'. GetRandomLevel M rs = Inr (level, rs')"
  using count_level_returns [OF assms, of 1] by (auto simp: GetRandomLevel_def)

section \<open>The shape after linking and after unlinking\<close>

lemma shape_insert:
  assumes s: "shape h hdr M (us @ vs)" and new: "a \<notin> dom h"
    and c: "\<And>x. core h' x = (if x = a then Some (k, v, n, n, n) else core h x)"
    and n: "1 \<le> n" "n \<le> M"
    and l: "\<And>j. j < M \<Longrightarrow> linked h' h' hdr j (us @ a # vs)"
    and lo: "\<And>x. x \<in> set us \<Longrightarrow> zless (item h x) (k, v)"
    and hi: "\<And>x. x \<in> set vs \<Longrightarrow> zless (k, v) (item h x)"
  shows "shape h' hdr M (us @ a # vs)"
    and "map (item h') (us @ a # vs) = map (item h) us @ (k, v) # map (item h) vs"
proof -
  have fresh: "a \<notin> set (hdr # us @ vs)" using new shape_dom [OF s] by blast
  have it: "item h' x = item h x" if "x \<in> set (us @ vs)" for x
    using that fresh c [of x] shape_dom [OF s, of x] by (intro item_cong) auto
  have ia: "item h' a = (k, v)" using c [of a] by (intro item_core) auto
  then show m: "map (item h') (us @ a # vs) = map (item h) us @ (k, v) # map (item h) vs"
    using it by auto
  have "sorted_wrt zless (map (item h') (us @ a # vs))"
    unfolding m using s lo hi
    by (auto simp: shape_def sorted_wrt_append dest: zless_trans)
  moreover have "\<exists>k v l. core h' hdr = Some (k, v, l, M, M)"
    using s c [of hdr] fresh by (auto simp: shape_def)
  moreover have "\<exists>k v n. core h' x = Some (k, v, n, n, n) \<and> 1 \<le> n \<and> n \<le> M"
    if "x \<in> set (us @ a # vs)" for x
    using s c [of x] n that unfolding shape_def by (cases "x = a") auto
  ultimately show "shape h' hdr M (us @ a # vs)"
    using s fresh l unfolding shape_def linked_def by (auto simp: linked_def)
qed

lemma shape_remove:
  assumes s: "shape h hdr M (us @ a # vs)"
    and c: "\<And>x. core h' x = (if x = a then None else core h x)"
    and l: "\<And>j. j < M \<Longrightarrow> linked h' h' hdr j (us @ vs)"
  shows "shape h' hdr M (us @ vs)"
    and "map (item h') (us @ vs) = map (item h) us @ map (item h) vs"
proof -
  have d: "a \<notin> set (hdr # us @ vs)" using s by (auto simp: shape_def)
  have it: "item h' x = item h x" if "x \<in> set (us @ vs)" for x
    using that d c [of x] shape_dom [OF s, of x] by (intro item_cong) auto
  then show m: "map (item h') (us @ vs) = map (item h) us @ map (item h) vs" by auto
  have "sorted_wrt zless (map (item h') (us @ vs))"
    unfolding m using s by (auto simp: shape_def sorted_wrt_append)
  moreover have "\<exists>k v l. core h' hdr = Some (k, v, l, M, M)"
    using s c [of hdr] d by (auto simp: shape_def)
  moreover have "\<exists>k v n. core h' x = Some (k, v, n, n, n) \<and> 1 \<le> n \<and> n \<le> M"
    if "x \<in> set (us @ vs)" for x
    using s c [of x] that d unfolding shape_def by (cases "x = a") auto
  ultimately show "shape h' hdr M (us @ vs)"
    using s l unfolding shape_def by (auto simp: linked_def)
qed

section \<open>Spans of the bottom level\<close>

lemma seg_end_iff:
  assumes "seg h i a us None" and "distinct (a # us)" and "x \<in> set (a # us)"
  shows "fwd h i x = Some None \<longleftrightarrow> x = last (a # us)"
  using assms
proof (induction us arbitrary: a)
  case (Cons b us)
  have "last (b # us) \<in> set (b # us)" by (rule last_in_set) simp
  then have "a \<noteq> last (b # us)" using Cons.prems(2) by auto
  with Cons show ?case by auto
qed simp

lemma spans_ok_alt:
  assumes "seg h 0 hdr xs None" and "distinct (hdr # xs)"
  shows "spans_ok h hdr xs \<longleftrightarrow>
    (\<forall>x \<in> set (hdr # xs). spn h 0 x = Some (if x = last (hdr # xs) then 0 else 1))"
  unfolding spans_ok_def by (rule ball_cong [OF refl]) (simp only: seg_end_iff [OF assms])

lemma last_split:
  "last (hdr # us @ a # vs) = (if vs = [] then a else last (hdr # us @ vs))"
  by simp

lemma spans_insert:
  assumes old: "seg h 0 hdr (us @ vs) None" "spans_ok h hdr (us @ vs)"
    and new: "seg h' 0 hdr (us @ a # vs) None" and d: "distinct (hdr # us @ a # vs)"
    and w: "\<And>x. spn h' 0 x = (if x = last (hdr # us) then Some 1
      else if x = a then spn h 0 (last (hdr # us)) else spn h 0 x)"
  shows "spans_ok h' hdr (us @ a # vs)"
proof -
  let ?p = "last (hdr # us)"
  have d': "distinct (hdr # us @ vs)" using d by auto
  have o: "\<And>x. x \<in> set (hdr # us @ vs) \<Longrightarrow>
      spn h 0 x = Some (if x = last (hdr # us @ vs) then 0 else 1)"
    using spans_ok_alt [OF old(1) d'] old(2) by blast
  have p: "?p \<in> set (hdr # us)" by (rule last_in_set) simp
  then have pl: "?p = last (hdr # us @ vs) \<longleftrightarrow> vs = []"
    using d' by (cases vs rule: rev_cases) (auto split: if_splits)
  have pa: "?p \<noteq> a" using p d by auto
  have pl': "?p \<noteq> last (hdr # us @ a # vs)" using pl pa by auto
  have "spn h' 0 x = Some (if x = last (hdr # us @ a # vs) then 0 else 1)"
    if x: "x \<in> set (hdr # us @ a # vs)" for x
  proof -
    consider "x = ?p" | "x = a" | "x \<noteq> ?p" "x \<noteq> a" "x \<in> set (hdr # us @ vs)"
      using x by auto
    then show ?thesis
    proof cases
      case 1
      with w pl' show ?thesis by simp
    next
      case 2
      have "a = last (hdr # us @ a # vs) \<longleftrightarrow> vs = []"
        using d by (auto simp: last_split split: if_splits)
      with 2 w pa p o [of ?p] pl show ?thesis by auto
    next
      case 3
      with w o [of x] pl show ?thesis unfolding last_split by (auto simp del: last.simps)
    qed
  qed
  with spans_ok_alt [OF new d] show ?thesis by blast
qed

lemma spans_remove:
  assumes old: "seg h 0 hdr (us @ a # vs) None" "spans_ok h hdr (us @ a # vs)"
    and new: "seg h' 0 hdr (us @ vs) None" and d: "distinct (hdr # us @ a # vs)"
    and w: "\<And>x. x \<noteq> a \<Longrightarrow> spn h' 0 x = (if x = last (hdr # us)
      then (if fwd h 0 a = Some None then Some 0
            else Some (the (spn h 0 x) + (the (spn h 0 a) - 1)))
      else spn h 0 x)"
  shows "spans_ok h' hdr (us @ vs)"
proof -
  let ?p = "last (hdr # us)"
  have d': "distinct (hdr # us @ vs)" using d by auto
  have o: "\<And>x. x \<in> set (hdr # us @ a # vs) \<Longrightarrow>
      spn h 0 x = Some (if x = last (hdr # us @ a # vs) then 0 else 1)"
    using spans_ok_alt [OF old(1) d] old(2) by blast
  have p: "?p \<in> set (hdr # us)" by (rule last_in_set) simp
  then have pl: "?p = last (hdr # us @ vs) \<longleftrightarrow> vs = []"
    using d' by (cases vs rule: rev_cases) (auto split: if_splits)
  have pa: "?p \<noteq> a" using p d by auto
  have al: "fwd h 0 a = Some None \<longleftrightarrow> vs = []"
    using seg_end_iff [OF old(1) d, of a] d by (auto simp: last_split split: if_splits)
  have "spn h' 0 x = Some (if x = last (hdr # us @ vs) then 0 else 1)"
    if x: "x \<in> set (hdr # us @ vs)" for x
  proof -
    have xa: "x \<noteq> a" using x d by auto
    show ?thesis
    proof (cases "x = ?p")
      case True
      have np: "?p \<noteq> last (hdr # us @ a # vs)" using pl pa by auto
      have na: "vs \<noteq> [] \<Longrightarrow> a \<noteq> last (hdr # us @ a # vs)"
        using d by (auto simp: last_split)
      show ?thesis
        using True w [OF xa] al pl o [of ?p] o [of a] p np na by (auto simp del: last.simps)
    next
      case False
      with w [OF xa] o [of x] x pl xa show ?thesis
        unfolding last_split by (auto simp del: last.simps)
    qed
  qed
  with spans_ok_alt [OF new d'] show ?thesis by blast
qed

section \<open>The heap after an insertion\<close>

lemma core_upd_new:
  "core (h(a \<mapsto> SkipListNode_new k v n)) x =
     (if x = a then Some (k, v, n, n, n) else core h x)"
  by (simp add: core_def SkipListNode_new_def)

lemma fwd_upd_other: "x \<noteq> a \<Longrightarrow> fwd (h(a := n)) i x = fwd h i x"
  by (simp add: fwd_def)

lemma spn_upd_other: "x \<noteq> a \<Longrightarrow> spn (h(a := n)) i x = spn h i x"
  by (simp add: spn_def)

lemma core_heights: "(\<And>x. x \<in> set xs \<Longrightarrow> core h' x = core h x) \<Longrightarrow> on_level h' i xs = on_level h i xs"
  by (rule on_level_cong) (simp add: height_via_core)

lemma updates_cong:
  assumes "\<And>x. x \<in> set us \<Longrightarrow> core h' x = core h x"
  shows "updates h' hdr us m upd = updates h hdr us m upd"
proof -
  have "pred_at h' hdr i us = pred_at h hdr i us" for i
    using core_heights [OF assms] by (simp add: pred_at_def)
  then show ?thesis by (simp add: updates_def)
qed

text \<open>Allocating the node does not disturb the levels.\<close>

lemma alloc_linked:
  assumes s: "shape h hdr M xs" and a: "a \<notin> set (hdr # xs)" and j: "j < M"
  shows "linked (h(a \<mapsto> n)) (h(a \<mapsto> n)) hdr j xs"
proof -
  let ?g = "h(a \<mapsto> n)"
  have "on_level ?g j xs = on_level h j xs"
    by (rule core_heights) (use a in \<open>auto simp: core_def\<close>)
  moreover have "seg ?g j hdr (on_level h j xs) None = seg h j hdr (on_level h j xs) None"
  proof (rule seg_cong)
    fix x assume "x \<in> set (hdr # on_level h j xs)"
    then have "x \<noteq> a" using a on_level_subset [of h j xs] by auto
    then show "fwd ?g j x = fwd h j x" by (rule fwd_upd_other)
  qed
  ultimately show ?thesis using s j by (simp add: shape_def linked_def)
qed

lemma alloc_pred:
  assumes "a \<notin> set us"
  shows "pred_at (h(a \<mapsto> n)) hdr i us = pred_at h hdr i us"
proof -
  have "on_level (h(a \<mapsto> n)) i us = on_level h i us"
    by (rule core_heights) (use assms in \<open>auto simp: core_def\<close>)
  then show ?thesis by (simp add: pred_at_def)
qed

lemma set_backward_ok:
  assumes "\<And>b. nx = Some b \<Longrightarrow> b \<in> dom h"
  shows "\<exists>h' tail'. (case nx of None \<Rightarrow> Inr (h, Some a)
      | Some b \<Rightarrow> bindE (wr_backward h b (Some a)) (\<lambda>h. Inr (h, tail))) = Inr (h', tail') \<and>
    core h' = core h \<and> dom h' = dom h \<and> fwd h' = fwd h \<and> spn h' = spn h"
proof (cases nx)
  case (Some b)
  with wr_backward_ok [of b h "Some a"] assms show ?thesis by fastforce
qed simp

text \<open>From the search's result to the finished heap, through all four steps of the code.\<close>

lemma insert_heap_link:
  fixes k :: "'k::linorder" and v :: int
  assumes s: "shape h hdr M (us @ vs)" and a: "a \<notin> set (hdr # us @ vs)"
    and u: "updates h hdr us M upd" and n: "1 \<le> n" "n \<le> M"
    and dm: "set (hdr # us @ vs) \<subseteq> dom h"
  defines "g \<equiv> h(a \<mapsto> SkipListNode_new k v n)"
  shows "\<exists>h1 nx h2 tail' h3. link_loop g upd a 0 n None = Inr (h1, Some nx) \<and>
    (case nx of None \<Rightarrow> Inr (h1, Some a)
     | Some b \<Rightarrow> bindE (wr_backward h1 b (Some a)) (\<lambda>h. Inr (h, tail))) = Inr (h2, tail') \<and>
    wr_backward h2 a bp = Inr h3 \<and> core h3 = core g \<and> dom h3 = dom g \<and> spn h3 = spn g \<and>
    (\<forall>j < M. linked g h3 hdr j (us @ a # vs)) \<and> nx = first (on_level g (n - 1) vs) None"
proof -
  have d: "distinct (hdr # us @ a # vs)" using s a by (auto simp: shape_def)
  have ht: "height g a = n" by (simp add: g_def height_via_core core_upd_new)
  have "updates g hdr us M upd"
    using u alloc_pred [of a us h] a by (simp add: updates_def g_def)
  moreover have "linked g g hdr j (us @ vs)" if "j < M" for j
    unfolding g_def by (rule alloc_linked [OF s a that])
  ultimately obtain h1 where h1: "link_loop g upd a 0 n None =
        Inr (h1, Some (first (on_level g (n - 1) vs) None))"
      "core h1 = core g" "dom h1 = dom g" "spn h1 = spn g"
      "\<forall>j < M. linked g h1 hdr j (us @ a # vs)"
    using link_loop_ok [of g g hdr us a vs M 0 n upd None] d ht n by auto
  let ?nx = "first (on_level g (n - 1) vs) None"
  have "b \<in> dom h1" if "?nx = Some b" for b
    using first_member [OF that] on_level_subset [of g "n - 1" vs] dm h1(3)
    by (auto simp: g_def)
  then obtain h2 tail' where h2: "(case ?nx of None \<Rightarrow> Inr (h1, Some a)
      | Some b \<Rightarrow> bindE (wr_backward h1 b (Some a)) (\<lambda>h. Inr (h, tail))) = Inr (h2, tail')"
      "core h2 = core h1" "dom h2 = dom h1" "fwd h2 = fwd h1" "spn h2 = spn h1"
    using set_backward_ok [of ?nx h1 a tail] by blast
  moreover obtain h3 where h3: "wr_backward h2 a bp = Inr h3" "core h3 = core h2"
      "dom h3 = dom h2" "fwd h3 = fwd h2" "spn h3 = spn h2"
    using wr_backward_ok [of a h2 bp] h2(3) h1(3) by (auto simp: g_def)
  moreover have "linked g h3 hdr j (us @ a # vs)" if "j < M" for j
    using h1(5) that linked_cong [of h3 j h1 g hdr] h2(4) h3(4) by simp
  ultimately show ?thesis using h1 by auto
qed

lemma insert_heap_spans:
  fixes k :: "'k::linorder" and v :: int
  assumes s: "shape h hdr M (us @ vs)" and a: "a \<notin> set (hdr # us @ vs)"
    and sp: "spans_ok h hdr (us @ vs)" and u: "updates h hdr us M upd" and rnk: "length rnk = M"
    and n: "1 \<le> n" "n \<le> M"
  defines "g \<equiv> h(a \<mapsto> SkipListNode_new k v n)"
  assumes h3: "core h3 = core g" "spn h3 = spn g" "\<And>j. j < M \<Longrightarrow> linked g h3 hdr j (us @ a # vs)"
  shows "\<exists>h4. span_loop h3 upd rnk 0 n = Inr h4 \<and> core h4 = core g \<and> dom h4 = dom h3 \<and>
    (\<forall>j < M. linked h4 h4 hdr j (us @ a # vs)) \<and> spans_ok h4 hdr (us @ a # vs)"
proof -
  have d: "distinct (hdr # us @ a # vs)" and M: "0 < M" using s a n by (auto simp: shape_def)
  have ht: "height g a = n" by (simp add: g_def height_via_core core_upd_new)
  have pg: "pred_at g hdr j us = pred_at h hdr j us" for j
    unfolding g_def using a by (intro alloc_pred) auto
  have pa: "pred_at h hdr j us \<noteq> a" for j using pred_at_in [of h hdr j us] a by auto
  have "fwd h3 j (pred_at g hdr j us) = Some (Some a)" if "j < n" for j
    using linked_pred [OF h3(3), of j] that n ht by (simp add: on_level_Cons)
  moreover have "spn h3 j a \<noteq> None \<and> spn h3 j (pred_at g hdr j us) \<noteq> None" if "j < n" for j
  proof
    show "spn h3 j a \<noteq> None"
      using that by (simp add: h3(2) g_def spn_def SkipListNode_new_def)
    have "spn h j (pred_at h hdr j us) \<noteq> None"
      by (rule shape_spn [OF s]) (use that n pred_at_mono [of j j h hdr us] in auto)
    then show "spn h3 j (pred_at g hdr j us) \<noteq> None"
      using pa pg by (simp add: h3(2)) (simp add: g_def spn_upd_other)
  qed
  moreover have "updates g hdr us M upd" using u pg by (simp add: updates_def)
  ultimately obtain h4 where h4: "span_loop h3 upd rnk 0 n = Inr h4" "core h4 = core g"
      "dom h4 = dom h3" "fwd h4 = fwd h3"
      "\<And>x. spn h4 0 x = (if x = pred_at g hdr 0 us then Some 1
             else if x = a then spn h3 0 (pred_at g hdr 0 us) else spn h3 0 x)"
    using span_loop_ok [of h3 g a hdr us 0 n M upd rnk] h3(1) n rnk a by auto
  have l4: "linked h4 h4 hdr j (us @ a # vs)" if "j < M" for j
  proof -
    have "on_level h4 j (us @ a # vs) = on_level g j (us @ a # vs)"
      by (rule core_heights) (simp add: h4(2))
    moreover have "linked g h4 hdr j (us @ a # vs)"
      using h3(3) [OF that] h4(4) linked_cong [of h4 j h3 g hdr "us @ a # vs"] by simp
    ultimately show ?thesis unfolding linked_def by (simp only:)
  qed
  have "0 < height h4 x" if "x \<in> set (us @ a # vs)" for x
  proof (cases "x = a")
    case True
    then show ?thesis using height_core [OF h4(2)] ht n by simp
  next
    case False
    then have "height h4 x = height h x"
      using h4(2) by (simp add: height_via_core g_def core_upd_new)
    with False that show ?thesis using shape_height [OF s, of x] by auto
  qed
  then have "on_level h4 0 (us @ a # vs) = us @ a # vs"
    unfolding on_level_def by (intro filter_True) blast
  then have "seg h4 0 hdr (us @ a # vs) None" using l4 [OF M] by (simp add: linked_def)
  moreover have p0: "pred_at h hdr 0 us = last (hdr # us)"
    using on_level_0 [OF s, of us] by (simp add: pred_at_def)
  moreover have "spn h4 0 x = (if x = last (hdr # us) then Some 1
      else if x = a then spn h 0 (last (hdr # us)) else spn h 0 x)" for x
    using h4(5) [of x] pa [of 0] unfolding pg p0 h3(2) by (auto simp: g_def spn_upd_other)
  ultimately have "spans_ok h4 hdr (us @ a # vs)"
    using spans_insert [OF shape_seg0 [OF s M] sp _ d] by blast
  with h4(1-3) l4 show ?thesis by blast
qed

section \<open>Insertion of a new member\<close>

lemma sl_rep_not_member:
  assumes "sl_rep s xs" and "umap_find (sl_node_map s) k = None" and "a \<in> set xs"
  shows "fst (item (sl_heap s) a) \<noteq> k"
  using sl_rep_find_iff [OF assms(1), of k a] assms(2,3) by auto

text \<open>The object that results, once its heap is known.\<close>

lemma insert_rep:
  fixes t :: "addr option"
  assumes r: "sl_rep s (us @ vs)" and none: "umap_find (sl_node_map s) k = None"
    and lo: "\<And>x. x \<in> set us \<Longrightarrow> zless (item (sl_heap s) x) (k, v)"
    and hi: "\<And>x. x \<in> set vs \<Longrightarrow> zless (k, v) (item (sl_heap s) x)"
    and n: "1 \<le> n" "n \<le> sl_max_level s" and a: "a = sl_next_addr s"
    and c: "\<And>x. core h' x = (if x = a then Some (k, v, n, n, n) else core (sl_heap s) x)"
    and l: "\<And>j. j < sl_max_level s \<Longrightarrow> linked h' h' (sl_header s) j (us @ a # vs)"
    and sp: "spans_ok h' (sl_header s) (us @ a # vs)"
  defines "s' \<equiv> s\<lparr>sl_tail := t, sl_length := sl_length s + 1, sl_level := max n (sl_level s),
    sl_node_map := umap_insert k a (sl_node_map s), sl_heap := h', sl_next_addr := Suc a\<rparr>"
  shows "sl_rep s' (us @ a # vs)"
    and "map (item h') (us @ a # vs) =
      map (item (sl_heap s)) us @ (k, v) # map (item (sl_heap s)) vs"
proof -
  let ?h = "sl_heap s"
  have s: "shape ?h (sl_header s) (sl_max_level s) (us @ vs)" using r by (simp add: sl_rep_def)
  have new: "a \<notin> dom ?h" using r a by (auto simp: sl_rep_def)
  note sh = shape_insert [OF s new c n l lo hi]
  show m: "map (item h') (us @ a # vs) = map (item ?h) us @ (k, v) # map (item ?h) vs"
    by (rule sh(2))
  have ia: "item h' a = (k, v)" using c [of a] by (intro item_core) auto
  have ix: "item h' x = item ?h x" "x \<noteq> a" if "x \<in> set (us @ vs)" for x
  proof -
    show "x \<noteq> a" using that new shape_dom [OF s, of x] by auto
    then show "item h' x = item ?h x"
      using c [of x] shape_dom [OF s, of x] that by (intro item_cong) auto
  qed
  have "umap_find (sl_node_map s') k' = Some b \<longleftrightarrow> b \<in> set (us @ a # vs) \<and> fst (item h' b) = k'" for k' b
  proof (cases "b = a")
    case True
    then have "a \<notin> set (us @ vs)" using ix(2) by blast
    then have "umap_find (sl_node_map s) k' \<noteq> Some a"
      using sl_rep_find_iff [OF r, of k' a] by blast
    with True none ia show ?thesis by (auto simp: s'_def)
  next
    case False
    then have "b \<in> set (us @ a # vs) \<longleftrightarrow> b \<in> set (us @ vs)" by auto
    with False none ix(1) [of b] sl_rep_find_iff [OF r, of k' b] sl_rep_not_member [OF r none, of b]
    show ?thesis by (auto simp: s'_def)
  qed
  moreover have "dom h' = insert a (dom ?h)"
  proof -
    have "x \<in> dom h' \<longleftrightarrow> x \<in> insert a (dom ?h)" for x
      using c [of x] by (cases "x = a") (simp_all add: dom_core)
    then show ?thesis by blast
  qed
  moreover from this have "\<forall>b \<in> dom h'. b < Suc a"
    using r a by (auto simp: sl_rep_def less_Suc_eq)
  moreover have "height h' x \<le> max n (sl_level s)" if "x \<in> set (us @ a # vs)" for x
  proof (cases "x = a")
    case False
    then have "height h' x = height ?h x" using c [of x] by (simp add: height_via_core)
    moreover have "height ?h x \<le> sl_level s" using r that False by (simp add: sl_rep_def)
    ultimately show ?thesis by simp
  qed (use c [of a] in \<open>simp add: height_via_core\<close>)
  ultimately show "sl_rep s' (us @ a # vs)"
    using r sh(1) n a sp by (auto simp: sl_rep_def s'_def)
qed

text \<open>
  A new node goes between the nodes before it and the nodes after it. The successor whose
  backward pointer is set is the one on the top level of the new node.
\<close>

lemma insert_new_links:
  fixes s :: "'k::linorder SkipList" and ele :: 'k and score :: int and xs :: "addr list"
  assumes r: "sl_rep s xs" and none: "umap_find (sl_node_map s) ele = None"
    and lv: "GetRandomLevel (sl_max_level s) rs = Inr (level, rs')"
  defines "us \<equiv> before (sl_heap s) (ele, score) xs" and "vs \<equiv> onward (sl_heap s) (ele, score) xs"
  defines "tallest \<equiv> first (on_level (sl_heap s) (level - 1) vs) None" and "a \<equiv> sl_next_addr s"
  shows "\<exists>s'. insert_new rs ele score s = Inr (rs', s') \<and> sl_rep s' (us @ a # vs) \<and>
    map (item (sl_heap s')) (us @ a # vs) = zset_insert ele score (map (item (sl_heap s)) xs) \<and>
    sl_lru_cache s' = sl_lru_cache s \<and> sl_header s' = sl_header s \<and>
    sl_tail s' = (case tallest of None \<Rightarrow> Some a | Some b \<Rightarrow> sl_tail s) \<and>
    bwd (sl_heap s') = (case tallest of None \<Rightarrow> bwd (sl_heap s) | Some b \<Rightarrow> (bwd (sl_heap s))(b \<mapsto> Some a))
      (a \<mapsto> if us = [] then None else Some (last us))"
proof -
  let ?h = "sl_heap s" and ?hdr = "sl_header s" and ?M = "sl_max_level s" and ?a = "sl_next_addr s"
  have xs: "xs = us @ vs" by (simp add: us_def vs_def)
  have s: "shape ?h ?hdr ?M (us @ vs)" and M: "1 \<le> ?M" and sp: "spans_ok ?h ?hdr (us @ vs)"
    and dm: "set (?hdr # us @ vs) \<subseteq> dom ?h" and a: "?a \<notin> set (?hdr # us @ vs)"
    using r xs by (auto simp: sl_rep_def)
  have n: "1 \<le> level" "level \<le> ?M" using GetRandomLevel_bounds [OF lv M] by simp_all
  obtain upd rnk where se: "insert_search ?a ?h ?M score ele ?hdr (replicate ?M None) (replicate ?M 0)
        = Inr (pred_at ?h ?hdr 0 us, upd, rnk)"
      and u: "updates ?h ?hdr us ?M upd" and rnk: "length rnk = ?M"
  proof -
    have "\<exists>upd rnk. insert_search ?a ?h ?M score ele ?hdr (replicate ?M None) (replicate ?M 0)
        = Inr (if ?M = 0 then ?hdr else pred_at ?h ?hdr 0 us, upd, rnk) \<and>
      updates ?h ?hdr us ?M upd \<and> length upd = ?M \<and> length rnk = ?M \<and>
      (\<forall>i. ?M \<le> i \<longrightarrow> upd ! i = replicate ?M None ! i)"
      unfolding us_def
      by (rule insert_search_ok [OF s [folded xs] sl_rep_fuel [OF r]]) simp_all
    with M that show thesis by auto
  qed
  let ?g = "?h(?a \<mapsto> SkipListNode_new ele score level)"
  let ?cur = "pred_at ?h ?hdr 0 us"
  obtain h1 nx h2 t h3 where h: "link_loop ?g upd ?a 0 level None = Inr (h1, Some nx)"
      "(case nx of None \<Rightarrow> Inr (h1, Some ?a)
        | Some b \<Rightarrow> bindE (wr_backward h1 b (Some ?a)) (\<lambda>h. Inr (h, sl_tail s))) = Inr (h2, t)"
      "wr_backward h2 ?a (if ?cur \<noteq> ?hdr then Some ?cur else None) = Inr h3"
      "core h3 = core ?g" "spn h3 = spn ?g" "\<forall>j < ?M. linked ?g h3 ?hdr j (us @ ?a # vs)"
      "nx = first (on_level ?g (level - 1) vs) None"
    using insert_heap_link [OF s a u n dm] by blast
  obtain h4 where h4: "span_loop h3 upd rnk 0 level = Inr h4" "core h4 = core ?g"
      "\<forall>j < ?M. linked h4 h4 ?hdr j (us @ ?a # vs)" "spans_ok h4 ?hdr (us @ ?a # vs)"
    using insert_heap_spans [OF s a sp u rnk n h(4,5)] h(6) by blast
  let ?s = "s\<lparr>sl_tail := t, sl_length := sl_length s + 1, sl_level := max level (sl_level s),
    sl_node_map := umap_insert ele ?a (sl_node_map s), sl_heap := h4, sl_next_addr := Suc ?a\<rparr>"
  have new: "insert_new rs ele score s = Inr (rs', ?s)"
    using se lv h(1,2,3) h4(1) by (simp add: insert_new_def Let_def)
  have lo: "zless (item ?h x) (ele, score)" if "x \<in> set us" for x
    using that by (simp add: us_def before_zless)
  have hi: "zless (ele, score) (item ?h x)" if "x \<in> set vs" for x
  proof (rule zless_total)
    show "item ?h x \<noteq> (ele, score)"
      using sl_rep_not_member [OF r none, of x] that xs by auto
    show "\<not> zless (item ?h x) (ele, score)"
      using that r onward_not_zless [of ?h xs x] by (simp add: vs_def sl_rep_def shape_def)
  qed
  have c: "core h4 x = (if x = ?a then Some (ele, score, level, level, level) else core ?h x)" for x
    using h4(2) by (simp add: core_upd_new)
  note rep = insert_rep [OF r [unfolded xs] none lo hi n refl c h4(3) [rule_format] h4(4)]
  have "zset_insert ele score (map (item ?h) xs) = map (item ?h) us @ (ele, score) # map (item ?h) vs"
    by (simp add: zset_insert_def us_def vs_def before_def onward_def takeWhile_map dropWhile_map comp_def)
  with rep(2) have m: "map (item h4) (us @ ?a # vs) = zset_insert ele score (map (item ?h) xs)"
    by (rule trans [OF _ sym])
  have "on_level ?g (level - 1) vs = on_level ?h (level - 1) vs"
    using a by (intro on_level_cong) (auto simp: height_def)
  then have nx: "nx = tallest" using h(7) by (simp add: tallest_def)
  have "on_level ?h 0 us = us" by (rule on_level_0 [OF s]) auto
  moreover have "?hdr \<notin> set us" using s by (simp add: shape_def)
  ultimately have cur: "(if ?cur \<noteq> ?hdr then Some ?cur else None) = (if us = [] then None else Some (last us))"
    by (cases us rule: rev_cases) (auto simp: pred_at_def)
  have "bwd h1 = (bwd ?h)(?a \<mapsto> None)"
    using link_loop_bwd [OF h(1)] by (simp add: SkipListNode_new_def)
  moreover have "t = (case tallest of None \<Rightarrow> Some ?a | Some b \<Rightarrow> sl_tail s)"
    "bwd h2 = (case tallest of None \<Rightarrow> bwd h1 | Some b \<Rightarrow> (bwd h1)(b \<mapsto> Some ?a))"
    using h(2) nx by (auto simp: bindE_Inr_iff split: option.splits dest!: wr_backward_bwd)
  moreover have "bwd h4 = (bwd h2)(?a \<mapsto> if us = [] then None else Some (last us))"
    using span_loop_bwd [OF h4(1)] wr_backward_bwd [OF h(3)] cur by simp
  ultimately have bt: "t = (case tallest of None \<Rightarrow> Some ?a | Some b \<Rightarrow> sl_tail s)"
    "bwd h4 = (case tallest of None \<Rightarrow> bwd ?h | Some b \<Rightarrow> (bwd ?h)(b \<mapsto> Some ?a))
      (?a \<mapsto> if us = [] then None else Some (last us))"
    by (auto split: option.splits)
  show ?thesis
    unfolding a_def by (rule exI [of _ ?s]) (use new rep(1) m bt in simp)
qed

lemma insert_new_ok:
  assumes "sl_rep s xs" and "umap_find (sl_node_map s) ele = None"
    and "GetRandomLevel (sl_max_level s) rs = Inr (level, rs')"
  shows "\<exists>s' ys. insert_new rs ele score s = Inr (rs', s') \<and> sl_rep s' ys \<and>
    map (item (sl_heap s')) ys = zset_insert ele score (map (item (sl_heap s)) xs) \<and>
    sl_lru_cache s' = sl_lru_cache s"
  using insert_new_links [OF assms, of score] by blast

section \<open>Deletion\<close>

lemma delete_heap_ok:
  assumes s: "shape h hdr M (us @ a # vs)" and sp: "spans_ok h hdr (us @ a # vs)"
    and u: "updates h hdr us m upd" and m: "height h a \<le> m" "m \<le> M" and M: "0 < M"
  shows "\<exists>h1 t. unlink_loop h tail upd a 0 (height h a) = Inr (h1, t) \<and> h1 a \<noteq> None \<and>
    (\<forall>x. core (h1(a := None)) x = (if x = a then None else core h x)) \<and>
    (\<forall>j < M. linked (h1(a := None)) (h1(a := None)) hdr j (us @ vs)) \<and>
    spans_ok (h1(a := None)) hdr (us @ vs)"
proof -
  have d: "distinct (hdr # us @ a # vs)" using s by (simp add: shape_def)
  have ha: "1 \<le> height h a" "height h a \<le> M" using shape_height [OF s, of a] by auto
  have "set vs \<subseteq> dom h"
  proof
    fix x assume "x \<in> set vs"
    then show "x \<in> dom h" by (intro shape_dom [OF s]) simp
  qed
  moreover have "linked h h hdr j (if j < 0 then us @ vs else us @ a # vs)" if "j < M" for j
    using s that by (simp add: shape_def linked_def)
  moreover have "spn h j a \<noteq> None \<and> spn h j (pred_at h hdr j us) \<noteq> None" if "j < height h a" for j
  proof
    have j: "j < M" using that ha by simp
    show "spn h j a \<noteq> None" by (rule shape_spn [OF s j]) (use that in \<open>simp add: on_level_Cons\<close>)
    show "spn h j (pred_at h hdr j us) \<noteq> None"
      by (rule shape_spn [OF s j]) (use pred_at_mono [of j j h hdr us] in auto)
  qed
  ultimately obtain h1 t where h1: "unlink_loop h tail upd a 0 (height h a) = Inr (h1, t)"
      "core h1 = core h" "dom h1 = dom h" "\<forall>j < M. linked h h1 hdr j (us @ vs)"
      "\<And>x. spn h1 0 x = (if x = pred_at h hdr 0 us
         then (if fwd h 0 a = Some None then Some 0
               else Some (the (spn h 0 x) + (the (spn h 0 a) - 1))) else spn h 0 x)"
    using unlink_loop_ok [of h h hdr us a vs M 0 "height h a" m upd tail] d m u ha by auto
  let ?h = "h1(a := None)"
  have c: "core ?h x = (if x = a then None else core h x)" for x
    using fun_cong [OF h1(2), of x] by (simp add: core_def)
  have l: "linked ?h ?h hdr j (us @ vs)" if "j < M" for j
  proof -
    have "on_level ?h j (us @ vs) = on_level h j (us @ vs)"
      by (rule core_heights) (use c d in auto)
    moreover have "seg ?h j hdr ys None = seg h1 j hdr ys None" if "set ys \<subseteq> set (us @ vs)" for ys
    proof (rule seg_cong)
      fix x assume "x \<in> set (hdr # ys)"
      then have "x \<noteq> a" using that d by auto
      then show "fwd ?h j x = fwd h1 j x" by (rule fwd_upd_other)
    qed
    ultimately show ?thesis
      using h1(4) that on_level_subset [of h j "us @ vs"] unfolding linked_def by metis
  qed
  have "on_level h 0 us = us" by (rule on_level_0 [OF s]) auto
  then have p0: "pred_at h hdr 0 us = last (hdr # us)" by (simp add: pred_at_def)
  have "spans_ok ?h hdr (us @ vs)"
  proof (rule spans_remove [OF shape_seg0 [OF s M] sp shape_seg0 [OF shape_remove(1) [OF s c l] M] d])
    show "spn ?h 0 x = (if x = last (hdr # us) then (if fwd h 0 a = Some None then Some 0
        else Some (the (spn h 0 x) + (the (spn h 0 a) - 1))) else spn h 0 x)" if "x \<noteq> a" for x
      using h1(5) [of x] that unfolding p0 by (simp add: spn_upd_other)
  qed
  moreover have "h1 a \<noteq> None" using h1(3) shape_dom [OF s, of a] by auto
  ultimately show ?thesis using h1(1) c l by blast
qed

lemma delete_rep:
  fixes t :: "addr option" and c :: "('k::linorder, int) LRUCache"
  assumes r: "sl_rep s (us @ a # vs)"
    and core: "\<And>x. core h' x = (if x = a then None else core (sl_heap s) x)"
    and l: "\<And>j. j < sl_max_level s \<Longrightarrow> linked h' h' (sl_header s) j (us @ vs)"
    and sp: "spans_ok h' (sl_header s) (us @ vs)" and k: "k = fst (item (sl_heap s) a)"
  defines "s' \<equiv> s\<lparr>sl_tail := t, sl_length := sl_length s - 1,
    sl_node_map := umap_erase k (sl_node_map s), sl_lru_cache := c, sl_heap := h'\<rparr>"
  shows "sl_rep s' (us @ vs)"
    and "map (item h') (us @ vs) = zset_delete k (map (item (sl_heap s)) (us @ a # vs))"
proof -
  let ?h = "sl_heap s"
  have s: "shape ?h (sl_header s) (sl_max_level s) (us @ a # vs)" using r by (simp add: sl_rep_def)
  have d: "distinct (sl_header s # us @ a # vs)" using s by (simp add: shape_def)
  note sh = shape_remove [OF s core l]
  have kx: "fst (item ?h x) \<noteq> k" if "x \<in> set (us @ vs)" for x
  proof -
    have "x \<noteq> a" using that d by auto
    moreover have "umap_find (sl_node_map s) k = Some a" using sl_rep_find_iff [OF r] k by auto
    ultimately show ?thesis using sl_rep_find_iff [OF r, of k x] that by auto
  qed
  have "filter (\<lambda>p. fst p \<noteq> k) (map (item ?h) ys) = map (item ?h) ys" if "set ys \<subseteq> set (us @ vs)" for ys
    using kx that by (intro filter_True) auto
  then show "map (item h') (us @ vs) = zset_delete k (map (item ?h) (us @ a # vs))"
    using sh(2) k by (simp add: zset_delete_def)
  have ix: "item h' x = item ?h x" if "x \<in> set (us @ vs)" for x
    using sh(2) that unfolding map_append [symmetric] map_eq_conv by blast
  have "umap_find (sl_node_map s') k' = Some b \<longleftrightarrow> b \<in> set (us @ vs) \<and> fst (item h' b) = k'" for k' b
    using sl_rep_find_iff [OF r, of k' b] kx [of b] ix [of b] k d by (cases "b = a") (auto simp: s'_def)
  moreover have "dom h' = dom ?h - {a}"
  proof -
    have "x \<in> dom h' \<longleftrightarrow> x \<in> dom ?h - {a}" for x
      using core [of x] by (simp add: dom_core)
    then show ?thesis by blast
  qed
  moreover from this have "dom h' = set (sl_header s # us @ vs)"
    using r d by (auto simp: sl_rep_def)
  moreover have "height h' x \<le> sl_level s" if "x \<in> set (us @ vs)" for x
  proof -
    have "height h' x = height ?h x" using core [of x] that d by (auto simp: height_via_core)
    with r that show ?thesis by (simp add: sl_rep_def)
  qed
  ultimately show "sl_rep s' (us @ vs)"
    using r sh(1) sp by (auto simp: sl_rep_def s'_def)
qed

lemma sl_rep_split:
  assumes "sl_rep s xs" and "umap_find (sl_node_map s) k = Some a"
  obtains us vs where "xs = us @ a # vs"
  using sl_rep_find(1) [OF assms] split_list that by fast

text \<open>What the deletion of a member does, with the heap before and after it.\<close>

lemma DeleteElementInLock_unlinks:
  assumes r: "sl_rep s (us @ a # vs)" and f: "umap_find (sl_node_map s) ele = Some a"
    and lr: "lru_remove ele (sl_lru_cache s) = Inr c"
  shows "\<exists>upd h1 t. DeleteElementInLock ele s = Inr (1, s\<lparr>sl_tail := t, sl_length := sl_length s - 1,
      sl_node_map := umap_erase ele (sl_node_map s), sl_lru_cache := c, sl_heap := h1(a := None)\<rparr>) \<and>
    unlink_loop (sl_heap s) (sl_tail s) upd a 0 (height (sl_heap s) a) = Inr (h1, t) \<and>
    upd ! 0 = Some (pred_at (sl_heap s) (sl_header s) 0 us) \<and>
    (\<forall>x. core (h1(a := None)) x = (if x = a then None else core (sl_heap s) x)) \<and>
    (\<forall>j < sl_max_level s. linked (h1(a := None)) (h1(a := None)) (sl_header s) j (us @ vs)) \<and>
    spans_ok (h1(a := None)) (sl_header s) (us @ vs) \<and> ele = fst (item (sl_heap s) a)"
proof -
  let ?h = "sl_heap s" and ?hdr = "sl_header s" and ?M = "sl_max_level s"
  have s: "shape ?h ?hdr ?M (us @ a # vs)" and sp: "spans_ok ?h ?hdr (us @ a # vs)" and M: "0 < ?M"
    using r by (auto simp: sl_rep_def)
  have ha: "height ?h a \<le> sl_level s" "sl_level s \<le> ?M" "1 \<le> height ?h a"
    using r shape_height [OF s, of a] by (auto simp: sl_rep_def)
  obtain nd where nd: "?h a = Some nd" using shape_dom [OF s, of a] by auto
  have it: "item ?h a = (ele, nd_score nd)" using sl_rep_find(2) [OF r f] nd by simp
  have fl: "found_level ?M (height ?h a) (sl_level s) = ?M" "found_level ?M (height ?h a) 0 + 1 = height ?h a"
    using ha by (simp_all add: found_level_def)
  obtain upd where se: "delete_search (sl_next_addr s) ?h ?M (sl_level s) (nd_score nd) ele ?hdr None ?M
        (replicate ?M None) = Inr (Some (Some a), found_level ?M (height ?h a) 0, upd)"
      and u: "updates ?h ?hdr us (sl_level s) upd"
    using delete_search_ok [OF s sl_rep_fuel [OF r] it ha(2), of "replicate ?M None" ?hdr None] fl(1) ha
    by auto
  obtain h1 t where h1: "unlink_loop ?h (sl_tail s) upd a 0 (height ?h a) = Inr (h1, t)" "h1 a \<noteq> None"
      and c: "\<And>x. core (h1(a := None)) x = (if x = a then None else core ?h x)"
      and l: "\<And>j. j < ?M \<Longrightarrow> linked (h1(a := None)) (h1(a := None)) ?hdr j (us @ vs)"
      and sp': "spans_ok (h1(a := None)) ?hdr (us @ vs)"
    using delete_heap_ok [OF s sp u ha(1,2) M, of "sl_tail s"] by blast
  have "unlink_loop ?h (sl_tail s) upd a 0 (found_level ?M (height ?h a) 0 + 1) = Inr (h1, t)"
    using h1(1) by (simp only: fl(2))
  then have "DeleteElementInLock ele s = Inr (1, s\<lparr>sl_tail := t, sl_length := sl_length s - 1,
      sl_node_map := umap_erase ele (sl_node_map s), sl_lru_cache := c, sl_heap := h1(a := None)\<rparr>)"
    using f nd se h1(2) lr
    by (simp add: DeleteElementInLock_def rd_node_def deref_def delete_node_def del: unlink_loop.simps)
  moreover have "upd ! 0 = Some (pred_at ?h ?hdr 0 us)" using u ha by (simp add: updates_def)
  ultimately show ?thesis using h1(1) c l sp' it by (metis fst_conv)
qed

lemma DeleteElementInLock_rep:
  assumes r: "sl_rep s xs" and f: "umap_find (sl_node_map s) ele = Some a"
    and lr: "lru_remove ele (sl_lru_cache s) = Inr c"
  shows "\<exists>s' ys. DeleteElementInLock ele s = Inr (1, s') \<and> sl_rep s' ys \<and>
    map (item (sl_heap s')) ys = zset_delete ele (map (item (sl_heap s)) xs) \<and>
    sl_lru_cache s' = c"
proof -
  obtain us vs where xs: "xs = us @ a # vs" by (rule sl_rep_split [OF r f])
  note r' = r [unfolded xs]
  obtain h1 t where d: "DeleteElementInLock ele s = Inr (1, s\<lparr>sl_tail := t, sl_length := sl_length s - 1,
      sl_node_map := umap_erase ele (sl_node_map s), sl_lru_cache := c, sl_heap := h1(a := None)\<rparr>)"
    (is "_ = Inr (1, ?s)")
    and c: "\<And>x. core (h1(a := None)) x = (if x = a then None else core (sl_heap s) x)"
    and l: "\<And>j. j < sl_max_level s \<Longrightarrow> linked (h1(a := None)) (h1(a := None)) (sl_header s) j (us @ vs)"
    and sp: "spans_ok (h1(a := None)) (sl_header s) (us @ vs)" and e: "ele = fst (item (sl_heap s) a)"
    using DeleteElementInLock_unlinks [OF r' f lr] by blast
  note rep = delete_rep [OF r' c l sp e]
  have "sl_heap ?s = h1(a := None)" "sl_lru_cache ?s = c" by simp_all
  with d rep xs show ?thesis by metis
qed

lemma DeleteElement_eq: "DeleteElement ele s = DeleteElementInLock ele s"
  by (simp add: DeleteElement_def DeleteElementInLock_def deref_def split: option.split)

end
