(* ===== verification/Skip_List_Spec.thy ===== *)
theory Skip_List_Spec
  imports Skip_List_Ops
begin

text \<open>
  The public operations of the skip list, coupled with the cache: what they return, what they
  make of the members and of the recency order, and that they keep the invariant.
\<close>

section \<open>The cache of a list\<close>

abbreviation recents :: "'k SkipList \<Rightarrow> ('k \<times> int) list" where
  "recents s \<equiv> entries (sl_lru_cache s)"

abbreviation doomed :: "'k SkipList \<Rightarrow> 'k list" where
  "doomed s \<equiv> delete_keys (sl_lru_cache s)"

abbreviation limit :: "'k SkipList \<Rightarrow> int" where
  "limit s \<equiv> capacity (sl_lru_cache s)"

lemma sl_struct_lru [simp]: "sl_struct (s\<lparr>sl_lru_cache := c\<rparr>) = sl_struct s"
  by (simp add: sl_struct_def sl_rep_def nodes_def)

lemma content_lru [simp]: "content (s\<lparr>sl_lru_cache := c\<rparr>) = content s"
  by (simp add: content_def nodes_def)

lemma members_lru [simp]: "members (s\<lparr>sl_lru_cache := c\<rparr>) = members s"
  by (simp add: members_def)

lemma filter_keys_absent: "k \<notin> fst ` set ps \<Longrightarrow> filter (\<lambda>p. fst p \<noteq> k) ps = ps"
  by (rule filter_True) auto

lemma zset_delete_keys: "fst ` set (zset_delete k ps) = fst ` set ps - {k}"
  by (auto simp: zset_delete_def)

section \<open>Deletion\<close>

lemma DeleteElementInLock_spec:
  assumes "sl_inv s"
  shows "\<exists>s'. DeleteElementInLock k s = Inr (if k \<in> members s then 1 else 0, s') \<and> sl_inv s' \<and>
    content s' = zset_delete k (content s) \<and>
    recents s' = filter (\<lambda>p. fst p \<noteq> k) (recents s) \<and> doomed s' = doomed s \<and> limit s' = limit s"
proof (cases "k \<in> members s")
  case True
  have r: "sl_rep s (nodes s)" using assms by (simp add: sl_inv_def sl_struct_def)
  obtain a where f: "umap_find (sl_node_map s) k = Some a"
    using True assms sl_struct_find_None [of s k] by (auto simp: sl_inv_def)
  obtain c where c: "lru_remove k (sl_lru_cache s) = Inr c" "lru_inv c"
      "entries c = filter (\<lambda>p. fst p \<noteq> k) (recents s)" "delete_keys c = doomed s" "capacity c = limit s"
    using lru_remove_spec [of "sl_lru_cache s" k] assms by (auto simp: sl_inv_def)
  obtain s' ys where s': "DeleteElementInLock k s = Inr (1, s')" "sl_rep s' ys"
      "map (item (sl_heap s')) ys = zset_delete k (content s)" "sl_lru_cache s' = c"
    using DeleteElementInLock_rep [OF r f c(1)] by (auto simp: content_def)
  have con: "sl_struct s'" "content s' = zset_delete k (content s)"
    using sl_rep_struct [OF s'(2)] s'(3) by auto
  have "fst ` set (recents s') \<subseteq> members s'"
    using assms c(3) s'(4) con(2) by (auto simp: sl_inv_def members_def zset_delete_keys)
  with s' con c True show ?thesis by (simp add: sl_inv_def)
next
  case False
  then have "DeleteElementInLock k s = Inr (0, s)"
    using assms sl_struct_find_None [of s k] by (simp add: sl_inv_def DeleteElementInLock_def)
  moreover have "zset_delete k (content s) = content s"
    using False unfolding zset_delete_def members_def by (rule filter_keys_absent)
  moreover have "filter (\<lambda>p. fst p \<noteq> k) (recents s) = recents s"
    using False assms by (intro filter_keys_absent) (auto simp: sl_inv_def)
  ultimately show ?thesis using assms False by simp
qed

lemma evict_keys_spec:
  assumes "sl_inv s"
  shows "\<exists>s'. evict_keys ks s = Inr s' \<and> sl_inv s' \<and>
    content s' = filter (\<lambda>p. fst p \<notin> set ks) (content s) \<and>
    recents s' = filter (\<lambda>p. fst p \<notin> set ks) (recents s) \<and> doomed s' = doomed s \<and>
    limit s' = limit s"
  using assms
proof (induction ks arbitrary: s)
  case Nil
  then show ?case by (simp add: evict_keys_def)
next
  case (Cons k ks)
  obtain s1 where s1: "DeleteElementInLock k s = Inr (if k \<in> members s then 1 else 0, s1)" "sl_inv s1"
      "content s1 = zset_delete k (content s)"
      "recents s1 = filter (\<lambda>p. fst p \<noteq> k) (recents s)" "doomed s1 = doomed s" "limit s1 = limit s"
    using DeleteElementInLock_spec [OF Cons.prems] by blast
  obtain s2 where s2: "evict_keys ks s1 = Inr s2" "sl_inv s2"
      "content s2 = filter (\<lambda>p. fst p \<notin> set ks) (content s1)"
      "recents s2 = filter (\<lambda>p. fst p \<notin> set ks) (recents s1)" "doomed s2 = doomed s" "limit s2 = limit s"
    using Cons.IH [OF s1(2)] s1(5,6) by auto
  have "evict_keys (k # ks) s = Inr s2"
    using s1(1) s2(1) by (simp add: evict_keys_def)
  with s1 s2 show ?case by (auto simp: zset_delete_def conj_commute intro: filter_cong)
qed

lemmas DeleteElement_spec = DeleteElementInLock_spec [folded DeleteElement_eq]

section \<open>Lookup\<close>

lemma SearchElement_spec:
  assumes "sl_inv s"
  shows "\<exists>s'. SearchElement k s = Inr (case map_of (content s) k of None \<Rightarrow> -1 | Some v \<Rightarrow> v, s') \<and>
    sl_inv s' \<and> content s' = content s \<and>
    recents s' = (if k \<in> members s then touch k (recents s) else recents s) \<and>
    doomed s' = doomed s \<and> limit s' = limit s"
proof (cases "umap_find (sl_node_map s) k")
  case None
  have st: "sl_struct s" using assms by (simp add: sl_inv_def)
  then have "k \<notin> members s" using None sl_struct_find_None by blast
  moreover have "map_of (content s) k = None"
    using sl_struct_find [OF st, of k] None by simp
  ultimately show ?thesis using assms None by (simp add: SearchElement_def)
next
  case (Some a)
  have st: "sl_struct s" using assms by (simp add: sl_inv_def)
  then have r: "sl_rep s (nodes s)" by (simp add: sl_struct_def)
  have k: "k \<in> members s" using sl_struct_find_None [OF st, of k] Some by auto
  have "a \<in> dom (sl_heap s)" using sl_rep_find(1) [OF r Some] r by (auto simp: sl_rep_def)
  then obtain nd where nd: "sl_heap s a = Some nd" by auto
  have v: "map_of (content s) k = Some (nd_score nd)"
    using sl_struct_find [OF st, of k] Some nd by simp
  obtain w c where c: "lru_get k (sl_lru_cache s) = Inr (w, c)" "lru_inv c"
      "entries c = touch k (recents s)" "delete_keys c = doomed s" "capacity c = limit s"
    using lru_get_spec [of "sl_lru_cache s" k] assms by (auto simp: sl_inv_def)
  have "SearchElement k s = Inr (nd_score nd, s\<lparr>sl_lru_cache := c\<rparr>)"
    using Some nd c(1) by (simp add: SearchElement_def rd_node_def)
  moreover have "sl_inv (s\<lparr>sl_lru_cache := c\<rparr>)"
    using assms c by (simp add: sl_inv_def lc.touch_keys)
  ultimately show ?thesis using v c k by simp
qed

section \<open>Insertion\<close>

lemma insert_new_spec:
  assumes "sl_struct s" and "k \<notin> members s"
    and "GetRandomLevel (sl_max_level s) rs = Inr (l, rs')"
  shows "\<exists>s'. insert_new rs k v s = Inr (rs', s') \<and> sl_struct s' \<and>
    content s' = zset_insert k v (content s) \<and> sl_lru_cache s' = sl_lru_cache s"
proof -
  have r: "sl_rep s (nodes s)" using assms(1) by (simp add: sl_struct_def)
  have "umap_find (sl_node_map s) k = None"
    using sl_struct_find_None [OF assms(1), of k] assms(2) by simp
  from insert_new_ok [OF r this assms(3), of v] obtain s' ys where
    "insert_new rs k v s = Inr (rs', s')" "sl_rep s' ys"
    "map (item (sl_heap s')) ys = zset_insert k v (content s)" "sl_lru_cache s' = sl_lru_cache s"
    by (auto simp: content_def)
  with sl_rep_struct [of s' ys] show ?thesis by auto
qed

text \<open>
  Telling the cache about a member, with the evictions this causes. It holds for every
  \<open>stale\<close>: a read of the erased cell that faults is the fault of the call, and whatever key
  it yields otherwise, no pointer goes wrong.
\<close>

lemma store_keys_subset: "fst ` set (store cap k v xs) \<subseteq> insert k (fst ` set xs)"
  by (auto simp: store_def dest: in_set_butlastD)

lemma register_lru_spec:
  assumes "sl_inv s" and "k \<in> members s"
    and "read_all stale (victims (limit s) k (recents s)) = Inr ks"
  shows "\<exists>s'. register_lru stale k v s = Inr s' \<and> sl_inv s' \<and>
    content s' = filter (\<lambda>p. fst p \<notin> set (doomed s @ ks)) (content s) \<and>
    recents s' = filter (\<lambda>p. fst p \<notin> set (doomed s @ ks)) (store (limit s) k v (recents s)) \<and>
    doomed s' = [] \<and> limit s' = limit s"
proof -
  obtain c where c: "lru_put stale k v (sl_lru_cache s) = Inr c" "lru_inv c"
      "entries c = store (limit s) k v (recents s)" "delete_keys c = doomed s @ ks"
      "capacity c = limit s"
    using lru_put_spec [OF _ assms(3), of v] assms(1) by (auto simp: sl_inv_def)
  have "fst ` set (entries c) \<subseteq> members s"
    using c(3) store_keys_subset [of "limit s" k v "recents s"] assms by (auto simp: sl_inv_def)
  then have "sl_inv (s\<lparr>sl_lru_cache := c\<rparr>)" using assms(1) c(2) by (simp add: sl_inv_def)
  from evict_keys_spec [OF this, of "delete_keys c"] obtain t where t:
    "evict_keys (delete_keys c) (s\<lparr>sl_lru_cache := c\<rparr>) = Inr t" "sl_inv t"
    "content t = filter (\<lambda>p. fst p \<notin> set (doomed s @ ks)) (content s)"
    "recents t = filter (\<lambda>p. fst p \<notin> set (doomed s @ ks)) (store (limit s) k v (recents s))"
    "limit t = limit s"
    using c(3-5) by auto
  let ?t = "t\<lparr>sl_lru_cache := (sl_lru_cache t)\<lparr>delete_keys := []\<rparr>\<rparr>"
  have "sl_inv ?t" "recents ?t = recents t"
    using t(2) by (auto simp: sl_inv_def lru_inv_def entries_def)
  moreover have "register_lru stale k v s = Inr ?t" using c(1) t(1) by (simp add: register_lru_def)
  ultimately show ?thesis using t by auto
qed

lemma register_lru_fault:
  assumes "sl_inv s" and "read_all stale (victims (limit s) k (recents s)) = Inl e"
  shows "register_lru stale k v s = Inl e"
  using lru_put_fault [OF _ assms(2), of v] assms(1) by (simp add: register_lru_def sl_inv_def)

text \<open>What no operation changes.\<close>

lemma DeleteElementInLock_frame:
  "DeleteElementInLock k s = Inr (r, s') \<Longrightarrow>
     sl_max_level s' = sl_max_level s \<and> sl_header s' = sl_header s"
  by (auto simp: DeleteElementInLock_def bindE_Inr_iff split: option.splits prod.splits)

lemma InsertElement_same_spec:
  assumes "sl_inv s" and "map_of (content s) k = Some v"
  shows "\<exists>s'. InsertElement stale rs k v s = Inr (0, rs, s') \<and> sl_inv s' \<and>
    content s' = content s \<and> recents s' = touch k (recents s) \<and> doomed s' = doomed s \<and>
    limit s' = limit s"
proof -
  have st: "sl_struct s" using assms by (simp add: sl_inv_def)
  then have r: "sl_rep s (nodes s)" by (simp add: sl_struct_def)
  obtain a where a: "umap_find (sl_node_map s) k = Some a" "nd_score (the (sl_heap s a)) = v"
    using sl_struct_find [OF st, of k] assms(2) by auto
  have "a \<in> dom (sl_heap s)" using sl_rep_find(1) [OF r a(1)] r by (auto simp: sl_rep_def)
  then obtain nd where nd: "sl_heap s a = Some nd" by auto
  obtain w c where c: "lru_get k (sl_lru_cache s) = Inr (w, c)" "lru_inv c"
      "entries c = touch k (recents s)" "delete_keys c = doomed s" "capacity c = limit s"
    using lru_get_spec [of "sl_lru_cache s" k] assms by (auto simp: sl_inv_def)
  have "InsertElement stale rs k v s = Inr (0, rs, s\<lparr>sl_lru_cache := c\<rparr>)"
    using a nd c(1) by (simp add: InsertElement_def rd_node_def)
  moreover have "sl_inv (s\<lparr>sl_lru_cache := c\<rparr>)"
    using assms c by (simp add: sl_inv_def lc.touch_keys)
  ultimately show ?thesis using c by simp
qed

text \<open>
  The cached entry, if any, that storing \<open>k\<close> anew evicts (\<open>k\<close> itself has left the cache
  then); its key is read from the erased cell.
\<close>

definition evicted :: "'k \<Rightarrow> 'k SkipList \<Rightarrow> ('k \<times> int) list" where
  "evicted k s = victims (limit s) k (filter (\<lambda>p. fst p \<noteq> k) (recents s))"

lemma evicted_alt:
  "evicted k s =
     (let r = filter (\<lambda>p. fst p \<noteq> k) (recents s) in if is_full (limit s) r then [last r] else [])"
  by (auto simp: evicted_def victims_def Let_def)

lemma evicted_unbounded [simp]: "limit s = 0 \<Longrightarrow> evicted k s = []"
  by (simp add: evicted_alt is_full_def)

text \<open>Up to the call of the cache, an insertion that changes the list never faults.\<close>

lemma InsertElement_links:
  assumes inv: "sl_inv s" and v: "map_of (content s) k \<noteq> Some v"
    and lv: "GetRandomLevel (sl_max_level s) rs = Inr (l, rs')"
  shows "\<exists>t. InsertElement stale rs k v s =
      bindE (register_lru stale k v t) (\<lambda>s'. Inr (if k \<in> members s then 0 else 1, rs', s')) \<and>
    sl_inv t \<and> content t = zset_insert k v (zset_delete k (content s)) \<and> k \<in> members t \<and>
    recents t = filter (\<lambda>p. fst p \<noteq> k) (recents s) \<and> doomed t = doomed s \<and> limit t = limit s"
proof -
  have st: "sl_struct s" using inv by (simp add: sl_inv_def)
  then have r: "sl_rep s (nodes s)" by (simp add: sl_struct_def)
  obtain s1 where s1: "DeleteElementInLock k s = Inr (if k \<in> members s then 1 else 0, s1)" "sl_inv s1"
      "content s1 = zset_delete k (content s)"
      "recents s1 = filter (\<lambda>p. fst p \<noteq> k) (recents s)" "doomed s1 = doomed s" "limit s1 = limit s"
    using DeleteElementInLock_spec [OF inv] by blast
  have lv1: "GetRandomLevel (sl_max_level s1) rs = Inr (l, rs')"
    using lv DeleteElementInLock_frame [OF s1(1)] by simp
  have k1: "k \<notin> members s1" using s1(3) by (simp add: members_def zset_delete_keys)
  obtain t where t: "insert_new rs k v s1 = Inr (rs', t)" "sl_struct t"
      "content t = zset_insert k v (content s1)" "sl_lru_cache t = sl_lru_cache s1"
    using insert_new_spec [OF _ k1 lv1, of v] s1(2) by (auto simp: sl_inv_def)
  have "sl_inv t" using s1(2) t by (auto simp: sl_inv_def members_def)
  moreover have "InsertElement stale rs k v s =
      bindE (register_lru stale k v t) (\<lambda>s'. Inr (if k \<in> members s then 0 else 1, rs', s'))"
  proof (cases "umap_find (sl_node_map s) k")
    case None
    then have "k \<notin> members s" using sl_struct_find_None [OF st] by blast
    moreover from None s1(1) have "s1 = s" by (simp add: DeleteElementInLock_def)
    ultimately show ?thesis using None t(1) by (simp add: InsertElement_def)
  next
    case (Some a)
    then have k: "k \<in> members s" using sl_struct_find_None [OF st, of k] by auto
    have "a \<in> dom (sl_heap s)" using sl_rep_find(1) [OF r Some] r by (auto simp: sl_rep_def)
    then obtain nd where nd: "sl_heap s a = Some nd" by auto
    then have "nd_score nd \<noteq> v" using sl_struct_find [OF st, of k] Some v by auto
    with Some nd k s1(1) t(1) show ?thesis by (simp add: InsertElement_def rd_node_def)
  qed
  ultimately show ?thesis using s1 t by (auto simp: members_def)
qed

lemma InsertElement_changes_spec:
  assumes inv: "sl_inv s" and v: "map_of (content s) k \<noteq> Some v"
    and lv: "GetRandomLevel (sl_max_level s) rs = Inr (l, rs')"
    and ev: "read_all stale (evicted k s) = Inr ks"
  shows "\<exists>s'. InsertElement stale rs k v s = Inr (if k \<in> members s then 0 else 1, rs', s') \<and>
    sl_inv s' \<and> content s' = filter (\<lambda>p. fst p \<notin> set (doomed s @ ks))
      (zset_insert k v (zset_delete k (content s))) \<and>
    recents s' = filter (\<lambda>p. fst p \<notin> set (doomed s @ ks))
      (store (limit s) k v (filter (\<lambda>p. fst p \<noteq> k) (recents s))) \<and>
    doomed s' = [] \<and> limit s' = limit s"
proof -
  obtain t where t: "InsertElement stale rs k v s =
      bindE (register_lru stale k v t) (\<lambda>s'. Inr (if k \<in> members s then 0 else 1, rs', s'))"
    "sl_inv t" "content t = zset_insert k v (zset_delete k (content s))" "k \<in> members t"
    "recents t = filter (\<lambda>p. fst p \<noteq> k) (recents s)" "doomed t = doomed s" "limit t = limit s"
    using InsertElement_links [OF inv v lv, of stale] by blast
  with ev have "read_all stale (victims (limit t) k (recents t)) = Inr ks"
    by (simp add: evicted_def)
  from register_lru_spec [OF t(2,4) this, of v] t show ?thesis by auto
qed

lemma InsertElement_changes_fault:
  assumes inv: "sl_inv s" and v: "map_of (content s) k \<noteq> Some v"
    and lv: "GetRandomLevel (sl_max_level s) rs = Inr (l, rs')"
    and ev: "read_all stale (evicted k s) = Inl e"
  shows "InsertElement stale rs k v s = Inl e"
  using InsertElement_links [OF inv v lv, of stale] register_lru_fault [of _ stale k e v] ev
  by (auto simp: evicted_def)

section \<open>Capacity and construction\<close>

lemma SkipList_SetMaxMemory_spec:
  assumes "sl_inv s" and "0 \<le> m" and "read_all stale (rev (trimmed m (recents s))) = Inr ks"
  shows "\<exists>s'. SkipList_SetMaxMemory stale m s = Inr (0, s') \<and> sl_inv s' \<and> content s' = content s \<and>
    recents s' = trim m (recents s) \<and> doomed s' = doomed s @ ks \<and> limit s' = m"
proof -
  obtain c where c: "set_capacity stale m (sl_lru_cache s) = Inr (0, c)" "lru_inv c"
      "entries c = trim m (recents s)" "capacity c = m" "delete_keys c = doomed s @ ks"
    using set_capacity_spec [OF _ assms(2,3)] assms(1) by (auto simp: sl_inv_def)
  have "set (trim m (recents s)) \<subseteq> set (recents s)"
    by (auto simp: trim_def dest: in_set_takeD)
  then have "sl_inv (s\<lparr>sl_lru_cache := c\<rparr>)" using assms(1) c by (auto simp: sl_inv_def)
  then show ?thesis using c by (simp add: SkipList_SetMaxMemory_def)
qed

lemma SkipList_SetMaxMemory_fault:
  assumes "sl_inv s" and "0 \<le> m" and "read_all stale (rev (trimmed m (recents s))) = Inl e"
  shows "SkipList_SetMaxMemory stale m s = Inl e"
  using set_capacity_fault [OF _ assms(2,3)] assms(1)
  by (simp add: SkipList_SetMaxMemory_def sl_inv_def)

lemma SkipList_new_rep:
  assumes "1 \<le> M"
  shows "sl_rep \<lparr>sl_header = 0, sl_tail = None, sl_length = 0, sl_level = 0, sl_max_level = M,
      sl_max_capacity = mc, sl_node_map = [], sl_lru_cache = c,
      sl_heap = [0 \<mapsto> SkipListNode_new k0 g M], sl_next_addr = 1\<rparr> []"
  using assms
  by (auto simp: sl_rep_def shape_def spans_ok_def on_level_def core_def fwd_def spn_def
      SkipListNode_new_def)

lemma SkipList_new_spec:
  assumes "1 \<le> M"
  shows "\<exists>s. SkipList_new stale k0 g M cap = Inr s \<and> sl_inv s \<and> content s = [] \<and> recents s = [] \<and>
    doomed s = [] \<and> limit s = (if cap < 0 then 0 else cap) \<and> sl_max_level s = M"
proof -
  let ?c0 = "LRUCache_new 0 :: ('a, int) LRUCache"
  have "\<exists>r c. set_capacity stale cap ?c0 = Inr (r, c) \<and> lru_inv c \<and> entries c = [] \<and>
      delete_keys c = [] \<and> capacity c = (if cap < 0 then 0 else cap)"
  proof (cases "cap < 0")
    case True
    then show ?thesis using lru_new_inv [of 0] lru_new_entries [of 0]
      by (auto simp: set_capacity_def) (simp_all add: LRUCache_new_def)
  next
    case False
    have "trim cap [] = ([] :: ('a \<times> int) list)" "trimmed cap [] = ([] :: ('a \<times> int) list)"
      by (simp_all add: trim_def trimmed_def)
    moreover have "delete_keys ?c0 = []" by (simp add: LRUCache_new_def)
    ultimately show ?thesis
      using set_capacity_spec [OF lru_new_inv [of 0], of cap stale "[]"] False by auto
  qed
  then obtain r c where c: "set_capacity stale cap ?c0 = Inr (r, c)" "lru_inv c" "entries c = []"
      "delete_keys c = []" "capacity c = (if cap < 0 then 0 else cap)" by blast
  let ?s = "\<lparr>sl_header = 0, sl_tail = None, sl_length = 0, sl_level = 0, sl_max_level = M,
      sl_max_capacity = cap, sl_node_map = [], sl_lru_cache = c,
      sl_heap = [0 \<mapsto> SkipListNode_new k0 g M], sl_next_addr = 1\<rparr>"
  have "SkipList_new stale k0 g M cap = Inr ?s" using c(1) by (simp add: SkipList_new_def)
  moreover have "sl_struct ?s" "content ?s = []"
    using sl_rep_struct [OF SkipList_new_rep [OF assms]] by auto
  ultimately show ?thesis using c by (auto simp: sl_inv_def members_def)
qed

lemma SkipList_Length_spec:
  assumes "sl_struct s" and "length (content s) < 2 ^ 31"
  shows "SkipList_Length s = int (length (content s))"
proof -
  have "sl_length s = of_nat (length (content s))"
    using assms(1) by (simp add: sl_struct_def sl_rep_def content_def)
  then show ?thesis
    using assms(2) by (simp add: SkipList_Length_def signed_of_nat signed_take_bit_int_eq_self)
qed

end
