(* ===== verification/Zset.thy ===== *)
theory Zset
  imports Skip_List_Spec
begin

text \<open>
  What the server relies on when it uses a skip list as a sorted set: the four operations
  behind \<^verbatim>\<open>ZADD\<close>, \<^verbatim>\<open>ZREM\<close>, \<^verbatim>\<open>ZSCORE\<close> and \<^verbatim>\<open>ZCARD\<close> behave like operations on a
  finite map from members to scores. The interface is the locale \<open>zset_store\<close>; every sequence
  of operations of an implementation gives the replies of the map.
\<close>

section \<open>Sequences of operations\<close>

datatype 'k zop = Add 'k int | Rem 'k | Score 'k | Card

text \<open>The reference: a map and the reply of one operation on it.\<close>

fun map_step :: "'k zop \<Rightarrow> ('k \<rightharpoonup> int) \<Rightarrow> int \<times> ('k \<rightharpoonup> int)" where
  "map_step (Add k v) m = (if m k = None then 1 else 0, m(k \<mapsto> v))"
| "map_step (Rem k) m = (if m k = None then 0 else 1, m(k := None))"
| "map_step (Score k) m = (case m k of None \<Rightarrow> -1 | Some v \<Rightarrow> v, m)"
| "map_step Card m = (int (card (dom m)), m)"

fun map_run :: "'k zop list \<Rightarrow> ('k \<rightharpoonup> int) \<Rightarrow> int list \<times> ('k \<rightharpoonup> int)" where
  "map_run [] m = ([], m)"
| "map_run (x # xs) m =
     (let (r, m1) = map_step x m; (rs, m2) = map_run xs m1 in (r # rs, m2))"

text \<open>Members that no operation names keep their scores.\<close>

lemma map_run_frame:
  assumes "\<And>v. Add k v \<notin> set xs" and "Rem k \<notin> set xs"
  shows "snd (map_run xs m) k = m k"
  using assms
proof (induction xs arbitrary: m)
  case (Cons x xs)
  have "snd (map_step x m) k = m k" using Cons.prems by (cases x) auto
  with Cons show ?case by (simp add: split_def Let_def)
qed simp

text \<open>The same sequence on an implementation; \<open>rs\<close> are the random numbers still to come.\<close>

fun store_step ::
  "('r \<Rightarrow> 'k \<Rightarrow> int \<Rightarrow> 's \<Rightarrow> (int \<times> 'r \<times> 's) res) \<Rightarrow> ('k \<Rightarrow> 's \<Rightarrow> (int \<times> 's) res) \<Rightarrow>
   ('k \<Rightarrow> 's \<Rightarrow> (int \<times> 's) res) \<Rightarrow> ('s \<Rightarrow> int) \<Rightarrow> 'k zop \<Rightarrow> 'r \<Rightarrow> 's \<Rightarrow>
   (int \<times> 'r \<times> 's) res" where
  "store_step add del sco crd (Add k v) rs s = add rs k v s"
| "store_step add del sco crd (Rem k) rs s = bindE (del k s) (\<lambda>(r, s'). Inr (r, rs, s'))"
| "store_step add del sco crd (Score k) rs s = bindE (sco k s) (\<lambda>(r, s'). Inr (r, rs, s'))"
| "store_step add del sco crd Card rs s = Inr (crd s, rs, s)"

fun store_run ::
  "('r \<Rightarrow> 'k \<Rightarrow> int \<Rightarrow> 's \<Rightarrow> (int \<times> 'r \<times> 's) res) \<Rightarrow> ('k \<Rightarrow> 's \<Rightarrow> (int \<times> 's) res) \<Rightarrow>
   ('k \<Rightarrow> 's \<Rightarrow> (int \<times> 's) res) \<Rightarrow> ('s \<Rightarrow> int) \<Rightarrow> 'k zop list \<Rightarrow> 'r \<Rightarrow> 's \<Rightarrow>
   (int list \<times> 'r \<times> 's) res" where
  "store_run add del sco crd [] rs s = Inr ([], rs, s)"
| "store_run add del sco crd (x # xs) rs s =
     bindE (store_step add del sco crd x rs s) (\<lambda>(r, rs1, s1).
     bindE (store_run add del sco crd xs rs1 s1) (\<lambda>(out, rs2, s2).
     Inr (r # out, rs2, s2)))"

section \<open>The interface\<close>

text \<open>
  \<open>view\<close> is the map a state stands for, \<open>budget\<close> the number of insertions that the random
  numbers to come still serve. \<open>crd\<close> is exact below \<open>2\<^sup>3\<^sup>1\<close> members.
\<close>

locale zset_store =
  fixes inv :: "'s \<Rightarrow> bool"
    and view :: "'s \<Rightarrow> 'k \<rightharpoonup> int"
    and budget :: "'r \<Rightarrow> nat"
    and add :: "'r \<Rightarrow> 'k \<Rightarrow> int \<Rightarrow> 's \<Rightarrow> (int \<times> 'r \<times> 's) res"
    and del :: "'k \<Rightarrow> 's \<Rightarrow> (int \<times> 's) res"
    and sco :: "'k \<Rightarrow> 's \<Rightarrow> (int \<times> 's) res"
    and crd :: "'s \<Rightarrow> int"
  assumes fin: "inv s \<Longrightarrow> finite (dom (view s))"
    and add_law: "inv s \<Longrightarrow> n < budget rs \<Longrightarrow>
      \<exists>rs' s'. add rs k v s = Inr (if view s k = None then 1 else 0, rs', s') \<and> inv s' \<and>
        view s' = (view s)(k \<mapsto> v) \<and> n \<le> budget rs'"
    and del_law: "inv s \<Longrightarrow>
      \<exists>s'. del k s = Inr (if view s k = None then 0 else 1, s') \<and> inv s' \<and>
        view s' = (view s)(k := None)"
    and sco_law: "inv s \<Longrightarrow>
      \<exists>s'. sco k s = Inr (case view s k of None \<Rightarrow> -1 | Some v \<Rightarrow> v, s') \<and> inv s' \<and>
        view s' = view s"
    and crd_law: "inv s \<Longrightarrow> card (dom (view s)) < 2 ^ 31 \<Longrightarrow> crd s = int (card (dom (view s)))"
begin

lemma step_refines:
  assumes "inv s" and "n < budget rs" and "card (dom (view s)) < 2 ^ 31"
  shows "\<exists>rs' s'. store_step add del sco crd x rs s = Inr (fst (map_step x (view s)), rs', s') \<and>
    inv s' \<and> view s' = snd (map_step x (view s)) \<and> n \<le> budget rs'"
proof (cases x)
  case (Add k v)
  with add_law [OF assms(1,2), of k v] show ?thesis by auto
next
  case (Rem k)
  with del_law [OF assms(1), of k] assms(2) show ?thesis by fastforce
next
  case (Score k)
  with sco_law [OF assms(1), of k] assms(2) show ?thesis by fastforce
next
  case Card
  with crd_law [OF assms(1,3)] assms(1,2) show ?thesis by auto
qed

lemma step_card:
  "inv s \<Longrightarrow> card (dom (snd (map_step x (view s)))) \<le> Suc (card (dom (view s)))"
  using fin [of s] by (cases x) (auto simp: card_insert_if card_Diff1_le le_SucI)

theorem run_refines:
  assumes "inv s" and "length xs \<le> budget rs" and "card (dom (view s)) + length xs < 2 ^ 31"
  shows "\<exists>rs' s'. store_run add del sco crd xs rs s = Inr (fst (map_run xs (view s)), rs', s') \<and>
    inv s' \<and> view s' = snd (map_run xs (view s))"
  using assms
proof (induction xs arbitrary: rs s)
  case Nil
  then show ?case by simp
next
  case (Cons x xs)
  obtain r m where x: "map_step x (view s) = (r, m)" by force
  obtain rs1 s1 where 1: "store_step add del sco crd x rs s = Inr (r, rs1, s1)" "inv s1" "view s1 = m"
      "length xs \<le> budget rs1"
    using step_refines [OF Cons.prems(1), of "length xs" rs x] Cons.prems(2,3) x by auto
  have "card (dom (view s1)) \<le> Suc (card (dom (view s)))"
    using step_card [OF Cons.prems(1), of x] 1(3) x by simp
  with Cons.IH [OF 1(2,4)] Cons.prems(3) 1(3) obtain rs2 s2 where
    "store_run add del sco crd xs rs1 s1 = Inr (fst (map_run xs m), rs2, s2)" "inv s2"
    "view s2 = snd (map_run xs m)"
    by auto
  with 1(1) x show ?case by (auto simp: split_def Let_def)
qed

end

section \<open>The skip list is such a store\<close>

text \<open>An unbounded list (\<^verbatim>\<open>maxmemory\<close> 0) with no pending deletion.\<close>

definition zset_ok :: "'k::linorder SkipList \<Rightarrow> bool" where
  "zset_ok s \<longleftrightarrow> sl_inv s \<and> limit s = 0 \<and> doomed s = []"

definition zset_view :: "'k SkipList \<Rightarrow> 'k \<rightharpoonup> int" where
  "zset_view s = map_of (content s)"

text \<open>How many of the coming random numbers end a level choice.\<close>

definition stops :: "nat list \<Rightarrow> nat" where
  "stops rs = length (filter (\<lambda>r. r mod 65536 > 32767) rs)"

lemma count_level_stops:
  "n < stops rs \<Longrightarrow> \<exists>l' rs'. count_level l rs = Inr (l', rs') \<and> n \<le> stops rs'"
  by (induction l rs rule: count_level.induct) (auto simp: stops_def)

lemma GetRandomLevel_stops:
  "n < stops rs \<Longrightarrow> \<exists>l' rs'. GetRandomLevel M rs = Inr (l', rs') \<and> n \<le> stops rs'"
  using count_level_stops [of n rs 1] by (auto simp: GetRandomLevel_def)

lemma map_of_zset_insert:
  assumes "k \<notin> fst ` set ps"
  shows "map_of (zset_insert k v ps) = (map_of ps)(k \<mapsto> v)"
proof -
  let ?us = "takeWhile (\<lambda>p. zless p (k, v)) ps" and ?vs = "dropWhile (\<lambda>p. zless p (k, v)) ps"
  have "k \<notin> dom (map_of ?us)"
    using assms by (auto simp: dom_map_of_conv_image_fst dest: set_takeWhileD)
  then have "map_of ?vs ++ [k \<mapsto> v] ++ map_of ?us = (map_of ?vs ++ map_of ?us)(k \<mapsto> v)"
    by (auto simp: map_add_def fun_eq_iff split: option.splits)
  moreover have "map_of ?vs ++ map_of ?us = map_of ps"
    by (metis map_of_append takeWhile_dropWhile_id)
  ultimately show ?thesis by (simp add: zset_insert_def)
qed

lemma map_of_zset_delete: "map_of (zset_delete k ps) = (map_of ps)(k := None)"
  by (induction ps) (auto simp: zset_delete_def fun_eq_iff)

lemma zset_view_None: "zset_view s k = None \<longleftrightarrow> k \<notin> members s"
  by (simp add: zset_view_def members_def map_of_eq_None_iff)

lemma zset_card:
  assumes "zset_ok s"
  shows "card (dom (zset_view s)) = length (content s)"
proof -
  have "distinct (map fst (content s))"
    using assms by (simp add: zset_ok_def sl_inv_def sl_struct_keys_distinct)
  then show ?thesis
    by (metis distinct_card dom_map_of_conv_image_fst length_map list.set_map zset_view_def)
qed

lemma zset_add:
  assumes "zset_ok s" and "n < stops rs"
  shows "\<exists>rs' s'. InsertElement stale rs k v s = Inr (if zset_view s k = None then 1 else 0, rs', s') \<and>
    zset_ok s' \<and> zset_view s' = (zset_view s)(k \<mapsto> v) \<and> n \<le> stops rs'"
proof (cases "map_of (content s) k = Some v")
  case True
  from InsertElement_same_spec [OF _ True, of stale rs] assms show ?thesis
    by (auto simp: zset_ok_def zset_view_def True fun_upd_idem)
next
  case False
  have inv: "sl_inv s" using assms by (simp add: zset_ok_def)
  obtain l rs' where lv: "GetRandomLevel (sl_max_level s) rs = Inr (l, rs')" "n \<le> stops rs'"
    using GetRandomLevel_stops [OF assms(2)] by blast
  have "read_all stale (evicted k s) = Inr []"
    using assms(1) by (simp add: zset_ok_def)
  from InsertElement_changes_spec [OF inv False lv(1) this] assms(1)
  obtain s' where s': "InsertElement stale rs k v s = Inr (if k \<in> members s then 0 else 1, rs', s')"
      "sl_inv s'" "content s' = zset_insert k v (zset_delete k (content s))" "doomed s' = []"
      "limit s' = limit s"
    by (auto simp: zset_ok_def)
  moreover have "zset_view s' = (zset_view s)(k \<mapsto> v)"
    by (simp add: zset_view_def s'(3) map_of_zset_insert map_of_zset_delete zset_delete_keys)
  ultimately show ?thesis
    using assms(1) lv(2) by (simp add: zset_ok_def zset_view_None)
qed

interpretation sl: zset_store zset_ok zset_view stops "InsertElement stale" DeleteElement
  SearchElement SkipList_Length for stale :: "'k::linorder \<times> int \<Rightarrow> 'k res"
proof
  fix s :: "'k::linorder SkipList" and k
  assume ok: "zset_ok s"
  then have inv: "sl_inv s" by (simp add: zset_ok_def)
  show "finite (dom (zset_view s))" by (simp add: zset_view_def finite_dom_map_of)
  show "\<exists>s'. DeleteElement k s = Inr (if zset_view s k = None then 0 else 1, s') \<and> zset_ok s' \<and>
      zset_view s' = (zset_view s)(k := None)"
    using DeleteElement_spec [OF inv, of k] ok
    by (auto simp: zset_ok_def zset_view_None) (auto simp: zset_view_def map_of_zset_delete)
  show "\<exists>s'. SearchElement k s = Inr (case zset_view s k of None \<Rightarrow> -1 | Some v \<Rightarrow> v, s') \<and>
      zset_ok s' \<and> zset_view s' = zset_view s"
    using SearchElement_spec [OF inv, of k] ok by (auto simp: zset_ok_def zset_view_def)
  show "card (dom (zset_view s)) < 2 ^ 31 \<Longrightarrow> SkipList_Length s = int (card (dom (zset_view s)))"
    using SkipList_Length_spec [of s] inv zset_card [OF ok] by (simp add: sl_inv_def)
qed (rule zset_add)

end
