(* ===== verification/Skip_List_Reach.thy ===== *)
theory Skip_List_Reach
  imports Zset
begin

text \<open>
  The states a skip list object can reach through its public operations, the invariants that
  hold in all of them, the destructor, and the properties of the skip list that the rest of the
  program depends on.
\<close>

section \<open>Reachable lists\<close>

text \<open>
  One public operation that returned. Insertions take any level the random numbers give and
  any outcome \<open>stale\<close> of the reads of erased cells; \<^verbatim>\<open>SetMaxMemory\<close> takes any value the
  configuration holds.
\<close>

inductive sl_step :: "'k::linorder SkipList \<Rightarrow> 'k SkipList \<Rightarrow> bool" where
  insert_step: "InsertElement stale rs k v s = Inr (n, rs', s') \<Longrightarrow> sl_step s s'"
| delete_step: "DeleteElement k s = Inr (n, s') \<Longrightarrow> sl_step s s'"
| search_step: "SearchElement k s = Inr (n, s') \<Longrightarrow> sl_step s s'"
| memory_step: "SkipList_SetMaxMemory stale m s = Inr (n, s') \<Longrightarrow> sl_step s s'"

inductive sl_reach :: "'k::linorder SkipList \<Rightarrow> bool" where
  new_reach: "SkipList_new stale k0 g M cap = Inr s \<Longrightarrow> 1 \<le> M \<Longrightarrow> sl_reach s"
| step_reach: "sl_reach s \<Longrightarrow> sl_step s s' \<Longrightarrow> sl_reach s'"

inductive_cases sl_stepE: "sl_step s s'"

lemma insert_new_draws:
  "insert_new rs k v s = Inr (rs', s') \<Longrightarrow> \<exists>l. GetRandomLevel (sl_max_level s) rs = Inr (l, rs')"
  by (auto simp: insert_new_def bindE_Inr_iff Let_def split: option.splits)

lemma InsertElement_draws:
  assumes "sl_struct s" and "map_of (content s) k \<noteq> Some v"
    and "InsertElement stale rs k v s = Inr (n, rs', s')"
  shows "\<exists>l. GetRandomLevel (sl_max_level s) rs = Inr (l, rs')"
proof (cases "umap_find (sl_node_map s) k")
  case None
  with assms(3) show ?thesis
    by (auto simp: InsertElement_def bindE_Inr_iff dest: insert_new_draws)
next
  case (Some a)
  then have "nd_score (the (sl_heap s a)) \<noteq> v" using sl_struct_find [OF assms(1), of k] assms(2) by auto
  with Some assms(3) obtain m s1 s2 where
    "DeleteElementInLock k s = Inr (m, s1)" "insert_new rs k v s1 = Inr (rs', s2)"
    by (auto simp: InsertElement_def bindE_Inr_iff rd_node_def split: if_splits option.splits)
  with DeleteElementInLock_frame show ?thesis using insert_new_draws by metis
qed

lemma SkipList_SetMaxMemory_negative:
  "m < 0 \<Longrightarrow> SkipList_SetMaxMemory stale m s = Inr (0, s)"
  by (simp add: SkipList_SetMaxMemory_def set_capacity_def)

lemma sl_insert_inv:
  assumes inv: "sl_inv s" and ins: "InsertElement stale rs k v s = Inr (n, rs', s')"
  shows "sl_inv s'"
proof (cases "map_of (content s) k = Some v")
  case True
  with InsertElement_same_spec [OF inv True, of stale rs] ins show ?thesis by auto
next
  case False
  from InsertElement_draws [OF _ False ins] inv obtain l where
    l: "GetRandomLevel (sl_max_level s) rs = Inr (l, rs')" by (auto simp: sl_inv_def)
  show ?thesis
    using InsertElement_changes_spec [OF inv False l, of stale]
      InsertElement_changes_fault [OF inv False l, of stale] ins
    by (cases "read_all stale (evicted k s)") auto
qed

lemma sl_memory_inv:
  assumes "sl_inv s" and "SkipList_SetMaxMemory stale m s = Inr (n, s')"
  shows "sl_inv s'"
proof (cases "m < 0")
  case True
  with SkipList_SetMaxMemory_negative [of m stale s] assms show ?thesis by simp
next
  case False
  with SkipList_SetMaxMemory_spec [OF assms(1), of m stale]
    SkipList_SetMaxMemory_fault [OF assms(1), of m stale] assms(2)
  show ?thesis by (cases "read_all stale (rev (trimmed m (recents s)))") auto
qed

lemma sl_delete_inv: "sl_inv s \<Longrightarrow> DeleteElement k s = Inr (n, s') \<Longrightarrow> sl_inv s'"
  using DeleteElement_spec [of s k] by auto

lemma sl_search_inv: "sl_inv s \<Longrightarrow> SearchElement k s = Inr (n, s') \<Longrightarrow> sl_inv s'"
  using SearchElement_spec [of s k] by auto

lemma sl_step_inv: "sl_inv s \<Longrightarrow> sl_step s s' \<Longrightarrow> sl_inv s'"
  by (elim sl_stepE) (rule sl_insert_inv sl_delete_inv sl_search_inv sl_memory_inv; assumption)+

lemma sl_reach_inv: "sl_reach s \<Longrightarrow> sl_inv s"
proof (induction rule: sl_reach.induct)
  case (new_reach stale k0 g M cap s)
  with SkipList_new_spec [of M stale k0 g cap] show ?case by auto
qed (rule sl_step_inv)

text \<open>
  The cached entries that an insertion reads after erasing them, and its two ways to end: such a
  read faults, or the list stays reachable.
\<close>

definition insert_reads :: "'k \<Rightarrow> int \<Rightarrow> 'k SkipList \<Rightarrow> ('k \<times> int) list" where
  "insert_reads k v s = (if map_of (content s) k = Some v then [] else evicted k s)"

lemma InsertElement_outcome:
  assumes "sl_reach s" and "0 < stops rs"
  shows "case read_all stale (insert_reads k v s) of Inl e \<Rightarrow> InsertElement stale rs k v s = Inl e
    | Inr ks \<Rightarrow> \<exists>n rs' s'. InsertElement stale rs k v s = Inr (n, rs', s') \<and> sl_reach s'"
proof (cases "map_of (content s) k = Some v")
  case True
  from InsertElement_same_spec [OF sl_reach_inv [OF assms(1)] True, of stale rs] True
  show ?thesis using step_reach [OF assms(1) insert_step] by (fastforce simp: insert_reads_def)
next
  case False
  obtain l rs' where l: "GetRandomLevel (sl_max_level s) rs = Inr (l, rs')"
    using GetRandomLevel_stops [OF assms(2)] by blast
  show ?thesis
  proof (cases "read_all stale (evicted k s)")
    case (Inl e)
    with InsertElement_changes_fault [OF sl_reach_inv [OF assms(1)] False l Inl] False show ?thesis
      by (simp add: insert_reads_def)
  next
    case (Inr ks)
    from InsertElement_changes_spec [OF sl_reach_inv [OF assms(1)] False l Inr] False Inr
    show ?thesis using step_reach [OF assms(1) insert_step] by (fastforce simp: insert_reads_def)
  qed
qed

section \<open>The destructor\<close>

text \<open>The chain of \<^verbatim>\<open>backward_\<close> pointers from a pointer, as a list of addresses.\<close>

fun back_chain :: "'k heap \<Rightarrow> addr option \<Rightarrow> addr list \<Rightarrow> bool" where
  "back_chain h p [] \<longleftrightarrow> p = None"
| "back_chain h p (a # as) \<longleftrightarrow> p = Some a \<and>
     (case h a of None \<Rightarrow> False | Some nd \<Rightarrow> back_chain h (nd_backward nd) as)"

lemma back_chain_upd: "a \<notin> set as \<Longrightarrow> back_chain (h(a := x)) p as = back_chain h p as"
  by (induction as arbitrary: p) (auto split: option.splits)

lemma destroy_walk_ok:
  assumes "back_chain h p as" and "distinct as" and "length as \<le> n"
  shows "destroy_walk n h p = Inr (h |` (- set as))"
  using assms
proof (induction as arbitrary: h p n)
  case Nil
  then show ?case by (simp add: restrict_map_def)
next
  case (Cons a as)
  then obtain nd m where nd: "h a = Some nd" and n: "n = Suc m"
    by (cases n) (auto split: option.splits)
  have "destroy_walk m (h(a := None)) (nd_backward nd) = Inr ((h(a := None)) |` (- set as))"
  proof (rule Cons.IH)
    show "back_chain (h(a := None)) (nd_backward nd) as"
      using Cons.prems nd by (subst back_chain_upd) auto
  qed (use Cons.prems n in auto)
  moreover have "(h(a := None)) |` (- set as) = h |` (- set (a # as))"
    by (auto simp: restrict_map_def fun_eq_iff)
  ultimately show ?case
    using Cons.prems nd n by (simp add: rd_node_def delete_node_def)
qed

definition back_ok :: "'k SkipList \<Rightarrow> bool" where
  "back_ok s \<longleftrightarrow> back_chain (sl_heap s) (sl_tail s) (rev (nodes s))"

lemma SkipList_destroy_ok:
  assumes "sl_struct s" and "back_ok s"
  shows "SkipList_destroy s = Inr Map.empty"
proof -
  have r: "sl_rep s (nodes s)" using assms(1) by (simp add: sl_struct_def)
  have d: "distinct (nodes s)" "sl_header s \<notin> set (nodes s)"
      "dom (sl_heap s) = insert (sl_header s) (set (nodes s))"
    using r by (auto simp: sl_rep_def shape_def)
  have "destroy_walk (sl_next_addr s) (sl_heap s) (sl_tail s) =
      Inr (sl_heap s |` (- set (rev (nodes s))))"
    using assms(2) d sl_rep_fuel [OF r] by (intro destroy_walk_ok) (auto simp: back_ok_def)
  moreover have "(sl_heap s |` (- set (nodes s))) (sl_header s) \<noteq> None"
    using d by (auto simp: restrict_map_def)
  moreover have "(sl_heap s |` (- set (nodes s)))(sl_header s := None) = Map.empty"
    using d(3) by (auto simp: restrict_map_def fun_eq_iff)
  ultimately show ?thesis by (simp add: SkipList_destroy_def delete_node_def)
qed

section \<open>A sample list\<close>

text \<open>Two members, the second one on two levels, capacity 2.\<close>

definition sample_list :: "nat SkipList res" where
  "sample_list =
     bindE (SkipList_new dangling 0 0 (Suc (Suc 0)) 2) (\<lambda>s.
     bindE (InsertElement dangling [65535] 1 5 s) (\<lambda>(_, _, s).
     bindE (InsertElement dangling [0, 65535] 2 3 s) (\<lambda>(_, _, s). Inr s)))"

lemma sample_list_ok:
  "\<exists>s. sample_list = Inr s \<and> sl_reach s \<and> content s = [(2, 3), (1, 5)] \<and>
     recents s = [(2, 3), (1, 5)] \<and> doomed s = [] \<and> limit s = 2"
proof -
  obtain s0 where s0: "SkipList_new dangling (0 :: nat) 0 (Suc (Suc 0)) 2 = Inr s0" "sl_inv s0"
      "content s0 = []" "recents s0 = []" "doomed s0 = []" "limit s0 = 2" "sl_max_level s0 = Suc (Suc 0)"
    using SkipList_new_spec [of "Suc (Suc 0)" dangling "0 :: nat" 0 2] by auto
  have l: "GetRandomLevel M [65535] = Inr (if 1 < M then 1 else M, [])"
    "GetRandomLevel M [0, 65535] = Inr (if 2 < M then 2 else M, [])" for M
    by (simp_all add: GetRandomLevel_def)
  have "evicted 1 s0 = []" using s0 by (simp add: evicted_alt is_full_def)
  then obtain s1 where s1: "InsertElement dangling [65535] 1 5 s0 = Inr (1, [], s1)" "sl_inv s1"
      "content s1 = [(1, 5)]" "recents s1 = [(1, 5)]" "doomed s1 = []" "limit s1 = 2"
    using InsertElement_changes_spec [OF s0(2) _ l(1), of 1 5 dangling "[]"] s0
    by (auto simp: store_def is_full_def zset_insert_def zset_delete_def members_def)
  have "evicted 2 s1 = []" using s1 by (simp add: evicted_alt is_full_def)
  then obtain s2 where s2: "InsertElement dangling [0, 65535] 2 3 s1 = Inr (1, [], s2)"
      "content s2 = [(2, 3), (1, 5)]" "recents s2 = [(2, 3), (1, 5)]" "doomed s2 = []" "limit s2 = 2"
    using InsertElement_changes_spec [OF s1(2) _ l(2), of 2 3 dangling "[]"] s1
    by (auto simp: store_def is_full_def zset_insert_def zset_delete_def members_def zless_def)
  have "sl_reach s2"
    by (rule step_reach [OF step_reach [OF new_reach [OF s0(1)] insert_step [OF s1(1)]]
          insert_step [OF s2(1)]]) simp
  with s0(1) s1(1) s2 show ?thesis by (simp add: sample_list_def)
qed

section \<open>Properties\<close>

text \<open>
  C1: Any sequence of additions, removals, score lookups and size queries on a fresh, unbounded
  skip list returns exactly the replies of a finite map from members to scores and leaves the
  list standing for the resulting map; no operation faults and every loop ends, whatever levels
  the random numbers choose (nothing is evicted, so no erased cell is read).
\<close>

theorem zset_runs_like_map:
  fixes xs :: "'k::linorder zop list"
  assumes "1 \<le> M" and "length xs \<le> stops rs" and "length xs < 2 ^ 31"
  shows "\<exists>s rs' s'. SkipList_new stale k0 g M 0 = Inr s \<and>
    store_run (InsertElement stale) DeleteElement SearchElement SkipList_Length xs rs s =
      Inr (fst (map_run xs Map.empty), rs', s') \<and> zset_view s' = snd (map_run xs Map.empty)"
proof -
  obtain s where s: "SkipList_new stale k0 g M 0 = Inr s" "sl_inv s" "content s = []" "doomed s = []" "limit s = 0"
    using SkipList_new_spec [OF assms(1), of stale k0 g 0] by auto
  then have "zset_ok s" "zset_view s = Map.empty" by (simp_all add: zset_ok_def zset_view_def)
  with sl.run_refines [of s xs rs stale] assms(2,3) s(1) show ?thesis by auto
qed

theorem zset_runs_like_map_witness:
  "\<exists>s rs' s'. SkipList_new dangling (0 :: nat) 0 32 0 = Inr s \<and>
    store_run (InsertElement dangling) DeleteElement SearchElement SkipList_Length
      [Add 1 5, Add 2 3, Add 1 4, Score 1, Rem 2, Score 2] [65535, 65535, 0, 65535, 65535, 65535, 65535] s =
      Inr ([1, 1, 0, 4, 1, -1], rs', s')"
  using zset_runs_like_map [of 32 "[Add 1 5, Add 2 3, Add 1 4, Score 1, Rem 2, Score 2]"
      "[65535, 65535, 0, 65535, 65535, 65535, 65535]" dangling "0 :: nat" 0]
  by (auto simp: stops_def)

text \<open>
  C4: In every reachable skip list the members appear in increasing order of score and, for equal
  scores, of key; no key appears twice; the chain of each level is exactly the sublist of the
  nodes that are tall enough; the hash index knows exactly the members; and the node count is
  the counter modulo \<open>2\<^sup>3\<^sup>2\<close>.
\<close>

theorem reachable_list_sound:
  assumes "sl_reach s"
  shows "sorted_wrt zless (content s) \<and> distinct (map fst (content s)) \<and>
    (\<forall>i < sl_max_level s. seg (sl_heap s) i (sl_header s) (on_level (sl_heap s) i (nodes s)) None) \<and>
    (\<forall>k. (umap_find (sl_node_map s) k \<noteq> None) = (k \<in> members s)) \<and>
    sl_length s = of_nat (length (content s))"
proof -
  have st: "sl_struct s" using sl_reach_inv [OF assms] by (simp add: sl_inv_def)
  then have r: "sl_rep s (nodes s)" by (simp add: sl_struct_def)
  show ?thesis
    using sl_struct_sorted [OF st] sl_struct_keys_distinct [OF st] sl_struct_find_None [OF st] r
    by (auto simp: sl_rep_def shape_def content_def)
qed

theorem reachable_list_sound_witness:
  "\<exists>s. sample_list = Inr s \<and> sl_reach s \<and> content s = [(2, 3), (1, 5)] \<and>
     (umap_find (sl_node_map s) 2 \<noteq> None) \<and> sl_length s = 2"
proof -
  obtain s where s: "sample_list = Inr s" "sl_reach s" "content s = [(2, 3), (1, 5)]"
    using sample_list_ok by blast
  from reachable_list_sound [OF s(2)] s show ?thesis by (auto simp: members_def)
qed

text \<open>
  C5: \<^verbatim>\<open>InsertElement\<close> on a reachable list, as soon as one coming random number ends the
  level choice, and whatever the read of an erased cell does. With an unchanged score it reports
  0 and only the recency order changes. Else, when the cache is full without the key, its last
  entry is evicted: if the read of that entry's erased cell faults, so does the call. In all
  other cases the call returns 1 for a new member and 0 otherwise, the member is put at its
  sorted place with the new score, the keys marked before and the key that the read yielded
  leave the list and the cache, and nothing stays marked.
\<close>

theorem InsertElement_correct:
  assumes "sl_reach s" and "draws_ok rs"
  shows "if map_of (content s) k = Some v
    then \<exists>s'. InsertElement stale rs k v s = Inr (0, rs, s') \<and> content s' = content s \<and>
           recents s' = touch k (recents s) \<and> doomed s' = doomed s
    else case read_all stale (evicted k s) of
           Inl e \<Rightarrow> InsertElement stale rs k v s = Inl e
         | Inr ks \<Rightarrow>
             \<exists>rs' s'. InsertElement stale rs k v s = Inr (if k \<in> members s then 0 else 1, rs', s') \<and>
               content s' = filter (\<lambda>p. fst p \<notin> set (doomed s @ ks))
                 (zset_insert k v (zset_delete k (content s))) \<and>
               recents s' = filter (\<lambda>p. fst p \<notin> set (doomed s @ ks))
                 (store (limit s) k v (filter (\<lambda>p. fst p \<noteq> k) (recents s))) \<and>
               doomed s' = []"
proof (cases "map_of (content s) k = Some v")
  case True
  with InsertElement_same_spec [OF sl_reach_inv [OF assms(1)] True, of stale rs]
  show ?thesis by auto
next
  case False
  obtain l rs' where l: "GetRandomLevel (sl_max_level s) rs = Inr (l, rs')"
    using GetRandomLevel_returns [OF assms(2)] by blast
  note spec = InsertElement_changes_spec [OF sl_reach_inv [OF assms(1)] False l, of stale]
    and fault = InsertElement_changes_fault [OF sl_reach_inv [OF assms(1)] False l, of stale]
  show ?thesis
  proof (cases "read_all stale (evicted k s)")
    case (Inl e)
    with fault False show ?thesis by simp
  next
    case (Inr ks)
    from spec [OF Inr] False Inr show ?thesis by auto
  qed
qed

text \<open>
  The sample list is full: a third member evicts the key 1. The three outcomes of the read: it
  faults, it yields the key 1, it yields something else and the member 1 stays.
\<close>

theorem InsertElement_correct_witness:
  "\<exists>s rs1 s1 rs2 s2. sample_list = Inr s \<and>
     InsertElement dangling [65535] 3 4 s = Inl UseAfterFree \<and>
     InsertElement (\<lambda>p. Inr (fst p)) [65535] 3 4 s = Inr (1, rs1, s1) \<and> content s1 = [(2, 3), (3, 4)] \<and>
     InsertElement (\<lambda>_. Inr 8) [65535] 3 4 s = Inr (1, rs2, s2) \<and>
     content s2 = [(2, 3), (3, 4), (1, 5)] \<and> recents s2 = [(3, 4), (2, 3)]"
proof -
  obtain s where s: "sample_list = Inr s" "sl_reach s" "content s = [(2, 3), (1, 5)]"
      "recents s = [(2, 3), (1, 5)]" "doomed s = []" "limit s = 2"
    using sample_list_ok by blast
  have ev: "evicted 3 s = [(1, 5)]" using s by (simp add: evicted_alt is_full_def)
  have e0: "InsertElement dangling [65535] 3 4 s = Inl UseAfterFree"
    using InsertElement_correct [OF s(2), of "[65535]" 3 4 dangling] s ev by (simp add: draws_ok_def)
  obtain rs1 s1 where e1: "InsertElement (\<lambda>p. Inr (fst p)) [65535] 3 4 s = Inr (1, rs1, s1)"
      "content s1 = [(2, 3), (3, 4)]"
    using InsertElement_correct [OF s(2), of "[65535]" 3 4 "\<lambda>p. Inr (fst p)"] s ev
    by (auto simp: draws_ok_def members_def zset_insert_def zset_delete_def zless_def)
  obtain rs2 s2 where e2: "InsertElement (\<lambda>_. Inr 8) [65535] 3 4 s = Inr (1, rs2, s2)"
      "content s2 = [(2, 3), (3, 4), (1, 5)]" "recents s2 = [(3, 4), (2, 3)]"
    using InsertElement_correct [OF s(2), of "[65535]" 3 4 "\<lambda>_. Inr 8"] s ev
    by (auto simp: draws_ok_def members_def zset_insert_def zset_delete_def zless_def store_def
        is_full_def)
  show ?thesis using s(1) e0 e1 e2 by metis
qed

text \<open>
  C6: \<^verbatim>\<open>DeleteElement\<close> on a reachable list never faults: it reports whether the key was a
  member, removes exactly that member, keeps the order of the others, and removes the key
  from the cache.
\<close>

theorem DeleteElement_correct:
  assumes "sl_reach s"
  shows "\<exists>s'. DeleteElement k s = Inr (if k \<in> members s then 1 else 0, s') \<and>
    content s' = filter (\<lambda>p. fst p \<noteq> k) (content s) \<and>
    recents s' = filter (\<lambda>p. fst p \<noteq> k) (recents s) \<and> doomed s' = doomed s"
  using DeleteElement_spec [OF sl_reach_inv [OF assms], of k] by (auto simp: zset_delete_def)

theorem DeleteElement_correct_witness:
  "\<exists>s s'. sample_list = Inr s \<and> DeleteElement 2 s = Inr (1, s') \<and> content s' = [(1, 5)]"
proof -
  obtain s where s: "sample_list = Inr s" "sl_reach s" "content s = [(2, 3), (1, 5)]"
    using sample_list_ok by blast
  from DeleteElement_correct [OF s(2), of 2] s show ?thesis by (auto simp: members_def)
qed

text \<open>
  C7: \<^verbatim>\<open>SearchElement\<close> on a reachable list returns the member's score, or \<open>-1\<close> when the
  key is no member; it leaves the members alone and makes the key the most recently used one.
\<close>

theorem SearchElement_correct:
  assumes "sl_reach s"
  shows "\<exists>s'. SearchElement k s = Inr (case map_of (content s) k of None \<Rightarrow> -1 | Some v \<Rightarrow> v, s') \<and>
    content s' = content s \<and> recents s' = touch k (recents s) \<and> doomed s' = doomed s"
proof -
  have inv: "sl_inv s" by (rule sl_reach_inv [OF assms])
  have "k \<notin> members s \<Longrightarrow> touch k (recents s) = recents s"
    using inv by (auto simp: sl_inv_def touch_def split: option.split dest!: map_of_SomeD)
  with SearchElement_spec [OF inv, of k] show ?thesis by auto
qed

theorem SearchElement_correct_witness:
  "\<exists>s s'. sample_list = Inr s \<and> SearchElement 1 s = Inr (5, s') \<and> recents s' = [(1, 5), (2, 3)]"
proof -
  obtain s where s: "sample_list = Inr s" "sl_reach s" "content s = [(2, 3), (1, 5)]"
      "recents s = [(2, 3), (1, 5)]"
    using sample_list_ok by blast
  from SearchElement_correct [OF s(2), of 1] s show ?thesis by (auto simp: touch_def)
qed

text \<open>
  C20: \<^verbatim>\<open>maxmemory\<close> bounds the cache: in every reachable list with a positive limit, whatever
  the reads of erased cells yielded, the cache has at most that many entries, no key twice, and
  every cached key is a member. (The members themselves are bounded only while those reads yield
  the keys that were evicted.)
\<close>

theorem reachable_cache_bounded:
  assumes "sl_reach s" and "0 < limit s"
  shows "int (length (recents s)) \<le> limit s \<and> distinct (map fst (recents s)) \<and>
    fst ` set (recents s) \<subseteq> members s"
  using sl_reach_inv [OF assms(1)] lc.bounded [of "sl_lru_cache s"]
    lc.keys_distinct [of "sl_lru_cache s"] assms(2)
  by (simp add: sl_inv_def)

theorem reachable_cache_bounded_witness:
  "\<exists>s. sample_list = Inr s \<and> int (length (recents s)) \<le> 2 \<and> fst ` set (recents s) \<subseteq> members s"
proof -
  obtain s where s: "sample_list = Inr s" "sl_reach s" "limit s = 2"
    using sample_list_ok by blast
  from reachable_cache_bounded [OF s(2)] s show ?thesis by auto
qed

end
