(* ===== verification/Skip_List_Back.thy ===== *)
theory Skip_List_Back
  imports Skip_List_Reach
begin

text \<open>
  The pointers \<^verbatim>\<open>backward_\<close> and \<^verbatim>\<open>tail_\<close>, which only the destructor reads: when the
  operations keep them right, and what the destructor does when they are wrong.
\<close>

section \<open>Chains of backward pointers\<close>

text \<open>\<open>back_path h p as q\<close>: from the pointer \<open>p\<close> over the nodes \<open>as\<close> to the pointer \<open>q\<close>.\<close>

fun back_path :: "'k heap \<Rightarrow> addr option \<Rightarrow> addr list \<Rightarrow> addr option \<Rightarrow> bool" where
  "back_path h p [] q \<longleftrightarrow> p = q"
| "back_path h p (a # as) q \<longleftrightarrow> p = Some a \<and> (\<exists>r. bwd h a = Some r \<and> back_path h r as q)"

lemma back_chain_path: "back_chain h p as = back_path h p as None"
  by (induction as arbitrary: p) (auto simp: bwd_def split: option.splits)

lemma back_path_append:
  "back_path h p (as @ bs) q \<longleftrightarrow> (\<exists>r. back_path h p as r \<and> back_path h r bs q)"
  by (induction as arbitrary: p) auto

lemma back_path_cong:
  "(\<And>x. x \<in> set as \<Longrightarrow> bwd h' x = bwd h x) \<Longrightarrow> back_path h' p as q = back_path h p as q"
  by (induction as arbitrary: p) auto

lemma back_path_unique: "back_path h p as q \<Longrightarrow> back_path h p as q' \<Longrightarrow> as \<noteq> [] \<Longrightarrow> q = q'"
  by (induction as arbitrary: p) (case_tac as; auto)+

lemma back_ok_path: "back_ok s \<longleftrightarrow> back_path (sl_heap s) (sl_tail s) (rev (nodes s)) None"
  by (simp add: back_ok_def back_chain_path)

section \<open>The header\<close>

lemma seg_targets:
  "seg h i a us p \<Longrightarrow> x \<in> set (a # us) \<Longrightarrow> fwd h i x = Some f \<Longrightarrow> f = p \<or> (\<exists>b \<in> set us. f = Some b)"
  by (induction us arbitrary: a) auto

lemma sl_rep_first:
  assumes "sl_rep s (us @ a # vs)"
  shows "fwd (sl_heap s) 0 a = Some (first vs None)"
proof -
  have s: "shape (sl_heap s) (sl_header s) (sl_max_level s) (us @ a # vs)" and M: "0 < sl_max_level s"
    using assms by (auto simp: sl_rep_def)
  have "seg (sl_heap s) 0 (sl_header s) ((us @ [a]) @ vs) None"
    using shape_seg0 [OF s M] by simp
  then show ?thesis by (cases vs) (auto simp: seg_append)
qed

section \<open>What deletion does to them\<close>

lemma DeleteElement_bwd:
  assumes inv: "sl_inv s" and f: "umap_find (sl_node_map s) k = Some a" and n: "nodes s = us @ a # vs"
  shows "\<exists>s'. DeleteElementInLock k s = Inr (1, s') \<and> nodes s' = us @ vs \<and> sl_header s' = sl_header s \<and>
    sl_tail s' = (if vs = [] then Some (last (sl_header s # us)) else sl_tail s) \<and>
    bwd (sl_heap s') = (if vs = [] then bwd (sl_heap s)
       else (bwd (sl_heap s))(hd vs \<mapsto> Some (last (sl_header s # us))))(a := None)"
proof -
  let ?h = "sl_heap s" and ?hdr = "sl_header s"
  have r: "sl_rep s (us @ a # vs)" using inv n by (simp add: sl_inv_def sl_struct_def)
  then have s: "shape ?h ?hdr (sl_max_level s) (us @ a # vs)" by (simp add: sl_rep_def)
  obtain c where c: "lru_remove k (sl_lru_cache s) = Inr c"
    using lru_remove_spec [of "sl_lru_cache s" k] inv by (auto simp: sl_inv_def)
  obtain upd h1 t where d: "DeleteElementInLock k s = Inr (1, s\<lparr>sl_tail := t,
        sl_length := sl_length s - 1, sl_node_map := umap_erase k (sl_node_map s), sl_lru_cache := c,
        sl_heap := h1(a := None)\<rparr>)" (is "_ = Inr (1, ?s)")
      and un: "unlink_loop ?h (sl_tail s) upd a 0 (height ?h a) = Inr (h1, t)"
      and up: "upd ! 0 = Some (pred_at ?h ?hdr 0 us)"
      and co: "\<And>x. core (h1(a := None)) x = (if x = a then None else core ?h x)"
      and li: "\<And>j. j < sl_max_level s \<Longrightarrow> linked (h1(a := None)) (h1(a := None)) ?hdr j (us @ vs)"
      and sp: "spans_ok (h1(a := None)) ?hdr (us @ vs)" and k: "k = fst (item ?h a)"
    using DeleteElementInLock_unlinks [OF r f c] by blast
  have "sl_rep ?s (us @ vs)" by (rule delete_rep(1) [OF r co li sp k])
  then have nodes: "nodes ?s = us @ vs" by (rule sl_rep_nodes)
  obtain m where m: "height ?h a = Suc m" using shape_height [OF s, of a] by (cases "height ?h a") auto
  have "on_level ?h 0 us = us" by (rule on_level_0 [OF s]) auto
  then have p: "upd ! 0 = Some (last (?hdr # us))" using up by (simp add: pred_at_def)
  have "bwd h1 = (if vs = [] then bwd ?h else (bwd ?h)(hd vs \<mapsto> Some (last (?hdr # us)))) \<and>
      t = (if vs = [] then Some (last (?hdr # us)) else sl_tail s)"
    using unlink_loop_bwd [OF un [unfolded m] sl_rep_first [OF r]] p by (cases vs) auto
  with d nodes show ?thesis by (intro exI [of _ ?s]) auto
qed

section \<open>The header has no backward pointer\<close>

definition hdr_clear :: "'k SkipList \<Rightarrow> bool" where
  "hdr_clear s \<longleftrightarrow> bwd (sl_heap s) (sl_header s) = Some None"

lemma hdr_clear_lru [simp]: "hdr_clear (s\<lparr>sl_lru_cache := c\<rparr>) = hdr_clear s"
  by (simp add: hdr_clear_def)

lemma DeleteElementInLock_clear:
  assumes inv: "sl_inv s" and "hdr_clear s" and "DeleteElementInLock k s = Inr (n, s')"
  shows "hdr_clear s'"
proof (cases "umap_find (sl_node_map s) k")
  case (Some a)
  have r: "sl_rep s (nodes s)" using inv by (simp add: sl_inv_def sl_struct_def)
  obtain us vs where xs: "nodes s = us @ a # vs" by (rule sl_rep_split [OF r Some])
  then have "sl_header s \<noteq> a" "vs \<noteq> [] \<Longrightarrow> sl_header s \<noteq> hd vs"
    using r by (auto simp: sl_rep_def shape_def)
  with DeleteElement_bwd [OF inv Some xs] assms(2,3) show ?thesis
    by (auto simp: hdr_clear_def split: if_splits)
qed (use assms in \<open>simp add: DeleteElementInLock_def\<close>)

lemma insert_new_clear:
  assumes inv: "sl_inv s" and "k \<notin> members s" and "hdr_clear s" and "insert_new rs k v s = Inr (rs', s')"
  shows "hdr_clear s'"
proof -
  have st: "sl_struct s" and r: "sl_rep s (nodes s)" using inv by (simp_all add: sl_inv_def sl_struct_def)
  have none: "umap_find (sl_node_map s) k = None" using sl_struct_find_None [OF st] assms(2) by blast
  obtain l where l: "GetRandomLevel (sl_max_level s) rs = Inr (l, rs')"
    using insert_new_draws [OF assms(4)] by blast
  let ?vs = "onward (sl_heap s) (k, v) (nodes s)"
  have sub: "set ?vs \<subseteq> set (nodes s)" by (auto simp: onward_def dest: set_dropWhileD)
  have hdr: "sl_header s \<notin> set (nodes s)" "sl_header s < sl_next_addr s"
    using r by (auto simp: sl_rep_def shape_def)
  then have "sl_header s \<noteq> b" if "first (on_level (sl_heap s) i ?vs) None = Some b" for i b
    using first_member [OF that] on_level_subset [of "sl_heap s" i ?vs] sub by blast
  with insert_new_links [OF r none l, of v] assms(3,4) hdr(2) show ?thesis
    by (auto simp: hdr_clear_def split: option.splits)
qed

lemma evict_keys_clear:
  "sl_inv s \<Longrightarrow> hdr_clear s \<Longrightarrow> evict_keys ks s = Inr s' \<Longrightarrow> hdr_clear s'"
proof (induction ks arbitrary: s)
  case (Cons k ks)
  obtain n s1 where s1: "DeleteElementInLock k s = Inr (n, s1)" "evict_keys ks s1 = Inr s'"
    using Cons.prems(3) by (auto simp: evict_keys_def bindE_Inr_iff)
  moreover have "sl_inv s1" using DeleteElementInLock_spec [OF Cons.prems(1), of k] s1(1) by auto
  ultimately show ?case
    using Cons.IH [of s1] DeleteElementInLock_clear [OF Cons.prems(1,2)] by blast
qed (simp add: evict_keys_def)

lemma InsertElement_clear:
  assumes inv: "sl_inv s" and "hdr_clear s" and ins: "InsertElement stale rs k v s = Inr (n, rs', s')"
  shows "hdr_clear s'"
proof -
  have clear: "hdr_clear s3" if q: "sl_inv s1" "k \<notin> members s1" "hdr_clear s1"
    "insert_new rs k v s1 = Inr (rs1, s2)" "register_lru stale k v s2 = Inr s3" for s1 rs1 s2 s3
  proof -
    have 2: "hdr_clear s2" by (rule insert_new_clear [OF q(1-4)])
    obtain c t where c: "lru_put stale k v (sl_lru_cache s2) = Inr c"
        "evict_keys (delete_keys c) (s2\<lparr>sl_lru_cache := c\<rparr>) = Inr t"
        "s3 = t\<lparr>sl_lru_cache := (sl_lru_cache t)\<lparr>delete_keys := []\<rparr>\<rparr>"
      using q(5) by (auto simp: register_lru_def bindE_Inr_iff)
    obtain l where "GetRandomLevel (sl_max_level s1) rs = Inr (l, rs1)"
      using insert_new_draws [OF q(4)] by blast
    from insert_new_spec [OF _ q(2) this, of v] q(1,4)
    have 3: "sl_struct s2" "content s2 = zset_insert k v (content s1)" "sl_lru_cache s2 = sl_lru_cache s1"
      by (auto simp: sl_inv_def)
    have "lru_inv c" "entries c = store (limit s2) k v (recents s2)"
      using lc.put_returned [OF _ c(1)] q(1) 3(3) by (auto simp: sl_inv_def)
    then have "sl_inv (s2\<lparr>sl_lru_cache := c\<rparr>)"
      using 3 q(1) store_keys_subset [of "limit s2" k v "recents s2"]
      by (auto simp: sl_inv_def members_def)
    with evict_keys_clear [OF this _ c(2)] 2 c(3) show ?thesis by simp
  qed
  show ?thesis
  proof (cases "umap_find (sl_node_map s) k")
    case None
    then have "k \<notin> members s" using sl_struct_find_None [of s k] inv by (simp add: sl_inv_def)
    with None ins clear [OF inv] assms(2) show ?thesis
      by (auto simp: InsertElement_def bindE_Inr_iff)
  next
    case (Some a)
    have "sl_inv s1 \<and> k \<notin> members s1 \<and> hdr_clear s1" if "DeleteElementInLock k s = Inr (m, s1)" for m s1
      using DeleteElementInLock_spec [OF inv, of k] DeleteElementInLock_clear [OF inv assms(2) that] that
      by (auto simp: members_def zset_delete_keys)
    with Some ins clear assms(2) show ?thesis
      by (auto simp: InsertElement_def bindE_Inr_iff split: if_splits)
  qed
qed

lemma sl_step_clear:
  assumes "sl_inv s" and "hdr_clear s" and "sl_step s s'"
  shows "hdr_clear s'"
  using assms(3)
proof cases
  case (insert_step stale rs k v n rs')
  with InsertElement_clear [OF assms(1,2)] show ?thesis by blast
next
  case (delete_step k n)
  with DeleteElementInLock_clear [OF assms(1,2)] show ?thesis by (simp add: DeleteElement_eq)
qed (use assms(2) in \<open>auto simp: SearchElement_def SkipList_SetMaxMemory_def bindE_Inr_iff
    split: option.splits\<close>)

lemma sl_reach_clear: "sl_reach s \<Longrightarrow> hdr_clear s"
proof (induction rule: sl_reach.induct)
  case (new_reach stale k0 g M cap s)
  then show ?case
    by (auto simp: SkipList_new_def bindE_Inr_iff hdr_clear_def bwd_def SkipListNode_new_def)
next
  case (step_reach s s')
  then show ?case using sl_step_clear sl_reach_inv by blast
qed

section \<open>Which insertions keep the chain\<close>

lemma back_path_head:
  "back_path h p (rev us) None \<Longrightarrow> p = (if us = [] then None else Some (last us))"
  by (cases us rule: rev_cases) auto

lemma insert_chain_iff:
  assumes old: "back_path h t (rev (us @ vs)) None" and d: "distinct (us @ a # vs)"
    and b: "\<And>x. x \<in> set (us @ vs) \<Longrightarrow> bwd h' x = (if tp = Some x then Some (Some a) else bwd h x)"
    and ba: "bwd h' a = Some (if us = [] then None else Some (last us))"
    and t: "t' = (if tp = None then Some a else t)" and tp: "\<And>x. tp = Some x \<Longrightarrow> x \<in> set vs"
  shows "back_path h' t' (rev (us @ a # vs)) None \<longleftrightarrow> tp = first vs None"
proof -
  obtain r where r: "back_path h t (rev vs) r" "back_path h r (rev us) None"
    using old by (auto simp: back_path_append)
  have r': "r = (if us = [] then None else Some (last us))" by (rule back_path_head [OF r(2)])
  have "back_path h' r (rev us) None = back_path h r (rev us) None"
  proof (rule back_path_cong)
    fix x assume x: "x \<in> set (rev us)"
    then have "tp \<noteq> Some x" using tp [of x] d by auto
    with b [of x] x show "bwd h' x = bwd h x" by simp
  qed
  then have us: "back_path h' (Some a) (a # rev us) None" using r(2) ba r' by simp
  show ?thesis
  proof (cases vs)
    case Nil
    then have "tp = None" using tp by (cases tp) auto
    with Nil t us show ?thesis by simp
  next
    case (Cons c cs)
    have c: "bwd h c = Some r" and cs: "back_path h t (rev cs) (Some c)"
      using r(1) Cons by (auto simp: back_path_append)
    show ?thesis
    proof (cases "tp = Some c")
      case True
      have "back_path h' t (rev cs) (Some c) = back_path h t (rev cs) (Some c)"
        by (rule back_path_cong) (use b True Cons d in auto)
      moreover have "bwd h' c = Some (Some a)" using b [of c] True Cons by simp
      ultimately show ?thesis
        using True t cs us Cons by (auto simp: back_path_append)
    next
      case False
      then have "bwd h' c = Some r" using b [of c] c Cons by simp
      moreover have "r \<noteq> Some a" using r' d by (auto dest: last_in_set split: if_splits)
      ultimately have "\<not> back_path h' t' (rev (us @ a # vs)) None"
        using Cons by (auto simp: back_path_append)
      with False Cons show ?thesis by simp
    qed
  qed
qed

lemma insert_new_chain:
  assumes inv: "sl_inv s" and "back_ok s" and "k \<notin> members s"
    and l: "GetRandomLevel (sl_max_level s) rs = Inr (l, rs')" and ins: "insert_new rs k v s = Inr (rs', s')"
  shows "back_ok s' \<longleftrightarrow> (case onward (sl_heap s) (k, v) (nodes s) of [] \<Rightarrow> True
     | b # _ \<Rightarrow> l \<le> height (sl_heap s) b)"
proof -
  let ?h = "sl_heap s" and ?us = "before (sl_heap s) (k, v) (nodes s)"
    and ?vs = "onward (sl_heap s) (k, v) (nodes s)" and ?a = "sl_next_addr s"
  define tp where "tp = first (on_level ?h (l - 1) ?vs) None"
  have st: "sl_struct s" and r: "sl_rep s (nodes s)" using inv by (simp_all add: sl_inv_def sl_struct_def)
  have none: "umap_find (sl_node_map s) k = None" using sl_struct_find_None [OF st] assms(3) by blast
  have n: "?us @ ?vs = nodes s" by simp
  have s': "sl_rep s' (?us @ ?a # ?vs)"
      "sl_tail s' = (case tp of None \<Rightarrow> Some ?a | Some b \<Rightarrow> sl_tail s)"
      "bwd (sl_heap s') = (case tp of None \<Rightarrow> bwd ?h | Some b \<Rightarrow> (bwd ?h)(b \<mapsto> Some ?a))
        (?a \<mapsto> if ?us = [] then None else Some (last ?us))"
    using insert_new_links [OF r none l, of v] ins by (auto simp: tp_def)
  have fresh: "?a \<notin> set (?us @ ?vs)" unfolding n using r by (auto simp: sl_rep_def)
  have d: "distinct (?us @ ?a # ?vs)"
    using s'(1) by (simp add: sl_rep_def shape_def)
  have tp_vs: "x \<in> set ?vs" if "tp = Some x" for x
    using first_member that on_level_subset [of ?h "l - 1" ?vs] unfolding tp_def by blast
  have "back_path (sl_heap s') (sl_tail s') (rev (?us @ ?a # ?vs)) None \<longleftrightarrow> tp = first ?vs None"
  proof (rule insert_chain_iff [where h = ?h and t = "sl_tail s"])
    show "back_path ?h (sl_tail s) (rev (?us @ ?vs)) None"
      unfolding n using assms(2) by (simp add: back_ok_path)
    fix x assume "x \<in> set (?us @ ?vs)"
    with fresh show "bwd (sl_heap s') x = (if tp = Some x then Some (Some ?a) else bwd ?h x)"
      by (cases tp) (auto simp: s'(3))
  qed (use d tp_vs s' in \<open>auto split: option.splits\<close>)
  moreover have "tp = first ?vs None \<longleftrightarrow> (case ?vs of [] \<Rightarrow> True | b # _ \<Rightarrow> l \<le> height ?h b)"
  proof (cases ?vs)
    case (Cons b bs)
    have "1 \<le> l" using GetRandomLevel_bounds [OF l] r by (simp add: sl_rep_def)
    moreover have "b \<notin> set bs" using d Cons by simp
    then have "first (on_level ?h (l - 1) bs) None \<noteq> Some b"
      using first_member on_level_subset [of ?h "l - 1" bs] by blast
    ultimately show ?thesis using Cons by (auto simp: tp_def on_level_Cons)
  qed (simp add: tp_def on_level_def)
  ultimately show ?thesis using sl_rep_nodes [OF s'(1)] by (simp add: back_ok_path)
qed

section \<open>Which deletions keep the chain\<close>

lemma delete_chain:
  assumes old: "back_path h t (rev (us @ a # vs)) None" and d: "distinct (hdr # us @ a # vs)"
    and clear: "bwd h hdr = Some None"
    and b: "bwd h' = (if vs = [] then bwd h else (bwd h)(hd vs \<mapsto> Some (last (hdr # us))))(a := None)"
    and t: "t' = (if vs = [] then Some (last (hdr # us)) else t)"
  shows "back_path h' t' (rev (us @ vs) @ (if us = [] then [hdr] else [])) None"
proof -
  let ?p = "Some (last (hdr # us))"
  obtain r where vs: "back_path h t (rev vs) (Some a)" and us: "back_path h r (rev us) None"
    using old by (auto simp: back_path_append)
  have "back_path h' t' (rev vs) ?p"
  proof (cases vs)
    case (Cons c cs)
    then have "back_path h t (rev cs) (Some c)" using vs by (auto simp: back_path_append)
    moreover have "back_path h' t (rev cs) (Some c) = back_path h t (rev cs) (Some c)"
      by (rule back_path_cong) (use b Cons d in auto)
    ultimately show ?thesis using Cons b t d by (auto simp: back_path_append)
  qed (use t in simp)
  moreover have "back_path h' ?p (rev us @ (if us = [] then [hdr] else [])) None"
  proof (cases "us = []")
    case True
    then have "bwd h' hdr = Some None" using b clear d by (cases vs) auto
    with True show ?thesis by simp
  next
    case False
    have "back_path h' r (rev us) None = back_path h r (rev us) None"
      by (rule back_path_cong) (use b d in \<open>auto dest: hd_in_set\<close>)
    with False us back_path_head [OF us] show ?thesis by simp
  qed
  ultimately show ?thesis by (auto simp: back_path_append)
qed

lemma destroy_header_twice:
  assumes r: "sl_rep s xs" and c: "back_path (sl_heap s) (sl_tail s) (rev xs @ [sl_header s]) None"
  shows "SkipList_destroy s = Inl DoubleFree"
proof -
  have "distinct (rev xs @ [sl_header s])" using r by (simp add: sl_rep_def shape_def)
  with destroy_walk_ok [of "sl_heap s" "sl_tail s" "rev xs @ [sl_header s]" "sl_next_addr s"]
    c sl_rep_fuel [OF r]
  show ?thesis by (simp add: SkipList_destroy_def back_chain_path delete_node_def)
qed

lemma first_member_iff:
  assumes r: "sl_rep s (us @ a # vs)" and f: "umap_find (sl_node_map s) k = Some a"
  shows "k = fst (hd (content s)) \<longleftrightarrow> us = []"
proof -
  have c: "content s = map (item (sl_heap s)) (us @ a # vs)" using sl_rep_struct [OF r] by simp
  show ?thesis
  proof (cases us)
    case Nil
    with c sl_rep_find [OF r f] show ?thesis by simp
  next
    case (Cons u us')
    have "u \<noteq> a" using r Cons by (auto simp: sl_rep_def shape_def)
    moreover have "u \<in> set (us @ a # vs)" using Cons by simp
    ultimately have "fst (item (sl_heap s) u) \<noteq> k"
      using sl_rep_find_iff [OF r, of k u] f by auto
    with c Cons show ?thesis by auto
  qed
qed

lemma DeleteElement_then_destroy:
  assumes "sl_reach s" and "back_ok s" and "k \<in> members s"
  shows "\<exists>s'. DeleteElement k s = Inr (1, s') \<and>
    SkipList_destroy s' = (if k = fst (hd (content s)) then Inl DoubleFree else Inr Map.empty)"
proof -
  have inv: "sl_inv s" and clear: "hdr_clear s"
    using sl_reach_inv [OF assms(1)] sl_reach_clear [OF assms(1)] by simp_all
  then have r: "sl_rep s (nodes s)" by (simp add: sl_inv_def sl_struct_def)
  obtain a where f: "umap_find (sl_node_map s) k = Some a"
    using assms(3) sl_struct_find_None [of s k] inv by (auto simp: sl_inv_def)
  obtain us vs where xs: "nodes s = us @ a # vs" by (rule sl_rep_split [OF r f])
  obtain s' where s': "DeleteElement k s = Inr (1, s')" "nodes s' = us @ vs" "sl_header s' = sl_header s"
      "sl_tail s' = (if vs = [] then Some (last (sl_header s # us)) else sl_tail s)"
      "bwd (sl_heap s') = (if vs = [] then bwd (sl_heap s)
        else (bwd (sl_heap s))(hd vs \<mapsto> Some (last (sl_header s # us))))(a := None)"
    using DeleteElement_bwd [OF inv f xs] by (auto simp: DeleteElement_eq)
  have st: "sl_struct s'" using sl_delete_inv [OF inv s'(1)] by (simp add: sl_inv_def)
  then have r': "sl_rep s' (us @ vs)" using s'(2) by (simp add: sl_struct_def)
  have "distinct (sl_header s # us @ a # vs)" using r xs by (simp add: sl_rep_def shape_def)
  with delete_chain [OF _ this _ s'(5,4)] assms(2) clear xs
  have p: "back_path (sl_heap s') (sl_tail s') (rev (us @ vs) @ (if us = [] then [sl_header s] else [])) None"
    by (simp add: back_ok_path hdr_clear_def)
  have "SkipList_destroy s' = (if us = [] then Inl DoubleFree else Inr Map.empty)"
  proof (cases "us = []")
    case True
    with destroy_header_twice [OF r'] p s'(3) show ?thesis by simp
  next
    case False
    with SkipList_destroy_ok [OF st] p s'(2) show ?thesis by (simp add: back_ok_path)
  qed
  with s'(1) first_member_iff [OF r [unfolded xs] f] show ?thesis by simp
qed

end
