(* ===== verification/Skip_List_Faults.thy ===== *)
theory Skip_List_Faults
  imports Skip_List_Back
begin

text \<open>
  The destructor, and where the skip list does not do what it means to. When the backward
  pointers are intact the destructor frees every node exactly once; which insertions and
  deletions keep them intact is stated exactly. The spans of the upper levels, which nothing
  reads, are wrong after simple runs, and a member that a smaller \<^verbatim>\<open>maxmemory\<close> marked for
  eviction is lost when its score is set again.
\<close>

section \<open>The destructor\<close>

text \<open>
  C35: If the tail pointer and the backward pointers of a reachable list chain the nodes in
  reverse order, the destructor frees every node and the header exactly once: it does not
  fault and nothing stays allocated.
\<close>

theorem destroy_frees_everything:
  assumes "sl_reach s" and "back_ok s"
  shows "SkipList_destroy s = Inr Map.empty"
  using SkipList_destroy_ok [OF _ assms(2)] sl_reach_inv [OF assms(1)] by (simp add: sl_inv_def)

text \<open>A list whose members were inserted in increasing order.\<close>

definition rising_list :: "nat SkipList res" where
  "rising_list =
     bindE (SkipList_new dangling 0 0 (Suc (Suc 0)) 0) (\<lambda>s.
     bindE (InsertElement dangling [65535] 1 5 s) (\<lambda>(_, _, s).
     bindE (InsertElement dangling [0, 65535] 2 6 s) (\<lambda>(_, _, s). Inr s)))"

lemma rising_list_ok:
  "\<exists>s. rising_list = Inr s \<and> sl_reach s \<and> back_ok s \<and> nodes s = [1, 2] \<and>
     content s = [(1, 5), (2, 6)] \<and> limit s = 0 \<and> doomed s = [] \<and> sl_max_level s = Suc (Suc 0) \<and>
     height (sl_heap s) 1 = 1 \<and> height (sl_heap s) 2 = 2"
proof -
  obtain s0 where s0: "SkipList_new dangling (0 :: nat) 0 (Suc (Suc 0)) 0 = Inr s0"
    by (simp add: exec cong: bindE_weak_cong)
  have "\<exists>s1. InsertElement dangling [65535] 1 5 s0 = Inr (1, [], s1)"
    using s0 by (simp add: exec cong: bindE_weak_cong) (auto simp: exec cong: bindE_weak_cong)
  then obtain s1 where s1: "InsertElement dangling [65535] 1 5 s0 = Inr (1, [], s1)" by blast
  have "\<exists>s2. InsertElement dangling [0, 65535] 2 6 s1 = Inr (1, [], s2)"
    using s0 s1 by (auto simp: exec cong: bindE_weak_cong)
  then obtain s2 where s2: "InsertElement dangling [0, 65535] 2 6 s1 = Inr (1, [], s2)" by blast
  have r: "rising_list = Inr s2" using s0 s1 s2 by (simp add: rising_list_def)
  have "sl_reach s2"
    by (rule step_reach [OF step_reach [OF new_reach [OF s0] insert_step [OF s1]] insert_step [OF s2]]) simp
  moreover have "back_ok s2 \<and> nodes s2 = [1, 2] \<and> content s2 = [(1, 5), (2, 6)] \<and> limit s2 = 0 \<and>
      doomed s2 = [] \<and> sl_max_level s2 = Suc (Suc 0) \<and> height (sl_heap s2) 1 = 1 \<and> height (sl_heap s2) 2 = 2"
    using r by (auto simp: rising_list_def back_ok_def height_def content_def item_def nodes_def fwd_def exec cong: bindE_weak_cong)
  ultimately show ?thesis using r by blast
qed

theorem destroy_frees_everything_witness:
  "\<exists>s. rising_list = Inr s \<and> SkipList_destroy s = Inr Map.empty"
proof -
  obtain s where "rising_list = Inr s" "sl_reach s" "back_ok s" using rising_list_ok by blast
  with destroy_frees_everything [of s] show ?thesis by blast
qed

text \<open>
  C39: Deleting a member of a reachable list whose backward pointers are intact and then
  destroying the list: if the member is the first one, the backward pointer of its successor
  (or the tail pointer, when it was the only member) is set to the header, and the destructor
  deletes the header twice; if it is any other member, the destructor frees everything.
\<close>

theorem delete_then_destroy:
  assumes "sl_reach s" and "back_ok s" and "k \<in> members s"
  shows "\<exists>s'. DeleteElement k s = Inr (1, s') \<and>
    SkipList_destroy s' = (if k = fst (hd (content s)) then Inl DoubleFree else Inr Map.empty)"
  by (rule DeleteElement_then_destroy [OF assms])

theorem delete_then_destroy_witness:
  "\<exists>s s1 s2. rising_list = Inr s \<and> DeleteElement 1 s = Inr (1, s1) \<and>
     SkipList_destroy s1 = Inl DoubleFree \<and> DeleteElement 2 s = Inr (1, s2) \<and>
     SkipList_destroy s2 = Inr Map.empty"
proof -
  obtain s where s: "rising_list = Inr s" "sl_reach s" "back_ok s" "content s = [(1, 5), (2, 6)]"
    using rising_list_ok by blast
  have m: "1 \<in> members s" "2 \<in> members s" using s(4) by (simp_all add: members_def)
  from delete_then_destroy [OF s(2,3) m(1)] delete_then_destroy [OF s(2,3) m(2)] s(1,4)
  show ?thesis by auto
qed



section \<open>Spans\<close>

text \<open>The span that a node keeps on a level.\<close>

definition span_of :: "'k SkipList \<Rightarrow> nat \<Rightarrow> addr \<Rightarrow> u32 option" where
  "span_of s i a = spn (sl_heap s) i a"

text \<open>
  The span of an upper level does not count the steps of the bottom level that its pointer
  skips: with the members 1, 2, 3 in this order, the header's pointer on level 1 leads to the
  member 3 (at address 2), three steps away, but its span is 2, because an insertion below the
  pointer does not lengthen it.
\<close>

theorem upper_span_wrong:
  "bindE (SkipList_new dangling (0 :: nat) 0 (Suc (Suc 0)) 0) (\<lambda>s.
   bindE (InsertElement dangling [65535] 1 1 s) (\<lambda>(_, _, s).
   bindE (InsertElement dangling [0, 65535] 3 9 s) (\<lambda>(_, _, s).
   bindE (InsertElement dangling [65535] 2 5 s) (\<lambda>(_, _, s).
   Inr (map fst (content s), fwd (sl_heap s) 1 0, fst (item (sl_heap s) 2), span_of s 1 0))))) =
   Inr ([1, 2, 3], Some (Some 2), 3, Some 2)"
  by (simp add: span_of_def content_def nodes_def fwd_def spn_def item_def exec cong: bindE_weak_cong)

section \<open>Members marked for eviction\<close>

text \<open>
  After a smaller \<^verbatim>\<open>maxmemory\<close> marked a member for eviction, giving it a new score
  reports success but the member is gone: it is inserted and the pending eviction of its key
  deletes it in the same call.
\<close>

theorem new_score_of_marked_member_is_lost:
  assumes "sl_reach s" and "k \<in> set (doomed s)" and "map_of (content s) k \<noteq> Some v" and "draws_ok rs"
    and "read_all stale (evicted k s) = Inr ks"
  shows "\<exists>n rs' s'. InsertElement stale rs k v s = Inr (n, rs', s') \<and> k \<notin> members s'"
proof -
  obtain l rs' where "GetRandomLevel (sl_max_level s) rs = Inr (l, rs')"
    using GetRandomLevel_returns [OF assms(4)] by blast
  from InsertElement_changes_spec [OF sl_reach_inv [OF assms(1)] assms(3) this assms(5)]
  show ?thesis using assms(2) by (auto simp: members_def)
qed

theorem new_score_of_marked_member_is_lost_witness:
  "\<exists>s s1 n rs' s'. sample_list = Inr s \<and> SkipList_SetMaxMemory (\<lambda>p. Inr (fst p)) 1 s = Inr (0, s1) \<and>
     1 \<in> members s1 \<and> InsertElement (\<lambda>p. Inr (fst p)) [65535] 1 7 s1 = Inr (n, rs', s') \<and> 1 \<notin> members s'"
proof -
  obtain s where s: "sample_list = Inr s" "sl_reach s" "content s = [(2, 3), (1, 5)]"
      "recents s = [(2, 3), (1, 5)]" "doomed s = []"
    using sample_list_ok by blast
  obtain s1 where s1: "SkipList_SetMaxMemory (\<lambda>p. Inr (fst p)) 1 s = Inr (0, s1)"
      "content s1 = [(2, 3), (1, 5)]" "doomed s1 = [1]"
    using SkipList_SetMaxMemory_spec [OF sl_reach_inv [OF s(2)], of 1 "\<lambda>p. Inr (fst p)" "[1]"] s
    by (auto simp: trimmed_def)
  have "sl_reach s1" by (rule step_reach [OF s(2) memory_step [OF s1(1)]])
  from new_score_of_marked_member_is_lost [OF this, of 1 7 "[65535]" "\<lambda>p. Inr (fst p)"] s s1
  show ?thesis by (fastforce simp: draws_ok_def members_def read_all_defined)
qed

end
