(* ===== verification/Cpp_Text.thy ===== *)
theory Cpp_Text
  imports Prelude
begin

text \<open>
  The string functions of the standard library that the program calls: \<^verbatim>\<open>std::to_string\<close> and
  \<^verbatim>\<open>std::stoi\<close> on \<^verbatim>\<open>int\<close>, \<^verbatim>\<open>getline\<close>, \<^verbatim>\<open>operator>>\<close> on a string stream, and
  C strings that end at the first null character. The round trips between them carry the file
  format and the command protocol.
\<close>

section \<open>Numbers\<close>

definition int_min :: int where "int_min = - (2 ^ 31)"
definition int_max :: int where "int_max = 2 ^ 31 - 1"

definition is_int :: "int \<Rightarrow> bool" where
  "is_int x \<longleftrightarrow> int_min \<le> x \<and> x \<le> int_max"

definition digit_char :: "nat \<Rightarrow> char" where
  "digit_char d = ''0123456789'' ! d"

definition code :: "char \<Rightarrow> nat" where
  "code c = of_char c"

definition is_digit :: "char \<Rightarrow> bool" where
  "is_digit c \<longleftrightarrow> 48 \<le> code c \<and> code c \<le> 57"

definition digit_val :: "char \<Rightarrow> nat" where
  "digit_val c = code c - 48"

fun nat_string :: "nat \<Rightarrow> string" where
  "nat_string n =
     (if n < 10 then [digit_char n] else nat_string (n div 10) @ [digit_char (n mod 10)])"

declare nat_string.simps [simp del]

definition to_string :: "int \<Rightarrow> string" where
  "to_string x = (if x < 0 then CHR ''-'' # nat_string (nat (- x)) else nat_string (nat x))"

definition is_space :: "char \<Rightarrow> bool" where
  "is_space c \<longleftrightarrow> code c = 32 \<or> (9 \<le> code c \<and> code c \<le> 13)"

definition digits_value :: "string \<Rightarrow> nat" where
  "digits_value ds = foldl (\<lambda>n c. 10 * n + digit_val c) 0 ds"

text \<open>
  \<^verbatim>\<open>std::stoi\<close>: white space, an optional sign, then the longest run of digits; what follows is
  ignored. Without a digit it throws \<^verbatim>\<open>invalid_argument\<close>, for a value that is no
  \<^verbatim>\<open>int\<close> \<^verbatim>\<open>out_of_range\<close>.
\<close>

definition stoi :: "string \<Rightarrow> int res" where
  "stoi s =
     (let s1 = dropWhile is_space s;
          neg = (s1 \<noteq> [] \<and> hd s1 = CHR ''-'');
          s2 = (if s1 \<noteq> [] \<and> (hd s1 = CHR ''-'' \<or> hd s1 = CHR ''+'') then tl s1 else s1);
          ds = takeWhile is_digit s2;
          v = (if neg then - int (digits_value ds) else int (digits_value ds))
      in if ds = [] then Inl InvalidArgument
         else if is_int v then Inr v else Inl OutOfRange)"

text \<open>
  \<^verbatim>\<open>atoi\<close> as the C library computes it: the number is clipped to 64 bits and cut to 32.
\<close>

definition atoi :: "string \<Rightarrow> int" where
  "atoi str =
     (let s1 = dropWhile is_space str;
          neg = (s1 \<noteq> [] \<and> hd s1 = CHR ''-'');
          s2 = (if s1 \<noteq> [] \<and> (hd s1 = CHR ''-'' \<or> hd s1 = CHR ''+'') then tl s1 else s1);
          n = int (digits_value (takeWhile is_digit s2));
          v = (if neg then max (- n) (- (2 ^ 63)) else min n (2 ^ 63 - 1))
      in sint (word_of_int v :: 32 word))"

lemma less_10_cases: "d < 10 \<Longrightarrow> d \<in> {0, 1, 2, 3, 4, 5, 6, 7, 8, 9 :: nat}"
  by auto

lemma digit_char_val [simp]: "d < 10 \<Longrightarrow> digit_val (digit_char d) = d"
  by (drule less_10_cases) (auto simp: digit_val_def digit_char_def code_def)

lemma is_digit_char [simp]: "d < 10 \<Longrightarrow> is_digit (digit_char d)"
  by (drule less_10_cases) (auto simp: is_digit_def digit_char_def code_def)

lemma nat_string_digits: "\<forall>c \<in> set (nat_string n). is_digit c"
proof (induction n rule: nat_string.induct)
  case (1 n)
  then show ?case by (subst nat_string.simps) auto
qed

lemma nat_string_not_Nil [simp]: "nat_string n \<noteq> []"
  by (subst nat_string.simps) simp

lemma digits_value_snoc: "digits_value (ds @ [c]) = 10 * digits_value ds + digit_val c"
  by (simp add: digits_value_def)

lemma digits_value_string [simp]: "digits_value (nat_string n) = n"
proof (induction n rule: nat_string.induct)
  case (1 n)
  show ?case
  proof (cases "n < 10")
    case True
    then show ?thesis by (subst nat_string.simps) (simp add: digits_value_def)
  next
    case False
    then have "digits_value (nat_string n) = 10 * (n div 10) + n mod 10"
      using 1 by (subst nat_string.simps) (simp add: digits_value_snoc)
    then show ?thesis by simp
  qed
qed

lemma digit_no_space: "is_digit c \<Longrightarrow> \<not> is_space c"
  by (auto simp: is_digit_def is_space_def)

lemma digit_no_sign: "is_digit c \<Longrightarrow> c \<noteq> CHR ''-'' \<and> c \<noteq> CHR ''+''"
  by (auto simp: is_digit_def code_def)

lemma minus_no_space [simp]: "\<not> is_space CHR ''-''"
  by (simp add: is_space_def code_def)

lemma nat_string_hd: "is_digit (hd (nat_string n))"
  using nat_string_digits [of n] by (simp add: hd_in_set)

lemma takeWhile_digits:
  assumes "rest = [] \<or> \<not> is_digit (hd rest)"
  shows "takeWhile is_digit (nat_string n @ rest) = nat_string n"
proof -
  have "takeWhile is_digit rest = []" using assms by (cases rest) auto
  then show ?thesis using nat_string_digits by (simp add: takeWhile_append2)
qed

text \<open>\<^verbatim>\<open>stoi\<close> reads back what \<^verbatim>\<open>to_string\<close> writes, whatever other text follows.\<close>

lemma dropWhile_nat_string: "dropWhile is_space (nat_string n @ rest) = nat_string n @ rest"
  using digit_no_space [OF nat_string_hd [of n]] by (cases "nat_string n") auto

lemma stoi_to_string_append:
  assumes "is_int x" and "rest = [] \<or> \<not> is_digit (hd rest)"
  shows "stoi (to_string x @ rest) = Inr x"
proof (cases "x < 0")
  case True
  then show ?thesis
    using takeWhile_digits [OF assms(2)] assms(1) by (simp add: stoi_def to_string_def Let_def)
next
  case False
  have "hd (nat_string (nat x) @ rest) = hd (nat_string (nat x))" by simp
  then show ?thesis
    using False takeWhile_digits [OF assms(2), of "nat x"] assms(1) digit_no_sign [OF nat_string_hd [of "nat x"]]
    by (simp add: stoi_def to_string_def Let_def dropWhile_nat_string)
qed

lemma stoi_to_string [simp]: "is_int x \<Longrightarrow> stoi (to_string x) = Inr x"
  using stoi_to_string_append [of x "[]"] by simp

lemma stoi_is_int: "stoi s = Inr x \<Longrightarrow> is_int x"
  by (auto simp: stoi_def Let_def split: if_splits)

lemma to_string_chars: "c \<in> set (to_string x) \<Longrightarrow> is_digit c \<or> c = CHR ''-''"
  using nat_string_digits by (auto simp: to_string_def split: if_splits)

lemma to_string_not_Nil [simp]: "to_string x \<noteq> []"
  by (simp add: to_string_def)

section \<open>Lines\<close>

text \<open>Repeated \<^verbatim>\<open>getline\<close> until it fails: an unterminated last line counts if it is not empty.\<close>

function getlines :: "string \<Rightarrow> string list" where
  "getlines s =
     (if s = [] then []
      else takeWhile (\<lambda>c. c \<noteq> CHR ''\<newline>'') s #
           getlines (tl (dropWhile (\<lambda>c. c \<noteq> CHR ''\<newline>'') s)))"
  by pat_completeness auto
termination
proof (relation "measure length")
  fix s :: string
  assume "s \<noteq> []"
  have "length (tl (dropWhile P xs)) < length xs" if "xs \<noteq> []" for P and xs :: string
  proof -
    have "0 < length xs" using that by simp
    with length_dropWhile_le [of P xs] show ?thesis by (simp only: length_tl)
  qed
  with \<open>s \<noteq> []\<close> show "(tl (dropWhile (\<lambda>c. c \<noteq> CHR ''\<newline>'') s), s) \<in> measure length" by simp
qed simp

declare getlines.simps [simp del]

lemma getlines_Nil [simp]: "getlines [] = []"
  by (simp add: getlines.simps)

lemma getlines_line:
  assumes "CHR ''\<newline>'' \<notin> set l"
  shows "getlines (l @ CHR ''\<newline>'' # rest) = l # getlines rest"
proof -
  have "takeWhile (\<lambda>c. c \<noteq> CHR ''\<newline>'') (l @ CHR ''\<newline>'' # rest) = l"
    "dropWhile (\<lambda>c. c \<noteq> CHR ''\<newline>'') (l @ CHR ''\<newline>'' # rest) = CHR ''\<newline>'' # rest"
    using assms by (induction l) auto
  then show ?thesis by (subst getlines.simps) simp
qed

lemma getlines_unlines:
  assumes "\<And>l. l \<in> set ls \<Longrightarrow> CHR ''\<newline>'' \<notin> set l"
  shows "getlines (concat (map (\<lambda>l. l @ ''\<newline>'') ls)) = ls"
  using assms by (induction ls) (auto simp: getlines_line)

section \<open>Words\<close>

text \<open>
  Repeated extraction of a string from a stream: each word is a longest run of characters that
  are no white space.
\<close>

function words :: "string \<Rightarrow> string list" where
  "words s =
     (let t = dropWhile is_space s in
      if t = [] then []
      else takeWhile (\<lambda>c. \<not> is_space c) t # words (dropWhile (\<lambda>c. \<not> is_space c) t))"
  by pat_completeness auto
termination
proof (relation "measure length")
  fix s t :: string
  assume t: "t = dropWhile is_space s" "t \<noteq> []"
  then obtain c r where c: "t = c # r" "\<not> is_space c"
    by (metis hd_dropWhile list.collapse)
  have "length (dropWhile (\<lambda>c. \<not> is_space c) t) < length t"
    using c length_dropWhile_le [of "\<lambda>c. \<not> is_space c" r] by simp
  also have "\<dots> \<le> length s" using t by (simp add: length_dropWhile_le)
  finally show "(dropWhile (\<lambda>c. \<not> is_space c) t, s) \<in> measure length" by simp
qed simp

declare words.simps [simp del]

lemma words_Nil [simp]: "words [] = []"
  by (simp add: words.simps)

lemma words_clean: "w \<in> set (words s) \<Longrightarrow> w \<noteq> [] \<and> (\<forall>c \<in> set w. \<not> is_space c)"
proof (induction s rule: words.induct)
  case (1 s)
  let ?t = "dropWhile is_space s"
  show ?case
  proof (cases "?t = []")
    case True
    then show ?thesis using 1(2) by (simp add: words.simps [of s])
  next
    case False
    then have "\<not> is_space (hd ?t)" by (rule hd_dropWhile)
    then have "takeWhile (\<lambda>c. \<not> is_space c) ?t \<noteq> []" using False by (cases ?t) auto
    moreover have "w = takeWhile (\<lambda>c. \<not> is_space c) ?t \<or>
        w \<in> set (words (dropWhile (\<lambda>c. \<not> is_space c) ?t))"
      using 1(2) False by (auto simp: words.simps [of s] Let_def split: if_splits)
    moreover have "\<forall>c \<in> set (takeWhile (\<lambda>c. \<not> is_space c) ?t). \<not> is_space c"
      using set_takeWhileD by fast
    ultimately show ?thesis using 1(1) [OF refl False] by metis
  qed
qed

lemma words_cons:
  assumes "w \<noteq> []" and "\<forall>c \<in> set w. \<not> is_space c" and "rest = [] \<or> is_space (hd rest)"
  shows "words (w @ rest) = w # words rest"
proof -
  have "dropWhile is_space (w @ rest) = w @ rest" using assms(1,2) by (cases w) auto
  moreover have "takeWhile (\<lambda>c. \<not> is_space c) (w @ rest) = w"
      "dropWhile (\<lambda>c. \<not> is_space c) (w @ rest) = rest"
    using assms(2,3) by (cases rest; auto simp: takeWhile_append2 dropWhile_append2)+
  ultimately show ?thesis using assms(1) by (subst words.simps) (simp add: Let_def)
qed

lemma words_skip: "is_space c \<Longrightarrow> words (c # s) = words s"
  by (subst (1 2) words.simps) simp

definition c_string :: "string \<Rightarrow> string" where
  "c_string s = takeWhile (\<lambda>c. code c \<noteq> 0) s"

text \<open>A command line with its words separated by single blanks.\<close>

fun unwords :: "string list \<Rightarrow> string" where
  "unwords [] = []"
| "unwords [w] = w"
| "unwords (w # ws) = w @ CHR '' '' # unwords ws"

lemma words_spaces: "(\<And>c. c \<in> set s \<Longrightarrow> is_space c) \<Longrightarrow> words s = []"
  by (simp add: words.simps [of s])

lemma words_unwords:
  assumes "\<And>w. w \<in> set ws \<Longrightarrow> w \<noteq> [] \<and> (\<forall>c \<in> set w. \<not> is_space c)"
    and "\<And>c. c \<in> set rest \<Longrightarrow> is_space c"
  shows "words (unwords ws @ rest) = ws"
  using assms
proof (induction ws rule: unwords.induct)
  case 1
  then show ?case by (simp add: words_spaces)
next
  case (2 w)
  have "rest = [] \<or> is_space (hd rest)" using 2(2) by (cases rest) auto
  with 2 show ?case using words_cons [of w rest] by (simp add: words_spaces)
next
  case (3 w v ws)
  have b: "is_space CHR '' ''" by (simp add: is_space_def code_def)
  have "words (unwords (w # v # ws) @ rest) = w # words (CHR '' '' # unwords (v # ws) @ rest)"
    using 3(2) [of w] b by (simp add: words_cons)
  moreover have "words (unwords (v # ws) @ rest) = v # ws" by (rule 3(1)) (use 3(2,3) in auto)
  ultimately show ?case using words_skip [OF b] by simp
qed

lemmas text_exec [exec] =
  words.simps getlines.simps c_string_def is_space_def code_def stoi_def is_digit_def
  digits_value_def digit_val_def is_int_def int_min_def int_max_def to_string_def nat_string.simps
  digit_char_def less_char_def

end
