(* ===== verification/Client.thy ===== *)
theory Client
  imports Cpp_Text
begin

text \<open>
  The command-line client of \<^verbatim>\<open>client.cpp\<close>. The standard input is a stream with its state
  bits, the console is the text printed so far, and the connection is a world \<open>'w\<close> that the
  two system calls on the socket, arguments of the loop, read and change.
\<close>

section \<open>The standard input\<close>

text \<open>\<open>is_good\<close> is \<^verbatim>\<open>good()\<close>: none of the end-of-file and failure bits is set.\<close>

record istream =
  is_text :: string
  is_good :: bool

text \<open>
  \<^verbatim>\<open>istream::getline(buf, n)\<close>: at most \<open>n - 1\<close> characters up to a line break, which is taken but
  not stored. The end of the input sets the end-of-file bit, a longer line the failure bit. A
  stream that is not good stores the empty string and stays as it is.
\<close>

definition istream_getline :: "nat \<Rightarrow> istream \<Rightarrow> string \<times> istream" where
  "istream_getline n i =
     (if \<not> is_good i then ([], i)
      else
        let line = take (n - 1) (takeWhile (\<lambda>c. c \<noteq> CHR ''\<newline>'') (is_text i));
            rest = drop (length line) (is_text i)
        in (line,
            case rest of
              [] \<Rightarrow> \<lparr>is_text = [], is_good = False\<rparr>
            | c # rest' \<Rightarrow>
                if c = CHR ''\<newline>'' then \<lparr>is_text = rest', is_good = True\<rparr>
                else \<lparr>is_text = rest, is_good = False\<rparr>))"

section \<open>One round of the loop\<close>

record client =
  cl_in :: istream
  cl_console :: string

definition prompt :: string where "prompt = ''[Redis]$ ''"

text \<open>What the line that was read asks for: nothing, the end, or a request to the server.\<close>

datatype client_action = Again | Quit | Send string

definition client_input :: "client \<Rightarrow> client_action \<times> client" where
  "client_input cl =
     (let (line, i) = istream_getline 1024 (cl_in cl); buf = c_string line;
          cl' = cl\<lparr>cl_in := i, cl_console := cl_console cl @ prompt\<rparr>
      in if buf = [] then (Again, cl')
         else if buf = ''quit'' \<or> buf = ''exit'' then (Quit, cl')
         else (Send buf, cl'))"

datatype read_result = ReadError | ReadEnd | ReadData string

text \<open>What the loop does with the result of \<^verbatim>\<open>read\<close>; the boolean says whether it goes on.\<close>

definition client_receive :: "read_result \<Rightarrow> client \<Rightarrow> bool \<times> client" where
  "client_receive r cl =
     (case r of
        ReadError \<Rightarrow> (False, cl\<lparr>cl_console := cl_console cl @ ''read error\<newline>''\<rparr>)
      | ReadEnd \<Rightarrow> (False, cl)
      | ReadData text \<Rightarrow> (True, cl\<lparr>cl_console := cl_console cl @ text\<rparr>))"

text \<open>
  \<open>wr\<close> is \<^verbatim>\<open>write\<close> on the socket, with the number of bytes taken or \<open>None\<close> for \<open>-1\<close>; \<open>rd\<close> is a
  \<^verbatim>\<open>read\<close> of at most so many bytes, which may block for ever. The loop compares the result of
  \<^verbatim>\<open>write\<close> with \<open>-1\<close> only.
\<close>

type_synonym 'w write_call = "string \<Rightarrow> 'w \<Rightarrow> nat option \<times> 'w"
type_synonym 'w read_call = "nat \<Rightarrow> 'w \<Rightarrow> (read_result \<times> 'w) res"

definition client_round ::
  "'w write_call \<Rightarrow> 'w read_call \<Rightarrow> client \<times> 'w \<Rightarrow> (bool \<times> client \<times> 'w) res" where
  "client_round wr rd st =
     (case st of (cl, w) \<Rightarrow>
      case client_input cl of
        (Again, cl1) \<Rightarrow> Inr (True, cl1, w)
      | (Quit, cl1) \<Rightarrow> Inr (False, cl1, w)
      | (Send buf, cl1) \<Rightarrow>
          case wr buf w of
            (None, w1) \<Rightarrow> Inr (False, cl1\<lparr>cl_console := cl_console cl1 @ ''write error\<newline>''\<rparr>, w1)
          | (Some _, w1) \<Rightarrow>
              bindE (rd 1024 w1) (\<lambda>(r, w2).
              case client_receive r cl1 of (go_on, cl2) \<Rightarrow> Inr (go_on, cl2, w2)))"

text \<open>The first \<open>n\<close> rounds; the boolean says whether the loop is still running.\<close>

fun client_loop ::
  "'w write_call \<Rightarrow> 'w read_call \<Rightarrow> nat \<Rightarrow> client \<times> 'w \<Rightarrow> (bool \<times> client \<times> 'w) res" where
  "client_loop wr rd 0 st = Inr (True, st)"
| "client_loop wr rd (Suc n) st =
     bindE (client_round wr rd st) (\<lambda>(go_on, st').
     if go_on then client_loop wr rd n st' else Inr (False, st'))"

section \<open>Start\<close>

text \<open>
  The start of \<^verbatim>\<open>main\<close>: \<open>Inl\<close> is the exit code and what was printed, \<open>Inr\<close> that the loop is
  entered. \<open>sockfd\<close> and \<open>connected\<close> are the results of \<^verbatim>\<open>socket\<close> and \<^verbatim>\<open>connect\<close>,
  \<open>input\<close> is what the standard input will deliver.
\<close>

definition basename :: "string \<Rightarrow> string" where
  "basename path = rev (takeWhile (\<lambda>c. c \<noteq> CHR ''/'') (rev path))"

definition client_start :: "string list \<Rightarrow> int \<Rightarrow> int \<Rightarrow> string \<Rightarrow> ((int \<times> string) + client) res" where
  "client_start argv sockfd connected input =
     (if length argv \<noteq> 3
      then (if argv = [] then Inl NullDeref
            else Inr (Inl (1, ''Usage: '' @ basename (hd argv) @ '' [ip] [port]\<newline>'')))
      else if sockfd < 0 then Inl AssertFailed
      else if connected < 0 then Inr (Inl (1, ''connection failed\<newline>''))
      else Inr (Inr \<lparr>cl_in = \<lparr>is_text = input, is_good = True\<rparr>, cl_console = []\<rparr>))"

lemmas client_exec [exec] =
  istream_getline_def client_input_def client_receive_def client_round_def client_loop.simps prompt_def

section \<open>Reading lines\<close>

lemma istream_getline_line:
  assumes "\<forall>c \<in> set line. c \<noteq> CHR ''\<newline>''" and "length line < n"
  shows "istream_getline n \<lparr>is_text = line @ CHR ''\<newline>'' # rest, is_good = True\<rparr> =
    (line, \<lparr>is_text = rest, is_good = True\<rparr>)"
proof -
  have "takeWhile (\<lambda>c. c \<noteq> CHR ''\<newline>'') (line @ CHR ''\<newline>'' # rest) = line"
    using assms(1) by (simp add: takeWhile_append2)
  then show ?thesis using assms(2) by (simp add: istream_getline_def Let_def)
qed

text \<open>A line without null characters that is neither empty nor a word to stop is sent as it is.\<close>

definition request_line :: "string \<Rightarrow> bool" where
  "request_line line \<longleftrightarrow> line \<noteq> [] \<and> line \<noteq> ''quit'' \<and> line \<noteq> ''exit'' \<and> length line < 1024 \<and>
     (\<forall>c \<in> set line. c \<noteq> CHR ''\<newline>'' \<and> code c \<noteq> 0)"

lemma c_string_request: "request_line line \<Longrightarrow> c_string line = line"
  by (auto simp: request_line_def c_string_def takeWhile_eq_all_conv)

lemma client_input_request:
  assumes "request_line line" and "is_text (cl_in cl) = line @ CHR ''\<newline>'' # rest" and "is_good (cl_in cl)"
  shows "client_input cl = (Send line,
    cl\<lparr>cl_in := \<lparr>is_text = rest, is_good = True\<rparr>, cl_console := cl_console cl @ prompt\<rparr>)"
proof -
  have "cl_in cl = \<lparr>is_text = line @ CHR ''\<newline>'' # rest, is_good = True\<rparr>"
    using assms(2,3) by (cases "cl_in cl") simp
  moreover have "istream_getline 1024 \<dots> = (line, \<lparr>is_text = rest, is_good = True\<rparr>)"
    using assms(1) by (intro istream_getline_line) (auto simp: request_line_def)
  ultimately show ?thesis
    using assms(1) c_string_request [OF assms(1)] by (auto simp: client_input_def request_line_def)
qed

lemma client_input_exit:
  assumes "cl_in cl = \<lparr>is_text = ''exit'' @ CHR ''\<newline>'' # rest, is_good = True\<rparr>"
  shows "\<exists>i. client_input cl = (Quit, cl\<lparr>cl_in := i, cl_console := cl_console cl @ prompt\<rparr>)"
proof -
  have "istream_getline 1024 (cl_in cl) = (''exit'', \<lparr>is_text = rest, is_good = True\<rparr>)"
    unfolding assms by (rule istream_getline_line) auto
  moreover have "c_string ''exit'' = ''exit''" by (simp add: c_string_def code_def)
  ultimately show ?thesis by (auto simp: client_input_def)
qed

section \<open>A stream that is no longer good\<close>

lemma client_round_dead:
  assumes "\<not> is_good (cl_in cl)"
  shows "client_round wr rd (cl, w) = Inr (True, cl\<lparr>cl_console := cl_console cl @ prompt\<rparr>, w)"
  using assms by (simp add: client_round_def client_input_def istream_getline_def c_string_def)

lemma client_loop_dead:
  assumes "\<not> is_good (cl_in cl)"
  shows "client_loop wr rd n (cl, w) =
    Inr (True, cl\<lparr>cl_console := cl_console cl @ concat (replicate n prompt)\<rparr>, w)"
  using assms
proof (induction n arbitrary: cl)
  case (Suc n)
  then show ?case by (simp add: client_round_dead Suc.IH)
qed simp

text \<open>After the last line, or in front of a line that is too long, the stream stops being good.\<close>

lemma getline_end:
  assumes "is_text i = []"
  shows "\<not> is_good (snd (istream_getline n i))"
  using assms by (simp add: istream_getline_def Let_def)

lemma getline_long:
  assumes "n \<le> length line" and "\<forall>c \<in> set line. c \<noteq> CHR ''\<newline>''" and "is_text i = line @ rest" and "0 < n"
  shows "\<not> is_good (snd (istream_getline n i))"
proof (cases "is_good i")
  case True
  let ?t = "takeWhile (\<lambda>c. c \<noteq> CHR ''\<newline>'') (is_text i)"
  have t: "?t = line @ takeWhile (\<lambda>c. c \<noteq> CHR ''\<newline>'') rest"
    using assms(2,3) by (simp add: takeWhile_append2)
  then have l: "length (take (n - 1) ?t) = n - 1" using assms(1) by simp
  have "drop (n - 1) (is_text i) = line ! (n - 1) # drop n (is_text i)"
    using assms(1,3,4) Cons_nth_drop_Suc [of "n - 1" line] by simp
  moreover have "line ! (n - 1) \<noteq> CHR ''\<newline>''" using assms(1,2,4) by auto
  ultimately show ?thesis using True l by (simp add: istream_getline_def Let_def)
qed (simp add: istream_getline_def)

lemma client_input_in: "client_input cl = (a, cl1) \<Longrightarrow> cl_in cl1 = snd (istream_getline 1024 (cl_in cl))"
  by (auto simp: client_input_def Let_def split_def split: if_splits)

lemma client_receive_in [simp]: "cl_in (snd (client_receive r cl)) = cl_in cl"
  by (simp add: client_receive_def split: read_result.split)

lemma client_round_in:
  assumes "client_round wr rd (cl, w) = Inr (b, cl', w')"
  shows "cl_in cl' = snd (istream_getline 1024 (cl_in cl))"
proof -
  obtain a cl1 where a: "client_input cl = (a, cl1)" by fastforce
  then have "cl_in cl' = cl_in cl1"
    using assms by (cases a) (auto simp: client_round_def bindE_Inr_iff split_def split: option.splits)
  with client_input_in [OF a] show ?thesis by simp
qed

section \<open>Properties\<close>

text \<open>
  C36: The client does not end with its input. When the standard input is exhausted or its next
  line has 1024 characters or more, the first round after that may still send a request; every
  later round only prints the prompt, for ever: no number of rounds is enough to leave the loop,
  and the server is not asked again.
\<close>

theorem client_never_ends_without_quit:
  assumes "is_text (cl_in cl) = [] \<or>
      (\<exists>line rest. is_text (cl_in cl) = line @ rest \<and> 1024 \<le> length line \<and> (\<forall>c \<in> set line. c \<noteq> CHR ''\<newline>''))"
    and "client_round wr rd (cl, w) = Inr (True, cl', w')"
  shows "client_loop wr rd (Suc n) (cl, w) =
    Inr (True, cl'\<lparr>cl_console := cl_console cl' @ concat (replicate n prompt)\<rparr>, w')"
proof -
  have "\<not> is_good (snd (istream_getline 1024 (cl_in cl)))"
    using assms(1) getline_end getline_long [of 1024] by (metis zero_less_numeral)
  moreover have "cl_in cl' = snd (istream_getline 1024 (cl_in cl))"
    using assms(2) by (rule client_round_in)
  ultimately have "client_loop wr rd n (cl', w') =
      Inr (True, cl'\<lparr>cl_console := cl_console cl' @ concat (replicate n prompt)\<rparr>, w')"
    by (simp add: client_loop_dead)
  with assms(2) show ?thesis by simp
qed

theorem client_never_ends_without_quit_witness:
  "client_loop (\<lambda>t w. (None, w)) (\<lambda>n w. Inl Blocked) (Suc 2)
     (\<lparr>cl_in = \<lparr>is_text = [], is_good = True\<rparr>, cl_console = []\<rparr>, ()) =
   Inr (True, \<lparr>cl_in = \<lparr>is_text = [], is_good = False\<rparr>, cl_console = ''[Redis]$ [Redis]$ [Redis]$ ''\<rparr>, ())"
proof -
  let ?cl = "\<lparr>cl_in = \<lparr>is_text = [], is_good = True\<rparr>, cl_console = []\<rparr>"
  have "client_round (\<lambda>t w. (None, w)) (\<lambda>n w. Inl Blocked) (?cl, ()) =
      Inr (True, \<lparr>cl_in = \<lparr>is_text = [], is_good = False\<rparr>, cl_console = prompt\<rparr>, ())"
    by (simp add: client_round_def client_input_def istream_getline_def c_string_def)
  from client_never_ends_without_quit [OF _ this, of 2] show ?thesis
    by (simp add: prompt_def eval_nat_numeral)
qed

end
