(* ===== verification/Skip_List_File.thy ===== *)
theory Skip_List_File
  imports Skip_List_Reach Cpp_Text
begin

text \<open>
  The text interface of a skip list: \<^verbatim>\<open>DisplayList\<close>, \<^verbatim>\<open>DumpFile\<close>, \<^verbatim>\<open>Save\<close> and
  \<^verbatim>\<open>LoadFile\<close> with its line parser (\<^verbatim>\<open>skiplist.h\<close>). Files are strings; what the
  operations write is returned, what they read is an argument. Saving writes the members in
  order, and loading what was saved into an empty list gives the same list.
\<close>

section \<open>Writing\<close>

definition save_line :: "string \<Rightarrow> int \<Rightarrow> string" where
  "save_line ele score = ele @ '':'' @ to_string score @ ''\<newline>''"

definition show_item :: "string \<Rightarrow> int \<Rightarrow> string" where
  "show_item ele score = ele @ '':'' @ to_string score @ '';''"

text \<open>A walk along one level that appends one piece of text per node.\<close>

fun print_walk ::
  "(string \<Rightarrow> int \<Rightarrow> string) \<Rightarrow> nat \<Rightarrow> string heap \<Rightarrow> nat \<Rightarrow> addr option \<Rightarrow> string \<Rightarrow> string res" where
  "print_walk pr n h i None out = Inr out"
| "print_walk pr 0 h i (Some a) out = Inl Diverges"
| "print_walk pr (Suc n) h i (Some a) out =
     bindE (rd_node h a) (\<lambda>nd.
     bindE (rd_forward h a i) (\<lambda>p.
     print_walk pr n h i p (out @ pr (nd_ele nd) (nd_score nd))))"

text \<open>\<^verbatim>\<open>Save\<close>: the text written to the stream.\<close>

definition SkipList_Save :: "string SkipList \<Rightarrow> string res" where
  "SkipList_Save s =
     bindE (rd_forward (sl_heap s) (sl_header s) 0) (\<lambda>p.
     print_walk save_line (sl_next_addr s) (sl_heap s) 0 p [])"

text \<open>
  \<^verbatim>\<open>DumpFile\<close>: the same loop writes to \<^verbatim>\<open>store/dump_file\<close> and to the console. \<open>opened\<close> says
  whether the file could be opened; if not, the stream ignores what is written to it. The
  result is the new content of the file, if any, and the text on the console.
\<close>

definition dump_banner :: string where
  "dump_banner = ''\<newline>************************* Dump File *************************\<newline>''"

definition console_line :: "string \<Rightarrow> int \<Rightarrow> string" where
  "console_line ele score = ele @ '':'' @ to_string score @ '';\<newline>''"

definition SkipList_DumpFile :: "bool \<Rightarrow> string SkipList \<Rightarrow> (string option \<times> string) res" where
  "SkipList_DumpFile opened s =
     bindE (rd_forward (sl_heap s) (sl_header s) 0) (\<lambda>p.
     bindE (print_walk save_line (sl_next_addr s) (sl_heap s) 0 p []) (\<lambda>file.
     bindE (print_walk console_line (sl_next_addr s) (sl_heap s) 0 p dump_banner) (\<lambda>out.
     Inr (if opened then Some file else None, out @ ''\<newline>''))))"

fun display_levels :: "string SkipList \<Rightarrow> nat \<Rightarrow> nat \<Rightarrow> string \<Rightarrow> string res" where
  "display_levels s i 0 out = Inr out"
| "display_levels s i (Suc todo) out =
     bindE (rd_forward (sl_heap s) (sl_header s) i) (\<lambda>p.
     bindE (print_walk show_item (sl_next_addr s) (sl_heap s) i p
              (out @ ''Level '' @ to_string (int i) @ '': '')) (\<lambda>out'.
     display_levels s (Suc i) todo (out' @ ''\<newline>'')))"

definition display_banner :: string where
  "display_banner = ''\<newline>************************* Skip List *************************\<newline>''"

definition SkipList_DisplayList :: "string SkipList \<Rightarrow> string res" where
  "SkipList_DisplayList s =
     bindE (display_levels s 0 (sl_max_level s) display_banner) (\<lambda>out.
     Inr (out @ ''\<newline>''))"

section \<open>Reading\<close>

definition IsValidString :: "string \<Rightarrow> bool" where
  "IsValidString str \<longleftrightarrow> str \<noteq> [] \<and> CHR '':'' \<in> set str"

text \<open>The pair of strings that the caller passes by pointer; left alone by an invalid line.\<close>

definition GetObjectFromString :: "string \<Rightarrow> string \<times> string \<Rightarrow> string \<times> string" where
  "GetObjectFromString str kv =
     (if IsValidString str
      then (takeWhile (\<lambda>c. c \<noteq> CHR '':'') str, tl (dropWhile (\<lambda>c. c \<noteq> CHR '':'') str))
      else kv)"

fun load_lines ::
  "(string \<times> int \<Rightarrow> string res) \<Rightarrow> nat list \<Rightarrow> string list \<Rightarrow> string \<times> string \<Rightarrow> string SkipList \<Rightarrow>
   (nat list \<times> string SkipList) res" where
  "load_lines stale rs [] kv s = Inr (rs, s)"
| "load_lines stale rs (line # ls) kv s =
     (let kv' = GetObjectFromString line kv in
      if fst kv' = [] \<or> snd kv' = [] then load_lines stale rs ls kv' s
      else
        case stoi (snd kv') of
          Inl _ \<Rightarrow> load_lines stale rs ls kv' s
        | Inr value \<Rightarrow>
            bindE (InsertElement stale rs (fst kv') value s) (\<lambda>(_, rs', s').
            load_lines stale rs' ls kv' s'))"

text \<open>\<open>file\<close> is the content of \<^verbatim>\<open>store/dump_file\<close>, empty if it cannot be opened.\<close>

definition SkipList_LoadFile ::
  "(string \<times> int \<Rightarrow> string res) \<Rightarrow> nat list \<Rightarrow> string \<Rightarrow> string SkipList \<Rightarrow>
   (nat list \<times> string SkipList) res" where
  "SkipList_LoadFile stale rs file s = load_lines stale rs (getlines file) ([], []) s"

section \<open>What is written\<close>

lemma print_walk_ok:
  assumes "seg h i a xs None" and "length xs \<le> n" and "\<And>x. x \<in> set xs \<Longrightarrow> h x \<noteq> None"
    and "fwd h i a = Some p"
  shows "print_walk pr n h i p out =
    Inr (out @ concat (map (\<lambda>x. pr (fst (item h x)) (snd (item h x))) xs))"
  using assms
proof (induction xs arbitrary: a n out p)
  case Nil
  then show ?case by simp
next
  case (Cons b xs)
  obtain nd where nd: "h b = Some nd" using Cons.prems(3) [of b] by auto
  from Cons.prems obtain m where n: "n = Suc m" "p = Some b" by (cases n) auto
  obtain q where q: "fwd h i b = Some q" using Cons.prems(1) by (cases xs) auto
  have "rd_forward h b i = Inr q" using q by (simp add: rd_forward_fwd)
  with Cons.IH [of b m q] Cons.prems n nd q show ?case
    by (simp add: rd_node_def item_def)
qed

lemma level_print:
  assumes "sl_struct s" and "i < sl_max_level s"
  shows "\<exists>p. rd_forward (sl_heap s) (sl_header s) i = Inr p \<and>
    (\<forall>pr out. print_walk pr (sl_next_addr s) (sl_heap s) i p out =
      Inr (out @ concat (map (\<lambda>x. pr (fst (item (sl_heap s) x)) (snd (item (sl_heap s) x)))
        (on_level (sl_heap s) i (nodes s)))))"
proof -
  let ?h = "sl_heap s" and ?xs = "on_level (sl_heap s) i (nodes s)"
  have r: "sl_rep s (nodes s)" using assms(1) by (simp add: sl_struct_def)
  then have sg: "seg ?h i (sl_header s) ?xs None" and dm: "set ?xs \<subseteq> dom ?h"
    using assms(2) on_level_subset [of ?h i "nodes s"] by (auto simp: sl_rep_def shape_def)
  have "length ?xs \<le> sl_next_addr s"
    using sl_rep_fuel [OF r] by (simp add: on_level_def le_trans [OF length_filter_le])
  moreover obtain p where p: "fwd ?h i (sl_header s) = Some p"
    using sg by (cases ?xs) auto
  ultimately show ?thesis
    using print_walk_ok [OF sg _ _ p, of "sl_next_addr s"] dm rd_forward_fwd by blast
qed

lemma bottom_print:
  assumes "sl_struct s"
  shows "\<exists>p. rd_forward (sl_heap s) (sl_header s) 0 = Inr p \<and>
    (\<forall>pr out. print_walk pr (sl_next_addr s) (sl_heap s) 0 p out =
      Inr (out @ concat (map (\<lambda>(k, v). pr k v) (content s))))"
proof -
  have r: "sl_rep s (nodes s)" using assms by (simp add: sl_struct_def)
  then have "on_level (sl_heap s) 0 (nodes s) = nodes s" "0 < sl_max_level s"
    using on_level_0 [of "sl_heap s" "sl_header s" "sl_max_level s" "nodes s" "nodes s"]
    by (auto simp: sl_rep_def)
  with level_print [OF assms, of 0] show ?thesis
    by (simp add: content_def split_def comp_def)
qed

lemma SkipList_Save_spec:
  "sl_struct s \<Longrightarrow> SkipList_Save s = Inr (concat (map (\<lambda>(k, v). save_line k v) (content s)))"
  using bottom_print [of s] by (auto simp: SkipList_Save_def)

lemma SkipList_DumpFile_spec:
  "sl_struct s \<Longrightarrow> SkipList_DumpFile opened s =
     Inr (if opened then Some (concat (map (\<lambda>(k, v). save_line k v) (content s))) else None,
          dump_banner @ concat (map (\<lambda>(k, v). console_line k v) (content s)) @ ''\<newline>'')"
  using bottom_print [of s] by (auto simp: SkipList_DumpFile_def)

text \<open>The line that \<^verbatim>\<open>DisplayList\<close> prints for one level.\<close>

definition level_text :: "string SkipList \<Rightarrow> nat \<Rightarrow> string" where
  "level_text s i = ''Level '' @ to_string (int i) @ '': '' @
     concat (map (\<lambda>x. show_item (fst (item (sl_heap s) x)) (snd (item (sl_heap s) x)))
       (on_level (sl_heap s) i (nodes s))) @ ''\<newline>''"

lemma display_levels_ok:
  "sl_struct s \<Longrightarrow> i + n \<le> sl_max_level s \<Longrightarrow>
     display_levels s i n out = Inr (out @ concat (map (level_text s) [i..<i + n]))"
proof (induction n arbitrary: i out)
  case (Suc n)
  have "[i..<i + Suc n] = i # [Suc i..<Suc i + n]" by (simp add: upt_conv_Cons)
  with Suc show ?case
    using level_print [OF Suc.prems(1), of i] by (auto simp: level_text_def)
qed simp

section \<open>What is read\<close>

text \<open>A key that survives the file format.\<close>

definition plain_key :: "string \<Rightarrow> bool" where
  "plain_key k \<longleftrightarrow> k \<noteq> [] \<and> CHR '':'' \<notin> set k \<and> CHR ''\<newline>'' \<notin> set k"

definition file_line :: "string \<times> int \<Rightarrow> string" where
  "file_line p = fst p @ '':'' @ to_string (snd p)"

lemma GetObjectFromString_line:
  assumes "plain_key k"
  shows "GetObjectFromString (file_line (k, v)) kv = (k, to_string v)"
proof -
  have k: "takeWhile (\<lambda>c. c \<noteq> CHR '':'') (k @ CHR '':'' # r) = k"
    "dropWhile (\<lambda>c. c \<noteq> CHR '':'') (k @ CHR '':'' # r) = CHR '':'' # r" for r
    using assms by (auto simp: plain_key_def takeWhile_append dropWhile_append)
  then show ?thesis by (simp add: GetObjectFromString_def IsValidString_def file_line_def)
qed

lemma newline_not_printed: "CHR ''\<newline>'' \<notin> set (to_string x)"
proof
  assume "CHR ''\<newline>'' \<in> set (to_string x)"
  from to_string_chars [OF this] show False by (auto simp: is_digit_def code_def)
qed

lemma getlines_saved:
  assumes "\<And>k v. (k, v) \<in> set ps \<Longrightarrow> plain_key k"
  shows "getlines (concat (map (\<lambda>(k, v). save_line k v) ps)) = map file_line ps"
proof -
  have "concat (map (\<lambda>(k, v). save_line k v) ps) = concat (map (\<lambda>l. l @ ''\<newline>'') (map file_line ps))"
    by (induction ps) (auto simp: save_line_def file_line_def)
  moreover have "CHR ''\<newline>'' \<notin> set l" if "l \<in> set (map file_line ps)" for l
    using that assms newline_not_printed by (auto simp: file_line_def plain_key_def)
  ultimately show ?thesis using getlines_unlines by metis
qed

lemma zset_insert_last:
  "(\<And>p. p \<in> set ps \<Longrightarrow> zless p (k, v)) \<Longrightarrow> zset_insert k v ps = ps @ [(k, v)]"
  by (simp add: zset_insert_def takeWhile_eq_all_conv [THEN iffD2] dropWhile_eq_Nil_conv [THEN iffD2])

text \<open>Adding a member that comes after all others, to an unbounded list.\<close>

lemma insert_at_end:
  assumes ok: "zset_ok s" and n: "n < stops rs" and k: "k \<notin> members s"
    and last: "\<And>p. p \<in> set (content s) \<Longrightarrow> zless p (k, v)"
  shows "\<exists>rs' s'. InsertElement stale rs k v s = Inr (1, rs', s') \<and> zset_ok s' \<and>
    content s' = content s @ [(k, v)] \<and> recents s' = (k, v) # recents s \<and> n \<le> stops rs'"
proof -
  have inv: "sl_inv s" using ok by (simp add: zset_ok_def)
  have nk: "map_of (content s) k \<noteq> Some v" using k by (force simp: members_def dest: map_of_SomeD)
  obtain l rs' where lv: "GetRandomLevel (sl_max_level s) rs = Inr (l, rs')" "n \<le> stops rs'"
    using GetRandomLevel_stops [OF n] by blast
  have ev: "read_all stale (evicted k s) = Inr []"
    using ok by (simp add: zset_ok_def)
  have "k \<notin> fst ` set (recents s)" using inv k by (auto simp: sl_inv_def)
  then have rc: "store (limit s) k v (filter (\<lambda>p. fst p \<noteq> k) (recents s)) = (k, v) # recents s"
    using ok filter_keys_absent [of k "recents s"] by (simp add: store_def is_full_def zset_ok_def)
  have "zset_delete k (content s) = content s"
    using k unfolding zset_delete_def members_def by (rule filter_keys_absent)
  then obtain s' where s': "InsertElement stale rs k v s = Inr (1, rs', s')"
      "sl_inv s'" "content s' = content s @ [(k, v)]" "doomed s' = []" "limit s' = limit s"
      "recents s' = (k, v) # recents s"
    using InsertElement_changes_spec [OF inv nk lv(1) ev] rc k ok zset_insert_last [OF last]
    by (auto simp: zset_ok_def)
  then show ?thesis using ok lv(2) by (auto simp: zset_ok_def)
qed

lemma load_rising:
  assumes "zset_ok s" and "length ps \<le> stops rs"
    and "sorted_wrt zless (content s @ ps)" and "distinct (map fst (content s @ ps))"
    and "\<And>k v. (k, v) \<in> set ps \<Longrightarrow> plain_key k \<and> is_int v"
  shows "\<exists>rs' s'. load_lines stale rs (map file_line ps) kv s = Inr (rs', s') \<and> zset_ok s' \<and>
    content s' = content s @ ps"
  using assms
proof (induction ps arbitrary: rs kv s)
  case Nil
  then show ?case by simp
next
  case (Cons p ps)
  obtain k v where p: "p = (k, v)" by force
  have pk: "plain_key k" "is_int v" using Cons.prems(5) p by auto
  obtain rs1 s1 where s1: "InsertElement stale rs k v s = Inr (1, rs1, s1)" "zset_ok s1"
      "content s1 = content s @ [p]" "length ps \<le> stops rs1"
    using insert_at_end [OF Cons.prems(1), of "length ps" rs k v stale] Cons.prems(2-4) p
    by (auto simp: members_def sorted_wrt_append)
  have "load_lines stale rs (map file_line (p # ps)) kv s =
      load_lines stale rs1 (map file_line ps) (k, to_string v) s1"
    using GetObjectFromString_line [OF pk(1), of v kv] pk s1(1)
    by (simp add: p Let_def plain_key_def)
  moreover have "\<exists>rs' s'. load_lines stale rs1 (map file_line ps) (k, to_string v) s1 = Inr (rs', s') \<and>
      zset_ok s' \<and> content s' = content s1 @ ps"
    by (rule Cons.IH [OF s1(2,4)]) (use Cons.prems s1(3) in auto)
  ultimately show ?case using s1(3) by auto
qed

text \<open>
  What a file says: the pair of a line with a colon, a non-empty key before the first colon and
  behind it a value that \<^verbatim>\<open>stoi\<close> reads; the pairs of later lines win.
\<close>

definition line_pair :: "string \<Rightarrow> (string \<times> int) option" where
  "line_pair l =
     (if CHR '':'' \<in> set l
      then let k = takeWhile (\<lambda>c. c \<noteq> CHR '':'') l; v = tl (dropWhile (\<lambda>c. c \<noteq> CHR '':'') l) in
           if k = [] then None else case stoi v of Inl _ \<Rightarrow> None | Inr n \<Rightarrow> Some (k, n)
      else None)"

definition file_map :: "string \<Rightarrow> (string \<rightharpoonup> int) \<Rightarrow> string \<rightharpoonup> int" where
  "file_map file m =
     fold (\<lambda>l m. case line_pair l of None \<Rightarrow> m | Some (k, n) \<Rightarrow> m(k \<mapsto> n)) (getlines file) m"

text \<open>The pair that a line without a colon leaves behind is one that the list already has.\<close>

definition carried :: "string \<times> string \<Rightarrow> string SkipList \<Rightarrow> bool" where
  "carried kv s \<longleftrightarrow> fst kv = [] \<or> snd kv = [] \<or>
     (\<forall>n. stoi (snd kv) = Inr n \<longrightarrow> zset_view s (fst kv) = Some n)"

lemma stoi_empty: "stoi [] = Inl InvalidArgument"
  by (simp add: stoi_def)

lemma load_line_effect:
  assumes "carried kv s" and "fst (GetObjectFromString l kv) \<noteq> []" and "snd (GetObjectFromString l kv) \<noteq> []"
    and "stoi (snd (GetObjectFromString l kv)) = Inr n"
  shows "(zset_view s)(fst (GetObjectFromString l kv) \<mapsto> n) =
    (case line_pair l of None \<Rightarrow> zset_view s | Some (k, n) \<Rightarrow> (zset_view s)(k \<mapsto> n))"
  using assms
  by (auto simp: line_pair_def GetObjectFromString_def IsValidString_def carried_def Let_def
      fun_upd_idem split: if_splits)

lemma load_line_none:
  assumes "carried kv s" and "fst (GetObjectFromString l kv) = [] \<or> snd (GetObjectFromString l kv) = [] \<or>
    stoi (snd (GetObjectFromString l kv)) = Inl e"
  shows "line_pair l = None" and "carried (GetObjectFromString l kv) s"
  using assms
  by (auto simp: line_pair_def GetObjectFromString_def IsValidString_def carried_def Let_def stoi_empty
      split: if_splits)

lemma load_lines_map:
  assumes "zset_ok s" and "sl_reach s" and "carried kv s" and "length ls \<le> stops rs"
  shows "\<exists>rs' s'. load_lines stale rs ls kv s = Inr (rs', s') \<and> zset_ok s' \<and> sl_reach s' \<and>
    zset_view s' = fold (\<lambda>l m. case line_pair l of None \<Rightarrow> m | Some (k, n) \<Rightarrow> m(k \<mapsto> n)) ls (zset_view s)"
  using assms
proof (induction ls arbitrary: rs kv s)
  case Nil
  then show ?case by simp
next
  case (Cons l ls)
  let ?kv = "GetObjectFromString l kv"
  show ?case
  proof (cases "fst ?kv = [] \<or> snd ?kv = [] \<or> (\<exists>e. stoi (snd ?kv) = Inl e)")
    case True
    then obtain e where "fst ?kv = [] \<or> snd ?kv = [] \<or> stoi (snd ?kv) = Inl e" by blast
    note n = load_line_none [OF Cons.prems(3) this]
    have "load_lines stale rs (l # ls) kv s = load_lines stale rs ls ?kv s"
      using True by (auto simp: Let_def)
    with Cons.IH [OF Cons.prems(1,2) n(2), of rs] Cons.prems(4) n(1) show ?thesis by simp
  next
    case False
    then obtain n where n: "stoi (snd ?kv) = Inr n" by (cases "stoi (snd ?kv)") auto
    obtain r rs1 s1 where s1: "InsertElement stale rs (fst ?kv) n s = Inr (r, rs1, s1)" "zset_ok s1"
        "zset_view s1 = (zset_view s)(fst ?kv \<mapsto> n)" "length ls \<le> stops rs1"
      using sl.add_law [OF Cons.prems(1), of "length ls" rs stale "fst ?kv" n] Cons.prems(4) by auto
    have "carried ?kv s1" using n s1(3) by (simp add: carried_def)
    moreover have "sl_reach s1" by (rule step_reach [OF Cons.prems(2) insert_step [OF s1(1)]])
    moreover have "zset_view s1 =
        (case line_pair l of None \<Rightarrow> zset_view s | Some (k, n) \<Rightarrow> (zset_view s)(k \<mapsto> n))"
      using s1(3) load_line_effect [OF Cons.prems(3) _ _ n] False by simp
    moreover have "load_lines stale rs (l # ls) kv s = load_lines stale rs1 ls ?kv s1"
      using False n s1(1) by (simp add: Let_def)
    ultimately show ?thesis using Cons.IH [OF s1(2) _ _ s1(4)] by simp
  qed
qed

section \<open>Properties\<close>

definition sample_saved :: "string SkipList res" where
  "sample_saved =
     bindE (SkipList_new dangling [] 0 6 0) (\<lambda>s.
     bindE (InsertElement dangling [65535] ''ann'' (-3) s) (\<lambda>(_, _, s).
     bindE (InsertElement dangling [0, 65535] ''bob'' 12 s) (\<lambda>(_, _, s). Inr s)))"

lemma sample_saved_ok:
  "\<exists>s. sample_saved = Inr s \<and> sl_reach s \<and> content s = [(''ann'', -3), (''bob'', 12)] \<and>
     limit s = 0 \<and> doomed s = [] \<and> (\<exists>p q. recents s = [p, q])"
proof -
  obtain s0 where s0: "SkipList_new dangling ([] :: string) 0 6 0 = Inr s0" "zset_ok s0" "content s0 = []" "recents s0 = []"
    using SkipList_new_spec [of 6 dangling "[] :: string" 0 0] by (auto simp: zset_ok_def)
  obtain rs1 s1 where s1: "InsertElement dangling [65535] ''ann'' (-3) s0 = Inr (1, rs1, s1)" "zset_ok s1"
      "content s1 = [(''ann'', -3)]" "recents s1 = [(''ann'', -3)]"
    using insert_at_end [OF s0(2), of 0 "[65535]" "''ann''" "-3" dangling] s0(3,4)
    by (auto simp: stops_def members_def)
  obtain rs2 s2 where s2: "InsertElement dangling [0, 65535] ''bob'' 12 s1 = Inr (1, rs2, s2)"
      "content s2 = [(''ann'', -3), (''bob'', 12)]" "zset_ok s2" "\<exists>p q. recents s2 = [p, q]"
    using insert_at_end [OF s1(2), of 0 "[0, 65535]" "''bob''" 12 dangling] s1(3,4)
    by (auto simp: stops_def members_def zless_def)
  have "sl_reach s2"
    by (rule step_reach [OF step_reach [OF new_reach [OF s0(1)] insert_step [OF s1(1)]]
          insert_step [OF s2(1)]]) simp
  with s0(1) s1(1) s2 show ?thesis by (simp add: sample_saved_def zset_ok_def)
qed

text \<open>
  C18: \<^verbatim>\<open>Save\<close> and \<^verbatim>\<open>DumpFile\<close> write the same file, and loading that file into a fresh,
  unbounded list gives a list with the same members, scores and order, provided no key is empty
  or contains a colon or a line break and every score is an \<^verbatim>\<open>int\<close> of the machine.
\<close>

theorem dump_load_roundtrip:
  assumes "sl_reach s" and "\<And>k v. (k, v) \<in> set (content s) \<Longrightarrow> plain_key k \<and> is_int v"
    and "1 \<le> M" and "length (content s) \<le> stops rs"
  shows "\<exists>file out s0 rs' s'. SkipList_Save s = Inr file \<and> SkipList_DumpFile True s = Inr (Some file, out) \<and>
    SkipList_new stale k0 g M 0 = Inr s0 \<and> SkipList_LoadFile stale rs file s0 = Inr (rs', s') \<and>
    content s' = content s"
proof -
  have st: "sl_struct s" using sl_reach_inv [OF assms(1)] by (simp add: sl_inv_def)
  obtain s0 where s0: "SkipList_new stale k0 g M 0 = Inr s0" "zset_ok s0" "content s0 = []"
    using SkipList_new_spec [OF assms(3), of stale k0 g 0] by (auto simp: zset_ok_def)
  have "\<exists>rs' s'. load_lines stale rs (map file_line (content s)) ([], []) s0 = Inr (rs', s') \<and>
      zset_ok s' \<and> content s' = content s0 @ content s"
    using sl_struct_sorted [OF st] sl_struct_keys_distinct [OF st] assms(2,4) s0(3)
    by (intro load_rising [OF s0(2)]) auto
  moreover have "getlines (concat (map (\<lambda>(k, v). save_line k v) (content s))) = map file_line (content s)"
    using assms(2) by (intro getlines_saved) blast
  ultimately show ?thesis
    using SkipList_Save_spec [OF st] SkipList_DumpFile_spec [OF st, of True] s0
    by (auto simp: SkipList_LoadFile_def)
qed

theorem dump_load_roundtrip_witness:
  "\<exists>s file out s0 rs' s'. sample_saved = Inr s \<and> SkipList_Save s = Inr file \<and>
     SkipList_DumpFile True s = Inr (Some file, out) \<and> SkipList_new dangling [] 0 6 0 = Inr s0 \<and>
     SkipList_LoadFile dangling [65535, 65535] file s0 = Inr (rs', s') \<and>
     content s' = [(''ann'', -3), (''bob'', 12)]"
proof -
  obtain s where s: "sample_saved = Inr s" "sl_reach s" "content s = [(''ann'', -3), (''bob'', 12)]"
    using sample_saved_ok by blast
  have "plain_key k \<and> is_int v" if "(k, v) \<in> set (content s)" for k v
    using that s(3) by (auto simp: plain_key_def is_int_def int_min_def int_max_def)
  from dump_load_roundtrip [OF s(2) this, of 6 "[65535, 65535]" dangling "[]" 0] s show ?thesis
    by (auto simp: stops_def)
qed



text \<open>
  \<^verbatim>\<open>DisplayList\<close> on a reachable list prints, for every level from the bottom one up, the
  members whose nodes reach that level, in order.
\<close>

theorem display_list_correct:
  assumes "sl_reach s"
  shows "SkipList_DisplayList s =
    Inr (display_banner @ concat (map (level_text s) [0..<sl_max_level s]) @ ''\<newline>'')"
  using display_levels_ok [of s 0 "sl_max_level s"] sl_reach_inv [OF assms]
  by (simp add: SkipList_DisplayList_def sl_inv_def)

theorem display_list_correct_witness:
  "\<exists>s. sample_saved = Inr s \<and> SkipList_DisplayList s =
    Inr (display_banner @ concat (map (level_text s) [0..<sl_max_level s]) @ ''\<newline>'')"
  using sample_saved_ok display_list_correct by blast

end
