(* ===== verification/Timer.thy ===== *)
theory Timer
  imports Prelude
begin

text \<open>
  The expiry list of \<^verbatim>\<open>timer.h\<close>: a doubly linked list of deadlines on a heap, with
  \<^verbatim>\<open>Push\<close>, \<^verbatim>\<open>Pop\<close>, \<^verbatim>\<open>Tick\<close> and the destructor. The clock is an argument (\<open>now\<close>,
  what \<^verbatim>\<open>time(nullptr)\<close> returns during the call). The operations refine a queue of
  (key, deadline) pairs; the interface \<open>expiry_queue\<close> states what the server relies on.
\<close>

section \<open>The list and its operations\<close>

type_synonym tref = nat

record 'k UtilTimer =
  tm_key :: 'k
  tm_expire :: int
  tm_prev :: "tref option"
  tm_next :: "tref option"

type_synonym 'k theap = "tref \<rightharpoonup> 'k UtilTimer"

record 'k Timer =
  tm_head :: "tref option"
  tm_tail :: "tref option"
  tm_heap :: "'k theap"
  tm_fresh :: tref

definition Timer_new :: "'k Timer" where
  "Timer_new = \<lparr>tm_head = None, tm_tail = None, tm_heap = Map.empty, tm_fresh = 0\<rparr>"

definition UtilTimer_new :: "int \<Rightarrow> 'k \<Rightarrow> int \<Rightarrow> 'k UtilTimer" where
  "UtilTimer_new now key timeout =
     \<lparr>tm_key = key, tm_expire = now + timeout, tm_prev = None, tm_next = None\<rparr>"

definition tm_read :: "'k theap \<Rightarrow> tref option \<Rightarrow> 'k UtilTimer res" where
  "tm_read h p = (case p of None \<Rightarrow> Inl NullDeref
     | Some a \<Rightarrow> (case h a of None \<Rightarrow> Inl UseAfterFree | Some n \<Rightarrow> Inr n))"

definition tm_update ::
  "'k theap \<Rightarrow> tref option \<Rightarrow> ('k UtilTimer \<Rightarrow> 'k UtilTimer) \<Rightarrow> 'k theap res" where
  "tm_update h p f = bindE (tm_read h p) (\<lambda>n. Inr (h(the p \<mapsto> f n)))"

definition tm_delete :: "'k theap \<Rightarrow> tref option \<Rightarrow> 'k theap res" where
  "tm_delete h p = (case p of None \<Rightarrow> Inr h
     | Some a \<Rightarrow> if h a = None then Inl DoubleFree else Inr (h(a := None)))"

definition Timer_Push :: "int \<Rightarrow> 'k \<Rightarrow> int \<Rightarrow> 'k Timer \<Rightarrow> (int \<times> 'k Timer) res" where
  "Timer_Push now key timeout t =
     (let a = tm_fresh t; h = (tm_heap t)(a \<mapsto> UtilTimer_new now key timeout) in
      if tm_head t = None
      then Inr (1, t\<lparr>tm_head := Some a, tm_tail := Some a, tm_heap := h, tm_fresh := Suc a\<rparr>)
      else
        bindE (tm_update h (Some a) (\<lambda>n. n\<lparr>tm_prev := tm_tail t\<rparr>)) (\<lambda>h1.
        bindE (tm_update h1 (tm_tail t) (\<lambda>n. n\<lparr>tm_next := Some a\<rparr>)) (\<lambda>h2.
        Inr (1, t\<lparr>tm_tail := Some a, tm_heap := h2, tm_fresh := Suc a\<rparr>))))"

text \<open>
  The search loop of \<^verbatim>\<open>Pop\<close>. No address is used twice, so a search that visits more
  addresses than were ever allocated would never end.
\<close>

fun timer_find :: "nat \<Rightarrow> 'k theap \<Rightarrow> 'k \<Rightarrow> tref option \<Rightarrow> tref option res" where
  "timer_find n h key None = Inr None"
| "timer_find 0 h key (Some a) = Inl Diverges"
| "timer_find (Suc n) h key (Some a) =
     bindE (tm_read h (Some a)) (\<lambda>nd.
     if tm_key nd = key then Inr (Some a) else timer_find n h key (tm_next nd))"

definition Timer_Pop :: "'k \<Rightarrow> 'k Timer \<Rightarrow> (int \<times> 'k Timer) res" where
  "Timer_Pop key t =
     (if tm_head t = None then Inr (-1, t)
      else
        bindE (timer_find (tm_fresh t) (tm_heap t) key (tm_head t)) (\<lambda>p.
        if p = tm_head t \<and> p = tm_tail t then
          bindE (tm_delete (tm_heap t) p) (\<lambda>h.
          Inr (0, t\<lparr>tm_head := None, tm_tail := None, tm_heap := h\<rparr>))
        else if p = tm_head t then
          bindE (tm_read (tm_heap t) (tm_head t)) (\<lambda>n.
          bindE (tm_update (tm_heap t) (tm_next n) (\<lambda>m. m\<lparr>tm_prev := None\<rparr>)) (\<lambda>h1.
          bindE (tm_delete h1 p) (\<lambda>h2.
          Inr (0, t\<lparr>tm_head := tm_next n, tm_heap := h2\<rparr>))))
        else if p = tm_tail t then
          bindE (tm_read (tm_heap t) (tm_tail t)) (\<lambda>n.
          bindE (tm_update (tm_heap t) (tm_prev n) (\<lambda>m. m\<lparr>tm_next := None\<rparr>)) (\<lambda>h1.
          bindE (tm_delete h1 p) (\<lambda>h2.
          Inr (0, t\<lparr>tm_tail := tm_prev n, tm_heap := h2\<rparr>))))
        else
          bindE (tm_read (tm_heap t) p) (\<lambda>n.
          bindE (tm_update (tm_heap t) (tm_prev n) (\<lambda>m. m\<lparr>tm_next := tm_next n\<rparr>)) (\<lambda>h1.
          bindE (tm_read h1 p) (\<lambda>n1.
          bindE (tm_update h1 (tm_next n1) (\<lambda>m. m\<lparr>tm_prev := tm_prev n1\<rparr>)) (\<lambda>h2.
          bindE (tm_delete h2 p) (\<lambda>h3.
          Inr (0, t\<lparr>tm_heap := h3\<rparr>))))))))"

text \<open>The loop of \<^verbatim>\<open>Tick\<close>: \<open>out\<close> is the vector filled so far.\<close>

fun tick_loop :: "nat \<Rightarrow> int \<Rightarrow> 'k list \<Rightarrow> 'k Timer \<Rightarrow> ('k list \<times> 'k Timer) res" where
  "tick_loop 0 now out t = Inl Diverges"
| "tick_loop (Suc n) now out t =
     (case tm_head t of
        None \<Rightarrow> Inr (out, t)
      | Some a \<Rightarrow>
          bindE (tm_read (tm_heap t) (Some a)) (\<lambda>nd.
          if now < tm_expire nd then Inr (out, t)
          else bindE (Timer_Pop (tm_key nd) t) (\<lambda>(_, t'). tick_loop n now (out @ [tm_key nd]) t')))"

definition Timer_Tick :: "int \<Rightarrow> 'k Timer \<Rightarrow> ('k list \<times> 'k Timer) res" where
  "Timer_Tick now t =
     (if tm_head t = None then Inr ([], t) else tick_loop (Suc (tm_fresh t)) now [] t)"

fun timer_destroy_walk :: "nat \<Rightarrow> 'k theap \<Rightarrow> tref option \<Rightarrow> 'k theap res" where
  "timer_destroy_walk n h None = Inr h"
| "timer_destroy_walk 0 h (Some a) = Inl Diverges"
| "timer_destroy_walk (Suc n) h (Some a) =
     bindE (tm_read h (Some a)) (\<lambda>nd.
     bindE (tm_delete h (Some a)) (\<lambda>h'.
     timer_destroy_walk n h' (tm_next nd)))"

definition Timer_destroy :: "'k Timer \<Rightarrow> 'k theap res" where
  "Timer_destroy t = timer_destroy_walk (tm_fresh t) (tm_heap t) (tm_head t)"

lemmas timer_exec [exec] =
  Timer_new_def UtilTimer_new_def tm_read_def tm_update_def tm_delete_def Timer_Push_def
  Timer_Pop_def Timer_Tick_def Timer_destroy_def

section \<open>Chains of timers\<close>

text \<open>
  \<open>tseg h p pr as q r\<close>: from the pointer \<open>p\<close>, whose node has the predecessor \<open>pr\<close>, the nodes
  \<open>as\<close> lead to the pointer \<open>q\<close>, and the last node passed is \<open>r\<close>.
\<close>

fun tseg ::
  "'k theap \<Rightarrow> tref option \<Rightarrow> tref option \<Rightarrow> tref list \<Rightarrow> tref option \<Rightarrow> tref option \<Rightarrow> bool" where
  "tseg h p pr [] q r \<longleftrightarrow> p = q \<and> pr = r"
| "tseg h p pr (a # as) q r \<longleftrightarrow> p = Some a \<and>
     (case h a of None \<Rightarrow> False
      | Some n \<Rightarrow> tm_prev n = pr \<and> tseg h (tm_next n) (Some a) as q r)"

lemma tseg_append:
  "tseg h p pr (us @ vs) q r \<longleftrightarrow> (\<exists>p' r'. tseg h p pr us p' r' \<and> tseg h p' r' vs q r)"
  by (induction us arbitrary: p pr) (auto split: option.splits)

lemma tseg_upd: "a \<notin> set as \<Longrightarrow> tseg (h(a := x)) p pr as q r = tseg h p pr as q r"
  by (induction as arbitrary: p pr) (auto split: option.splits)

lemma tseg_last: "tseg h p pr as q r \<Longrightarrow> r = (if as = [] then pr else Some (last as))"
  by (induction as arbitrary: p pr) (auto split: option.splits)

lemma tseg_first: "tseg h p pr as q r \<Longrightarrow> p = (case as of [] \<Rightarrow> q | a # _ \<Rightarrow> Some a)"
  by (cases as) auto

lemma tseg_set_prev:
  "tseg h p pr (b # vs) q r \<Longrightarrow> b \<notin> set vs \<Longrightarrow>
     tseg (h(b \<mapsto> (the (h b))\<lparr>tm_prev := pr'\<rparr>)) p pr' (b # vs) q r"
  by (auto simp: tseg_upd split: option.splits)

lemma tseg_set_next:
  assumes "tseg h p pr (us @ [b]) q r" and "b \<notin> set us"
  shows "tseg (h(b \<mapsto> (the (h b))\<lparr>tm_next := q'\<rparr>)) p pr (us @ [b]) q' (Some b)"
  using assms by (auto simp: tseg_append tseg_upd split: option.splits)

text \<open>The timer \<open>t\<close> consists of exactly the nodes \<open>as\<close>, in this order.\<close>

definition timer_rep :: "'k Timer \<Rightarrow> tref list \<Rightarrow> bool" where
  "timer_rep t as \<longleftrightarrow> tseg (tm_heap t) (tm_head t) None as None (tm_tail t) \<and> distinct as \<and>
     dom (tm_heap t) = set as \<and> (\<forall>a \<in> set as. a < tm_fresh t)"

lemma timer_rep_fuel: "timer_rep t as \<Longrightarrow> length as \<le> tm_fresh t"
  using card_mono [of "{..<tm_fresh t}" "set as"] by (force simp: timer_rep_def distinct_card)

lemma timer_rep_node: "timer_rep t as \<Longrightarrow> a \<in> set as \<Longrightarrow> \<exists>n. tm_heap t a = Some n"
  by (auto simp: timer_rep_def)

fun tcollect :: "nat \<Rightarrow> 'k theap \<Rightarrow> tref option \<Rightarrow> tref list" where
  "tcollect n h None = []"
| "tcollect 0 h (Some a) = []"
| "tcollect (Suc n) h (Some a) = a # (case h a of None \<Rightarrow> [] | Some nd \<Rightarrow> tcollect n h (tm_next nd))"

lemma tcollect_tseg: "tseg h p pr as None r \<Longrightarrow> length as \<le> n \<Longrightarrow> tcollect n h p = as"
proof (induction as arbitrary: p pr n)
  case (Cons a as)
  then show ?case by (cases n) (auto split: option.splits)
qed simp

definition timer_nodes :: "'k Timer \<Rightarrow> tref list" where
  "timer_nodes t = tcollect (tm_fresh t) (tm_heap t) (tm_head t)"

definition deadline :: "'k theap \<Rightarrow> tref \<Rightarrow> 'k \<times> int" where
  "deadline h a = (tm_key (the (h a)), tm_expire (the (h a)))"

text \<open>The pending deadlines, oldest push first.\<close>

definition deadlines :: "'k Timer \<Rightarrow> ('k \<times> int) list" where
  "deadlines t = map (deadline (tm_heap t)) (timer_nodes t)"

definition timer_ok :: "'k Timer \<Rightarrow> bool" where
  "timer_ok t \<longleftrightarrow> timer_rep t (timer_nodes t)"

lemma timer_rep_nodes: "timer_rep t as \<Longrightarrow> timer_nodes t = as"
  using tcollect_tseg timer_rep_fuel by (fastforce simp: timer_nodes_def timer_rep_def)

lemma timer_rep_ok: "timer_rep t as \<Longrightarrow> timer_ok t \<and> deadlines t = map (deadline (tm_heap t)) as"
  by (simp add: timer_ok_def deadlines_def timer_rep_nodes)

lemma timer_head_None: "timer_rep t as \<Longrightarrow> tm_head t = None \<longleftrightarrow> as = []"
  by (cases as) (auto simp: timer_rep_def)

lemma map_deadline_upd: "a \<notin> set as \<Longrightarrow> map (deadline (h(a := x))) as = map (deadline h) as"
  by (auto simp: deadline_def)

lemma timer_new_ok: "timer_ok Timer_new \<and> deadlines Timer_new = []"
  by (simp add: timer_ok_def timer_rep_def deadlines_def timer_nodes_def Timer_new_def)

section \<open>Push\<close>

lemma Timer_Push_rep:
  assumes r: "timer_rep t as"
  shows "\<exists>t'. Timer_Push now k d t = Inr (1, t') \<and> timer_rep t' (as @ [tm_fresh t]) \<and>
    map (deadline (tm_heap t')) (as @ [tm_fresh t]) = map (deadline (tm_heap t)) as @ [(k, now + d)]"
proof (cases "as = []")
  case True
  then show ?thesis
    using r by (auto simp: Timer_Push_def timer_rep_def Let_def UtilTimer_new_def deadline_def)
next
  case False
  then obtain us b where as: "as = us @ [b]" by (metis rev_exhaust)
  let ?a = "tm_fresh t" and ?h = "tm_heap t"
  let ?n = "(UtilTimer_new now k d)\<lparr>tm_prev := Some b\<rparr>"
  let ?h2 = "?h(?a \<mapsto> ?n, b \<mapsto> (the (?h b))\<lparr>tm_next := Some ?a\<rparr>)"
  have d: "distinct (us @ [b])" "?a \<notin> set (us @ [b])" and dm: "dom ?h = set (us @ [b])"
    and sg: "tseg ?h (tm_head t) None (us @ [b]) None (tm_tail t)"
    using r as by (auto simp: timer_rep_def)
  have tl: "tm_tail t = Some b" using tseg_last [OF sg] by simp
  obtain n where n: "?h b = Some n" using timer_rep_node [OF r, of b] as by auto
  have "Timer_Push now k d t = Inr (1, t\<lparr>tm_tail := Some ?a, tm_heap := ?h2, tm_fresh := Suc ?a\<rparr>)"
    using timer_head_None [OF r] False n d tl
    by (auto simp: Timer_Push_def Let_def tm_update_def tm_read_def)
  moreover have "tseg ?h2 (tm_head t) None ((us @ [b]) @ [?a]) None (Some ?a)"
  proof -
    have "tseg (?h(b \<mapsto> (the (?h b))\<lparr>tm_next := Some ?a\<rparr>)) (tm_head t) None (us @ [b]) (Some ?a) (Some b)"
      using tseg_set_next [OF sg] d by auto
    then have "tseg ?h2 (tm_head t) None (us @ [b]) (Some ?a) (Some b)"
      using d by (subst fun_upd_twist) (auto simp: tseg_upd simp del: fun_upd_apply)
    then show ?thesis using d by (subst tseg_append) (auto simp: UtilTimer_new_def)
  qed
  moreover have "map (deadline ?h2) us = map (deadline ?h) us" "deadline ?h2 b = deadline ?h b"
      "deadline ?h2 ?a = (k, now + d)"
    using d n by (auto simp: deadline_def UtilTimer_new_def)
  ultimately show ?thesis using r as d n dm by (auto simp: timer_rep_def)
qed

section \<open>Pop\<close>

lemma timer_find_ok:
  assumes "tseg h p pr as None r" and "length as \<le> n"
  shows "timer_find n h k p =
    Inr (case dropWhile (\<lambda>a. tm_key (the (h a)) \<noteq> k) as of [] \<Rightarrow> None | a # _ \<Rightarrow> Some a)"
  using assms
proof (induction as arbitrary: p pr n)
  case (Cons a as)
  then show ?case by (cases n) (auto simp: tm_read_def split: option.splits)
qed simp

text \<open>Unlinking the node \<open>a\<close> between \<open>us\<close> and \<open>vs\<close>.\<close>

lemma tseg_split:
  assumes "tseg h p pr (us @ a # vs) None r"
  shows "\<exists>n. h a = Some n \<and> tseg h p pr us (Some a) (tm_prev n) \<and>
    tseg h (tm_next n) (Some a) vs None r"
  using assms by (auto simp: tseg_append split: option.splits)

lemma Timer_Pop_rep:
  assumes r: "timer_rep t (us @ a # vs)" and k: "fst (deadline (tm_heap t) a) = k"
    and us: "\<And>b. b \<in> set us \<Longrightarrow> fst (deadline (tm_heap t) b) \<noteq> k"
  shows "\<exists>t'. Timer_Pop k t = Inr (0, t') \<and> timer_rep t' (us @ vs) \<and> tm_fresh t' = tm_fresh t \<and>
    map (deadline (tm_heap t')) (us @ vs) = map (deadline (tm_heap t)) (us @ vs)"
proof -
  let ?h = "tm_heap t"
  have sg: "tseg ?h (tm_head t) None (us @ a # vs) None (tm_tail t)" and d: "distinct (us @ a # vs)"
    and dm: "dom ?h = set (us @ a # vs)" and fr: "\<forall>b \<in> set (us @ a # vs). b < tm_fresh t"
    using r by (auto simp: timer_rep_def)
  obtain n where n: "?h a = Some n" and l: "tseg ?h (tm_head t) None us (Some a) (tm_prev n)"
    and m: "tseg ?h (tm_next n) (Some a) vs None (tm_tail t)"
    using tseg_split [OF sg] by blast
  have "dropWhile (\<lambda>b. tm_key (the (?h b)) \<noteq> k) (us @ a # vs) = a # vs"
    using us k by (subst dropWhile_append2) (auto simp: deadline_def)
  then have f: "timer_find (tm_fresh t) ?h k (tm_head t) = Inr (Some a)"
    using timer_find_ok [OF sg timer_rep_fuel [OF r], of k] by simp
  have hd: "tm_head t = Some a \<longleftrightarrow> us = []" "tm_head t \<noteq> None"
    using tseg_first [OF sg] d by (cases us; auto)+
  have tl: "tm_tail t = Some a \<longleftrightarrow> vs = []" using tseg_last [OF m] d by auto
  have pv: "tm_prev n = (if us = [] then None else Some (last us))" using tseg_last [OF l] .
  have nx: "tm_next n = (case vs of [] \<Rightarrow> None | b # _ \<Rightarrow> Some b)" using tseg_first [OF m] .
  consider "us = []" "vs = []" | b bs where "us = []" "vs = b # bs"
    | bs b where "us = bs @ [b]" "vs = []" | bs b c cs where "us = bs @ [b]" "vs = c # cs"
    by (metis neq_Nil_conv rev_exhaust)
  then show ?thesis
  proof cases
    case 1
    then have "?h(a := None) = Map.empty" using dm by (auto simp: fun_eq_iff dom_def)
    with 1 f hd tl n d dm fr show ?thesis
      by (auto simp: Timer_Pop_def tm_delete_def timer_rep_def)
  next
    case 2
    obtain c where c: "?h b = Some c" using dm 2 by auto
    let ?g = "?h(b \<mapsto> (the (?h b))\<lparr>tm_prev := None\<rparr>, a := None)"
    have "Timer_Pop k t = Inr (0, t\<lparr>tm_head := Some b, tm_heap := ?g\<rparr>)"
      using f hd tl n nx c 2 d by (auto simp: Timer_Pop_def tm_delete_def tm_read_def tm_update_def)
    moreover have "tseg ?g (Some b) None (b # bs) None (tm_tail t)"
      using tseg_set_prev [of ?h "tm_next n" "Some a" b bs None "tm_tail t" None] m 2 d nx
      by (subst tseg_upd) auto
    ultimately show ?thesis using 2 d dm fr c by (auto simp: timer_rep_def deadline_def)
  next
    case 3
    obtain c where c: "?h b = Some c" using dm 3 by auto
    let ?g = "?h(b \<mapsto> (the (?h b))\<lparr>tm_next := None\<rparr>, a := None)"
    have "Timer_Pop k t = Inr (0, t\<lparr>tm_tail := Some b, tm_heap := ?g\<rparr>)"
      using f hd tl n pv c 3 d by (auto simp: Timer_Pop_def tm_delete_def tm_read_def tm_update_def)
    moreover have "tseg ?g (tm_head t) None (bs @ [b]) None (Some b)"
      using tseg_set_next [of ?h "tm_head t" None bs b "Some a" "tm_prev n" None] l 3 d
      by (subst tseg_upd) auto
    ultimately show ?thesis using 3 d dm fr c by (auto simp: timer_rep_def deadline_def)
  next
    case 4
    obtain x y where x: "?h b = Some x" and y: "?h c = Some y" using dm 4 by force
    let ?g1 = "?h(b \<mapsto> (the (?h b))\<lparr>tm_next := Some c\<rparr>)"
    let ?g2 = "?g1(c \<mapsto> (the (?h c))\<lparr>tm_prev := Some b\<rparr>)"
    let ?g = "?g2(a := None)"
    have ds: "b \<noteq> c" "a \<noteq> b" "a \<noteq> c" using d 4 by auto
    have "Timer_Pop k t = Inr (0, t\<lparr>tm_heap := ?g\<rparr>)"
      using f hd tl n pv nx x y 4 d ds by (auto simp: Timer_Pop_def tm_delete_def tm_read_def tm_update_def)
    moreover have "tseg ?g (tm_head t) None ((bs @ [b]) @ c # cs) None (tm_tail t)"
    proof -
      have "tseg ?g1 (tm_head t) None (bs @ [b]) (Some c) (Some b)"
        using tseg_set_next [of ?h "tm_head t" None bs b "Some a" "tm_prev n" "Some c"] l 4 d by auto
      then have "tseg ?g (tm_head t) None (bs @ [b]) (Some c) (Some b)"
        using d 4 by (subst tseg_upd, force)+
      moreover have "tseg ?g1 (Some c) (Some a) (c # cs) None (tm_tail t)"
        using m 4 nx d by (subst tseg_upd) auto
      then have "tseg ?g2 (Some c) (Some b) (c # cs) None (tm_tail t)"
        using tseg_set_prev [of ?g1 "Some c" "Some a" c cs None "tm_tail t" "Some b"] d 4 ds by simp
      then have "tseg ?g (Some c) (Some b) (c # cs) None (tm_tail t)"
        using d 4 by (subst tseg_upd) auto
      ultimately show ?thesis using tseg_append by blast
    qed
    ultimately show ?thesis using 4 d dm fr x y by (auto simp: timer_rep_def deadline_def)
  qed
qed

lemma Timer_Pop_missing:
  assumes r: "timer_rep t as" and "as \<noteq> []" and "k \<notin> fst ` set (map (deadline (tm_heap t)) as)"
  shows "Timer_Pop k t = Inl NullDeref"
proof -
  have sg: "tseg (tm_heap t) (tm_head t) None as None (tm_tail t)"
    using r by (simp add: timer_rep_def)
  have "dropWhile (\<lambda>b. tm_key (the (tm_heap t b)) \<noteq> k) as = []"
    using assms(3) by (force simp: deadline_def)
  note timer_find_ok [OF sg timer_rep_fuel [OF r], of k, unfolded this list.case]
  moreover have "tm_head t \<noteq> None" "tm_tail t \<noteq> None"
    using timer_head_None [OF r] assms(2) tseg_last [OF sg] by auto
  ultimately show ?thesis by (auto simp: Timer_Pop_def tm_read_def)
qed

section \<open>Tick and the destructor\<close>

definition due :: "int \<Rightarrow> 'k \<times> int \<Rightarrow> bool" where
  "due now p \<longleftrightarrow> snd p \<le> now"

lemma tick_loop_ok:
  assumes "timer_rep t as" and "length as < n"
  shows "\<exists>t' bs. tick_loop n now out t =
      Inr (out @ map fst (takeWhile (due now) (map (deadline (tm_heap t)) as)), t') \<and>
    timer_rep t' bs \<and> tm_fresh t' = tm_fresh t \<and>
    map (deadline (tm_heap t')) bs = dropWhile (due now) (map (deadline (tm_heap t)) as)"
  using assms
proof (induction as arbitrary: n t out)
  case Nil
  then have "tm_head t = None" using timer_head_None by blast
  with Nil show ?case by (cases n) auto
next
  case (Cons a as)
  then obtain m where n: "n = Suc m" by (cases n) auto
  have hd: "tm_head t = Some a" using Cons.prems(1) by (auto simp: timer_rep_def)
  obtain nd where nd: "tm_heap t a = Some nd" using timer_rep_node [OF Cons.prems(1), of a] by auto
  show ?case
  proof (cases "now < tm_expire nd")
    case True
    then show ?thesis
      using Cons.prems(1) hd nd n by (auto simp: tm_read_def deadline_def due_def)
  next
    case False
    obtain t1 where t1: "Timer_Pop (tm_key nd) t = Inr (0, t1)" "timer_rep t1 as"
        "tm_fresh t1 = tm_fresh t" "map (deadline (tm_heap t1)) as = map (deadline (tm_heap t)) as"
      using Timer_Pop_rep [of t "[]" a as "tm_key nd"] Cons.prems(1) nd by (auto simp: deadline_def)
    from Cons.IH [OF t1(2), of m "out @ [tm_key nd]"] Cons.prems(2) n t1 obtain t' bs where
      "tick_loop m now (out @ [tm_key nd]) t1 = Inr ((out @ [tm_key nd]) @
         map fst (takeWhile (due now) (map (deadline (tm_heap t)) as)), t')"
      "timer_rep t' bs" "tm_fresh t' = tm_fresh t"
      "map (deadline (tm_heap t')) bs = dropWhile (due now) (map (deadline (tm_heap t)) as)"
      by auto
    moreover have "deadline (tm_heap t) a = (tm_key nd, tm_expire nd)" "due now (tm_key nd, tm_expire nd)"
      using nd False by (simp_all add: deadline_def due_def)
    ultimately show ?thesis using False hd nd n t1(1) by (auto simp: tm_read_def)
  qed
qed

lemma Timer_Push_spec:
  "timer_ok t \<Longrightarrow> \<exists>t'. Timer_Push now k d t = Inr (1, t') \<and> timer_ok t' \<and>
     deadlines t' = deadlines t @ [(k, now + d)]"
  using Timer_Push_rep [of t "timer_nodes t" now k d] timer_rep_ok
  unfolding timer_ok_def [of t] deadlines_def [of t] by metis

lemma Timer_Tick_spec:
  assumes "timer_ok t"
  shows "\<exists>t'. Timer_Tick now t = Inr (map fst (takeWhile (due now) (deadlines t)), t') \<and>
    timer_ok t' \<and> deadlines t' = dropWhile (due now) (deadlines t)"
proof (cases "tm_head t = None")
  case True
  then have "deadlines t = []" by (simp add: deadlines_def timer_nodes_def)
  with True assms show ?thesis by (simp add: Timer_Tick_def)
next
  case False
  have r: "timer_rep t (timer_nodes t)" using assms by (simp add: timer_ok_def)
  from tick_loop_ok [OF r, of "Suc (tm_fresh t)" now "[]"] timer_rep_fuel [OF r] obtain t' bs where
    "tick_loop (Suc (tm_fresh t)) now [] t = Inr (map fst (takeWhile (due now) (deadlines t)), t')"
    "timer_rep t' bs" "map (deadline (tm_heap t')) bs = dropWhile (due now) (deadlines t)"
    by (auto simp: deadlines_def)
  with timer_rep_ok [of t' bs] False show ?thesis by (auto simp: Timer_Tick_def)
qed

lemma timer_destroy_walk_ok:
  assumes "tseg h p pr as None r" and "distinct as" and "length as \<le> n"
  shows "timer_destroy_walk n h p = Inr (h |` (- set as))"
  using assms
proof (induction as arbitrary: h p pr n)
  case Nil
  then show ?case by (simp add: restrict_map_def)
next
  case (Cons a as)
  then obtain nd m where nd: "h a = Some nd" and n: "n = Suc m"
    by (cases n) (auto split: option.splits)
  have "timer_destroy_walk m (h(a := None)) (tm_next nd) = Inr ((h(a := None)) |` (- set as))"
  proof (rule Cons.IH)
    show "tseg (h(a := None)) (tm_next nd) (Some a) as None r"
      using Cons.prems nd by (subst tseg_upd) auto
  qed (use Cons.prems n in auto)
  moreover have "(h(a := None)) |` (- set as) = h |` (- set (a # as))"
    by (auto simp: restrict_map_def fun_eq_iff)
  ultimately show ?case
    using Cons.prems nd n by (auto simp: tm_read_def tm_delete_def)
qed

lemma Timer_destroy_ok:
  assumes "timer_ok t"
  shows "Timer_destroy t = Inr Map.empty"
proof -
  have r: "timer_rep t (timer_nodes t)" using assms by (simp add: timer_ok_def)
  have "tm_heap t |` (- set (timer_nodes t)) = Map.empty"
    using r by (auto simp: timer_rep_def restrict_map_def fun_eq_iff dom_def)
  then show ?thesis
    using timer_destroy_walk_ok timer_rep_fuel [OF r] r
    by (fastforce simp: Timer_destroy_def timer_rep_def)
qed

section \<open>The interface the server uses\<close>

text \<open>
  A queue of deadlines: \<open>push\<close> appends, \<open>tick\<close> takes the expired entries off the front and
  stops at the first one that is still to come.
\<close>

locale expiry_queue =
  fixes ok :: "'t \<Rightarrow> bool"
    and pending :: "'t \<Rightarrow> ('k \<times> int) list"
    and push :: "int \<Rightarrow> 'k \<Rightarrow> int \<Rightarrow> 't \<Rightarrow> (int \<times> 't) res"
    and tick :: "int \<Rightarrow> 't \<Rightarrow> ('k list \<times> 't) res"
  assumes push_law: "ok t \<Longrightarrow> \<exists>t'. push now k d t = Inr (1, t') \<and> ok t' \<and>
      pending t' = pending t @ [(k, now + d)]"
    and tick_law: "ok t \<Longrightarrow> \<exists>t'. tick now t = Inr (map fst (takeWhile (due now) (pending t)), t') \<and>
      ok t' \<and> pending t' = dropWhile (due now) (pending t)"
begin

lemma tick_never_early:
  assumes "ok t" and "tick now t = Inr (ks, t')" and "k \<in> set ks"
  shows "\<exists>d. (k, d) \<in> set (pending t) \<and> d \<le> now"
  using tick_law [OF assms(1), of now] assms(2,3)
  by (auto simp: due_def dest!: set_takeWhileD)

lemma tick_splits:
  assumes "ok t" and "tick now t = Inr (ks, t')"
  shows "\<exists>ds. pending t = ds @ pending t' \<and> ks = map fst ds"
  using tick_law [OF assms(1), of now] assms(2) by (auto intro: exI [of _ "takeWhile (due now) (pending t)"])

lemma tick_complete_when_sorted:
  assumes "ok t" and "sorted (map snd (pending t))" and "tick now t = Inr (ks, t')"
  shows "ks = map fst (filter (due now) (pending t)) \<and>
    pending t' = filter (\<lambda>p. \<not> due now p) (pending t)"
proof -
  have "takeWhile (due now) xs = filter (due now) xs \<and>
      dropWhile (due now) xs = filter (\<lambda>p. \<not> due now p) xs" if "sorted (map snd xs)" for xs :: "('k \<times> int) list"
    using that
  proof (induction xs)
    case (Cons x xs)
    then show ?case
      by (auto simp: due_def intro!: filter_False [symmetric] filter_True [symmetric])
  qed simp
  with tick_law [OF assms(1), of now] assms(2,3) show ?thesis by auto
qed

lemma tick_idle:
  assumes "ok t" and "pending t = p # ps" and "now < snd p"
  shows "\<exists>t'. tick now t = Inr ([], t') \<and> pending t' = pending t"
  using tick_law [OF assms(1), of now] assms(2,3) by (auto simp: due_def)

end

interpretation tq: expiry_queue timer_ok deadlines Timer_Push Timer_Tick
  by unfold_locales (simp_all add: Timer_Push_spec Timer_Tick_spec)

section \<open>Reachable timers\<close>

inductive timer_reach :: "'k Timer \<Rightarrow> bool" where
  timer_start: "timer_reach Timer_new"
| timer_push: "timer_reach t \<Longrightarrow> Timer_Push now k d t = Inr (r, t') \<Longrightarrow> timer_reach t'"
| timer_pop: "timer_reach t \<Longrightarrow> Timer_Pop k t = Inr (r, t') \<Longrightarrow> timer_reach t'"
| timer_tick: "timer_reach t \<Longrightarrow> Timer_Tick now t = Inr (ks, t') \<Longrightarrow> timer_reach t'"

lemma Timer_Pop_found:
  assumes "timer_ok t" and "deadlines t = us @ (k, d) # vs" and "k \<notin> fst ` set us"
  shows "\<exists>t'. Timer_Pop k t = Inr (0, t') \<and> timer_ok t' \<and> deadlines t' = us @ vs"
proof -
  have r: "timer_rep t (timer_nodes t)" using assms(1) by (simp add: timer_ok_def)
  have m: "map (deadline (tm_heap t)) (timer_nodes t) = us @ (k, d) # vs"
    using assms(2) by (simp add: deadlines_def)
  obtain as a bs where s: "timer_nodes t = as @ a # bs" "map (deadline (tm_heap t)) as = us"
      "deadline (tm_heap t) a = (k, d)" "map (deadline (tm_heap t)) bs = vs"
    using m by (auto simp: map_eq_append_conv)
  have "fst (deadline (tm_heap t) b) \<noteq> k" if "b \<in> set as" for b
    using assms(3) s(2) that by force
  from Timer_Pop_rep [OF r [unfolded s(1)] _ this] s(3) obtain t' where
    t': "Timer_Pop k t = Inr (0, t')" "timer_rep t' (as @ bs)"
      "map (deadline (tm_heap t')) (as @ bs) = map (deadline (tm_heap t)) (as @ bs)" by auto
  moreover have "map (deadline (tm_heap t)) (as @ bs) = us @ vs" using s(2,4) by simp
  ultimately show ?thesis using timer_rep_ok [OF t'(2)] by metis
qed

lemma Timer_Pop_absent:
  assumes "timer_ok t" and "k \<notin> fst ` set (deadlines t)"
  shows "Timer_Pop k t = (if deadlines t = [] then Inr (-1, t) else Inl NullDeref)"
proof (cases "deadlines t = []")
  case True
  then have "tm_head t = None"
    using assms(1) timer_head_None [of t "timer_nodes t"] by (simp add: timer_ok_def deadlines_def)
  with True show ?thesis by (simp add: Timer_Pop_def)
next
  case False
  with assms Timer_Pop_missing [of t "timer_nodes t" k] show ?thesis
    by (simp add: timer_ok_def deadlines_def)
qed

lemma timer_pop_ok:
  assumes "timer_ok t" and "Timer_Pop k t = Inr (r, t')"
  shows "timer_ok t'"
proof (cases "k \<in> fst ` set (deadlines t)")
  case True
  then have "\<exists>p \<in> set (deadlines t). fst p = k" by force
  then obtain us p vs where "deadlines t = us @ p # vs" "fst p = k" "\<forall>q \<in> set us. fst q \<noteq> k"
    using split_list_first_prop [of "deadlines t" "\<lambda>p. fst p = k"] by auto
  with Timer_Pop_found [OF assms(1), of us k "snd p" vs] assms(2) show ?thesis by (cases p) force
next
  case False
  with Timer_Pop_absent [OF assms(1)] assms show ?thesis by (auto split: if_splits)
qed

lemma timer_reach_ok: "timer_reach t \<Longrightarrow> timer_ok t"
proof (induction rule: timer_reach.induct)
  case timer_start
  show ?case by (simp add: timer_new_ok)
next
  case (timer_push t now k d r t')
  with Timer_Push_spec [of t now k d] show ?case by auto
next
  case (timer_pop t k r t')
  show ?case by (rule timer_pop_ok [OF timer_pop.IH timer_pop.hyps(2)])
next
  case (timer_tick t now ks t')
  with Timer_Tick_spec [of t now] show ?case by auto
qed

section \<open>Properties\<close>

text \<open>Two deadlines, the later one pushed first.\<close>

definition sample_timer :: "nat Timer res" where
  "sample_timer =
     bindE (Timer_Push 100 1 50 Timer_new) (\<lambda>(_, t).
     bindE (Timer_Push 100 2 5 t) (\<lambda>(_, t). Inr t))"

lemma sample_timer_ok:
  "\<exists>t. sample_timer = Inr t \<and> timer_reach t \<and> deadlines t = [(1, 150), (2, 105)]"
proof -
  obtain t1 where t1: "Timer_Push 100 (1 :: nat) 50 Timer_new = Inr (1, t1)" "deadlines t1 = [(1, 150)]"
      "timer_ok t1"
    using Timer_Push_spec [of Timer_new 100 "1 :: nat" 50] by (auto simp: timer_new_ok)
  obtain t2 where t2: "Timer_Push 100 2 5 t1 = Inr (1, t2)" "deadlines t2 = [(1, 150), (2, 105)]"
    using Timer_Push_spec [OF t1(3), of 100 2 5] t1(2) by auto
  have "timer_reach t2"
    by (rule timer_push [OF timer_push [OF timer_start t1(1)] t2(1)])
  with t1(1) t2 show ?thesis by (simp add: sample_timer_def)
qed

text \<open>
  C25: \<^verbatim>\<open>Tick\<close> on a reachable timer returns, in order of insertion, the keys of the longest
  prefix of entries whose deadline has passed, removes exactly these entries, and never faults;
  \<^verbatim>\<open>Push\<close> always reports 1 and appends an entry for \<open>now + timeout\<close>.
\<close>

theorem timer_tick_correct:
  assumes "timer_reach t"
  shows "(\<exists>t'. Timer_Tick now t = Inr (map fst (takeWhile (due now) (deadlines t)), t') \<and>
      deadlines t' = dropWhile (due now) (deadlines t)) \<and>
    (\<exists>t'. Timer_Push now k d t = Inr (1, t') \<and> deadlines t' = deadlines t @ [(k, now + d)])"
  using tq.tick_law [OF timer_reach_ok [OF assms], of now]
    tq.push_law [OF timer_reach_ok [OF assms], of now k d] by blast

theorem timer_tick_correct_witness:
  "\<exists>t t'. sample_timer = Inr t \<and> Timer_Tick 150 t = Inr ([1, 2], t') \<and> deadlines t' = []"
proof -
  obtain t where t: "sample_timer = Inr t" "timer_reach t" "deadlines t = [(1, 150), (2, 105)]"
    using sample_timer_ok by blast
  from timer_tick_correct [OF t(2), of 150] t show ?thesis by (auto simp: due_def)
qed

text \<open>
  Entries are not ordered by deadline: an entry that has not expired hides every entry
  pushed after it, so a tick returns nothing although a later entry is overdue.
\<close>

theorem timer_tick_blocked:
  assumes "timer_reach t" and "deadlines t = (k, d) # (k', d') # ds" and "d' \<le> now" and "now < d"
  shows "\<exists>t'. Timer_Tick now t = Inr ([], t') \<and> deadlines t' = deadlines t"
  using tq.tick_idle [OF timer_reach_ok [OF assms(1)] assms(2)] assms(4) by simp

theorem timer_tick_blocked_witness:
  "\<exists>t t'. sample_timer = Inr t \<and> Timer_Tick 120 t = Inr ([], t')"
proof -
  obtain t where t: "sample_timer = Inr t" "timer_reach t" "deadlines t = [(1, 150), (2, 105)]"
    using sample_timer_ok by blast
  from timer_tick_blocked [OF t(2,3), of 120] t(1) show ?thesis by auto
qed

text \<open>
  \<^verbatim>\<open>Pop\<close> removes the oldest entry of its key and reports 0, reports \<open>-1\<close> on an empty
  timer, and dereferences a null pointer when the timer is not empty and has no entry for the key.
\<close>

theorem timer_pop_cases:
  assumes "timer_reach t"
  shows "(deadlines t = us @ (k, d) # vs \<and> k \<notin> fst ` set us \<longrightarrow>
      (\<exists>t'. Timer_Pop k t = Inr (0, t') \<and> deadlines t' = us @ vs)) \<and>
    (k \<notin> fst ` set (deadlines t) \<longrightarrow>
      Timer_Pop k t = (if deadlines t = [] then Inr (-1, t) else Inl NullDeref))"
  using Timer_Pop_found [OF timer_reach_ok [OF assms], of us k d vs]
    Timer_Pop_absent [OF timer_reach_ok [OF assms], of k] by blast

theorem timer_pop_cases_witness:
  "\<exists>t t'. sample_timer = Inr t \<and> Timer_Pop 2 t = Inr (0, t') \<and> deadlines t' = [(1, 150)] \<and>
     Timer_Pop 7 t = Inl NullDeref"
proof -
  obtain t where t: "sample_timer = Inr t" "timer_reach t" "deadlines t = [(1, 150), (2, 105)]"
    using sample_timer_ok by blast
  from timer_pop_cases [OF t(2), of "[(1, 150)]" 2 105 "[]"] timer_pop_cases [OF t(2), of "[]" 7 0 "[]"] t
  show ?thesis by auto
qed

text \<open>C26: The destructor of a reachable timer frees every entry exactly once.\<close>

theorem timer_destroy_correct: "timer_reach t \<Longrightarrow> Timer_destroy t = Inr Map.empty"
  by (rule Timer_destroy_ok [OF timer_reach_ok])

theorem timer_destroy_correct_witness:
  "\<exists>t. sample_timer = Inr t \<and> Timer_destroy t = Inr Map.empty"
  using sample_timer_ok timer_destroy_correct by blast

end
