(* ===== verification/Step_Systems.thy ===== *)
theory Step_Systems
  imports Prelude
begin

text \<open>
  Concurrent parts of the program are step relations on a global state. This interface collects
  what is proved about each of them: an invariant that holds at the start and is kept by every
  step holds in every state that can be reached; and an invariant that some steps keep holds
  along every path of such steps.
\<close>

locale step_invariant =
  fixes start :: "'s \<Rightarrow> bool"
    and step :: "'s \<Rightarrow> 's \<Rightarrow> bool"
    and good :: "'s \<Rightarrow> bool"
  assumes start_good: "start s \<Longrightarrow> good s"
    and step_good: "good s \<Longrightarrow> step s s' \<Longrightarrow> good s'"
begin

lemma path_good: "step\<^sup>*\<^sup>* s s' \<Longrightarrow> good s \<Longrightarrow> good s'"
  by (induction rule: rtranclp_induct) (auto intro: step_good)

lemma reached_good: "start s0 \<Longrightarrow> step\<^sup>*\<^sup>* s0 s \<Longrightarrow> good s"
  using path_good start_good by blast

end

end
