(* ===== verification/Configs.thy ===== *)
theory Configs
  imports Step_Systems
begin

text \<open>
  The configuration object of \<^verbatim>\<open>configs.h\<close>: a process-wide singleton that is created on
  first use under double-checked locking and holds the \<^verbatim>\<open>maxmemory\<close> setting. The loaders
  and the other getters are placeholders in the code: the loaders change nothing and the getters
  return 0.
\<close>

section \<open>The object\<close>

record Configs =
  max_memory :: int

text \<open>\<^verbatim>\<open>new Configs()\<close> value-initialises the object: the field is zero.\<close>

definition Configs_new :: Configs where
  "Configs_new = \<lparr>max_memory = 0\<rparr>"

text \<open>\<^verbatim>\<open>configs_ptr_\<close> and what \<^verbatim>\<open>GetInstance\<close> returns, without concurrency.\<close>

definition GetInstance :: "Configs option \<Rightarrow> Configs \<times> Configs option" where
  "GetInstance p = (case p of Some c \<Rightarrow> (c, p) | None \<Rightarrow> (Configs_new, Some Configs_new))"

definition GetMaxMemory :: "Configs \<Rightarrow> int" where
  "GetMaxMemory c = max_memory c"

definition SetMaxMemory :: "int \<Rightarrow> Configs \<Rightarrow> int \<times> Configs" where
  "SetMaxMemory m c = (if m < 0 then (1, c) else (0, c\<lparr>max_memory := m\<rparr>))"

definition LoadConfigFile :: "string \<Rightarrow> Configs \<Rightarrow> Configs" where
  "LoadConfigFile filename c = c"

definition LoadCmdLine :: "string list \<Rightarrow> Configs \<Rightarrow> Configs" where
  "LoadCmdLine argv c = c"

definition LoadEnv :: "Configs \<Rightarrow> Configs" where
  "LoadEnv c = c"

definition LoadDefault :: "Configs \<Rightarrow> Configs" where
  "LoadDefault c = c"

definition GetPort :: "Configs \<Rightarrow> int" where "GetPort c = 0"
definition GetThreadNum :: "Configs \<Rightarrow> int" where "GetThreadNum c = 0"
definition GetMaxConn :: "Configs \<Rightarrow> int" where "GetMaxConn c = 0"
definition GetMaxEvents :: "Configs \<Rightarrow> int" where "GetMaxEvents c = 0"
definition GetTimeout :: "Configs \<Rightarrow> int" where "GetTimeout c = 0"
definition GetLogWrite :: "Configs \<Rightarrow> int" where "GetLogWrite c = 0"
definition GetLogStdout :: "Configs \<Rightarrow> int" where "GetLogStdout c = 0"
definition GetLogLevel :: "Configs \<Rightarrow> int" where "GetLogLevel c = 0"
definition GetCloseLog :: "Configs \<Rightarrow> int" where "GetCloseLog c = 0"
definition GetActorModel :: "Configs \<Rightarrow> int" where "GetActorModel c = 0"

lemmas configs_exec [exec] = Configs_new_def GetInstance_def GetMaxMemory_def SetMaxMemory_def

text \<open>The setting never becomes negative, and a refused value changes nothing.\<close>

definition configs_ok :: "Configs \<Rightarrow> bool" where
  "configs_ok c \<longleftrightarrow> 0 \<le> max_memory c"

lemma configs_new_ok [simp]: "configs_ok Configs_new"
  by (simp add: configs_ok_def Configs_new_def)

lemma configs_set_ok: "configs_ok c \<Longrightarrow> SetMaxMemory m c = (r, c') \<Longrightarrow> configs_ok c'"
  by (auto simp: configs_ok_def SetMaxMemory_def split: if_splits)

section \<open>Double-checked locking\<close>

text \<open>
  Threads that call \<^verbatim>\<open>GetInstance\<close> at the same time, one atomic action per step: the first test
  of the pointer, taking the mutex, the second test with the creation, the release of the
  mutex, and the final read. \<open>gi_made\<close> counts the objects created; an object is named by its
  number. Reads and writes of the pointer are taken to be atomic.
\<close>

datatype gi_pc = Check | Lock | Recheck | Unlock | Final | Returned "nat option"

record 't gi_state =
  gi_ptr :: "nat option"
  gi_owner :: "'t option"
  gi_made :: nat
  gi_at :: "'t \<Rightarrow> gi_pc"

definition gi_init :: "'t gi_state" where
  "gi_init = \<lparr>gi_ptr = None, gi_owner = None, gi_made = 0, gi_at = (\<lambda>_. Check)\<rparr>"

definition gi_goto :: "'t \<Rightarrow> gi_pc \<Rightarrow> 't gi_state \<Rightarrow> 't gi_state" where
  "gi_goto t p g = g\<lparr>gi_at := (gi_at g)(t := p)\<rparr>"

inductive gi_step :: "'t gi_state \<Rightarrow> 't gi_state \<Rightarrow> bool" where
  check_null: "gi_at g t = Check \<Longrightarrow> gi_ptr g = None \<Longrightarrow> gi_step g (gi_goto t Lock g)"
| check_set: "gi_at g t = Check \<Longrightarrow> gi_ptr g \<noteq> None \<Longrightarrow> gi_step g (gi_goto t Final g)"
| lock: "gi_at g t = Lock \<Longrightarrow> gi_owner g = None \<Longrightarrow>
    gi_step g (gi_goto t Recheck (g\<lparr>gi_owner := Some t\<rparr>))"
| create: "gi_at g t = Recheck \<Longrightarrow> gi_ptr g = None \<Longrightarrow>
    gi_step g (gi_goto t Unlock (g\<lparr>gi_ptr := Some (gi_made g), gi_made := Suc (gi_made g)\<rparr>))"
| recheck_set: "gi_at g t = Recheck \<Longrightarrow> gi_ptr g \<noteq> None \<Longrightarrow> gi_step g (gi_goto t Unlock g)"
| unlock: "gi_at g t = Unlock \<Longrightarrow> gi_step g (gi_goto t Final (g\<lparr>gi_owner := None\<rparr>))"
| return: "gi_at g t = Final \<Longrightarrow> gi_step g (gi_goto t (Returned (gi_ptr g)) g)"

definition gi_reach :: "'t gi_state \<Rightarrow> bool" where
  "gi_reach g \<longleftrightarrow> gi_step\<^sup>*\<^sup>* gi_init g"

lemma gi_start: "gi_reach gi_init"
  by (simp add: gi_reach_def)

lemma gi_next: "gi_reach g \<Longrightarrow> gi_step g g' \<Longrightarrow> gi_reach g'"
  by (auto simp: gi_reach_def intro: rtranclp.rtrancl_into_rtrancl)

text \<open>
  The mutex is held exactly by the thread between lock and unlock; at most one object exists,
  and it is there once the pointer is needed.
\<close>

definition gi_inv :: "'t gi_state \<Rightarrow> bool" where
  "gi_inv g \<longleftrightarrow>
     (\<forall>t. gi_at g t \<in> {Recheck, Unlock} \<longrightarrow> gi_owner g = Some t) \<and>
     gi_ptr g = (if gi_made g = 0 then None else Some 0) \<and> gi_made g \<le> 1 \<and>
     (\<forall>t. gi_at g t \<in> {Unlock, Final} \<longrightarrow> gi_made g = 1) \<and>
     (\<forall>t p. gi_at g t = Returned p \<longrightarrow> p = Some 0 \<and> gi_made g = 1)"

lemma gi_inv_init: "gi_inv gi_init"
  by (simp add: gi_inv_def gi_init_def)

lemma gi_inv_step: "gi_step g g' \<Longrightarrow> gi_inv g \<Longrightarrow> gi_inv g'"
  by (induction rule: gi_step.induct) (auto simp: gi_inv_def gi_goto_def split: if_splits, (metis option.inject)+)

interpretation gi: step_invariant "\<lambda>g. g = gi_init" gi_step gi_inv
  by unfold_locales (auto intro: gi_inv_init gi_inv_step)

lemma gi_reach_inv: "gi_reach g \<Longrightarrow> gi_inv g"
  by (rule gi.reached_good [OF refl]) (simp add: gi_reach_def)

text \<open>
  C27: However many threads call \<^verbatim>\<open>GetInstance\<close> at once and however their steps interleave,
  at most one configuration object is created, and every call that returns gives that object,
  never a null pointer.
\<close>

theorem get_instance_unique:
  assumes "gi_reach g"
  shows "gi_made g \<le> 1 \<and> (\<forall>t p. gi_at g t = Returned p \<longrightarrow> p = Some 0)"
  using gi_reach_inv [OF assms] by (simp add: gi_inv_def)

text \<open>Two threads that both see the null pointer first.\<close>

theorem get_instance_unique_witness:
  "\<exists>g :: bool gi_state. gi_reach g \<and> gi_at g True = Returned (Some 0) \<and> gi_at g False = Recheck \<and> gi_made g \<le> 1"
proof -
  let ?g1 = "gi_goto True Lock gi_init" let ?g2 = "gi_goto False Lock ?g1"
  let ?g3 = "gi_goto True Recheck (?g2\<lparr>gi_owner := Some True\<rparr>)"
  let ?g4 = "gi_goto True Unlock (?g3\<lparr>gi_ptr := Some (gi_made ?g3), gi_made := Suc (gi_made ?g3)\<rparr>)"
  let ?g5 = "gi_goto True Final (?g4\<lparr>gi_owner := None\<rparr>)"
  let ?g6 = "gi_goto True (Returned (gi_ptr ?g5)) ?g5"
  let ?g7 = "gi_goto False Recheck (?g6\<lparr>gi_owner := Some False\<rparr>)"
  note d = gi_goto_def gi_init_def
  have "gi_reach ?g1" by (rule gi_next [OF gi_start check_null]) (simp_all add: d)
  then have "gi_reach ?g2" by (rule gi_next [OF _ check_null]) (simp_all add: d)
  then have "gi_reach ?g3" by (rule gi_next [OF _ lock]) (simp_all add: d)
  then have "gi_reach ?g4" by (rule gi_next [OF _ create]) (simp_all add: d)
  then have "gi_reach ?g5" by (rule gi_next [OF _ unlock]) (simp_all add: d)
  then have "gi_reach ?g6" by (rule gi_next [OF _ return]) (simp_all add: d)
  then have r: "gi_reach ?g7" by (rule gi_next [OF _ lock]) (simp_all add: d)
  from get_instance_unique [OF r] r show ?thesis by (intro exI [of _ ?g7]) (simp add: d)
qed

end
