(* ===== verification/Server.thy ===== *)
theory Server
  imports Skip_List_File Timer Configs
begin

text \<open>
  The server of \<^verbatim>\<open>server.cpp\<close>: the command dispatcher, the handling of one batch of
  \<^verbatim>\<open>epoll\<close> events, the timeout and configuration steps at the end of a round, and the end of
  \<^verbatim>\<open>main\<close>. Sockets, signals and files are data: what the system calls return is part of the
  event, what is written to a socket or a file is part of the state. Setting up sockets and
  signal handlers is not modelled.
\<close>

section \<open>State\<close>

text \<open>
  \<open>sv_random\<close> are the numbers that \<^verbatim>\<open>random()\<close> will return, \<open>sv_out\<close> the pieces of text
  written to sockets, oldest first, \<open>sv_files\<close> the files written by \<^verbatim>\<open>SAVE\<close>, \<open>sv_alarms\<close>
  how often the alarm was armed, \<open>sv_conns\<close> the open client connections.
\<close>

record server =
  sv_map :: "(string, string SkipList) umap"
  sv_timer :: "string Timer"
  sv_configs :: Configs
  sv_timeout_keys :: "string list"
  sv_stop :: bool
  sv_timeout :: bool
  sv_update_config :: bool
  sv_random :: "nat list"
  sv_out :: "(nat \<times> string) list"
  sv_files :: "string \<rightharpoonup> string"
  sv_alarms :: nat
  sv_conns :: "nat list"

text \<open>
  What the surroundings decide during one call: the clock, which files can be opened for
  writing, the indeterminate score of a new header, and the outcome of the cache's reads of
  erased cells (a fault or some key).
\<close>

record environment =
  env_now :: int
  env_can_open :: "string \<Rightarrow> bool"
  env_garbage :: int
  env_stale :: "string \<times> int \<Rightarrow> string res"

definition MAX_LEVEL :: nat where "MAX_LEVEL = 6"

definition FILE_DIR :: string where "FILE_DIR = ''./store/''"

text \<open>\<^verbatim>\<open>write(sockfd, text, n)\<close>.\<close>

definition sv_write :: "nat \<Rightarrow> string \<Rightarrow> nat \<Rightarrow> server \<Rightarrow> server" where
  "sv_write fd text n s = s\<lparr>sv_out := sv_out s @ [(fd, take n text)]\<rparr>"

text \<open>The two writes of a number and a line break.\<close>

definition sv_reply :: "nat \<Rightarrow> int \<Rightarrow> server \<Rightarrow> server" where
  "sv_reply fd n s =
     sv_write fd ''\<newline>'' 1 (sv_write fd (to_string n) (length (to_string n)) s)"

definition TimeoutHandler :: "server \<Rightarrow> server" where
  "TimeoutHandler s = s\<lparr>sv_alarms := Suc (sv_alarms s)\<rparr>"

section \<open>Commands\<close>

definition is_cmd :: "string \<Rightarrow> string \<Rightarrow> string \<Rightarrow> bool" where
  "is_cmd upper lower cmd \<longleftrightarrow> cmd = upper \<or> cmd = lower"

text \<open>The words of the buffer: the command, empty if there is none, and its arguments.\<close>

definition parse_command :: "string \<Rightarrow> string \<times> string list" where
  "parse_command buf =
     (case words (c_string buf) of [] \<Rightarrow> ([], []) | cmd # args \<Rightarrow> (cmd, args))"

text \<open>\<^verbatim>\<open>SAVE\<close>: one file per sorted set; a file that cannot be opened is skipped.\<close>

definition save_one ::
  "environment \<Rightarrow> string \<times> string SkipList \<Rightarrow> (string \<rightharpoonup> string) \<Rightarrow> (string \<rightharpoonup> string) res" where
  "save_one env kl files =
     (let filename = FILE_DIR @ fst kl @ ''.txt'' in
      if env_can_open env filename
      then bindE (SkipList_Save (snd kl)) (\<lambda>text. Inr (files(filename \<mapsto> text)))
      else Inr files)"

definition do_save :: "environment \<Rightarrow> nat \<Rightarrow> server \<Rightarrow> server res" where
  "do_save env fd s =
     bindE (foldE (save_one env) (sv_map s) (sv_files s)) (\<lambda>files.
     Inr (sv_write fd ''OK\<newline>'' 3 (s\<lparr>sv_files := files\<rparr>)))"

definition do_config :: "nat \<Rightarrow> string list \<Rightarrow> server \<Rightarrow> server res" where
  "do_config fd args s =
     (if length args \<noteq> 3
      then Inr (sv_write fd ''Usage: CONFIG SET maxmemory [number]\<newline>'' 36 s)
      else if is_cmd ''SET'' ''set'' (args ! 0) then
        bindE (if is_cmd ''maxmemory'' ''MAXMEMORY'' (args ! 1) then
                 bindE (stoi (args ! 2)) (\<lambda>m.
                 let (ret, c) = SetMaxMemory m (sv_configs s) in
                 Inr (sv_reply fd ret (s\<lparr>sv_configs := c\<rparr>)))
               else Inr s) (\<lambda>s1.
        Inr (s1\<lparr>sv_update_config := True\<rparr>))
      else Inr s)"

definition do_expire :: "environment \<Rightarrow> nat \<Rightarrow> string list \<Rightarrow> server \<Rightarrow> server res" where
  "do_expire env fd args s =
     (if length args \<noteq> 2
      then Inr (sv_write fd ''Usage: EXPIRE key seconds\<newline>'' 26 s)
      else
        bindE (stoi (args ! 1)) (\<lambda>seconds.
        bindE (Timer_Push (env_now env) (args ! 0) seconds (sv_timer s)) (\<lambda>(ret, t).
        Inr (sv_reply fd ret (s\<lparr>sv_timer := t\<rparr>)))))"

text \<open>The replies for a key without a sorted set, except for \<^verbatim>\<open>ZADD\<close>.\<close>

definition missing_key_reply :: "nat \<Rightarrow> string \<Rightarrow> server \<Rightarrow> server" where
  "missing_key_reply fd cmd s =
     (if is_cmd ''ZREM'' ''zrem'' cmd \<or> is_cmd ''ZCARD'' ''zcard'' cmd then sv_write fd ''0\<newline>'' 2 s
      else if is_cmd ''ZSCORE'' ''zscore'' cmd then sv_write fd ''-1\<newline>'' 3 s
      else if is_cmd ''ZDIS'' ''zdis'' cmd then sv_write fd ''\<newline>'' 1 s
      else sv_write fd ''-1\<newline>'' 3 s)"

definition sv_put :: "string \<Rightarrow> string SkipList \<Rightarrow> server \<Rightarrow> server" where
  "sv_put key l s = s\<lparr>sv_map := umap_set key l (sv_map s)\<rparr>"

text \<open>The commands on the sorted set \<open>l\<close> of \<open>key\<close>.\<close>

definition do_zadd ::
  "environment \<Rightarrow> nat \<Rightarrow> string \<Rightarrow> string list \<Rightarrow> string SkipList \<Rightarrow> server \<Rightarrow> server res" where
  "do_zadd env fd key args l s =
     (if length args \<noteq> 3
      then Inr (sv_write fd ''Usage: ZADD key score member\<newline>'' 29 s)
      else
        bindE (stoi (args ! 1)) (\<lambda>score.
        bindE (InsertElement (env_stale env) (sv_random s) (args ! 2) score l) (\<lambda>(ret, rs, l').
        Inr (sv_reply fd ret (sv_put key l' (s\<lparr>sv_random := rs\<rparr>))))))"

definition do_zscore :: "nat \<Rightarrow> string \<Rightarrow> string list \<Rightarrow> string SkipList \<Rightarrow> server \<Rightarrow> server res" where
  "do_zscore fd key args l s =
     (if length args \<noteq> 2
      then Inr (sv_write fd ''Usage: ZSCORE key member\<newline>'' 25 s)
      else bindE (SearchElement (args ! 1) l) (\<lambda>(score, l'). Inr (sv_reply fd score (sv_put key l' s))))"

definition do_zrem :: "nat \<Rightarrow> string \<Rightarrow> string list \<Rightarrow> string SkipList \<Rightarrow> server \<Rightarrow> server res" where
  "do_zrem fd key args l s =
     (if length args \<noteq> 2
      then Inr (sv_write fd ''Usage: ZREM key member\<newline>'' 23 s)
      else bindE (DeleteElement (args ! 1) l) (\<lambda>(ret, l'). Inr (sv_reply fd ret (sv_put key l' s))))"

definition do_zcard :: "nat \<Rightarrow> string list \<Rightarrow> string SkipList \<Rightarrow> server \<Rightarrow> server res" where
  "do_zcard fd args l s =
     (if length args \<noteq> 1
      then Inr (sv_write fd ''Usage: ZCARD key\<newline>'' 17 s)
      else Inr (sv_reply fd (SkipList_Length l) s))"

definition do_zdis :: "nat \<Rightarrow> string list \<Rightarrow> string SkipList \<Rightarrow> server \<Rightarrow> server res" where
  "do_zdis fd args l s =
     (if length args \<noteq> 1
      then Inr (sv_write fd ''Usage: ZDIS key\<newline>'' 16 s)
      else bindE (SkipList_DisplayList l) (\<lambda>_. Inr (sv_write fd ''1\<newline>'' 2 s)))"

definition usage_text :: string where
  "usage_text = ''Usage: ZADD(zadd) | ZSCORE(zscore) | ZREM(zrem) | ZCARD(zcard) | ZDIS(zdis) | CONFIG(config) | EXPIRE(expire)\<newline>''"

definition zset_command ::
  "environment \<Rightarrow> nat \<Rightarrow> string \<Rightarrow> string \<Rightarrow> string list \<Rightarrow> string SkipList \<Rightarrow> server \<Rightarrow> server res" where
  "zset_command env fd cmd key args l s =
     (if is_cmd ''ZADD'' ''zadd'' cmd then do_zadd env fd key args l s
      else if is_cmd ''ZSCORE'' ''zscore'' cmd then do_zscore fd key args l s
      else if is_cmd ''ZREM'' ''zrem'' cmd then do_zrem fd key args l s
      else if is_cmd ''ZCARD'' ''zcard'' cmd then do_zcard fd args l s
      else if is_cmd ''ZDIS'' ''zdis'' cmd then do_zdis fd args l s
      else Inr (sv_write fd usage_text 110 s))"

text \<open>Lines 272 to 364: the set is looked up, and created by \<^verbatim>\<open>ZADD\<close>.\<close>

definition do_zset ::
  "environment \<Rightarrow> nat \<Rightarrow> string \<Rightarrow> string list \<Rightarrow> server \<Rightarrow> server res" where
  "do_zset env fd cmd args s =
     (if args = [] then Inl OutOfBounds
      else
        let key = args ! 0 in
        case umap_find (sv_map s) key of
          Some l \<Rightarrow> zset_command env fd cmd key args l s
        | None \<Rightarrow>
            if is_cmd ''ZADD'' ''zadd'' cmd then
              bindE (SkipList_new (env_stale env) [] (env_garbage env) MAX_LEVEL
                       (GetMaxMemory (sv_configs s))) (\<lambda>l.
              zset_command env fd cmd key args l (s\<lparr>sv_map := umap_insert key l (sv_map s)\<rparr>))
            else Inr (missing_key_reply fd cmd s))"

text \<open>One command; the result says whether the loop over the events goes on.\<close>

definition handle_command :: "environment \<Rightarrow> nat \<Rightarrow> string \<Rightarrow> server \<Rightarrow> (bool \<times> server) res" where
  "handle_command env fd buf s =
     (case parse_command buf of (cmd, args) \<Rightarrow>
      if is_cmd ''EXIT'' ''exit'' cmd \<or> is_cmd ''QUIT'' ''quit'' cmd
      then Inr (False, s\<lparr>sv_stop := True\<rparr>)
      else
        bindE (if is_cmd ''SAVE'' ''save'' cmd then do_save env fd s
               else if is_cmd ''CONFIG'' ''config'' cmd then do_config fd args s
               else if is_cmd ''EXPIRE'' ''expire'' cmd then do_expire env fd args s
               else do_zset env fd cmd args s) (\<lambda>s'.
        Inr (True, s')))"

section \<open>Events\<close>

text \<open>
  What \<^verbatim>\<open>recv\<close> gives: an error (whether it is \<^verbatim>\<open>EAGAIN\<close>), the end of the stream, or data.
\<close>

datatype recv_result = RecvError bool | RecvEnd | RecvData string

text \<open>
  The events of one \<^verbatim>\<open>epoll_wait\<close>: a connection on the listening socket, the signal pipe, input
  from a client, or an event without \<^verbatim>\<open>EPOLLIN\<close>.
\<close>

datatype event = Accept nat | SignalPipe "nat list option" | Input nat recv_result | NoInput

definition SIGHUP :: nat where "SIGHUP = 1"
definition SIGINT :: nat where "SIGINT = 2"
definition SIGALRM :: nat where "SIGALRM = 14"
definition SIGTERM :: nat where "SIGTERM = 15"
definition SIGCHLD :: nat where "SIGCHLD = 17"

definition handle_signal :: "nat \<Rightarrow> server \<Rightarrow> server" where
  "handle_signal sig s =
     (if sig = SIGALRM then s\<lparr>sv_timeout := True\<rparr>
      else if sig = SIGCHLD \<or> sig = SIGHUP then s
      else if sig = SIGTERM \<or> sig = SIGINT then s\<lparr>sv_stop := True\<rparr>
      else s)"

definition sv_close :: "nat \<Rightarrow> server \<Rightarrow> server" where
  "sv_close fd s = s\<lparr>sv_conns := filter (\<lambda>c. c \<noteq> fd) (sv_conns s)\<rparr>"

text \<open>The buffer holds at most 1023 bytes of what arrived, and a terminating null.\<close>

definition handle_event :: "environment \<Rightarrow> event \<Rightarrow> server \<Rightarrow> (bool \<times> server) res" where
  "handle_event env ev s =
     (case ev of
        Accept fd \<Rightarrow> Inr (True, s\<lparr>sv_conns := fd # sv_conns s\<rparr>)
      | SignalPipe None \<Rightarrow> Inr (True, s)
      | SignalPipe (Some sigs) \<Rightarrow> Inr (True, foldl (\<lambda>t sig. handle_signal sig t) s sigs)
      | Input fd (RecvError again) \<Rightarrow> Inr (True, if again then s else sv_close fd s)
      | Input fd RecvEnd \<Rightarrow> Inr (True, sv_close fd s)
      | Input fd (RecvData text) \<Rightarrow> handle_command env fd (take 1023 text) s
      | NoInput \<Rightarrow> Inr (True, s))"

fun handle_events :: "environment \<Rightarrow> event list \<Rightarrow> server \<Rightarrow> server res" where
  "handle_events env [] s = Inr s"
| "handle_events env (ev # evs) s =
     bindE (handle_event env ev s) (\<lambda>(go_on, s').
     if go_on then handle_events env evs s' else Inr s')"

section \<open>The end of a round\<close>

text \<open>\<^verbatim>\<open>map.erase(key)\<close> drops the only reference to the list, so its destructor runs.\<close>

definition erase_key :: "string \<Rightarrow> server \<Rightarrow> server res" where
  "erase_key key s =
     (case umap_find (sv_map s) key of
        None \<Rightarrow> Inr s
      | Some l \<Rightarrow> bindE (SkipList_destroy l) (\<lambda>_. Inr (s\<lparr>sv_map := umap_erase key (sv_map s)\<rparr>)))"

definition handle_timeout :: "environment \<Rightarrow> server \<Rightarrow> server res" where
  "handle_timeout env s =
     (if \<not> sv_timeout s then Inr s
      else
        bindE (Timer_Tick (env_now env) (sv_timer s)) (\<lambda>(keys, t).
        bindE (foldE erase_key keys (s\<lparr>sv_timer := t, sv_timeout_keys := keys\<rparr>)) (\<lambda>s1.
        Inr ((TimeoutHandler s1)\<lparr>sv_timeout := False\<rparr>))))"

text \<open>The loop of \<^verbatim>\<open>UpdateMaxMemory\<close> over the map.\<close>

fun UpdateMaxMemory ::
  "environment \<Rightarrow> Configs \<Rightarrow> (string, string SkipList) umap \<Rightarrow> (string, string SkipList) umap res" where
  "UpdateMaxMemory env c [] = Inr []"
| "UpdateMaxMemory env c ((k, l) # m) =
     bindE (SkipList_SetMaxMemory (env_stale env) (GetMaxMemory c) l) (\<lambda>(_, l').
     bindE (UpdateMaxMemory env c m) (\<lambda>m'. Inr ((k, l') # m')))"

definition handle_update :: "environment \<Rightarrow> server \<Rightarrow> server res" where
  "handle_update env s =
     (if \<not> sv_update_config s then Inr s
      else
        bindE (UpdateMaxMemory env (sv_configs s) (sv_map s)) (\<lambda>m.
        Inr (s\<lparr>sv_map := m, sv_update_config := False\<rparr>)))"

text \<open>
  One round of the main loop. \<^verbatim>\<open>epoll_wait\<close> returns events (\<open>Some\<close>, none if it was
  interrupted) or fails otherwise (\<open>None\<close>), which leaves the loop at once.
\<close>

definition serve_round :: "environment \<Rightarrow> event list option \<Rightarrow> server \<Rightarrow> (bool \<times> server) res" where
  "serve_round env evs s =
     (case evs of
        None \<Rightarrow> Inr (False, s)
      | Some es \<Rightarrow>
          bindE (handle_events env es s) (\<lambda>s1.
          bindE (handle_timeout env s1) (\<lambda>s2.
          bindE (handle_update env s2) (\<lambda>s3.
          Inr (\<not> sv_stop s3, s3)))))"

fun serve :: "(environment \<times> event list option) list \<Rightarrow> server \<Rightarrow> (bool \<times> server) res" where
  "serve [] s = Inr (True, s)"
| "serve ((env, evs) # rounds) s =
     bindE (serve_round env evs s) (\<lambda>(go_on, s').
     if go_on then serve rounds s' else Inr (False, s'))"

text \<open>The state before the first round, and the destructors at the end of \<^verbatim>\<open>main\<close>.\<close>

definition server_start :: "nat list \<Rightarrow> server" where
  "server_start rs = TimeoutHandler
     \<lparr>sv_map = [], sv_timer = Timer_new, sv_configs = Configs_new, sv_timeout_keys = [],
      sv_stop = False, sv_timeout = False, sv_update_config = False, sv_random = rs, sv_out = [],
      sv_files = Map.empty, sv_alarms = 0, sv_conns = []\<rparr>"

definition server_exit :: "server \<Rightarrow> unit res" where
  "server_exit s =
     bindE (foldE (\<lambda>kl _. bindE (SkipList_destroy (snd kl)) (\<lambda>_. Inr ())) (sv_map s) ()) (\<lambda>_.
     bindE (Timer_destroy (sv_timer s)) (\<lambda>_. Inr ()))"

lemmas server_exec [exec] =
  sv_write_def sv_reply_def TimeoutHandler_def is_cmd_def do_config_def do_expire_def
  missing_key_reply_def sv_put_def do_zadd_def do_zscore_def do_zrem_def do_zcard_def do_zdis_def
  zset_command_def do_zset_def handle_command_def handle_event_def handle_timeout_def
  handle_update_def serve_round_def erase_key_def server_exit_def server_start_def
  parse_command_def handle_signal_def SIGHUP_def SIGINT_def SIGALRM_def SIGTERM_def SIGCHLD_def

text \<open>Written as a successor, so that the loops over the levels unfold.\<close>

lemma MAX_LEVEL_Suc [exec]: "MAX_LEVEL = Suc (Suc (Suc (Suc (Suc (Suc 0)))))"
  by (simp add: MAX_LEVEL_def)

text \<open>An environment for closed examples: the clock stands at 100, every file opens,
  and reading an erased cell faults.\<close>

definition sample_env :: environment where
  "sample_env = \<lparr>env_now = 100, env_can_open = (\<lambda>_. True), env_garbage = 0, env_stale = dangling\<rparr>"

end
