(* ===== verification/Server_Spec.thy ===== *)
theory Server_Spec
  imports Server
begin

text \<open>
  What the server promises its clients: for the sorted-set commands it answers like a map from
  keys to maps from members to scores, whatever the skip lists do inside.
\<close>

section \<open>The abstract server\<close>

datatype zcommand =
    ZADD string int string   (* key score member *)
  | ZREM string string
  | ZSCORE string string
  | ZCARD string

type_synonym zsets = "string \<rightharpoonup> (string \<rightharpoonup> int)"

definition members_of :: "zsets \<Rightarrow> string \<Rightarrow> (string \<rightharpoonup> int)" where
  "members_of z key = (case z key of None \<Rightarrow> Map.empty | Some m \<Rightarrow> m)"

text \<open>The operation of the sorted set that a command stands for.\<close>

fun key_of :: "zcommand \<Rightarrow> string" where
  "key_of (ZADD key score member) = key"
| "key_of (ZREM key member) = key"
| "key_of (ZSCORE key member) = key"
| "key_of (ZCARD key) = key"

fun zop_of :: "zcommand \<Rightarrow> string zop" where
  "zop_of (ZADD key score member) = Add member score"
| "zop_of (ZREM key member) = Rem member"
| "zop_of (ZSCORE key member) = Score member"
| "zop_of (ZCARD key) = Card"

text \<open>Only \<^verbatim>\<open>ZADD\<close> creates a set; the others treat a missing key as an empty set.\<close>

definition abs_exec :: "zcommand \<Rightarrow> zsets \<Rightarrow> int \<times> zsets" where
  "abs_exec c z =
     (let (r, m) = map_step (zop_of c) (members_of z (key_of c)) in
      (r, if z (key_of c) = None \<and> (\<forall>k v m. c \<noteq> ZADD k v m) then z else z(key_of c \<mapsto> m)))"

fun abs_run :: "zcommand list \<Rightarrow> zsets \<Rightarrow> int list \<times> zsets" where
  "abs_run [] z = ([], z)"
| "abs_run (c # cs) z =
     (let (r, z1) = abs_exec c z; (rs, z2) = abs_run cs z1 in (r # rs, z2))"

section \<open>The wire format\<close>

fun command_words :: "zcommand \<Rightarrow> string list" where
  "command_words (ZADD key score member) = [''ZADD'', key, to_string score, member]"
| "command_words (ZREM key member) = [''ZREM'', key, member]"
| "command_words (ZSCORE key member) = [''ZSCORE'', key, member]"
| "command_words (ZCARD key) = [''ZCARD'', key]"

definition command_text :: "zcommand \<Rightarrow> string" where
  "command_text c = unwords (command_words c) @ ''\<newline>''"

definition is_token :: "string \<Rightarrow> bool" where
  "is_token w \<longleftrightarrow> w \<noteq> [] \<and> (\<forall>c \<in> set w. \<not> is_space c \<and> code c \<noteq> 0)"

fun command_ok :: "zcommand \<Rightarrow> bool" where
  "command_ok (ZADD key score member) \<longleftrightarrow> is_token key \<and> is_token member \<and> is_int score"
| "command_ok (ZREM key member) \<longleftrightarrow> is_token key \<and> is_token member"
| "command_ok (ZSCORE key member) \<longleftrightarrow> is_token key \<and> is_token member"
| "command_ok (ZCARD key) \<longleftrightarrow> is_token key"

text \<open>The bytes sent to one client.\<close>

definition bytes_to :: "nat \<Rightarrow> (nat \<times> string) list \<Rightarrow> string" where
  "bytes_to fd out = concat (map snd (filter (\<lambda>p. fst p = fd) out))"

definition reply_text :: "int \<Rightarrow> string" where
  "reply_text r = to_string r @ ''\<newline>''"

lemma to_string_token: "is_token (to_string x)"
proof -
  have "\<not> is_space c \<and> code c \<noteq> 0" if "c \<in> set (to_string x)" for c
    using to_string_chars [OF that] by (auto simp: is_digit_def is_space_def code_def)
  then show ?thesis by (simp add: is_token_def)
qed

lemma c_string_id: "(\<And>c. c \<in> set s \<Longrightarrow> code c \<noteq> 0) \<Longrightarrow> c_string s = s"
  by (simp add: c_string_def takeWhile_eq_all_conv [THEN iffD2])

lemma unwords_chars:
  "c \<in> set (unwords ws) \<Longrightarrow> c = CHR '' '' \<or> (\<exists>w \<in> set ws. c \<in> set w)"
  by (induction ws rule: unwords.induct) auto

text \<open>The dispatcher sees the words the client sent.\<close>

lemma parse_tokens:
  assumes "\<And>w. w \<in> set (cmd # args) \<Longrightarrow> is_token w"
  shows "parse_command (unwords (cmd # args) @ ''\<newline>'') = (cmd, args)"
proof -
  let ?s = "unwords (cmd # args)"
  have t: "code c \<noteq> 0" if "w \<in> set (cmd # args)" "c \<in> set w" for c w
    using assms [OF that(1)] that(2) by (simp add: is_token_def)
  have "c_string (?s @ ''\<newline>'') = ?s @ ''\<newline>''"
  proof (rule c_string_id)
    fix c assume "c \<in> set (?s @ ''\<newline>'')"
    then consider "c = CHR '' ''" | w where "w \<in> set (cmd # args)" "c \<in> set w" | "c = CHR ''\<newline>''"
      using unwords_chars [of c "cmd # args"] by auto
    then show "code c \<noteq> 0" by cases (use t in \<open>auto simp: code_def\<close>)
  qed
  moreover have "words (?s @ ''\<newline>'') = cmd # args"
  proof (rule words_unwords)
    show "w \<noteq> [] \<and> (\<forall>c \<in> set w. \<not> is_space c)" if "w \<in> set (cmd # args)" for w
      using assms [OF that] by (simp add: is_token_def)
  qed (simp add: is_space_def code_def)
  ultimately show ?thesis by (simp add: parse_command_def)
qed

lemma is_token_names:
  "is_token ''ZADD''" "is_token ''ZREM''" "is_token ''ZSCORE''" "is_token ''ZCARD''"
  by (simp_all add: is_token_def is_space_def code_def)

lemma command_tokens: "command_ok c \<Longrightarrow> w \<in> set (command_words c) \<Longrightarrow> is_token w"
  by (cases c) (auto simp: to_string_token is_token_names)

lemma parse_command_text:
  assumes "command_ok c"
  shows "parse_command (command_text c) = (hd (command_words c), tl (command_words c))"
proof -
  have "command_words c = hd (command_words c) # tl (command_words c)" by (cases c) auto
  then show ?thesis
    using parse_tokens [of "hd (command_words c)" "tl (command_words c)"] command_tokens [OF assms]
    by (metis command_text_def)
qed

section \<open>Servers without a memory limit\<close>

definition sets_of :: "server \<Rightarrow> zsets" where
  "sets_of s = (\<lambda>key. map_option zset_view (umap_find (sv_map s) key))"

definition plain_server :: "server \<Rightarrow> bool" where
  "plain_server s \<longleftrightarrow> umap_ok (sv_map s) \<and> max_memory (sv_configs s) = 0 \<and>
     (\<forall>key l. umap_find (sv_map s) key = Some l \<longrightarrow> zset_ok l)"

text \<open>Between \<open>s\<close> and \<open>s'\<close> exactly \<open>text\<close> was written, to \<open>fd\<close> only.\<close>

definition sends :: "nat \<Rightarrow> string \<Rightarrow> server \<Rightarrow> server \<Rightarrow> bool" where
  "sends fd text s s' \<longleftrightarrow>
     (\<exists>w. sv_out s' = sv_out s @ w \<and> (\<forall>p \<in> set w. fst p = fd) \<and> concat (map snd w) = text)"

lemma sends_reply: "sv_out t = sv_out s \<Longrightarrow> sends fd (reply_text r) s (sv_reply fd r t)"
  by (auto simp: sends_def sv_reply_def sv_write_def reply_text_def)

lemma sends_write: "sv_out t = sv_out s \<Longrightarrow> sends fd (take n text) s (sv_write fd text n t)"
  by (auto simp: sends_def sv_write_def)

lemma sends_bytes:
  assumes "sends fd text s s'"
  shows "bytes_to fd' (sv_out s') = bytes_to fd' (sv_out s) @ (if fd' = fd then text else [])"
proof -
  obtain w where w: "sv_out s' = sv_out s @ w" "\<forall>p \<in> set w. fst p = fd" "concat (map snd w) = text"
    using assms by (auto simp: sends_def)
  then have "filter (\<lambda>p. fst p = fd') w = (if fd' = fd then w else [])"
    by (auto simp: filter_empty_conv filter_id_conv)
  with w show ?thesis by (simp add: bytes_to_def)
qed

lemma sends_map_upd [simp]: "sends fd text (s\<lparr>sv_map := m\<rparr>) s' = sends fd text s s'"
  by (simp add: sends_def)

lemma sv_reply_simps [simp]:
  "sv_map (sv_reply fd r s) = sv_map s" "sv_configs (sv_reply fd r s) = sv_configs s"
  "sv_random (sv_reply fd r s) = sv_random s" "sv_stop (sv_reply fd r s) = sv_stop s"
  "sv_timer (sv_reply fd r s) = sv_timer s" "sv_timeout (sv_reply fd r s) = sv_timeout s"
  "sv_update_config (sv_reply fd r s) = sv_update_config s"
  by (simp_all add: sv_reply_def sv_write_def)

lemma sv_write_simps [simp]:
  "sv_map (sv_write fd t n s) = sv_map s" "sv_configs (sv_write fd t n s) = sv_configs s"
  "sv_random (sv_write fd t n s) = sv_random s" "sv_stop (sv_write fd t n s) = sv_stop s"
  "sv_timer (sv_write fd t n s) = sv_timer s" "sv_timeout (sv_write fd t n s) = sv_timeout s"
  "sv_update_config (sv_write fd t n s) = sv_update_config s"
  by (simp_all add: sv_write_def)

lemma sv_put_simps [simp]:
  "sv_configs (sv_put k l s) = sv_configs s" "sv_random (sv_put k l s) = sv_random s"
  "sv_stop (sv_put k l s) = sv_stop s" "sv_out (sv_put k l s) = sv_out s"
  "sv_timer (sv_put k l s) = sv_timer s" "sv_timeout (sv_put k l s) = sv_timeout s"
  "sv_update_config (sv_put k l s) = sv_update_config s"
  "sv_map (sv_put k l s) = umap_set k l (sv_map s)"
  by (simp_all add: sv_put_def)

text \<open>A command on an existing set is the operation of the set, followed by its reply.\<close>

lemma zset_command_step:
  assumes "command_ok c" and "umap_find (sv_map s) (key_of c) = Some l"
    and "store_step (InsertElement (env_stale env)) DeleteElement SearchElement SkipList_Length (zop_of c)
           (sv_random s) l = Inr (r, rs, l')"
  shows "\<exists>s'. zset_command env fd (hd (command_words c)) (key_of c) (tl (command_words c)) l s = Inr s' \<and>
    umap_find (sv_map s') = (umap_find (sv_map s))(key_of c \<mapsto> l') \<and> (umap_ok (sv_map s) \<longrightarrow> umap_ok (sv_map s')) \<and>
    sv_configs s' = sv_configs s \<and> sv_random s' = rs \<and>
    sends fd (reply_text r) s s'"
proof (cases c)
  case (ZADD key score member)
  with assms show ?thesis
    by (auto simp: zset_command_def is_cmd_def do_zadd_def sends_reply umap_find_set_map)
next
  case (ZREM key member)
  with assms show ?thesis
    by (auto simp: zset_command_def is_cmd_def do_zrem_def sends_reply bindE_Inr_iff umap_find_set_map)
next
  case (ZSCORE key member)
  with assms show ?thesis
    by (auto simp: zset_command_def is_cmd_def do_zscore_def sends_reply bindE_Inr_iff umap_find_set_map)
next
  case (ZCARD key)
  with assms show ?thesis
    by (auto simp: zset_command_def is_cmd_def do_zcard_def sends_reply)
qed

lemma plain_server_put:
  assumes "plain_server s" and "umap_find (sv_map s') = (umap_find (sv_map s))(key \<mapsto> l)" and "zset_ok l"
    and "umap_ok (sv_map s')" and "sv_configs s' = sv_configs s"
  shows "plain_server s' \<and> sets_of s' = (sets_of s)(key \<mapsto> zset_view l)"
  using assms by (auto simp: plain_server_def sets_of_def fun_eq_iff)

lemma handle_zset_words:
  "command_ok c \<Longrightarrow> handle_command env fd (command_text c) s =
     bindE (do_zset env fd (hd (command_words c)) (tl (command_words c)) s) (\<lambda>s'. Inr (True, s'))"
  by (simp add: handle_command_def parse_command_text) (cases c; simp add: is_cmd_def)

lemma command_on_set:
  assumes "plain_server s" and "command_ok c" and "n < stops (sv_random s)"
    and "umap_find (sv_map s) (key_of c) = Some l" and "card (dom (zset_view l)) < 2 ^ 31"
  shows "\<exists>s'. zset_command env fd (hd (command_words c)) (key_of c) (tl (command_words c)) l s = Inr s' \<and>
    plain_server s' \<and> sets_of s' = (sets_of s)(key_of c \<mapsto> snd (map_step (zop_of c) (zset_view l))) \<and>
    sends fd (reply_text (fst (map_step (zop_of c) (zset_view l)))) s s' \<and>
    n \<le> stops (sv_random s')"
proof -
  have "zset_ok l" using assms(1,4) by (auto simp: plain_server_def)
  from sl.step_refines [OF this assms(3,5), of "env_stale env" "zop_of c"] obtain rs l' where
    l': "store_step (InsertElement (env_stale env)) DeleteElement SearchElement SkipList_Length (zop_of c) (sv_random s) l
        = Inr (fst (map_step (zop_of c) (zset_view l)), rs, l')" "zset_ok l'"
      "zset_view l' = snd (map_step (zop_of c) (zset_view l))" "n \<le> stops rs"
    by blast
  from zset_command_step [OF assms(2,4) l'(1), of fd] obtain s' where
    s': "zset_command env fd (hd (command_words c)) (key_of c) (tl (command_words c)) l s = Inr s'"
      "umap_find (sv_map s') = (umap_find (sv_map s))(key_of c \<mapsto> l')" "umap_ok (sv_map s')"
      "sv_configs s' = sv_configs s" "sv_random s' = rs"
      "sends fd (reply_text (fst (map_step (zop_of c) (zset_view l)))) s s'"
    using assms(1) by (auto simp: plain_server_def)
  with plain_server_put [OF assms(1) s'(2) l'(2) s'(3,4)] l'(3,4) show ?thesis by auto
qed

lemma tl_command_words [simp]: "tl (command_words c) \<noteq> []" "tl (command_words c) ! 0 = key_of c"
  by (cases c; simp)+

lemma to_string_small [simp]: "to_string 0 = ''0''" "to_string (-1) = ''-1''"
  by (simp_all add: to_string_def nat_string.simps digit_char_def)

text \<open>A command on a key that has no set.\<close>

lemma missing_reply_ok:
  assumes "\<forall>k v m. c \<noteq> ZADD k v m"
  shows "sends fd (reply_text (fst (map_step (zop_of c) Map.empty))) s
    (missing_key_reply fd (hd (command_words c)) s)"
  using assms sends_write [of s s fd 2 "''0\<newline>''"] sends_write [of s s fd 3 "''-1\<newline>''"]
  by (cases c) (auto simp: missing_key_reply_def is_cmd_def reply_text_def)

lemma sets_of_key:
  "members_of (sets_of s) key = (case umap_find (sv_map s) key of None \<Rightarrow> Map.empty | Some l \<Rightarrow> zset_view l)"
  by (simp add: members_of_def sets_of_def split: option.split)

lemma plain_server_new:
  assumes "plain_server s" and "umap_find (sv_map s) key = None"
  shows "\<exists>l. SkipList_new stale [] g MAX_LEVEL (GetMaxMemory (sv_configs s)) = Inr l \<and>
    zset_view l = Map.empty \<and> plain_server (s\<lparr>sv_map := umap_insert key l (sv_map s)\<rparr>) \<and>
    sets_of (s\<lparr>sv_map := umap_insert key l (sv_map s)\<rparr>) = (sets_of s)(key \<mapsto> Map.empty)"
proof -
  have c: "GetMaxMemory (sv_configs s) = 0" using assms(1) by (simp add: plain_server_def GetMaxMemory_def)
  obtain l where l: "SkipList_new stale ([] :: string) g MAX_LEVEL 0 = Inr l" "sl_inv l" "content l = []"
      "doomed l = []" "limit l = 0"
    using SkipList_new_spec [of MAX_LEVEL stale "[] :: string" g 0] by (auto simp: MAX_LEVEL_def)
  then have ok: "zset_ok l" "zset_view l = Map.empty" by (simp_all add: zset_ok_def zset_view_def)
  from plain_server_put [OF assms(1), of "s\<lparr>sv_map := umap_insert key l (sv_map s)\<rparr>" key l] ok assms
  show ?thesis using l(1) c by (simp add: umap_find_insert_map plain_server_def)
qed

lemma handle_zcommand:
  assumes pl: "plain_server s" and c: "command_ok c"
    and n: "n < stops (sv_random s)" and sz: "card (dom (members_of (sets_of s) (key_of c))) < 2 ^ 31"
  shows "\<exists>s'. handle_command env fd (command_text c) s = Inr (True, s') \<and> plain_server s' \<and>
    sets_of s' = snd (abs_exec c (sets_of s)) \<and>
    sends fd (reply_text (fst (abs_exec c (sets_of s)))) s s' \<and>
    n \<le> stops (sv_random s')"
proof (cases "umap_find (sv_map s) (key_of c)")
  case (Some l)
  then have m: "members_of (sets_of s) (key_of c) = zset_view l" "sets_of s (key_of c) \<noteq> None"
    by (simp_all add: sets_of_key) (simp add: sets_of_def)
  from command_on_set [OF pl c n Some] sz m(1) obtain s' where
    "zset_command env fd (hd (command_words c)) (key_of c) (tl (command_words c)) l s = Inr s'"
    "plain_server s' \<and> sets_of s' = (sets_of s)(key_of c \<mapsto> snd (map_step (zop_of c) (zset_view l))) \<and>
     sends fd (reply_text (fst (map_step (zop_of c) (zset_view l)))) s s' \<and>
     n \<le> stops (sv_random s')" by auto
  with Some m show ?thesis
    by (auto simp: handle_zset_words [OF c] do_zset_def Let_def abs_exec_def split_def)
next
  case None
  then have m: "members_of (sets_of s) (key_of c) = Map.empty" "sets_of s (key_of c) = None"
    by (simp_all add: sets_of_key) (simp add: sets_of_def)
  show ?thesis
  proof (cases "\<forall>k v w. c \<noteq> ZADD k v w")
    case True
    then have "\<not> is_cmd ''ZADD'' ''zadd'' (hd (command_words c))" by (cases c) (auto simp: is_cmd_def)
    moreover have "plain_server (missing_key_reply fd (hd (command_words c)) s)"
        "sets_of (missing_key_reply fd (hd (command_words c)) s) = sets_of s"
        "sv_random (missing_key_reply fd (hd (command_words c)) s) = sv_random s"
      using pl by (simp_all add: missing_key_reply_def plain_server_def sets_of_def)
    ultimately show ?thesis
      using True None m missing_reply_ok [OF True] n
      by (simp add: handle_zset_words [OF c] do_zset_def Let_def abs_exec_def split_def)
  next
    case False
    then have z: "is_cmd ''ZADD'' ''zadd'' (hd (command_words c))" by (auto simp: is_cmd_def)
    obtain l where l: "SkipList_new (env_stale env) [] (env_garbage env) MAX_LEVEL (GetMaxMemory (sv_configs s)) = Inr l"
        "zset_view l = Map.empty" and p: "plain_server (s\<lparr>sv_map := umap_insert (key_of c) l (sv_map s)\<rparr>)"
      and st: "sets_of (s\<lparr>sv_map := umap_insert (key_of c) l (sv_map s)\<rparr>) = (sets_of s)(key_of c \<mapsto> Map.empty)"
      using plain_server_new [OF pl None] by blast
    let ?s = "s\<lparr>sv_map := umap_insert (key_of c) l (sv_map s)\<rparr>"
    have f: "umap_find (sv_map ?s) (key_of c) = Some l" using None by simp
    from command_on_set [OF p c _ f, of n env fd] n l(2) st obtain s' where
      "zset_command env fd (hd (command_words c)) (key_of c) (tl (command_words c)) l ?s = Inr s'"
      "plain_server s' \<and> sets_of s' = (sets_of s)(key_of c \<mapsto> snd (map_step (zop_of c) Map.empty)) \<and>
       sends fd (reply_text (fst (map_step (zop_of c) Map.empty))) s s' \<and>
       n \<le> stops (sv_random s')" by auto
    with False z l(1) None m show ?thesis
      by (auto simp: handle_zset_words [OF c] do_zset_def Let_def abs_exec_def split_def)
  qed
qed

section \<open>Sequences of commands from several clients\<close>

definition command_event :: "nat \<times> zcommand \<Rightarrow> event" where
  "command_event p = Input (fst p) (RecvData (command_text (snd p)))"

text \<open>The replies that go to one client when the commands are answered in order.\<close>

definition replies_to :: "nat \<Rightarrow> (nat \<times> zcommand) list \<Rightarrow> int list \<Rightarrow> string" where
  "replies_to fd evs rs =
     concat (map (\<lambda>(p, r). if fst p = fd then reply_text r else []) (zip evs rs))"

definition sets_bounded :: "nat \<Rightarrow> zsets \<Rightarrow> bool" where
  "sets_bounded n z \<longleftrightarrow> (\<forall>key m. z key = Some m \<longrightarrow> finite (dom m) \<and> card (dom m) \<le> n)"

lemma sets_bounded_members:
  "sets_bounded n z \<Longrightarrow> finite (dom (members_of z key)) \<and> card (dom (members_of z key)) \<le> n"
  by (simp add: sets_bounded_def members_of_def split: option.split)

lemma sets_bounded_exec:
  assumes "sets_bounded n z"
  shows "sets_bounded (Suc n) (snd (abs_exec c z))"
proof -
  let ?m = "members_of z (key_of c)"
  have m: "finite (dom ?m)" "card (dom ?m) \<le> n" using sets_bounded_members [OF assms] by auto
  have "finite (dom (snd (map_step x ?m))) \<and> card (dom (snd (map_step x ?m))) \<le> Suc n" for x
    using m by (cases x) (auto simp: card_insert_if intro: le_trans [OF card_Diff1_le])
  then show ?thesis
    using assms by (auto simp: abs_exec_def split_def Let_def sets_bounded_def intro: le_SucI)
qed

lemma handle_command_run:
  assumes "plain_server s"
    and "\<And>p. p \<in> set evs \<Longrightarrow> command_ok (snd p) \<and> length (command_text (snd p)) \<le> 1023"
    and "length evs \<le> stops (sv_random s)" and "sets_bounded n (sets_of s)" and "n + length evs < 2 ^ 31"
  shows "\<exists>s'. handle_events env (map command_event evs) s = Inr s' \<and> plain_server s' \<and>
    sets_of s' = snd (abs_run (map snd evs) (sets_of s)) \<and>
    (\<forall>fd. bytes_to fd (sv_out s') = bytes_to fd (sv_out s) @
       replies_to fd evs (fst (abs_run (map snd evs) (sets_of s))))"
  using assms
proof (induction evs arbitrary: s n)
  case Nil
  then show ?case by (simp add: replies_to_def)
next
  case (Cons p evs)
  obtain fd c where p: "p = (fd, c)" by force
  have c: "command_ok c" "length (command_text c) \<le> 1023" using Cons.prems(2) [of p] p by auto
  have sz: "card (dom (members_of (sets_of s) (key_of c))) < 2 ^ 31"
    using sets_bounded_members [OF Cons.prems(4), of "key_of c"] Cons.prems(5) by simp
  obtain s1 where s1: "handle_command env fd (command_text c) s = Inr (True, s1)" "plain_server s1"
      "sets_of s1 = snd (abs_exec c (sets_of s))"
      "sends fd (reply_text (fst (abs_exec c (sets_of s)))) s s1" "length evs \<le> stops (sv_random s1)"
    using handle_zcommand [OF Cons.prems(1) c(1) _ sz, of "length evs" env fd] Cons.prems(3) by auto
  have b: "sets_bounded (Suc n) (sets_of s1)"
    using sets_bounded_exec [OF Cons.prems(4)] s1(3) by simp
  have "\<And>q. q \<in> set evs \<Longrightarrow> command_ok (snd q) \<and> length (command_text (snd q)) \<le> 1023"
      "Suc n + length evs < 2 ^ 31"
    using Cons.prems(2,5) by auto
  from Cons.IH [OF s1(2) this(1) s1(5) b this(2)] obtain s' where
    s': "handle_events env (map command_event evs) s1 = Inr s'" "plain_server s'"
      "sets_of s' = snd (abs_run (map snd evs) (sets_of s1))"
      "\<And>f. bytes_to f (sv_out s') = bytes_to f (sv_out s1) @
         replies_to f evs (fst (abs_run (map snd evs) (sets_of s1)))"
    by auto
  have "handle_events env (map command_event (p # evs)) s = Inr s'"
    using s1(1) s'(1) c(2) p by (simp add: command_event_def handle_event_def)
  moreover have "bytes_to f (sv_out s') = bytes_to f (sv_out s) @
      replies_to f (p # evs) (fst (abs_run (map snd (p # evs)) (sets_of s)))" for f
    using s'(4) [of f] sends_bytes [OF s1(4), of f] s1(3) p
    by (auto simp: replies_to_def split_def Let_def)
  ultimately show ?case using s'(2,3) s1(3) p by (auto simp: split_def Let_def)
qed

end
