(* ===== verification/Server_Safety.thy ===== *)
theory Server_Safety
  imports Server_Spec Skip_List_Back
begin

text \<open>
  Which requests the server survives. Under its invariant a command faults exactly when it is
  malformed in one of three ways that the code does not check, or when it evicts a cached entry
  and the read of the erased cell faults; everything else, including the limits on memory and
  the configuration updates, keeps the invariant. Expiry removes exactly the expired keys as
  long as the lists can be destroyed, and faults after the first member of a list was removed.
\<close>

section \<open>The invariant\<close>

definition sv_inv :: "server \<Rightarrow> bool" where
  "sv_inv s \<longleftrightarrow> umap_ok (sv_map s) \<and> timer_reach (sv_timer s) \<and> configs_ok (sv_configs s) \<and>
     (\<forall>key l. umap_find (sv_map s) key = Some l \<longrightarrow> sl_reach l)"

lemma sv_inv_start: "sv_inv (server_start rs)"
  by (simp add: sv_inv_def server_start_def TimeoutHandler_def timer_start)

lemma sv_inv_write [simp]: "sv_inv (sv_write fd t n s) = sv_inv s"
  by (simp add: sv_inv_def)

lemma sv_inv_reply [simp]: "sv_inv (sv_reply fd r s) = sv_inv s"
  by (simp add: sv_inv_def)

lemma sv_inv_missing [simp]: "sv_inv (missing_key_reply fd cmd s) = sv_inv s"
  by (simp add: missing_key_reply_def)

lemma sv_inv_put: "sv_inv s \<Longrightarrow> sl_reach l \<Longrightarrow> sv_inv (sv_put key l s)"
  by (auto simp: sv_inv_def split: if_splits)

lemma sv_inv_random [simp]: "sv_inv (s\<lparr>sv_random := rs\<rparr>) = sv_inv s"
  by (simp add: sv_inv_def)

lemma sv_inv_flags [simp]:
  "sv_inv (s\<lparr>sv_stop := b\<rparr>) = sv_inv s" "sv_inv (s\<lparr>sv_timeout := b\<rparr>) = sv_inv s"
  "sv_inv (s\<lparr>sv_update_config := b\<rparr>) = sv_inv s" "sv_inv (s\<lparr>sv_conns := cs\<rparr>) = sv_inv s"
  "sv_inv (s\<lparr>sv_files := f\<rparr>) = sv_inv s" "sv_inv (s\<lparr>sv_timeout_keys := ks\<rparr>) = sv_inv s"
  "sv_inv (s\<lparr>sv_alarms := n\<rparr>) = sv_inv s"
  by (simp_all add: sv_inv_def)

section \<open>Requests\<close>

definition is_number :: "string \<Rightarrow> bool" where
  "is_number w \<longleftrightarrow> (case stoi w of Inl _ \<Rightarrow> False | Inr _ \<Rightarrow> True)"

text \<open>The requests that the dispatcher handles without a fault.\<close>

definition request_ok :: "string \<Rightarrow> string list \<Rightarrow> bool" where
  "request_ok cmd args \<longleftrightarrow>
     (if is_cmd ''EXIT'' ''exit'' cmd \<or> is_cmd ''QUIT'' ''quit'' cmd \<or> is_cmd ''SAVE'' ''save'' cmd then True
      else if is_cmd ''CONFIG'' ''config'' cmd then
        length args = 3 \<and> is_cmd ''SET'' ''set'' (args ! 0) \<and> is_cmd ''maxmemory'' ''MAXMEMORY'' (args ! 1) \<longrightarrow>
          is_number (args ! 2)
      else if is_cmd ''EXPIRE'' ''expire'' cmd then length args = 2 \<longrightarrow> is_number (args ! 1)
      else args \<noteq> [] \<and> (is_cmd ''ZADD'' ''zadd'' cmd \<and> length args = 3 \<longrightarrow> is_number (args ! 1)))"

definition request_fault :: "fault \<Rightarrow> bool" where
  "request_fault e \<longleftrightarrow> e = OutOfBounds \<or> e = InvalidArgument \<or> e = OutOfRange"

lemma stoi_cases: "(\<exists>v. stoi w = Inr v \<and> is_number w) \<or> (\<exists>e. stoi w = Inl e \<and> \<not> is_number w \<and> request_fault e)"
  by (auto simp: is_number_def request_fault_def stoi_def Let_def)

text \<open>
  What a handler does to a server that keeps its invariant: if the request is well formed
  (\<open>ok\<close>), it ends as the \<open>reads\<close> of erased cells end.
\<close>

definition outcome :: "bool \<Rightarrow> string list res \<Rightarrow> server res \<Rightarrow> bool" where
  "outcome ok reads r \<longleftrightarrow>
     (if ok then case reads of Inl e \<Rightarrow> r = Inl e | Inr _ \<Rightarrow> \<exists>s'. r = Inr s' \<and> sv_inv s'
      else \<exists>e. r = Inl e \<and> request_fault e)"

text \<open>The erased cells that a request on a set, and a request in general, makes the cache read.\<close>

definition zadd_reads :: "string list \<Rightarrow> string SkipList \<Rightarrow> (string \<times> int) list" where
  "zadd_reads args l =
     (if length args \<noteq> 3 then []
      else case stoi (args ! 1) of Inl _ \<Rightarrow> [] | Inr v \<Rightarrow> insert_reads (args ! 2) v l)"

definition request_reads :: "string \<Rightarrow> string list \<Rightarrow> server \<Rightarrow> (string \<times> int) list" where
  "request_reads cmd args s =
     (if is_cmd ''ZADD'' ''zadd'' cmd \<and> args \<noteq> []
      then case umap_find (sv_map s) (args ! 0) of None \<Rightarrow> [] | Some l \<Rightarrow> zadd_reads args l
      else [])"

lemma sv_map_lists:
  "sv_inv s \<Longrightarrow> kl \<in> set (sv_map s) \<Longrightarrow> sl_reach (snd kl)"
  by (cases kl) (auto simp: sv_inv_def umap_find_Some_iff)

lemma do_save_ok:
  assumes "sv_inv s"
  shows "outcome True (Inr []) (do_save env fd s)"
proof -
  have "\<exists>f. foldE (save_one env) (sv_map s) (sv_files s) = Inr f \<and> True"
  proof (rule foldE_invariant)
    fix kl f assume "kl \<in> set (sv_map s)"
    then have "sl_struct (snd kl)"
      using sl_reach_inv [OF sv_map_lists [OF assms]] by (simp add: sl_inv_def)
    then show "\<exists>f'. save_one env kl f = Inr f' \<and> True"
      by (simp add: save_one_def Let_def SkipList_Save_spec)
  qed simp
  with assms show ?thesis by (auto simp: do_save_def outcome_def)
qed

lemma do_config_ok:
  assumes "sv_inv s"
  shows "outcome (length args = 3 \<and> is_cmd ''SET'' ''set'' (args ! 0) \<and>
      is_cmd ''maxmemory'' ''MAXMEMORY'' (args ! 1) \<longrightarrow> is_number (args ! 2)) (Inr []) (do_config fd args s)"
proof -
  have "sv_inv (s\<lparr>sv_configs := c\<rparr>)" if "SetMaxMemory m (sv_configs s) = (r, c)" for m r c
    using assms configs_set_ok [OF _ that] by (simp add: sv_inv_def)
  then show ?thesis
    using stoi_cases [of "args ! 2"] assms by (auto simp: do_config_def outcome_def Let_def split: prod.splits)
qed

lemma do_expire_ok:
  assumes "sv_inv s"
  shows "outcome (length args = 2 \<longrightarrow> is_number (args ! 1)) (Inr []) (do_expire env fd args s)"
proof -
  have t: "timer_ok (sv_timer s)" using assms by (simp add: sv_inv_def timer_reach_ok)
  have "\<exists>t'. Timer_Push (env_now env) k d (sv_timer s) = Inr (1, t') \<and> sv_inv (s\<lparr>sv_timer := t'\<rparr>)" for k d
    using tq.push_law [OF t, of "env_now env" k d] timer_push assms by (fastforce simp: sv_inv_def)
  note psh = this
  show ?thesis
  proof (cases "stoi (args ! 1)")
    case (Inl e)
    with stoi_cases [of "args ! 1"] assms show ?thesis by (auto simp: do_expire_def outcome_def)
  next
    case (Inr v)
    with stoi_cases [of "args ! 1"] psh [of "args ! 0" v] assms show ?thesis
      by (auto simp: do_expire_def outcome_def)
  qed
qed

lemma do_zadd_ok:
  assumes "sv_inv s" and "sl_reach l" and "0 < stops (sv_random s)"
  shows "outcome (length args = 3 \<longrightarrow> is_number (args ! 1)) (read_all (env_stale env) (zadd_reads args l))
    (do_zadd env fd key args l s)"
proof (cases "length args = 3")
  case False
  with assms(1) show ?thesis by (simp add: do_zadd_def outcome_def zadd_reads_def)
next
  case len: True
  show ?thesis
  proof (cases "stoi (args ! 1)")
    case (Inl e)
    with stoi_cases [of "args ! 1"] len show ?thesis by (auto simp: do_zadd_def outcome_def)
  next
    case (Inr v)
    then have n: "is_number (args ! 1)" by (simp add: is_number_def)
    have r: "zadd_reads args l = insert_reads (args ! 2) v l" using len Inr by (simp add: zadd_reads_def)
    have keep: "sv_inv (sv_put key l' (s\<lparr>sv_random := rs\<rparr>))" if "sl_reach l'" for l' rs
      using assms(1) sv_inv_put [OF _ that] by simp
    show ?thesis
      using InsertElement_outcome [OF assms(2,3), of "env_stale env" "args ! 2" v] len Inr n r keep
      by (cases "read_all (env_stale env) (insert_reads (args ! 2) v l)")
        (auto simp: do_zadd_def outcome_def)
  qed
qed

lemma do_zscore_ok:
  assumes "sv_inv s" and "sl_reach l"
  shows "outcome True (Inr []) (do_zscore fd key args l s)"
proof -
  obtain r l' where "SearchElement (args ! 1) l = Inr (r, l')"
    using SearchElement_spec [OF sl_reach_inv [OF assms(2)], of "args ! 1"] by blast
  moreover from this have "sl_reach l'" using step_reach [OF assms(2) search_step] by blast
  ultimately show ?thesis using assms(1) sv_inv_put by (auto simp: do_zscore_def outcome_def)
qed

lemma do_zrem_ok:
  assumes "sv_inv s" and "sl_reach l"
  shows "outcome True (Inr []) (do_zrem fd key args l s)"
proof -
  obtain r l' where "DeleteElement (args ! 1) l = Inr (r, l')"
    using DeleteElement_spec [OF sl_reach_inv [OF assms(2)], of "args ! 1"] by blast
  moreover from this have "sl_reach l'" using step_reach [OF assms(2) delete_step] by blast
  ultimately show ?thesis using assms(1) sv_inv_put by (auto simp: do_zrem_def outcome_def)
qed

lemma do_zcard_ok: "sv_inv s \<Longrightarrow> outcome True (Inr []) (do_zcard fd args l s)"
  by (simp add: do_zcard_def outcome_def)

lemma do_zdis_ok:
  assumes "sv_inv s" and "sl_reach l"
  shows "outcome True (Inr []) (do_zdis fd args l s)"
  using display_levels_ok [of l 0 "sl_max_level l"] sl_reach_inv [OF assms(2)] assms(1)
  by (simp add: do_zdis_def outcome_def SkipList_DisplayList_def sl_inv_def)

lemma zset_command_ok:
  assumes "sv_inv s" and "sl_reach l" and "0 < stops (sv_random s)"
  shows "outcome (is_cmd ''ZADD'' ''zadd'' cmd \<and> length args = 3 \<longrightarrow> is_number (args ! 1))
    (read_all (env_stale env) (if is_cmd ''ZADD'' ''zadd'' cmd then zadd_reads args l else []))
    (zset_command env fd cmd key args l s)"
  using do_zadd_ok [OF assms, of args env fd key] do_zscore_ok [OF assms(1,2), of fd key args]
    do_zrem_ok [OF assms(1,2), of fd key args] do_zcard_ok [OF assms(1), of fd args l]
    do_zdis_ok [OF assms(1,2), of fd args] assms(1)
  by (auto simp: zset_command_def outcome_def is_cmd_def)

lemma insert_reads_empty: "recents l = [] \<Longrightarrow> insert_reads k v l = []"
  by (auto simp: insert_reads_def evicted_alt is_full_def)

lemma do_zset_ok:
  assumes "sv_inv s" and "0 < stops (sv_random s)"
  shows "outcome (args \<noteq> [] \<and> (is_cmd ''ZADD'' ''zadd'' cmd \<and> length args = 3 \<longrightarrow> is_number (args ! 1)))
    (read_all (env_stale env) (request_reads cmd args s)) (do_zset env fd cmd args s)"
proof (cases "args = []")
  case True
  then show ?thesis by (simp add: do_zset_def outcome_def request_fault_def)
next
  case False
  show ?thesis
  proof (cases "umap_find (sv_map s) (args ! 0)")
    case (Some l)
    then have "sl_reach l" using assms(1) by (auto simp: sv_inv_def)
    moreover have "request_reads cmd args s = (if is_cmd ''ZADD'' ''zadd'' cmd then zadd_reads args l else [])"
      using False Some by (simp add: request_reads_def)
    ultimately show ?thesis
      using zset_command_ok [OF assms(1) _ assms(2), of l cmd args env fd "args ! 0"] False Some
      by (simp add: do_zset_def Let_def)
  next
    case None
    then have nr: "request_reads cmd args s = []" by (simp add: request_reads_def)
    show ?thesis
    proof (cases "is_cmd ''ZADD'' ''zadd'' cmd")
      case True
      obtain l where l: "SkipList_new (env_stale env) ([] :: string) (env_garbage env) MAX_LEVEL
          (GetMaxMemory (sv_configs s)) = Inr l" "recents l = []"
        using SkipList_new_spec [of MAX_LEVEL "env_stale env" "[] :: string" "env_garbage env"
            "GetMaxMemory (sv_configs s)"]
        by (auto simp: MAX_LEVEL_def)
      then have r: "sl_reach l" using new_reach [OF l(1)] by (simp add: MAX_LEVEL_def)
      let ?s = "s\<lparr>sv_map := umap_insert (args ! 0) l (sv_map s)\<rparr>"
      have "sv_inv ?s" using assms(1) None r by (auto simp: sv_inv_def split: if_splits)
      moreover have "zadd_reads args l = []"
        using insert_reads_empty [OF l(2)] by (simp add: zadd_reads_def split: sum.split)
      ultimately show ?thesis
        using zset_command_ok [of ?s l cmd args env fd "args ! 0"] r assms(2) nr l(1) False None True
        by (simp add: do_zset_def Let_def)
    next
      case False
      with \<open>args \<noteq> []\<close> None assms(1) nr show ?thesis by (simp add: do_zset_def Let_def outcome_def)
    qed
  qed
qed

lemma request_reads_not_zadd: "\<not> is_cmd ''ZADD'' ''zadd'' cmd \<Longrightarrow> request_reads cmd args s = []"
  by (auto simp: request_reads_def)

lemma outcome_bind:
  assumes "outcome ok reads r"
  shows "if ok then case reads of Inl e \<Rightarrow> bindE r (\<lambda>s'. Inr (True, s')) = Inl e
      | Inr _ \<Rightarrow> \<exists>g s'. bindE r (\<lambda>s'. Inr (True, s')) = Inr (g, s') \<and> sv_inv s'
    else \<exists>e. bindE r (\<lambda>s'. Inr (True, s')) = Inl e \<and> request_fault e"
  using assms by (auto simp: outcome_def split: if_splits sum.splits)

lemma outcome_plain:
  assumes "outcome ok (Inr ks) r"
  shows "if ok then \<exists>g s'. bindE r (\<lambda>s'. Inr (True, s')) = Inr (g, s') \<and> sv_inv s'
    else \<exists>e. bindE r (\<lambda>s'. Inr (True, s')) = Inl e \<and> request_fault e"
  using assms by (auto simp: outcome_def split: if_splits)

lemma handle_command_ok:
  assumes "sv_inv s" and "0 < stops (sv_random s)" and "parse_command buf = (cmd, args)"
  shows "if request_ok cmd args
    then case read_all (env_stale env) (request_reads cmd args s) of
           Inl e \<Rightarrow> handle_command env fd buf s = Inl e
         | Inr _ \<Rightarrow> \<exists>go_on s'. handle_command env fd buf s = Inr (go_on, s') \<and> sv_inv s'
    else \<exists>e. handle_command env fd buf s = Inl e \<and> request_fault e"
proof (cases "is_cmd ''ZADD'' ''zadd'' cmd")
  case True
  then have "\<not> is_cmd ''EXIT'' ''exit'' cmd" "\<not> is_cmd ''QUIT'' ''quit'' cmd" "\<not> is_cmd ''SAVE'' ''save'' cmd"
      "\<not> is_cmd ''CONFIG'' ''config'' cmd" "\<not> is_cmd ''EXPIRE'' ''expire'' cmd"
    by (auto simp: is_cmd_def)
  then have h: "handle_command env fd buf s = bindE (do_zset env fd cmd args s) (\<lambda>s'. Inr (True, s'))"
    and ok: "request_ok cmd args \<longleftrightarrow>
      args \<noteq> [] \<and> (is_cmd ''ZADD'' ''zadd'' cmd \<and> length args = 3 \<longrightarrow> is_number (args ! 1))"
    using assms(3) by (simp_all add: handle_command_def request_ok_def)
  show ?thesis
    unfolding h ok by (rule outcome_bind [OF do_zset_ok [OF assms(1,2), of args cmd env fd]])
next
  case z: False
  note nr = request_reads_not_zadd [OF z, of args s]
  show ?thesis
  proof (cases "is_cmd ''EXIT'' ''exit'' cmd \<or> is_cmd ''QUIT'' ''quit'' cmd")
    case True
    then show ?thesis using assms nr by (auto simp: handle_command_def request_ok_def)
  next
    case False
    consider "is_cmd ''SAVE'' ''save'' cmd"
      | "\<not> is_cmd ''SAVE'' ''save'' cmd" "is_cmd ''CONFIG'' ''config'' cmd"
      | "\<not> is_cmd ''SAVE'' ''save'' cmd" "\<not> is_cmd ''CONFIG'' ''config'' cmd" "is_cmd ''EXPIRE'' ''expire'' cmd"
      | "\<not> is_cmd ''SAVE'' ''save'' cmd" "\<not> is_cmd ''CONFIG'' ''config'' cmd" "\<not> is_cmd ''EXPIRE'' ''expire'' cmd"
      by blast
    then show ?thesis
    proof cases
      case 1
      with False outcome_plain [OF do_save_ok [OF assms(1)]] assms(3) nr show ?thesis
        by (simp add: handle_command_def request_ok_def)
    next
      case 2
      with False outcome_plain [OF do_config_ok [OF assms(1), of args fd]] assms(3) nr show ?thesis
        by (simp add: handle_command_def request_ok_def)
    next
      case 3
      with False outcome_plain [OF do_expire_ok [OF assms(1), of args env fd]] assms(3) nr show ?thesis
        by (simp add: handle_command_def request_ok_def)
    next
      case 4
      have "outcome (args \<noteq> [] \<and> (is_cmd ''ZADD'' ''zadd'' cmd \<and> length args = 3 \<longrightarrow> is_number (args ! 1)))
          (Inr []) (do_zset env fd cmd args s)"
        using do_zset_ok [OF assms(1,2), of args cmd env fd] nr by simp
      with 4 False outcome_plain [OF this] assms(3) nr show ?thesis
        by (simp add: handle_command_def request_ok_def)
    qed
  qed
qed

section \<open>The end of a round\<close>

text \<open>The keys whose time has come.\<close>

definition expired_keys :: "int \<Rightarrow> server \<Rightarrow> string list" where
  "expired_keys now s = map fst (takeWhile (due now) (deadlines (sv_timer s)))"

lemma erase_key_ok:
  assumes "sv_inv s" and "\<And>l. umap_find (sv_map s) key = Some l \<Longrightarrow> back_ok l"
  shows "\<exists>s'. erase_key key s = Inr s' \<and> sv_inv s' \<and>
    umap_find (sv_map s') = (umap_find (sv_map s))(key := None) \<and> s' = s\<lparr>sv_map := sv_map s'\<rparr>"
proof (cases "umap_find (sv_map s) key")
  case None
  then have "umap_find (sv_map s) = (umap_find (sv_map s))(key := None)" by (simp add: fun_upd_idem)
  with None assms(1) show ?thesis by (simp add: erase_key_def)
next
  case (Some l)
  have "sl_struct l" using sl_reach_inv [of l] assms(1) Some by (auto simp: sv_inv_def sl_inv_def)
  from SkipList_destroy_ok [OF this assms(2) [OF Some]] Some assms(1) show ?thesis
    by (auto simp: erase_key_def sv_inv_def fun_eq_iff split: if_splits)
qed

lemma erase_keys_ok:
  assumes "sv_inv s" and "\<And>key l. key \<in> set keys \<Longrightarrow> umap_find (sv_map s) key = Some l \<Longrightarrow> back_ok l"
  shows "\<exists>s'. foldE erase_key keys s = Inr s' \<and> sv_inv s' \<and>
    umap_find (sv_map s') = (umap_find (sv_map s)) |` (- set keys) \<and> s' = s\<lparr>sv_map := sv_map s'\<rparr>"
  using assms
proof (induction keys arbitrary: s)
  case Nil
  then show ?case by (simp add: restrict_map_def)
next
  case (Cons key keys)
  obtain s1 where s1: "erase_key key s = Inr s1" "sv_inv s1"
      "umap_find (sv_map s1) = (umap_find (sv_map s))(key := None)" "s1 = s\<lparr>sv_map := sv_map s1\<rparr>"
    using erase_key_ok [OF Cons.prems(1)] Cons.prems(2) by (metis list.set_intros(1))
  obtain s2 where s2: "foldE erase_key keys s1 = Inr s2" "sv_inv s2"
      "umap_find (sv_map s2) = (umap_find (sv_map s1)) |` (- set keys)" "s2 = s1\<lparr>sv_map := sv_map s2\<rparr>"
    using Cons.IH [OF s1(2)] Cons.prems(2) s1(3) by (metis fun_upd_apply list.set_intros(2) option.distinct(1))
  obtain m1 m2 where "s1 = s\<lparr>sv_map := m1\<rparr>" "s2 = s1\<lparr>sv_map := m2\<rparr>" using s1(4) s2(4) by blast
  then have "s2 = s\<lparr>sv_map := sv_map s2\<rparr>" by simp
  moreover have "umap_find (sv_map s2) = (umap_find (sv_map s)) |` (- set (key # keys))"
    using s1(3) s2(3) by (auto simp: restrict_map_def fun_eq_iff)
  ultimately show ?case using s1(1) s2(1,2) by simp
qed

lemma handle_timeout_spec:
  assumes inv: "sv_inv s" and t: "sv_timeout s"
    and b: "\<And>key l. key \<in> set (expired_keys (env_now env) s) \<Longrightarrow> umap_find (sv_map s) key = Some l \<Longrightarrow> back_ok l"
  shows "\<exists>s'. handle_timeout env s = Inr s' \<and> sv_inv s' \<and> \<not> sv_timeout s' \<and> sv_alarms s' = Suc (sv_alarms s) \<and>
    umap_find (sv_map s') = (umap_find (sv_map s)) |` (- set (expired_keys (env_now env) s)) \<and>
    deadlines (sv_timer s') = dropWhile (due (env_now env)) (deadlines (sv_timer s))"
proof -
  have tr: "timer_reach (sv_timer s)" using inv by (simp add: sv_inv_def)
  let ?ks = "expired_keys (env_now env) s"
  obtain t' where t': "Timer_Tick (env_now env) (sv_timer s) = Inr (?ks, t')"
      "deadlines t' = dropWhile (due (env_now env)) (deadlines (sv_timer s))"
    using tq.tick_law [OF timer_reach_ok [OF tr], of "env_now env"] by (auto simp: expired_keys_def)
  let ?s = "s\<lparr>sv_timer := t', sv_timeout_keys := ?ks\<rparr>"
  have "sv_inv ?s" using inv timer_tick [OF tr t'(1)] by (simp add: sv_inv_def)
  from erase_keys_ok [OF this, of ?ks] b obtain s1 where s1: "foldE erase_key ?ks ?s = Inr s1" "sv_inv s1"
      "umap_find (sv_map s1) = (umap_find (sv_map s)) |` (- set ?ks)" "s1 = ?s\<lparr>sv_map := sv_map s1\<rparr>"
    by auto
  have "sv_alarms s1 = sv_alarms s" "sv_timer s1 = t'" using arg_cong [OF s1(4), of sv_alarms]
      arg_cong [OF s1(4), of sv_timer] by simp_all
  then show ?thesis
    using s1 t t' by (auto simp: handle_timeout_def TimeoutHandler_def)
qed


lemma UpdateMaxMemory_spec:
  fixes env :: environment and c :: Configs
  defines "n \<equiv> GetMaxMemory c"
  assumes "0 \<le> n" and "\<And>kl. kl \<in> set m \<Longrightarrow> sl_reach (snd kl)"
  shows "case read_all (env_stale env) (concat (map (\<lambda>kl. rev (trimmed n (recents (snd kl)))) m)) of
      Inl e \<Rightarrow> UpdateMaxMemory env c m = Inl e
    | Inr _ \<Rightarrow> \<exists>m'. UpdateMaxMemory env c m = Inr m' \<and> map fst m' = map fst m \<and>
        list_all2 (\<lambda>x y. sl_reach (snd y) \<and> content (snd y) = content (snd x) \<and>
          recents (snd y) = trim n (recents (snd x)) \<and> limit (snd y) = n) m m'"
  using assms(3)
proof (induction m)
  case Nil
  then show ?case by simp
next
  case (Cons kl m)
  obtain k l where kl: "kl = (k, l)" by force
  have r: "sl_reach l" using Cons.prems [of kl] kl by simp
  note inv = sl_reach_inv [OF r]
  show ?case
  proof (cases "read_all (env_stale env) (rev (trimmed n (recents l)))")
    case (Inl e)
    from SkipList_SetMaxMemory_fault [OF inv assms(2) Inl] Inl kl show ?thesis
      by (simp add: read_all_append n_def)
  next
    case (Inr ks)
    obtain l' where l': "SkipList_SetMaxMemory (env_stale env) n l = Inr (0, l')" "content l' = content l"
        "recents l' = trim n (recents l)" "limit l' = n"
      using SkipList_SetMaxMemory_spec [OF inv assms(2) Inr] by blast
    have "sl_reach l'" by (rule step_reach [OF r memory_step [OF l'(1)]])
    moreover have "UpdateMaxMemory env c (kl # m) = bindE (UpdateMaxMemory env c m) (\<lambda>m'. Inr ((k, l') # m'))"
      using l'(1) kl by (simp add: n_def)
    ultimately show ?thesis
      using Cons.IH Cons.prems l' kl Inr
      by (cases "read_all (env_stale env) (concat (map (\<lambda>kl. rev (trimmed n (recents (snd kl)))) m))")
        (auto simp: read_all_append)
  qed
qed

section \<open>Sample lists\<close>

text \<open>One member in an unbounded list; and a list that is full with one member.\<close>

definition one_member :: "int \<Rightarrow> string SkipList res" where
  "one_member cap =
     bindE (SkipList_new dangling [] 0 (Suc 0) cap) (\<lambda>l.
     bindE (InsertElement dangling [65535] ''a'' 1 l) (\<lambda>(_, _, l). Inr l))"

lemma one_member_ok:
  assumes "cap = 0 \<or> cap = 1"
  shows "\<exists>l. one_member cap = Inr l \<and> sl_reach l \<and> back_ok l \<and> content l = [(''a'', 1)] \<and>
    recents l = [(''a'', 1)] \<and> limit l = cap"
proof -
  obtain l0 where l0: "SkipList_new dangling ([] :: string) 0 (Suc 0) cap = Inr l0" "sl_reach l0"
    using SkipList_new_spec [of "Suc 0" dangling "[] :: string" 0 cap] new_reach by fastforce
  have "\<exists>l. InsertElement dangling [65535] ''a'' 1 l0 = Inr (1, [], l) \<and> back_ok l \<and>
      content l = [(''a'', 1)] \<and> recents l = [(''a'', 1)] \<and> limit l = cap"
    using l0(1) assms
    by (auto simp: back_ok_def content_def item_def nodes_def fwd_def entries_def exec
        cong: bindE_weak_cong)
  then obtain l where l: "InsertElement dangling [65535] ''a'' 1 l0 = Inr (1, [], l)" "back_ok l"
      "content l = [(''a'', 1)]" "recents l = [(''a'', 1)]" "limit l = cap" by blast
  have "sl_reach l" by (rule step_reach [OF l0(2) insert_step [OF l(1)]])
  with l l0(1) show ?thesis by (simp add: one_member_def)
qed

section \<open>Properties\<close>

text \<open>
  C2: Clients see a map of maps. For any interleaving of well-formed \<^verbatim>\<open>ZADD\<close>, \<^verbatim>\<open>ZREM\<close>,
  \<^verbatim>\<open>ZSCORE\<close> and \<^verbatim>\<open>ZCARD\<close> requests of any number of clients, handled by a fresh server without
  a memory limit, every client receives exactly the replies of the abstract server, in order,
  and the server ends in the abstract state; no request faults (nothing is evicted, so no erased
  cell is read).
\<close>

theorem server_runs_like_maps:
  assumes "\<forall>p \<in> set evs. command_ok (snd p) \<and> length (command_text (snd p)) \<le> 1023"
    and "length evs \<le> stops rs" and "length evs < 2 ^ 31"
  shows "\<exists>s'. handle_events env (map command_event evs) (server_start rs) = Inr s' \<and>
    sets_of s' = snd (abs_run (map snd evs) Map.empty) \<and>
    (\<forall>fd. bytes_to fd (sv_out s') = replies_to fd evs (fst (abs_run (map snd evs) Map.empty)))"
proof -
  let ?s = "server_start rs"
  have s: "plain_server ?s" "sets_of ?s = Map.empty" "sv_random ?s = rs" "sv_out ?s = []"
    by (simp_all add: plain_server_def sets_of_def server_start_def TimeoutHandler_def Configs_new_def)
  have "sets_bounded 0 (sets_of ?s)" using s(2) by (simp add: sets_bounded_def)
  from handle_command_run [OF s(1) _ _ this, of evs env] assms s show ?thesis
    by (auto simp: bytes_to_def)
qed

theorem server_runs_like_maps_witness:
  "\<exists>s'. handle_events sample_env
     (map command_event [(7, ZADD ''k'' 4 ''a''), (8, ZSCORE ''k'' ''a''), (7, ZCARD ''j'')])
     (server_start [65535, 65535, 65535]) = Inr s' \<and> bytes_to 8 (sv_out s') = ''4\<newline>'' \<and>
     bytes_to 7 (sv_out s') = ''1\<newline>0\<newline>''"
proof -
  let ?evs = "[(7 :: nat, ZADD ''k'' 4 ''a''), (8, ZSCORE ''k'' ''a''), (7, ZCARD ''j'')]"
  have t: "is_token ''k''" "is_token ''a''" "is_token ''j''"
    by (simp_all add: is_token_def is_space_def code_def)
  have s: "to_string 4 = ''4''" "to_string 1 = ''1''" "to_string 0 = ''0''"
    by (simp_all add: to_string_def nat_string.simps digit_char_def)
  have "\<forall>p \<in> set ?evs. command_ok (snd p) \<and> length (command_text (snd p)) \<le> 1023"
    using t s by (simp add: command_text_def is_int_def int_min_def int_max_def)
  from server_runs_like_maps [OF this, of "[65535, 65535, 65535]" sample_env] show ?thesis
    by (auto simp: sample_env_def stops_def replies_to_def reply_text_def abs_exec_def members_of_def s
        Let_def split_def)
qed

text \<open>
  C8: Under the server's invariant a request faults exactly in two cases. It is malformed: a set
  command without arguments (also an empty line), or a number that \<^verbatim>\<open>ZADD\<close>, \<^verbatim>\<open>EXPIRE\<close> or
  \<^verbatim>\<open>CONFIG SET maxmemory\<close> needs is no \<^verbatim>\<open>int\<close>; these faults are an access out of bounds or an
  exception that nothing catches. Or it is a \<^verbatim>\<open>ZADD\<close> that evicts an entry of a full cache, and
  the read of the erased cell faults. Every other request is served and keeps the invariant.
\<close>

theorem request_faults_exactly:
  assumes "sv_inv s" and "0 < stops (sv_random s)" and "parse_command buf = (cmd, args)"
  shows "if request_ok cmd args
    then case read_all (env_stale env) (request_reads cmd args s) of
           Inl e \<Rightarrow> handle_command env fd buf s = Inl e
         | Inr _ \<Rightarrow> \<exists>go_on s'. handle_command env fd buf s = Inr (go_on, s') \<and> sv_inv s'
    else \<exists>e. handle_command env fd buf s = Inl e \<and> request_fault e"
  by (rule handle_command_ok [OF assms])

text \<open>An empty line; and on a set whose cache is full, a new member and a lookup.\<close>

theorem request_faults_exactly_witness:
  "\<exists>l e go_on s'. one_member 1 = Inr l \<and>
     handle_command sample_env 7 ''\<newline>'' ((server_start [65535])\<lparr>sv_map := [(''k'', l)]\<rparr>) = Inl e \<and>
     request_fault e \<and>
     handle_command sample_env 7 ''ZADD k 2 b'' ((server_start [65535])\<lparr>sv_map := [(''k'', l)]\<rparr>) =
       Inl UseAfterFree \<and>
     handle_command sample_env 7 ''ZSCORE k a'' ((server_start [65535])\<lparr>sv_map := [(''k'', l)]\<rparr>) =
       Inr (go_on, s')"
proof -
  obtain l where l: "one_member 1 = Inr l" "sl_reach l" "content l = [(''a'', 1)]"
      "recents l = [(''a'', 1)]" "limit l = 1"
    using one_member_ok [of 1] by auto
  let ?s = "(server_start [65535])\<lparr>sv_map := [(''k'', l)]\<rparr>"
  have inv: "sv_inv ?s" and st: "0 < stops (sv_random ?s)"
    using sv_inv_start [of "[65535]"] l(2)
    by (auto simp: sv_inv_def umap_ok_def umap_find_def server_start_def TimeoutHandler_def stops_def
        split: if_splits)
  have "parse_command ''\<newline>'' = ([], [])" and "parse_command ''ZADD k 2 b'' = (''ZADD'', [''k'', ''2'', ''b''])"
      and "parse_command ''ZSCORE k a'' = (''ZSCORE'', [''k'', ''a''])"
    by (simp_all add: parse_command_def c_string_def words.simps is_space_def code_def)
  note r = this [THEN request_faults_exactly [OF inv st, of _ _ _ sample_env 7]]
  have n: "stoi ''2'' = Inr 2"
    by (simp add: stoi_def is_space_def is_digit_def digits_value_def digit_val_def Let_def code_def
        is_int_def int_min_def int_max_def)
  have "request_reads ''ZADD'' [''k'', ''2'', ''b''] ?s = [(''a'', 1)]"
    using l n by (simp add: request_reads_def is_cmd_def umap_find_def zadd_reads_def insert_reads_def
        evicted_alt is_full_def)
  then have "handle_command sample_env 7 ''ZADD k 2 b'' ?s = Inl UseAfterFree"
    using r(2) n by (simp add: request_ok_def is_cmd_def is_number_def sample_env_def)
  moreover have "\<exists>e. handle_command sample_env 7 ''\<newline>'' ?s = Inl e \<and> request_fault e"
    using r(1) by (simp add: request_ok_def is_cmd_def)
  moreover have "\<exists>go_on s'. handle_command sample_env 7 ''ZSCORE k a'' ?s = Inr (go_on, s')"
    using r(3) by (auto simp: request_ok_def is_cmd_def request_reads_def)
  ultimately show ?thesis using l(1) by blast
qed



text \<open>
  C22: After \<^verbatim>\<open>CONFIG SET maxmemory\<close> the update at the end of the round trims the cache of every
  list to the new limit, reading each erased cell. If such a read faults, so does the update;
  otherwise every existing list has the new limit, its cache keeps the most recent entries, its
  members stay until the next insertion, and it stays sound.
\<close>

theorem update_reaches_every_list:
  assumes "sv_inv s" and "sv_update_config s"
  shows "case read_all (env_stale env)
        (concat (map (\<lambda>kl. rev (trimmed (max_memory (sv_configs s)) (recents (snd kl)))) (sv_map s))) of
      Inl e \<Rightarrow> handle_update env s = Inl e
    | Inr _ \<Rightarrow> \<exists>s'. handle_update env s = Inr s' \<and> \<not> sv_update_config s' \<and>
        map fst (sv_map s') = map fst (sv_map s) \<and>
        list_all2 (\<lambda>x y. sl_reach (snd y) \<and> content (snd y) = content (snd x) \<and>
          recents (snd y) = trim (max_memory (sv_configs s)) (recents (snd x)) \<and>
          limit (snd y) = max_memory (sv_configs s)) (sv_map s) (sv_map s')"
proof -
  let ?r = "read_all (env_stale env)
    (concat (map (\<lambda>kl. rev (trimmed (max_memory (sv_configs s)) (recents (snd kl)))) (sv_map s)))"
  have "0 \<le> GetMaxMemory (sv_configs s)"
    using assms(1) by (simp add: sv_inv_def configs_ok_def GetMaxMemory_def)
  from UpdateMaxMemory_spec [OF this, of "sv_map s" env] sv_map_lists [OF assms(1)] assms(2)
  show ?thesis by (cases ?r) (auto simp: handle_update_def GetMaxMemory_def)
qed

text \<open>The sample list of two members under a limit of one, with a read that faults and one that does not.\<close>

theorem update_reaches_every_list_witness:
  "\<exists>l s' l'. sample_saved = Inr l \<and> length (recents l) = 2 \<and>
     handle_update sample_env ((server_start [])\<lparr>sv_map := [(''k'', l)],
       sv_configs := \<lparr>max_memory = 1\<rparr>, sv_update_config := True\<rparr>) = Inl UseAfterFree \<and>
     handle_update (sample_env\<lparr>env_stale := \<lambda>p. Inr (fst p)\<rparr>) ((server_start [])\<lparr>sv_map := [(''k'', l)],
       sv_configs := \<lparr>max_memory = 1\<rparr>, sv_update_config := True\<rparr>) = Inr s' \<and>
     sv_map s' = [(''k'', l')] \<and> limit l' = 1 \<and> length (recents l') = 1 \<and>
     content l' = [(''ann'', -3), (''bob'', 12)]"
proof -
  obtain l p q where l: "sample_saved = Inr l" "sl_reach l" "content l = [(''ann'', -3), (''bob'', 12)]"
      "recents l = [p, q]"
    using sample_saved_ok by blast
  let ?s = "(server_start [])\<lparr>sv_map := [(''k'', l)], sv_configs := \<lparr>max_memory = 1\<rparr>,
    sv_update_config := True\<rparr>"
  have inv: "sv_inv ?s" and u: "sv_update_config ?s"
    using sv_inv_start [of "[]"] l(2)
    by (auto simp: sv_inv_def umap_ok_def umap_find_def configs_ok_def split: if_splits)
  have t: "trimmed 1 (recents l) = [q]" "trim 1 (recents l) = [p]"
    using l(4) by (simp_all add: trimmed_def trim_def)
  have "handle_update sample_env ?s = Inl UseAfterFree"
    using update_reaches_every_list [OF inv u, of sample_env] t by (simp add: sample_env_def)
  moreover have "\<exists>s' l'. handle_update (sample_env\<lparr>env_stale := \<lambda>p. Inr (fst p)\<rparr>) ?s = Inr s' \<and>
      sv_map s' = [(''k'', l')] \<and> limit l' = 1 \<and> recents l' = [p] \<and> content l' = content l"
    using update_reaches_every_list [OF inv u, of "sample_env\<lparr>env_stale := \<lambda>p. Inr (fst p)\<rparr>"] t
    by (fastforce simp: list_all2_Cons1)
  ultimately show ?thesis using l by fastforce
qed

text \<open>
  Removing the first member of a set whose backward pointers are intact is served, but when
  the key then expires first, the timeout destroys the list and the server deletes its header
  twice.
\<close>

theorem zrem_first_then_expiry_faults:
  assumes "sv_inv s" and "sv_timeout s" and "umap_find (sv_map s) key = Some l" and "back_ok l"
    and "content l = (m, v) # ps" and "command_ok (ZREM key m)" and "expired_keys (env_now env') s = key # ks"
  shows "\<exists>s1. handle_command env fd (command_text (ZREM key m)) s = Inr (True, s1) \<and>
    handle_timeout env' s1 = Inl DoubleFree"
proof -
  have r: "sl_reach l" using assms(1,3) by (auto simp: sv_inv_def)
  have "m \<in> members l" using assms(5) by (simp add: members_def)
  from DeleteElement_then_destroy [OF r assms(4) this] assms(5) obtain l' where
    l': "DeleteElement m l = Inr (1, l')" "SkipList_destroy l' = Inl DoubleFree" by auto
  let ?s = "sv_reply fd 1 (sv_put key l' s)"
  have "handle_command env fd (command_text (ZREM key m)) s = Inr (True, ?s)"
    using handle_zset_words [OF assms(6)] assms(3) l'(1)
    by (simp add: do_zset_def zset_command_def is_cmd_def do_zrem_def)
  moreover have "\<exists>t'. Timer_Tick (env_now env') (sv_timer s) = Inr (key # ks, t')"
    using tq.tick_law [OF timer_reach_ok, of "sv_timer s" "env_now env'"] assms(1,7)
    by (auto simp: sv_inv_def expired_keys_def)
  then have "handle_timeout env' ?s = Inl DoubleFree"
    using assms(2,3) l'(2) by (auto simp: handle_timeout_def erase_key_def)
  ultimately show ?thesis by blast
qed

theorem zrem_first_then_expiry_faults_witness:
  "\<exists>l t s1. one_member 0 = Inr l \<and> Timer_Push 90 ''k'' 5 Timer_new = Inr (1, t) \<and>
     handle_command sample_env 7 (command_text (ZREM ''k'' ''a''))
       ((server_start [])\<lparr>sv_map := [(''k'', l)], sv_timer := t, sv_timeout := True\<rparr>) = Inr (True, s1) \<and>
     handle_timeout sample_env s1 = Inl DoubleFree"
proof -
  obtain l where l: "one_member 0 = Inr l" "sl_reach l" "back_ok l" "content l = [(''a'', 1)]"
    using one_member_ok [of 0] by auto
  obtain t where t: "Timer_Push 90 ''k'' 5 Timer_new = Inr (1, t)" "deadlines t = [(''k'', 95)]"
    using Timer_Push_spec [of Timer_new 90 "''k''" 5] by (auto simp: timer_new_ok)
  let ?s = "(server_start [])\<lparr>sv_map := [(''k'', l)], sv_timer := t, sv_timeout := True\<rparr>"
  have f: "umap_find (sv_map ?s) ''k'' = Some l" by (simp add: umap_find_def)
  have "timer_reach t" by (rule timer_push [OF timer_start t(1)])
  then have inv: "sv_inv ?s"
    using sv_inv_start [of "[]"] l(2) by (auto simp: sv_inv_def umap_ok_def umap_find_def split: if_splits)
  have c: "command_ok (ZREM ''k'' ''a'')" by (simp add: is_token_def is_space_def code_def)
  have "expired_keys (env_now sample_env) ?s = [''k'']"
    using t(2) by (simp add: expired_keys_def sample_env_def due_def)
  from zrem_first_then_expiry_faults [OF inv _ f l(3,4) c this, of sample_env 7] l(1) t(1)
  show ?thesis by auto
qed

text \<open>
  The usage line of \<^verbatim>\<open>CONFIG\<close> is cut short: 36 of its 37 bytes are sent, so its line break
  is missing.
\<close>

theorem config_usage_truncated:
  "\<exists>s'. do_config fd [] s = Inr s' \<and> sends fd ''Usage: CONFIG SET maxmemory [number]'' s s'"
proof -
  have "take 36 ''Usage: CONFIG SET maxmemory [number]\<newline>'' = ''Usage: CONFIG SET maxmemory [number]''"
    by simp
  with sends_write [of s s fd 36 "''Usage: CONFIG SET maxmemory [number]\<newline>''"] show ?thesis
    by (simp add: do_config_def)
qed

end
