(* ===== verification/Session.thy ===== *)
theory Session
  imports Client Server_Safety
begin

text \<open>
  The client of \<^verbatim>\<open>client.cpp\<close> connected to the server of \<^verbatim>\<open>server.cpp\<close>. An interface states what
  the client needs from whatever answers its requests; the connection to the modelled server
  provides it for the sorted-set commands, as long as a read gets all that was written.
\<close>

section \<open>What the client needs\<close>

text \<open>The replies to a list of requests, for a service whose state is \<open>'a\<close>.\<close>

fun answers :: "('c \<Rightarrow> 'a \<Rightarrow> string \<times> 'a) \<Rightarrow> 'c list \<Rightarrow> 'a \<Rightarrow> string list \<times> 'a" where
  "answers answer [] z = ([], z)"
| "answers answer (c # cs) z =
     (let (r, z1) = answer c z; (rs, z2) = answers answer cs z1 in (r # rs, z2))"

definition input_lines :: "string list \<Rightarrow> string" where
  "input_lines ls = concat (map (\<lambda>l. l @ ''\<newline>'') ls)"

text \<open>
  \<open>ready n w\<close>: the connection can take \<open>n\<close> more requests. A request that is written is answered,
  and the answer arrives in the next read.
\<close>

locale request_service =
  fixes wr :: "'w write_call"
    and rd :: "'w read_call"
    and ready :: "nat \<Rightarrow> 'w \<Rightarrow> bool"
    and view :: "'w \<Rightarrow> 'a"
    and line :: "'c \<Rightarrow> string"
    and ok :: "'c \<Rightarrow> bool"
    and answer :: "'c \<Rightarrow> 'a \<Rightarrow> string \<times> 'a"
  assumes line_law: "ok c \<Longrightarrow> request_line (line c)"
    and exchange_law: "ready (Suc n) w \<Longrightarrow> ok c \<Longrightarrow>
      \<exists>k w1 w2. wr (line c) w = (Some k, w1) \<and>
        rd 1024 w1 = Inr (ReadData (fst (answer c (view w))), w2) \<and>
        ready n w2 \<and> view w2 = snd (answer c (view w))"
begin

lemma round_answered:
  assumes "ready (Suc n) w" and "ok c" and "is_text (cl_in cl) = line c @ CHR ''\<newline>'' # rest"
    and "is_good (cl_in cl)"
  shows "\<exists>w'. client_round wr rd (cl, w) = Inr (True, \<lparr>cl_in = \<lparr>is_text = rest, is_good = True\<rparr>,
      cl_console = cl_console cl @ prompt @ fst (answer c (view w))\<rparr>, w') \<and>
    ready n w' \<and> view w' = snd (answer c (view w))"
proof -
  obtain k w1 w2 where "wr (line c) w = (Some k, w1)"
      "rd 1024 w1 = Inr (ReadData (fst (answer c (view w))), w2)" "ready n w2"
      "view w2 = snd (answer c (view w))"
    using exchange_law [OF assms(1,2)] by auto
  then show ?thesis
    using client_input_request [OF line_law [OF assms(2)] assms(3,4)]
    by (simp add: client_round_def client_receive_def)
qed

lemma session_answered:
  assumes "ready (length cs) w" and "\<And>c. c \<in> set cs \<Longrightarrow> ok c"
    and "cl_in cl = \<lparr>is_text = input_lines (map line cs @ [''exit'']), is_good = True\<rparr>"
  shows "\<exists>cl' w'. client_loop wr rd (Suc (length cs)) (cl, w) = Inr (False, cl', w') \<and>
    cl_console cl' = cl_console cl @ concat (map (\<lambda>r. prompt @ r) (fst (answers answer cs (view w)))) @ prompt \<and>
    ready 0 w' \<and> view w' = snd (answers answer cs (view w))"
  using assms
proof (induction cs arbitrary: w cl)
  case Nil
  then have "cl_in cl = \<lparr>is_text = ''exit'' @ CHR ''\<newline>'' # [], is_good = True\<rparr>" by (simp add: input_lines_def)
  then obtain i where "client_input cl = (Quit, cl\<lparr>cl_in := i, cl_console := cl_console cl @ prompt\<rparr>)"
    using client_input_exit by blast
  with Nil show ?case by (simp add: client_round_def)
next
  case (Cons c cs)
  let ?rest = "input_lines (map line cs @ [''exit''])"
  have i: "is_text (cl_in cl) = line c @ CHR ''\<newline>'' # ?rest" "is_good (cl_in cl)"
    using Cons.prems(3) by (simp_all add: input_lines_def)
  let ?cl = "\<lparr>cl_in = \<lparr>is_text = ?rest, is_good = True\<rparr>, cl_console = cl_console cl @ prompt @ fst (answer c (view w))\<rparr>"
  obtain w1 where w1: "client_round wr rd (cl, w) = Inr (True, ?cl, w1)" "ready (length cs) w1"
      "view w1 = snd (answer c (view w))"
    using round_answered [OF _ Cons.prems(2) i] Cons.prems(1) by auto
  from Cons.IH [OF w1(2), of ?cl] Cons.prems(2) obtain cl' w' where
    l: "client_loop wr rd (Suc (length cs)) (?cl, w1) = Inr (False, cl', w')"
    and r: "cl_console cl' = cl_console ?cl @
        concat (map (\<lambda>r. prompt @ r) (fst (answers answer cs (view w1)))) @ prompt"
      "ready 0 w'" "view w' = snd (answers answer cs (view w1))"
    by auto
  have "client_loop wr rd (Suc (length (c # cs))) (cl, w) = Inr (False, cl', w')"
    using w1(1) l by (subst client_loop.simps) (simp del: client_loop.simps)
  with r w1(3) show ?case by (simp add: split_def Let_def del: client_loop.simps)
qed

end

section \<open>The connection to the server\<close>

text \<open>
  \<open>ss_server\<close> is \<open>None\<close> once the process has ended, \<open>ss_inbox\<close> holds the bytes that the server
  wrote and the client has not read, \<open>ss_chunks\<close> how many bytes the next reads get at most; when
  it is used up a read gets all there is.
\<close>

record session =
  ss_env :: environment
  ss_fd :: nat
  ss_server :: "server option"
  ss_inbox :: string
  ss_chunks :: "nat list"

text \<open>A request reaches the server whole, which runs one round; a server that has ended takes nothing.\<close>

definition session_write :: "session write_call" where
  "session_write text ss =
     (case ss_server ss of
        None \<Rightarrow> (None, ss)
      | Some s \<Rightarrow>
          (Some (length text),
           case serve_round (ss_env ss) (Some [Input (ss_fd ss) (RecvData text)]) s of
             Inl e \<Rightarrow> ss\<lparr>ss_server := None\<rparr>
           | Inr (go_on, s') \<Rightarrow>
               ss\<lparr>ss_server := if go_on then Some s' else None,
                  ss_inbox := ss_inbox ss @ bytes_to (ss_fd ss) (drop (length (sv_out s)) (sv_out s'))\<rparr>))"

definition session_read :: "session read_call" where
  "session_read n ss =
     (if ss_inbox ss = []
      then (if ss_server ss = None then Inr (ReadEnd, ss) else Inl Blocked)
      else
        let k = (case ss_chunks ss of [] \<Rightarrow> n | c # _ \<Rightarrow> min n (max 1 c))
        in Inr (ReadData (take k (ss_inbox ss)),
                ss\<lparr>ss_inbox := drop k (ss_inbox ss), ss_chunks := tl (ss_chunks ss)\<rparr>))"

definition session_start :: "environment \<Rightarrow> nat \<Rightarrow> nat list \<Rightarrow> nat list \<Rightarrow> session" where
  "session_start env fd rs chunks =
     \<lparr>ss_env = env, ss_fd = fd, ss_server = Some (server_start rs), ss_inbox = [], ss_chunks = chunks\<rparr>"

definition client_with :: "string list \<Rightarrow> client" where
  "client_with ls = \<lparr>cl_in = \<lparr>is_text = input_lines ls, is_good = True\<rparr>, cl_console = []\<rparr>"

text \<open>Without a memory limit an update reads no erased cell.\<close>

lemma handle_update_total:
  assumes "sv_inv s" and "max_memory (sv_configs s) = 0"
  shows "\<exists>s'. handle_update env s = Inr s' \<and> sv_out s' = sv_out s \<and> sv_stop s' = sv_stop s"
proof -
  have "concat (map (\<lambda>kl. rev (trimmed 0 (recents (snd kl)))) (sv_map s)) = []"
    by (auto simp: trimmed_def)
  then have "read_all (env_stale env)
      (concat (map (\<lambda>kl. rev (trimmed 0 (recents (snd kl)))) (sv_map s))) = Inr []"
    by (simp only: read_all.simps)
  with UpdateMaxMemory_spec [of "sv_configs s" "sv_map s" env] sv_map_lists [OF assms(1)] assms(2)
  show ?thesis by (auto simp: handle_update_def GetMaxMemory_def)
qed

section \<open>Requests without a line break\<close>

text \<open>The client strips the line break; the server splits the request into the same words.\<close>

definition command_line :: "zcommand \<Rightarrow> string" where
  "command_line c = unwords (command_words c)"

lemma token_line_chars:
  assumes "\<And>w. w \<in> set ws \<Longrightarrow> is_token w" and "x \<in> set (unwords ws)"
  shows "x \<noteq> CHR ''\<newline>'' \<and> code x \<noteq> 0"
proof -
  have n: "\<not> (x = CHR ''\<newline>'' \<and> \<not> is_space x)" by (auto simp: is_space_def code_def)
  from unwords_chars [OF assms(2)] consider "x = CHR '' ''" | w where "w \<in> set ws" "x \<in> set w" by blast
  then show ?thesis
  proof cases
    case 2
    then show ?thesis using assms(1) [OF 2(1)] n by (auto simp: is_token_def)
  qed (simp add: code_def)
qed

lemma parse_token_line:
  assumes "\<And>w. w \<in> set (cmd # args) \<Longrightarrow> is_token w"
  shows "parse_command (unwords (cmd # args)) = (cmd, args)"
proof -
  have "c_string (unwords (cmd # args)) = unwords (cmd # args)"
    by (rule c_string_id) (use token_line_chars [of "cmd # args"] assms in blast)
  moreover have "words (unwords (cmd # args)) = cmd # args"
    using words_unwords [of "cmd # args" "[]"] assms by (simp add: is_token_def)
  ultimately show ?thesis by (simp add: parse_command_def)
qed

lemma command_line_request:
  assumes "command_ok c" and "length (command_line c) \<le> 1023"
  shows "request_line (command_line c)"
proof -
  have "command_line c \<noteq> []" "command_line c \<noteq> ''quit''" "command_line c \<noteq> ''exit''"
    by (cases c; simp add: command_line_def)+
  moreover have "x \<noteq> CHR ''\<newline>'' \<and> code x \<noteq> 0" if "x \<in> set (command_line c)" for x
    using token_line_chars [of "command_words c" x] command_tokens [OF assms(1)] that by (simp add: command_line_def)
  ultimately show ?thesis using assms(2) by (auto simp: request_line_def)
qed

lemma handle_command_line:
  assumes "command_ok c"
  shows "handle_command env fd (command_line c) s = handle_command env fd (command_text c) s"
proof -
  have "command_words c = hd (command_words c) # tl (command_words c)" by (cases c) auto
  then have "parse_command (command_line c) = parse_command (command_text c)"
    using parse_token_line [of "hd (command_words c)" "tl (command_words c)"] command_tokens [OF assms]
    by (metis parse_command_text [OF assms] command_line_def)
  then show ?thesis by (simp add: handle_command_def)
qed

section \<open>Replies fit one read\<close>

lemma length_nat_string: "n < 10 ^ Suc k \<Longrightarrow> length (nat_string n) \<le> Suc k"
proof (induction k arbitrary: n)
  case 0
  then show ?case by (simp add: nat_string.simps)
next
  case (Suc k)
  then have "n div 10 < 10 ^ Suc k" by (simp add: less_mult_imp_div_less mult.commute)
  from Suc.IH [OF this] show ?case by (subst nat_string.simps) simp
qed

lemma length_reply_text:
  assumes "is_int r"
  shows "length (reply_text r) \<le> 1024"
proof -
  have "nat \<bar>r\<bar> < 10 ^ Suc 9" using assms by (auto simp: is_int_def int_min_def int_max_def nat_less_iff abs_if)
  from length_nat_string [OF this] show ?thesis
    by (cases "r < 0") (simp_all add: reply_text_def to_string_def)
qed

definition scores_int :: "zsets \<Rightarrow> bool" where
  "scores_int z \<longleftrightarrow> (\<forall>key m k v. z key = Some m \<longrightarrow> m k = Some v \<longrightarrow> is_int v)"

lemma scores_int_members: "scores_int z \<Longrightarrow> members_of z key k = Some v \<Longrightarrow> is_int v"
  by (auto simp: scores_int_def members_of_def split: option.splits)

lemma scores_int_exec:
  assumes "scores_int z" and "command_ok c"
  shows "scores_int (snd (abs_exec c z))"
proof -
  have "is_int v" if "snd (map_step (zop_of c) (members_of z (key_of c))) k = Some v" for k v
    using that assms(2) scores_int_members [OF assms(1)] by (cases c) (auto split: if_splits)
  with assms(1) show ?thesis by (auto simp: abs_exec_def split_def Let_def scores_int_def)
qed

lemma abs_reply_int:
  assumes "scores_int z" and "sets_bounded n z" and "n < 2 ^ 31"
  shows "is_int (fst (abs_exec c z))"
proof -
  have "is_int 0" "is_int 1" "is_int (-1)" by (simp_all add: is_int_def int_min_def int_max_def)
  moreover have "is_int (int (card (dom (members_of z (key_of c)))))"
    using sets_bounded_members [OF assms(2), of "key_of c"] assms(3) by (simp add: is_int_def int_min_def int_max_def)
  ultimately show ?thesis
    using scores_int_members [OF assms(1)] by (cases c) (auto simp: abs_exec_def split_def Let_def split: option.split)
qed
section \<open>The server provides it\<close>

lemma do_zset_flags:
  assumes "do_zset env fd cmd args s = Inr s'"
  shows "sv_timeout s' = sv_timeout s \<and> sv_update_config s' = sv_update_config s \<and> sv_stop s' = sv_stop s"
proof -
  have "sv_timeout t' = sv_timeout t \<and> sv_update_config t' = sv_update_config t \<and> sv_stop t' = sv_stop t"
    if "zset_command env fd cmd key args l t = Inr t'" for key l t t'
    using that unfolding zset_command_def
    by (auto simp: do_zadd_def do_zscore_def do_zrem_def do_zcard_def do_zdis_def bindE_Inr_iff split: if_splits)
  with assms show ?thesis
    by (fastforce simp: do_zset_def Let_def missing_key_reply_def bindE_Inr_iff split: if_splits option.splits)
qed

lemma quiet_round:
  assumes "\<not> sv_timeout s" "\<not> sv_update_config s" "\<not> sv_stop s"
    and "command_ok c" and "length (command_line c) \<le> 1023"
    and "handle_command env fd (command_text c) s = Inr (True, s')"
  shows "serve_round env (Some [Input fd (RecvData (command_line c))]) s = Inr (True, s') \<and>
    \<not> sv_timeout s' \<and> \<not> sv_update_config s' \<and> \<not> sv_stop s'"
proof -
  have "do_zset env fd (hd (command_words c)) (tl (command_words c)) s = Inr s'"
    using assms(6) handle_zset_words [OF assms(4)] by (simp add: bindE_Inr_iff)
  from do_zset_flags [OF this] assms show ?thesis
    by (simp add: serve_round_def handle_event_def handle_command_line handle_timeout_def handle_update_def)
qed

text \<open>The server's end between two requests, and the whole connection with nothing left to read.\<close>

definition server_ready :: "nat \<Rightarrow> session \<Rightarrow> bool" where
  "server_ready n ss \<longleftrightarrow>
     (\<exists>s b. ss_server ss = Some s \<and> plain_server s \<and> \<not> sv_timeout s \<and> \<not> sv_update_config s \<and> \<not> sv_stop s \<and>
        n \<le> stops (sv_random s) \<and> scores_int (sets_of s) \<and> sets_bounded b (sets_of s) \<and> b + n < 2 ^ 31)"

definition session_ready :: "nat \<Rightarrow> session \<Rightarrow> bool" where
  "session_ready n ss \<longleftrightarrow> server_ready n ss \<and> ss_inbox ss = [] \<and> ss_chunks ss = []"

definition session_sets :: "session \<Rightarrow> zsets" where
  "session_sets ss = (case ss_server ss of None \<Rightarrow> Map.empty | Some s \<Rightarrow> sets_of s)"

definition reply_of :: "zcommand \<Rightarrow> zsets \<Rightarrow> string \<times> zsets" where
  "reply_of c z = (let (r, z') = abs_exec c z in (reply_text r, z'))"

lemma server_ready_inbox [simp]:
  "server_ready n (ss\<lparr>ss_inbox := t\<rparr>) = server_ready n ss" "server_ready n (ss\<lparr>ss_chunks := ks\<rparr>) = server_ready n ss"
  "session_sets (ss\<lparr>ss_inbox := t\<rparr>) = session_sets ss" "session_sets (ss\<lparr>ss_chunks := ks\<rparr>) = session_sets ss"
  by (simp_all add: server_ready_def session_sets_def)

text \<open>A command adds its reply to what the client can read, whatever is there already.\<close>

lemma session_write_reply:
  assumes "server_ready (Suc n) ss" and "command_ok c" and "length (command_line c) \<le> 1023"
  shows "\<exists>s'. session_write (command_line c) ss = (Some (length (command_line c)),
      ss\<lparr>ss_server := Some s', ss_inbox := ss_inbox ss @ fst (reply_of c (session_sets ss))\<rparr>) \<and>
    server_ready n (ss\<lparr>ss_server := Some s'\<rparr>) \<and> sets_of s' = snd (reply_of c (session_sets ss)) \<and>
    length (fst (reply_of c (session_sets ss))) \<le> 1024"
proof -
  obtain s b where ss: "ss_server ss = Some s"
    and s: "plain_server s" "\<not> sv_timeout s" "\<not> sv_update_config s" "\<not> sv_stop s" "n < stops (sv_random s)"
      "scores_int (sets_of s)" "sets_bounded b (sets_of s)" "b + Suc n < 2 ^ 31"
    using assms(1) by (auto simp: server_ready_def)
  have sz: "card (dom (members_of (sets_of s) (key_of c))) < 2 ^ 31"
    using sets_bounded_members [OF s(7), of "key_of c"] s(8) by simp
  let ?r = "fst (abs_exec c (sets_of s))"
  obtain s' where s': "handle_command (ss_env ss) (ss_fd ss) (command_text c) s = Inr (True, s')"
      "plain_server s'" "sets_of s' = snd (abs_exec c (sets_of s))" "n \<le> stops (sv_random s')"
      "sends (ss_fd ss) (reply_text ?r) s s'"
    using handle_zcommand [OF s(1) assms(2) s(5) sz] by blast
  have q: "serve_round (ss_env ss) (Some [Input (ss_fd ss) (RecvData (command_line c))]) s = Inr (True, s')"
      "\<not> sv_timeout s'" "\<not> sv_update_config s'" "\<not> sv_stop s'"
    using quiet_round [OF s(2-4) assms(2,3) s'(1)] by auto
  have out: "bytes_to (ss_fd ss) (drop (length (sv_out s)) (sv_out s')) = reply_text ?r"
    using s'(5) by (auto simp: sends_def bytes_to_def filter_id_conv)
  have "server_ready n (ss\<lparr>ss_server := Some s'\<rparr>)"
    using ss q s'(2,4) scores_int_exec [OF s(6) assms(2)] sets_bounded_exec [OF s(7), of c] s'(3) s(8)
    by (auto simp: server_ready_def intro!: exI [of _ "Suc b"])
  moreover have "fst (reply_of c (session_sets ss)) = reply_text ?r"
      "sets_of s' = snd (reply_of c (session_sets ss))"
    using ss s'(3) by (simp_all add: reply_of_def session_sets_def split_def Let_def)
  moreover have "length (reply_text ?r) \<le> 1024"
    using length_reply_text [OF abs_reply_int [OF s(6,7)]] s(8) by simp
  ultimately show ?thesis using ss q(1) out
    by (intro exI [of _ s']) (simp add: session_write_def)
qed

lemma reply_of_not_empty [simp]: "fst (reply_of c z) \<noteq> []"
  by (simp add: reply_of_def reply_text_def split_def Let_def)

lemma session_exchange:
  assumes "session_ready (Suc n) ss" and "command_ok c" and "length (command_line c) \<le> 1023"
  shows "\<exists>k ss1 ss2. session_write (command_line c) ss = (Some k, ss1) \<and>
    session_read 1024 ss1 = Inr (ReadData (fst (reply_of c (session_sets ss))), ss2) \<and>
    session_ready n ss2 \<and> session_sets ss2 = snd (reply_of c (session_sets ss))"
proof -
  have ss: "server_ready (Suc n) ss" "ss_inbox ss = []" "ss_chunks ss = []"
    using assms(1) by (simp_all add: session_ready_def)
  let ?r = "fst (reply_of c (session_sets ss))"
  obtain s' where w: "session_write (command_line c) ss =
      (Some (length (command_line c)), ss\<lparr>ss_server := Some s', ss_inbox := ?r\<rparr>)"
    and s': "server_ready n (ss\<lparr>ss_server := Some s'\<rparr>)" "sets_of s' = snd (reply_of c (session_sets ss))"
      "length ?r \<le> 1024"
    using session_write_reply [OF ss(1) assms(2,3)] ss(2) by auto
  have "session_read 1024 (ss\<lparr>ss_server := Some s', ss_inbox := ?r\<rparr>) = Inr (ReadData ?r, ss\<lparr>ss_server := Some s'\<rparr>)"
    using ss(2,3) s'(3) by (simp add: session_read_def)
  moreover have "session_ready n (ss\<lparr>ss_server := Some s'\<rparr>)" using ss s'(1) by (simp add: session_ready_def)
  ultimately show ?thesis using w s'(2) by (auto simp: session_sets_def)
qed

definition typable :: "zcommand \<Rightarrow> bool" where
  "typable c \<longleftrightarrow> command_ok c \<and> length (command_line c) \<le> 1023"

interpretation cs: request_service session_write session_read session_ready session_sets command_line typable reply_of
  by unfold_locales (simp_all only: typable_def command_line_request session_exchange)

lemma answers_abs_run: "answers reply_of cs z = (map reply_text (fst (abs_run cs z)), snd (abs_run cs z))"
  by (induction cs arbitrary: z) (simp_all add: reply_of_def split_def Let_def)

lemma server_ready_start:
  assumes "n \<le> stops rs" and "n < 2 ^ 31"
  shows "server_ready n (session_start env fd rs ks) \<and> session_sets (session_start env fd rs ks) = Map.empty"
proof -
  have s: "plain_server (server_start rs)" "sets_of (server_start rs) = Map.empty"
    by (simp_all add: plain_server_def sets_of_def server_start_def TimeoutHandler_def Configs_new_def)
  have f: "\<not> sv_timeout (server_start rs)" "\<not> sv_update_config (server_start rs)" "\<not> sv_stop (server_start rs)"
      "sv_random (server_start rs) = rs"
    by (simp_all add: server_start_def TimeoutHandler_def)
  have "scores_int Map.empty" "sets_bounded 0 Map.empty" by (simp_all add: scores_int_def sets_bounded_def)
  with s f assms show ?thesis
    by (auto simp: server_ready_def session_start_def session_sets_def)
qed

text \<open>Two commands for closed examples.\<close>

definition sample_add :: zcommand where "sample_add = ZADD ''k'' 4 ''a''"
definition sample_score :: zcommand where "sample_score = ZSCORE ''k'' ''a''"

lemma to_string_sample [simp]: "to_string 4 = ''4''" "to_string 1 = ''1''"
  by (simp_all add: to_string_def nat_string.simps digit_char_def)

lemma sample_lines [simp]: "command_line sample_add = ''ZADD k 4 a''" "command_line sample_score = ''ZSCORE k a''"
  by (simp_all add: command_line_def sample_add_def sample_score_def)

lemma sample_ok [simp]: "command_ok sample_add" "command_ok sample_score"
  by (simp_all add: sample_add_def sample_score_def is_token_def is_space_def code_def is_int_def int_min_def int_max_def)

lemma sample_replies: "fst (abs_run [sample_add, sample_score] Map.empty) = [1, 4]"
    "fst (reply_of sample_add Map.empty) = ''1\<newline>''"
  by (simp_all add: sample_add_def sample_score_def abs_exec_def members_of_def Let_def reply_of_def reply_text_def)

section \<open>Properties\<close>

text \<open>
  C3: A user at the client sees the sorted sets. When the lines typed are well-formed
  \<^verbatim>\<open>ZADD\<close>, \<^verbatim>\<open>ZREM\<close>, \<^verbatim>\<open>ZSCORE\<close> and \<^verbatim>\<open>ZCARD\<close> commands followed by \<^verbatim>\<open>exit\<close>, and every read gets the
  whole reply, the client ends after one round per line, the console shows a prompt and the answer
  of the map from keys to maps from members to scores for each command, in order, and the server
  is left running with the sets of the abstract run.
\<close>

theorem session_shows_answers:
  assumes "\<forall>c \<in> set cs. command_ok c \<and> length (command_line c) \<le> 1023"
    and "length cs \<le> stops rs" and "length cs < 2 ^ 31"
  shows "\<exists>cl' ss' s'. client_loop session_write session_read (Suc (length cs))
      (client_with (map command_line cs @ [''exit'']), session_start env fd rs []) = Inr (False, cl', ss') \<and>
    cl_console cl' = concat (map (\<lambda>r. prompt @ reply_text r) (fst (abs_run cs Map.empty))) @ prompt \<and>
    ss_server ss' = Some s' \<and> sets_of s' = snd (abs_run cs Map.empty)"
proof -
  let ?ss = "session_start env fd rs []" and ?cl = "client_with (map command_line cs @ [''exit''])"
  have st: "session_ready (length cs) ?ss" "session_sets ?ss = Map.empty"
    using server_ready_start [OF assms(2,3), of env fd "[]"] by (simp_all add: session_ready_def session_start_def)
  have ok: "\<And>c. c \<in> set cs \<Longrightarrow> typable c" using assms(1) by (simp add: typable_def)
  have i: "cl_in ?cl = \<lparr>is_text = input_lines (map command_line cs @ [''exit'']), is_good = True\<rparr>"
    by (simp add: client_with_def)
  obtain cl' ss' where "client_loop session_write session_read (Suc (length cs)) (?cl, ?ss) = Inr (False, cl', ss')"
      "cl_console cl' = concat (map (\<lambda>r. prompt @ reply_text r) (fst (abs_run cs Map.empty))) @ prompt"
      "session_ready 0 ss'" "session_sets ss' = snd (abs_run cs Map.empty)"
    using cs.session_answered [OF st(1) ok i] st(2) by (auto simp: answers_abs_run client_with_def comp_def)
  then show ?thesis by (auto simp: session_ready_def server_ready_def session_sets_def)
qed

theorem session_shows_answers_witness:
  "\<exists>cl' ss'. client_loop session_write session_read (Suc 2)
      (client_with [''ZADD k 4 a'', ''ZSCORE k a'', ''exit''], session_start sample_env 7 [65535, 65535] []) =
      Inr (False, cl', ss') \<and>
    cl_console cl' = ''[Redis]$ 1\<newline>[Redis]$ 4\<newline>[Redis]$ ''"
proof -
  let ?cs = "[sample_add, sample_score]"
  have "length ?cs \<le> stops [65535, 65535]" "length ?cs < 2 ^ 31"
      "\<forall>c \<in> set ?cs. command_ok c \<and> length (command_line c) \<le> 1023"
    by (simp_all add: stops_def)
  then obtain cl' ss' where
    "client_loop session_write session_read (Suc (length ?cs))
       (client_with (map command_line ?cs @ [''exit'']), session_start sample_env 7 [65535, 65535] []) =
       Inr (False, cl', ss')"
    "cl_console cl' = concat (map (\<lambda>r. prompt @ reply_text r) [1, 4]) @ prompt"
    using session_shows_answers [of ?cs "[65535, 65535]" sample_env 7] sample_replies(1) by metis
  moreover have "Suc (length ?cs) = Suc 2" by simp
  ultimately show ?thesis
    by (simp only: list.map append.simps sample_lines) (simp add: reply_text_def prompt_def)
qed

text \<open>
  C37: The client takes one read for one reply, but the server writes a number and its line break in
  two calls. Whenever the first read gets \<open>k\<close> bytes and the second read gets no more than \<open>j\<close>
  bytes, with \<open>k + j\<close> at most the length of the first reply, the first command is followed on the
  console by the first \<open>k\<close> bytes of its reply and the second command by the next \<open>j\<close> bytes of that
  same reply, not by its own.
\<close>

theorem short_read_shows_old_reply:
  assumes "server_ready 2 ss" and "ss_inbox ss = []" and "ss_chunks ss = [k, j]" and "0 < k" and "0 < j"
    and "command_ok c" and "length (command_line c) \<le> 1023"
    and "command_ok d" and "length (command_line d) \<le> 1023"
    and "k + j \<le> length (fst (reply_of c (session_sets ss)))"
  shows "\<exists>cl' ss'. client_loop session_write session_read 2
      (client_with [command_line c, command_line d], ss) = Inr (True, cl', ss') \<and>
    cl_console cl' = prompt @ take k (fst (reply_of c (session_sets ss))) @
      prompt @ take j (drop k (fst (reply_of c (session_sets ss))))"
proof -
  let ?r = "fst (reply_of c (session_sets ss))"
  have two: "server_ready (Suc (Suc 0)) ss" using assms(1) by (simp add: numeral_2_eq_2)
  obtain s1 where w1: "session_write (command_line c) ss =
      (Some (length (command_line c)), ss\<lparr>ss_server := Some s1, ss_inbox := ?r\<rparr>)"
    and s1: "server_ready (Suc 0) (ss\<lparr>ss_server := Some s1\<rparr>)" "length ?r \<le> 1024"
    using session_write_reply [OF two assms(6,7)] assms(2) by auto
  let ?ss = "ss\<lparr>ss_server := Some s1, ss_inbox := drop k ?r, ss_chunks := [j]\<rparr>"
  have r1: "session_read 1024 (ss\<lparr>ss_server := Some s1, ss_inbox := ?r\<rparr>) = Inr (ReadData (take k ?r), ?ss)"
    using assms(3,4,10) s1(2) by (simp add: session_read_def Let_def max_def)
  have "server_ready (Suc 0) ?ss" using s1(1) by (simp add: server_ready_def)
  from session_write_reply [OF this assms(8,9)] obtain s2 t where
    w2: "session_write (command_line d) ?ss =
      (Some (length (command_line d)), ?ss\<lparr>ss_server := Some s2, ss_inbox := drop k ?r @ t\<rparr>)"
    by auto
  have r2: "\<exists>ss2. session_read 1024 (?ss\<lparr>ss_server := Some s2, ss_inbox := drop k ?r @ t\<rparr>) =
      Inr (ReadData (take j (drop k ?r)), ss2)"
    using assms(5,10) s1(2) by (simp add: session_read_def Let_def max_def)
  let ?cl = "client_with [command_line c, command_line d]"
  have i1: "client_input ?cl = (Send (command_line c), ?cl\<lparr>cl_in :=
      \<lparr>is_text = command_line d @ CHR ''\<newline>'' # [], is_good = True\<rparr>, cl_console := prompt\<rparr>)"
    using client_input_request [OF command_line_request [OF assms(6,7)], of ?cl "command_line d @ ''\<newline>''"]
    by (simp add: client_with_def input_lines_def)
  have i2: "client_input \<lparr>cl_in = \<lparr>is_text = command_line d @ CHR ''\<newline>'' # [], is_good = True\<rparr>, cl_console = t\<rparr> =
      (Send (command_line d), \<lparr>cl_in = \<lparr>is_text = [], is_good = True\<rparr>, cl_console = t @ prompt\<rparr>)" for t
    using client_input_request [OF command_line_request [OF assms(8,9)], of
        "\<lparr>cl_in = \<lparr>is_text = command_line d @ CHR ''\<newline>'' # [], is_good = True\<rparr>, cl_console = t\<rparr>" "[]"]
    by simp
  show ?thesis
    using i1 w1 r1 w2 r2
    by (auto simp: numeral_2_eq_2 client_round_def client_receive_def client_with_def i2)
qed

theorem short_read_shows_old_reply_witness:
  "\<exists>cl' ss'. client_loop session_write session_read 2
      (client_with [''ZADD k 4 a'', ''ZSCORE k a''], session_start sample_env 7 [65535, 65535] [1, 1]) =
      Inr (True, cl', ss') \<and>
    cl_console cl' = ''[Redis]$ 1[Redis]$ \<newline>''"
proof -
  let ?ss = "session_start sample_env 7 [65535, 65535] [1, 1]"
  have "server_ready 2 ?ss" "session_sets ?ss = Map.empty"
    using server_ready_start [of 2 "[65535, 65535]" sample_env 7 "[1, 1]"] by (simp_all add: stops_def)
  then show ?thesis
    using short_read_shows_old_reply [of ?ss 1 1 sample_add sample_score]
    by (simp add: sample_replies session_start_def prompt_def)
qed

text \<open>
  Some requests have no answer. A \<^verbatim>\<open>CONFIG SET\<close> of anything but \<^verbatim>\<open>maxmemory\<close>, and every
  three-word \<^verbatim>\<open>CONFIG\<close> that is no \<^verbatim>\<open>SET\<close>, is served without a word, so that the client that typed
  it waits in \<^verbatim>\<open>read\<close> for ever.
\<close>

theorem silent_config_blocks_client:
  assumes "is_token a" and "is_token b" and "is_token v" and "length (unwords [''CONFIG'', a, b, v]) \<le> 1023"
    and "\<not> (is_cmd ''SET'' ''set'' a \<and> is_cmd ''maxmemory'' ''MAXMEMORY'' b)"
    and "ss_server ss = Some s" and "sv_inv s" and "\<not> sv_timeout s" and "\<not> sv_stop s"
    and "max_memory (sv_configs s) = 0" and "ss_inbox ss = []"
  shows "client_loop session_write session_read (Suc m) (client_with [unwords [''CONFIG'', a, b, v]], ss) = Inl Blocked"
proof -
  let ?ws = "[''CONFIG'', a, b, v]" let ?l = "unwords ?ws"
  have tok: "is_token w" if "w \<in> set ?ws" for w
    using that assms(1-3) by (auto simp: is_token_def is_space_def code_def)
  have req: "request_line ?l"
    using assms(4) token_line_chars [of ?ws, OF tok] by (auto simp: request_line_def simp del: set_simps)
  obtain s1 where s1: "handle_command (ss_env ss) (ss_fd ss) ?l s = Inr (True, s1)"
      "s1 = s \<or> s1 = s\<lparr>sv_update_config := True\<rparr>"
    using parse_token_line [of "''CONFIG''" "[a, b, v]", OF tok] assms(5)
    by (cases "is_cmd ''SET'' ''set'' a")
       (auto simp: handle_command_def do_config_def is_cmd_def numeral_2_eq_2)
  then have i: "sv_inv s1" "\<not> sv_timeout s1" "\<not> sv_stop s1" "sv_out s1 = sv_out s"
      "max_memory (sv_configs s1) = 0" using assms(7-10) by auto
  obtain s2 where s2: "handle_update (ss_env ss) s1 = Inr s2" "sv_out s2 = sv_out s1" "sv_stop s2 = sv_stop s1"
    using handle_update_total [OF i(1,5)] by blast
  have "serve_round (ss_env ss) (Some [Input (ss_fd ss) (RecvData ?l)]) s = Inr (True, s2)"
    using s1(1) s2 i assms(4) by (simp add: serve_round_def handle_event_def handle_timeout_def del: unwords.simps)
  then have "session_write ?l ss = (Some (length ?l), ss\<lparr>ss_server := Some s2, ss_inbox := []\<rparr>)"
    using assms(6,11) s2(2) i(4) by (simp add: session_write_def bytes_to_def del: unwords.simps)
  moreover have "client_input (client_with [?l]) = (Send ?l, (client_with [?l])\<lparr>cl_in :=
      \<lparr>is_text = [], is_good = True\<rparr>, cl_console := prompt\<rparr>)"
    using client_input_request [OF req, of "client_with [?l]" "[]"]
    by (simp add: client_with_def input_lines_def del: unwords.simps)
  ultimately show ?thesis by (simp add: client_round_def session_read_def del: unwords.simps)
qed

theorem silent_config_blocks_client_witness:
  "client_loop session_write session_read (Suc 5)
     (client_with [''CONFIG SET timeout 9''], session_start sample_env 7 [] []) = Inl Blocked"
  using silent_config_blocks_client [of "''SET''" "''timeout''" "''9''" "session_start sample_env 7 [] []"
      "server_start []" 5] sv_inv_start [of "[]"]
  by (simp add: is_token_def is_space_def code_def is_cmd_def session_start_def server_start_def TimeoutHandler_def
      Configs_new_def)

end
