(* ===== verification/Server_Setup.thy ===== *)
theory Server_Setup
  imports Server
begin

text \<open>
  How the server of \<^verbatim>\<open>server.cpp\<close> comes up: the global object of \<^verbatim>\<open>signal.h\<close>, the start of
  \<^verbatim>\<open>main\<close> with its system calls, the way of a signal from its handler through the pipe into the
  loop, and the accepting of connections. The descriptors, the set that \<^verbatim>\<open>epoll\<close> watches and the
  installed handlers are the state; which system calls succeed is an argument.
\<close>

section \<open>The operating system's side\<close>

text \<open>
  \<open>os_fds\<close> are the open descriptors, \<open>os_next\<close> the lowest number never given out, \<open>os_nonblock\<close>
  the descriptors with \<^verbatim>\<open>O_NONBLOCK\<close>, \<open>os_epoll\<close> those watched for \<^verbatim>\<open>EPOLLIN | EPOLLET\<close>,
  \<open>os_handlers\<close> the signals that call \<^verbatim>\<open>SignalHandler\<close>, \<open>os_alarm\<close> the seconds of the alarm,
  \<open>os_pipe\<close> the bytes sent to a descriptor's peer that are not received yet.
\<close>

record os =
  os_fds :: "nat list"
  os_next :: nat
  os_nonblock :: "nat list"
  os_epoll :: "nat list"
  os_handlers :: "nat list"
  os_alarm :: "int option"
  os_pipe :: "nat \<Rightarrow> nat list"

definition new_fd :: "os \<Rightarrow> nat \<times> os" where
  "new_fd s = (os_next s, s\<lparr>os_fds := os_fds s @ [os_next s], os_next := Suc (os_next s)\<rparr>)"

definition close_fd :: "nat \<Rightarrow> os \<Rightarrow> os" where
  "close_fd fd s = s\<lparr>os_fds := filter (\<lambda>f. f \<noteq> fd) (os_fds s), os_epoll := filter (\<lambda>f. f \<noteq> fd) (os_epoll s)\<rparr>"

text \<open>Which calls succeed; \<open>sc_errno\<close> is what \<^verbatim>\<open>errno\<close> is when \<^verbatim>\<open>bind\<close> fails.\<close>

record syscalls =
  sc_signal_pair :: bool
  sc_socket :: bool
  sc_bind :: bool
  sc_errno :: int
  sc_listen :: bool
  sc_epoll :: bool
  sc_pair :: bool
  sc_sigaction :: "nat \<Rightarrow> bool"

definition assertE :: "bool \<Rightarrow> 'a \<Rightarrow> 'a res" where
  "assertE b x = (if b then Inr x else Inl AssertFailed)"

section \<open>The signal object\<close>

record Signal =
  pipe_fd :: "nat \<times> nat"
  signal_timeout :: int

definition setnonblocking :: "nat \<Rightarrow> os \<Rightarrow> os" where
  "setnonblocking fd s = s\<lparr>os_nonblock := List.insert fd (os_nonblock s)\<rparr>"

definition socketpair :: "os \<Rightarrow> (nat \<times> nat) \<times> os" where
  "socketpair s = (let (a, s1) = new_fd s; (b, s2) = new_fd s1 in ((a, b), s2))"

text \<open>The constructor asks for two non-blocking ends; the destructor closes the ends it knows.\<close>

definition Signal_new :: "bool \<Rightarrow> int \<Rightarrow> os \<Rightarrow> (Signal \<times> os) res" where
  "Signal_new ok timeout s =
     (let (p, s1) = socketpair s
      in assertE ok (\<lparr>pipe_fd = p, signal_timeout = timeout\<rparr>, setnonblocking (snd p) (setnonblocking (fst p) s1)))"

definition Signal_destroy :: "Signal \<Rightarrow> os \<Rightarrow> os" where
  "Signal_destroy sg s = close_fd (snd (pipe_fd sg)) (close_fd (fst (pipe_fd sg)) s)"

text \<open>The handler sends the lowest byte of the signal's number; \<^verbatim>\<open>recv\<close> takes at most 1024 of them.\<close>

definition SignalHandler :: "Signal \<Rightarrow> nat \<Rightarrow> os \<Rightarrow> os" where
  "SignalHandler sg sig s =
     s\<lparr>os_pipe := (os_pipe s)(snd (pipe_fd sg) := os_pipe s (snd (pipe_fd sg)) @ [sig mod 256])\<rparr>"

definition receive_signals :: "Signal \<Rightarrow> os \<Rightarrow> nat list option \<times> os" where
  "receive_signals sg s =
     (let q = os_pipe s (snd (pipe_fd sg))
      in (if q = [] then None else Some (take 1024 q),
          s\<lparr>os_pipe := (os_pipe s)(snd (pipe_fd sg) := drop 1024 q)\<rparr>))"

definition AddSignal :: "(nat \<Rightarrow> bool) \<Rightarrow> nat \<Rightarrow> os \<Rightarrow> os res" where
  "AddSignal ok sig s = assertE (ok sig) (s\<lparr>os_handlers := List.insert sig (os_handlers s)\<rparr>)"

definition AddFd :: "nat \<Rightarrow> os \<Rightarrow> os" where
  "AddFd fd s = setnonblocking fd (s\<lparr>os_epoll := List.insert fd (os_epoll s)\<rparr>)"

section \<open>The start of main\<close>

record listening =
  ls_port :: "16 word"
  ls_listen :: nat
  ls_epoll :: nat
  ls_signal :: Signal
  ls_server :: server

text \<open>
  The global \<^verbatim>\<open>signaler\<close> is built before \<^verbatim>\<open>main\<close>. \<open>Inl\<close> is the exit code with the printed text,
  \<open>Inr\<close> the state in which the loop starts. \<^verbatim>\<open>htons\<close> keeps the lower 16 bits of the port.
\<close>

definition server_setup ::
  "syscalls \<Rightarrow> nat list \<Rightarrow> string list \<Rightarrow> os \<Rightarrow> (((int \<times> string) + listening) \<times> os) res" where
  "server_setup sc rs argv s0 =
     bindE (Signal_new (sc_signal_pair sc) 5 s0) (\<lambda>(sg0, s1).
     if length argv \<noteq> 2
     then (if argv = [] then Inl NullDeref
           else Inr (Inl (1, ''Usage: '' @ rev (takeWhile (\<lambda>c. c \<noteq> CHR ''/'') (rev (hd argv))) @ '' [port]\<newline>''), s1))
     else
       bindE (assertE (sc_socket sc) (new_fd s1)) (\<lambda>(lfd, s2).
       if \<not> sc_bind sc then Inr (Inl (1, ''errno is: '' @ to_string (sc_errno sc) @ ''\<newline>''), s2)
       else
         bindE (assertE (sc_listen sc) s2) (\<lambda>s3.
         bindE (assertE (sc_epoll sc) (new_fd s3)) (\<lambda>(efd, s4).
         let s5 = AddFd lfd s4 in
         bindE (assertE (sc_pair sc) (socketpair s5)) (\<lambda>(p, s6).
         let sg = sg0\<lparr>pipe_fd := p\<rparr>; s7 = AddFd (fst p) (setnonblocking (snd p) s6) in
         bindE (foldE (AddSignal (sc_sigaction sc)) [SIGALRM, SIGCHLD, SIGTERM, SIGHUP, SIGINT] s7) (\<lambda>s8.
         Inr (Inr \<lparr>ls_port = word_of_int (atoi (argv ! 1)), ls_listen = lfd, ls_epoll = efd, ls_signal = sg,
                   ls_server = server_start rs\<rparr>,
              s8\<lparr>os_alarm := Some (signal_timeout sg)\<rparr>)))))))"

text \<open>A process that has only its three standard descriptors, and calls that all succeed.\<close>

definition os_fresh :: os where
  "os_fresh = \<lparr>os_fds = [0, 1, 2], os_next = 3, os_nonblock = [], os_epoll = [], os_handlers = [],
     os_alarm = None, os_pipe = (\<lambda>_. [])\<rparr>"

definition calls_ok :: "syscalls \<Rightarrow> bool" where
  "calls_ok sc \<longleftrightarrow> sc_signal_pair sc \<and> sc_socket sc \<and> sc_bind sc \<and> sc_listen sc \<and> sc_epoll sc \<and> sc_pair sc \<and>
     (\<forall>sig \<in> {SIGALRM, SIGCHLD, SIGTERM, SIGHUP, SIGINT}. sc_sigaction sc sig)"

section \<open>Accepting connections\<close>

text \<open>
  The listening socket as the loop uses it: clients that wait in its queue, and whether the
  edge-triggered \<^verbatim>\<open>epoll\<close> has an event to report, which is so after an arrival until it is reported.
\<close>

record listener =
  waiting :: nat
  edge :: bool
  accepted :: nat

definition arrive :: "listener \<Rightarrow> listener" where
  "arrive l = l\<lparr>waiting := Suc (waiting l), edge := True\<rparr>"

text \<open>One round of the loop as far as the listening socket goes: one \<^verbatim>\<open>accept\<close> for one event.\<close>

definition accept_round :: "listener \<Rightarrow> listener" where
  "accept_round l =
     (if edge l
      then (if waiting l = 0 then l\<lparr>edge := False\<rparr>
            else l\<lparr>waiting := waiting l - 1, edge := False, accepted := Suc (accepted l)\<rparr>)
      else l)"

section \<open>Lemmas\<close>

lemma assertE_simps [simp]: "assertE True x = Inr x" "assertE False x = Inl AssertFailed"
  by (simp_all add: assertE_def)

lemma handle_signals:
  "foldl (\<lambda>t sig. handle_signal sig t) s sigs =
     s\<lparr>sv_timeout := sv_timeout s \<or> SIGALRM \<in> set sigs,
       sv_stop := sv_stop s \<or> SIGTERM \<in> set sigs \<or> SIGINT \<in> set sigs\<rparr>"
proof (induction sigs arbitrary: s)
  case (Cons sig sigs)
  show ?case
    by (simp add: Cons.IH) (auto simp: handle_signal_def SIGALRM_def SIGCHLD_def SIGTERM_def SIGHUP_def SIGINT_def)
qed simp

lemma SignalHandlers_queue:
  "os_pipe (foldl (\<lambda>t sig. SignalHandler sg sig t) s sigs) (snd (pipe_fd sg)) =
     os_pipe s (snd (pipe_fd sg)) @ map (\<lambda>sig. sig mod 256) sigs"
  by (induction sigs arbitrary: s) (simp_all add: SignalHandler_def)

lemma accept_rounds_idle: "\<not> edge l \<Longrightarrow> (accept_round ^^ n) l = l"
  by (induction n) (simp_all add: accept_round_def)

lemma arrivals: "(arrive ^^ n) l = l\<lparr>waiting := waiting l + n, edge := edge l \<or> 0 < n\<rparr>"
  by (induction n) (simp_all add: arrive_def)

text \<open>The descriptors in the order in which they are made: the first pair is 3 and 4.\<close>

lemma Signal_new_fresh:
  "Signal_new True 5 os_fresh = Inr (\<lparr>pipe_fd = (3, 4), signal_timeout = 5\<rparr>,
     os_fresh\<lparr>os_fds := [0, 1, 2, 3, 4], os_next := 5, os_nonblock := [4, 3]\<rparr>)"
  by (simp add: Signal_new_def socketpair_def new_fd_def os_fresh_def setnonblocking_def)

lemma os_fresh_simps [simp]: "os_epoll os_fresh = []" "os_handlers os_fresh = []"
  by (simp_all add: os_fresh_def)

lemma AddSignals_ok:
  assumes "calls_ok sc" and "os_handlers s = []"
  shows "foldE (AddSignal (sc_sigaction sc)) [SIGALRM, SIGCHLD, SIGTERM, SIGHUP, SIGINT] s =
    Inr (s\<lparr>os_handlers := [SIGINT, SIGHUP, SIGTERM, SIGCHLD, SIGALRM]\<rparr>)"
  using assms by (simp add: calls_ok_def AddSignal_def SIGALRM_def SIGCHLD_def SIGTERM_def SIGHUP_def SIGINT_def)

lemma server_setup_value:
  assumes "calls_ok sc"
  shows "server_setup sc rs [prog, port] os_fresh =
    Inr (Inr \<lparr>ls_port = word_of_int (atoi port), ls_listen = 5, ls_epoll = 6,
               ls_signal = \<lparr>pipe_fd = (7, 8), signal_timeout = 5\<rparr>, ls_server = server_start rs\<rparr>,
      os_fresh\<lparr>os_fds := [0, 1, 2, 3, 4, 5, 6, 7, 8], os_next := 9, os_nonblock := [7, 8, 5, 4, 3],
        os_epoll := [7, 5], os_handlers := [SIGINT, SIGHUP, SIGTERM, SIGCHLD, SIGALRM], os_alarm := Some 5\<rparr>)"
proof -
  have c: "sc_signal_pair sc" "sc_socket sc" "sc_bind sc" "sc_listen sc" "sc_epoll sc" "sc_pair sc"
    using assms by (simp_all add: calls_ok_def)
  show ?thesis
    by (simp add: server_setup_def c Signal_new_fresh AddSignals_ok [OF assms] new_fd_def socketpair_def
        AddFd_def setnonblocking_def Let_def del: foldE.simps)
qed

section \<open>Properties\<close>

text \<open>
  C24: When every system call succeeds the server comes up ready: the listening socket and the
  reading end of the pipe, and nothing else, are watched; both and the writing end do not block;
  exactly the five signals lead to the handler, whose end of the pipe is the partner of the watched
  one; the alarm is set to five seconds and the sets are empty. The pair of descriptors that the
  constructor of the signal object made is forgotten: after the destructor it is still open.
\<close>

theorem server_setup_ready:
  assumes "calls_ok sc"
  shows "\<exists>ls s. server_setup sc rs [prog, port] os_fresh = Inr (Inr ls, s) \<and>
    set (os_epoll s) = {ls_listen ls, fst (pipe_fd (ls_signal ls))} \<and>
    {ls_listen ls, fst (pipe_fd (ls_signal ls)), snd (pipe_fd (ls_signal ls))} \<subseteq> set (os_nonblock s) \<inter> set (os_fds s) \<and>
    distinct [ls_listen ls, ls_epoll ls, fst (pipe_fd (ls_signal ls)), snd (pipe_fd (ls_signal ls))] \<and>
    set (os_handlers s) = {SIGALRM, SIGCHLD, SIGTERM, SIGHUP, SIGINT} \<and> os_alarm s = Some 5 \<and>
    ls_server ls = server_start rs \<and>
    (\<exists>sg s1. Signal_new True 5 os_fresh = Inr (sg, s1) \<and>
       {fst (pipe_fd sg), snd (pipe_fd sg)} \<subseteq> set (os_fds (Signal_destroy (ls_signal ls) s)))"
  unfolding server_setup_value [OF assms] Signal_new_fresh
  by (simp add: Signal_destroy_def close_fd_def os_fresh_def SIGALRM_def SIGCHLD_def SIGTERM_def SIGHUP_def
      SIGINT_def insert_commute)

theorem server_setup_ready_witness:
  "\<exists>ls s. server_setup \<lparr>sc_signal_pair = True, sc_socket = True, sc_bind = True, sc_errno = 0, sc_listen = True,
      sc_epoll = True, sc_pair = True, sc_sigaction = (\<lambda>_. True)\<rparr> [] [''server'', ''8080''] os_fresh = Inr (Inr ls, s)"
  using server_setup_ready [of "\<lparr>sc_signal_pair = True, sc_socket = True, sc_bind = True, sc_errno = 0,
      sc_listen = True, sc_epoll = True, sc_pair = True, sc_sigaction = (\<lambda>_. True)\<rparr>" "[]" "''server''" "''8080''"]
  by (auto simp: calls_ok_def)

text \<open>
  The server enters its loop exactly when it has one argument and every call succeeds. A wrong
  number of arguments and a failing \<^verbatim>\<open>bind\<close> end it with code 1 and a message; every other failing
  call is an assertion that stops the process.
\<close>

theorem server_setup_outcomes:
  assumes "argv \<noteq> []"
  shows "case server_setup sc rs argv s of
      Inl e \<Rightarrow> e = AssertFailed \<and> \<not> calls_ok sc
    | Inr (Inl (c, t), _) \<Rightarrow> c = 1 \<and> t \<noteq> [] \<and> (length argv \<noteq> 2 \<or> \<not> sc_bind sc)
    | Inr (Inr ls, _) \<Rightarrow> length argv = 2 \<and> calls_ok sc"
  using assms
  by (auto simp: server_setup_def calls_ok_def Signal_new_def assertE_def AddSignal_def Let_def split_def)

theorem server_setup_outcomes_witness:
  "\<exists>s. server_setup \<lparr>sc_signal_pair = True, sc_socket = True, sc_bind = False, sc_errno = 98, sc_listen = True,
      sc_epoll = True, sc_pair = True, sc_sigaction = (\<lambda>_. True)\<rparr> [] [''server'', ''80''] os_fresh =
      Inr (Inl (1, ''errno is: 98\<newline>''), s)"
  using server_setup_outcomes [of "[''server'', ''80'']" "\<lparr>sc_signal_pair = True, sc_socket = True, sc_bind = False,
      sc_errno = 98, sc_listen = True, sc_epoll = True, sc_pair = True, sc_sigaction = (\<lambda>_. True)\<rparr>" "[]" os_fresh]
  by (simp add: server_setup_def Signal_new_def socketpair_def new_fd_def os_fresh_def setnonblocking_def
      to_string_def nat_string.simps digit_char_def)

text \<open>
  C23: Signals reach the loop. Whatever signals arrive between two rounds, up to 1024 of them, the
  loop reads all of them in one event: the timeout flag is set exactly if \<^verbatim>\<open>SIGALRM\<close> was among
  them or it was set before, the stop flag exactly if \<^verbatim>\<open>SIGTERM\<close> or \<^verbatim>\<open>SIGINT\<close> was, and nothing
  else of the server changes.
\<close>

theorem signals_reach_loop:
  assumes "os_pipe s (snd (pipe_fd sg)) = []" and "sigs \<noteq> []" and "length sigs \<le> 1024" and "\<forall>sig \<in> set sigs. sig < 256"
  shows "\<exists>t. receive_signals sg (foldl (\<lambda>t sig. SignalHandler sg sig t) s sigs) = (Some sigs, t) \<and>
    os_pipe t (snd (pipe_fd sg)) = [] \<and>
    handle_event env (SignalPipe (Some sigs)) sv = Inr (True,
      sv\<lparr>sv_timeout := sv_timeout sv \<or> SIGALRM \<in> set sigs,
         sv_stop := sv_stop sv \<or> SIGTERM \<in> set sigs \<or> SIGINT \<in> set sigs\<rparr>)"
proof -
  have "map (\<lambda>sig. sig mod 256) sigs = sigs" using assms(4) by (simp add: map_idI)
  then show ?thesis
    using assms(1-3) by (simp add: receive_signals_def SignalHandlers_queue handle_event_def handle_signals)
qed

theorem signals_reach_loop_witness:
  "\<exists>sv. handle_event sample_env (SignalPipe (Some [14, 15])) (server_start []) = Inr (True, sv) \<and>
     sv_timeout sv \<and> sv_stop sv"
  using signals_reach_loop [of os_fresh "\<lparr>pipe_fd = (7, 8), signal_timeout = 5\<rparr>" "[14, 15]" sample_env "server_start []"]
  by (auto simp: os_fresh_def SIGALRM_def SIGTERM_def SIGINT_def)

text \<open>
  A burst of connections is not accepted. The loop calls \<^verbatim>\<open>accept\<close> once for an edge-triggered
  event, so that of \<open>n\<close> clients that connect between two rounds one is accepted, and the others
  wait however many rounds follow, until somebody else connects.
\<close>

theorem burst_leaves_clients_waiting:
  assumes "waiting l = 0" and "0 < n" and "0 < rounds"
  shows "waiting ((accept_round ^^ rounds) ((arrive ^^ n) l)) = n - 1 \<and>
    accepted ((accept_round ^^ rounds) ((arrive ^^ n) l)) = Suc (accepted l)"
proof -
  let ?l = "accept_round ((arrive ^^ n) l)"
  have l: "waiting ?l = n - 1" "accepted ?l = Suc (accepted l)" "\<not> edge ?l"
    using assms(1,2) by (simp_all add: arrivals accept_round_def)
  obtain m where "rounds = Suc m" using assms(3) by (cases rounds) auto
  then have "(accept_round ^^ rounds) ((arrive ^^ n) l) = ?l"
    using accept_rounds_idle [OF l(3), of m] by (simp add: funpow_swap1)
  with l show ?thesis by simp
qed

theorem burst_leaves_clients_waiting_witness:
  "waiting ((accept_round ^^ 9) ((arrive ^^ 3) \<lparr>waiting = 0, edge = False, accepted = 0\<rparr>)) = 2"
  using burst_leaves_clients_waiting [of "\<lparr>waiting = 0, edge = False, accepted = 0\<rparr>" 3 9] by simp

end
