(* ===== verification/Stress_Test.thy ===== *)
theory Stress_Test
  imports Skip_List_Reach Configs Cpp_Text
begin

text \<open>
  The load generator of \<^verbatim>\<open>stress_test.cpp\<close>. Every thread inserts the same key again and again
  under the lock of the list, so that a run is one sequence of insertions, whatever the schedule;
  \<open>stale\<close> is the outcome of the cache's reads of erased cells, \<open>rnd i\<close> what \<^verbatim>\<open>rand()\<close> gave to the call that inserts as number \<open>i\<close>. The searches of the
  second phase take no lock; they are modelled one after the other, as with one thread.
\<close>

section \<open>The program\<close>

fun stress_insert ::
  "(string \<times> int \<Rightarrow> string res) \<Rightarrow> (nat \<Rightarrow> int) \<Rightarrow> int \<Rightarrow> nat \<Rightarrow> nat \<Rightarrow> nat list \<Rightarrow> string SkipList \<Rightarrow> (nat list \<times> string SkipList) res" where
  "stress_insert stale rnd test_count i 0 rs s = Inr (rs, s)"
| "stress_insert stale rnd test_count i (Suc n) rs s =
     (if test_count = 0 then Inl DivideByZero
      else
        bindE (InsertElement stale rs ''a'' (rnd i mod test_count) s) (\<lambda>(_, rs', s').
        stress_insert stale rnd test_count (Suc i) n rs' s'))"

fun stress_get :: "nat \<Rightarrow> string SkipList \<Rightarrow> string SkipList res" where
  "stress_get 0 s = Inr s"
| "stress_get (Suc n) s = bindE (SearchElement ''a'' s) (\<lambda>(_, s'). stress_get n s')"

text \<open>
  \<^verbatim>\<open>main\<close>: the check of the mode can never hold, a missing argument is a null pointer, a negative
  number of threads is rejected by the vector. Every thread makes \<^verbatim>\<open>test_count / num_threads\<close> calls.
\<close>

definition stress_main ::
  "(string \<times> int \<Rightarrow> string res) \<Rightarrow> (nat \<Rightarrow> int) \<Rightarrow> nat list \<Rightarrow> int \<Rightarrow> string list \<Rightarrow> (string SkipList + string) res" where
  "stress_main stale rnd rs garbage argv =
     bindE (SkipList_new stale [] garbage 18 (GetMaxMemory Configs_new)) (\<lambda>s0.
     if length argv < 4 then Inl NullDeref
     else if argv ! 1 = ''INSERT'' \<and> argv ! 1 = ''GET''
     then Inr (Inr ''Usage: ./stress_test_start.sh [INSERT|GET] [TEST_COUNT] [NUM_THREADS]\<newline>'')
     else
       let test_count = atoi (argv ! 2); num_threads = atoi (argv ! 3);
           calls = nat num_threads * nat (test_count div num_threads)
       in if num_threads < 0 then Inl LengthError
          else
            bindE (stress_insert stale rnd test_count 0 calls rs s0) (\<lambda>(_, s1).
            if argv ! 1 = ''GET''
            then bindE (stress_get calls s1) (\<lambda>s2. Inr (Inl s2))
            else Inr (Inl s1)))"

section \<open>Lemmas\<close>

lemma stress_insert_ok:
  assumes "zset_ok s" and "n \<le> stops rs" and "0 < test_count"
  shows "\<exists>rs' s'. stress_insert stale rnd test_count i n rs s = Inr (rs', s') \<and> zset_ok s' \<and>
    zset_view s' = (if n = 0 then zset_view s else (zset_view s)(''a'' \<mapsto> rnd (i + n - 1) mod test_count))"
  using assms(1,2)
proof (induction n arbitrary: i rs s)
  case (Suc n)
  obtain r rs1 s1 where 1: "InsertElement stale rs ''a'' (rnd i mod test_count) s = Inr (r, rs1, s1)" "zset_ok s1"
      "zset_view s1 = (zset_view s)(''a'' \<mapsto> rnd i mod test_count)" "n \<le> stops rs1"
    using sl.add_law [OF Suc.prems(1), of n rs stale "''a''" "rnd i mod test_count"] Suc.prems(2) by auto
  from Suc.IH [OF 1(2,4), of "Suc i"] 1 assms(3) show ?case by (cases n) auto
qed simp

lemma stress_get_ok:
  assumes "zset_ok s"
  shows "\<exists>s'. stress_get n s = Inr s' \<and> zset_ok s' \<and> zset_view s' = zset_view s"
  using assms
proof (induction n arbitrary: s)
  case (Suc n)
  obtain r s1 where 1: "SearchElement ''a'' s = Inr (r, s1)" "zset_ok s1" "zset_view s1 = zset_view s"
    using sl.sco_law [OF Suc.prems, of "''a''"] by auto
  from Suc.IH [OF 1(2)] 1 show ?case by auto
qed simp

lemma new_list_ok:
  "\<exists>s. SkipList_new stale ([] :: string) g 18 (GetMaxMemory Configs_new) = Inr s \<and> zset_ok s \<and> zset_view s = Map.empty"
proof -
  obtain s where "SkipList_new stale ([] :: string) g 18 0 = Inr s" "sl_inv s" "content s = []" "doomed s = []"
      "limit s = 0"
    using SkipList_new_spec [of 18 stale "[] :: string" g 0] by auto
  then show ?thesis by (simp add: zset_ok_def zset_view_def GetMaxMemory_def Configs_new_def)
qed

section \<open>Properties\<close>

text \<open>
  The load generator ends without a fault for every mode, every number of calls and every
  number of threads, as long as the random numbers choose levels, and the list then holds exactly
  the one key with the score of the last insertion, or nothing if no call was made.
\<close>

theorem stress_main_correct:
  assumes "length argv = 4" and "0 \<le> atoi (argv ! 3)"
    and "calls = nat (atoi (argv ! 3)) * nat (atoi (argv ! 2) div atoi (argv ! 3))" and "calls \<le> stops rs"
  shows "\<exists>s. stress_main stale rnd rs garbage argv = Inr (Inl s) \<and>
    zset_view s = (if calls = 0 then Map.empty else [''a'' \<mapsto> rnd (calls - 1) mod atoi (argv ! 2)])"
proof -
  obtain s0 :: "string SkipList" where s0: "SkipList_new stale [] garbage 18 (GetMaxMemory Configs_new) = Inr s0" "zset_ok s0"
      "zset_view s0 = Map.empty"
    using new_list_ok by blast
  have "\<exists>rs' s1. stress_insert stale rnd (atoi (argv ! 2)) 0 calls rs s0 = Inr (rs', s1) \<and> zset_ok s1 \<and>
      zset_view s1 = (if calls = 0 then Map.empty else [''a'' \<mapsto> rnd (calls - 1) mod atoi (argv ! 2)])"
  proof (cases "0 < atoi (argv ! 2)")
    case True
    from stress_insert_ok [OF s0(2) assms(4) True, of stale rnd 0] show ?thesis
      unfolding s0(3) add_0 .
  next
    case False
    with assms(2) have "atoi (argv ! 2) div atoi (argv ! 3) \<le> 0"
      by (cases "atoi (argv ! 3) = 0") (auto simp: div_nonpos_pos_le0)
    then have "calls = 0" using assms(3) by simp
    with s0 show ?thesis by simp
  qed
  then obtain rs' s1 where s1: "stress_insert stale rnd (atoi (argv ! 2)) 0 calls rs s0 = Inr (rs', s1)" "zset_ok s1"
      "zset_view s1 = (if calls = 0 then Map.empty else [''a'' \<mapsto> rnd (calls - 1) mod atoi (argv ! 2)])"
    by blast
  obtain s2 where s2: "stress_get calls s1 = Inr s2" "zset_view s2 = zset_view s1"
    using stress_get_ok [OF s1(2), of calls] by blast
  have run: "stress_main stale rnd rs garbage argv = (if argv ! 1 = ''GET'' then Inr (Inl s2) else Inr (Inl s1))"
    unfolding stress_main_def s0(1)
    using assms(1,2) s1(1) s2(1) by (simp add: Let_def assms(3) [symmetric])
  then show ?thesis using s1(3) s2(2) by (cases "argv ! 1 = ''GET''") simp_all
qed

theorem stress_main_correct_witness:
  "\<exists>s. stress_main dangling (\<lambda>i. 9 + int i) [65535, 65535, 65535, 65535] 0 [''stress'', ''GET'', ''5'', ''2''] = Inr (Inl s) \<and>
     zset_view s = [''a'' \<mapsto> 2]"
proof -
  have a: "atoi ''5'' = 5" "atoi ''2'' = 2"
    by (simp_all add: atoi_def is_space_def code_def is_digit_def digits_value_def digit_val_def)
  let ?argv = "[''stress'', ''GET'', ''5'', ''2'']" and ?rs = "[65535, 65535, 65535, 65535 :: nat]"
  have "length ?argv = 4" "0 \<le> atoi (?argv ! 3)" "4 \<le> stops ?rs"
      "4 = nat (atoi (?argv ! 3)) * nat (atoi (?argv ! 2) div atoi (?argv ! 3))"
    by (simp_all add: a stops_def)
  from stress_main_correct [OF this(1,2,4,3), of dangling "\<lambda>i. 9 + int i" 0] a show ?thesis by simp
qed

end
