(* ===== verification/Protorpc.thy ===== *)
theory Protorpc
  imports Prelude
begin

unbundle bit_operations_syntax

text \<open>
  The frame format of the RPC layer (\<^verbatim>\<open>rpc/protorpc/protorpc.h\<close>, \<^verbatim>\<open>protorpc.c\<close>): a header of
  12 bytes with a big-endian length field, followed by the body. Lengths are 32-bit words: the
  package length wraps around, and the comparison of the buffer length with it is unsigned.
\<close>

section \<open>Messages\<close>

type_synonym bytes = "u8 list"

record protorpc_head =
  h_protocol :: bytes
  h_version :: u8
  h_flags :: u8
  h_reserved :: bytes
  h_length :: u32

record protorpc_message =
  m_head :: protorpc_head
  m_body :: "bytes option"

text \<open>\<^verbatim>\<open>"HRPC"\<close>.\<close>

definition PROTORPC_NAME :: bytes where "PROTORPC_NAME = [0x48, 0x52, 0x50, 0x43]"
definition PROTORPC_VERSION :: u8 where "PROTORPC_VERSION = 1"
definition PROTORPC_HEAD_LENGTH :: nat where "PROTORPC_HEAD_LENGTH = 12"

definition protorpc_package_length :: "protorpc_head \<Rightarrow> u32" where
  "protorpc_package_length h = 12 + h_length h"

text \<open>\<^verbatim>\<open>flags\<close> keeps the value it had.\<close>

definition protorpc_head_init :: "protorpc_head \<Rightarrow> protorpc_head" where
  "protorpc_head_init h =
     h\<lparr>h_protocol := PROTORPC_NAME, h_version := PROTORPC_VERSION, h_reserved := [0, 0], h_length := 0\<rparr>"

definition protorpc_message_init :: "protorpc_message \<Rightarrow> protorpc_message" where
  "protorpc_message_init m = m\<lparr>m_head := protorpc_head_init (m_head m), m_body := None\<rparr>"

definition protorpc_head_check :: "protorpc_head \<Rightarrow> int" where
  "protorpc_head_check h =
     (if h_protocol h \<noteq> PROTORPC_NAME then -1
      else if h_version h \<noteq> PROTORPC_VERSION then -2 else 0)"

section \<open>Packing\<close>

definition length_bytes :: "u32 \<Rightarrow> bytes" where
  "length_bytes w =
     [ucast (drop_bit 24 w AND 0xFF), ucast (drop_bit 16 w AND 0xFF),
      ucast (drop_bit 8 w AND 0xFF), ucast (w AND 0xFF)]"

definition head_bytes :: "protorpc_head \<Rightarrow> bytes" where
  "head_bytes h =
     [h_protocol h ! 0, h_protocol h ! 1, h_protocol h ! 2, h_protocol h ! 3, h_version h, h_flags h,
      h_reserved h ! 0, h_reserved h ! 1] @ length_bytes (h_length h)"

text \<open>Storing \<open>xs\<close> at offset \<open>n\<close> of a buffer: a fault outside it.\<close>

definition store_at :: "nat \<Rightarrow> bytes \<Rightarrow> bytes \<Rightarrow> bytes res" where
  "store_at n xs buf =
     (if n + length xs \<le> length buf then Inr (take n buf @ xs @ drop (n + length xs) buf)
      else Inl OutOfBounds)"

text \<open>
  \<^verbatim>\<open>protorpc_pack\<close> on a buffer of \<open>length buf\<close> bytes; \<open>len\<close> is the argument the caller passes for
  it. Null pointers are \<^const>\<open>None\<close>.
\<close>

definition protorpc_pack ::
  "protorpc_message option \<Rightarrow> bytes option \<Rightarrow> u32 \<Rightarrow> (int \<times> bytes option) res" where
  "protorpc_pack msg buf len =
     (case (msg, buf) of
        (Some m, Some b) \<Rightarrow>
          if len = 0 then Inr (-1, buf)
          else
            let packlen = protorpc_package_length (m_head m) in
            if len < packlen then Inr (-2, buf)
            else
              bindE (store_at 0 (head_bytes (m_head m)) b) (\<lambda>b1.
              bindE (case m_body m of
                       None \<Rightarrow> Inr b1
                     | Some body \<Rightarrow>
                         if h_length (m_head m) = 0 then Inr b1
                         else if length body < unat (h_length (m_head m)) then Inl OutOfBounds
                         else store_at 12 (take (unat (h_length (m_head m))) body) b1) (\<lambda>b2.
              Inr (sint packlen, Some b2)))
      | _ \<Rightarrow> Inr (-1, buf))"

section \<open>Unpacking\<close>

definition read_length :: "u8 \<Rightarrow> u8 \<Rightarrow> u8 \<Rightarrow> u8 \<Rightarrow> u32" where
  "read_length a b c d =
     push_bit 24 (ucast a) OR push_bit 16 (ucast b) OR push_bit 8 (ucast c) OR ucast d"

definition read_head :: "bytes \<Rightarrow> protorpc_head" where
  "read_head b =
     \<lparr>h_protocol = [b ! 0, b ! 1, b ! 2, b ! 3], h_version = b ! 4, h_flags = b ! 5,
      h_reserved = [b ! 6, b ! 7], h_length = read_length (b ! 8) (b ! 9) (b ! 10) (b ! 11)\<rparr>"

text \<open>The body is a pointer into the buffer, here the bytes from there on.\<close>

definition protorpc_unpack ::
  "protorpc_message option \<Rightarrow> bytes option \<Rightarrow> u32 \<Rightarrow> (int \<times> protorpc_message option) res" where
  "protorpc_unpack msg buf len =
     (case (msg, buf) of
        (Some m, Some b) \<Rightarrow>
          if len = 0 then Inr (-1, msg)
          else if sint len < 12 then Inr (-2, msg)
          else if length b < 12 then Inl OutOfBounds
          else
            let h = read_head b; packlen = protorpc_package_length h; m1 = m\<lparr>m_head := h\<rparr> in
            if len < packlen then Inr (-3, Some m1)
            else Inr (sint packlen, Some (if 12 < sint len then m1\<lparr>m_body := Some (drop 12 b)\<rparr> else m1))
      | _ \<Rightarrow> Inr (-1, msg))"

section \<open>The length field\<close>

lemma low_byte: "(ucast (w AND 0xFF :: u32) :: u8) = ucast w"
proof -
  have m: "(0xFF :: u32) = mask 8" by (simp add: mask_eq_exp_minus_1)
  show ?thesis unfolding m by (intro bit_word_eqI) (simp add: bit_simps)
qed

lemma read_length_bytes:
  "read_length (ucast (drop_bit 24 w)) (ucast (drop_bit 16 w)) (ucast (drop_bit 8 w)) (ucast w) = w"
proof (rule bit_word_eqI)
  fix n
  assume n: "n < LENGTH(32)"
  consider "n < 8" | "8 \<le> n" "n < 16" | "16 \<le> n" "n < 24" | "24 \<le> n" by linarith
  then show "bit (read_length (ucast (drop_bit 24 w)) (ucast (drop_bit 16 w)) (ucast (drop_bit 8 w)) (ucast w)) n =
      bit w n"
    by cases (use n in \<open>auto simp: read_length_def bit_simps\<close>)
qed

lemma read_length_length_bytes:
  "read_length (length_bytes w ! 0) (length_bytes w ! 1) (length_bytes w ! 2) (length_bytes w ! 3) = w"
  by (simp add: length_bytes_def low_byte read_length_bytes)

lemma sint_small:
  fixes w :: u32
  assumes "unat w < 2 ^ 31"
  shows "sint w = int (unat w)"
proof -
  have "w = of_nat (unat w)" by simp
  moreover have "sint (of_nat (unat w) :: u32) = int (unat w)"
    using assms by (simp add: signed_of_nat signed_take_bit_int_eq_self del: of_nat_unat)
  ultimately show ?thesis by simp
qed

section \<open>Round trip\<close>

text \<open>A message as the two programs build it: the length field is the length of the body.\<close>

definition message_ok :: "protorpc_message \<Rightarrow> bool" where
  "message_ok m \<longleftrightarrow> length (h_protocol (m_head m)) = 4 \<and> length (h_reserved (m_head m)) = 2 \<and>
     (case m_body m of None \<Rightarrow> h_length (m_head m) = 0
      | Some b \<Rightarrow> b \<noteq> [] \<and> length b = unat (h_length (m_head m)) \<and> length b < 2 ^ 31 - 12)"

definition body_bytes :: "protorpc_message \<Rightarrow> bytes" where
  "body_bytes m = (case m_body m of None \<Rightarrow> [] | Some b \<Rightarrow> b)"

text \<open>The bytes of a message on the wire.\<close>

definition frame :: "protorpc_message \<Rightarrow> bytes" where
  "frame m = head_bytes (m_head m) @ body_bytes m"

lemma length_head_bytes [simp]: "length (head_bytes h) = 12"
  by (simp add: head_bytes_def length_bytes_def)

lemma message_ok_length:
  "message_ok m \<Longrightarrow> unat (h_length (m_head m)) = length (body_bytes m) \<and> length (body_bytes m) < 2 ^ 31 - 12"
  by (auto simp: message_ok_def body_bytes_def split: option.splits)

lemma package_length_frame:
  assumes "message_ok m"
  shows "unat (protorpc_package_length (m_head m)) = length (frame m)"
    and "sint (protorpc_package_length (m_head m)) = int (length (frame m))"
proof -
  have l: "unat (h_length (m_head m)) = length (body_bytes m)" "length (body_bytes m) < 2 ^ 31 - 12"
    using message_ok_length [OF assms] by auto
  have w: "protorpc_package_length (m_head m) = of_nat (12 + length (body_bytes m))"
  proof -
    have "h_length (m_head m) = of_nat (length (body_bytes m))" unfolding l(1) [symmetric] by simp
    then show ?thesis by (simp add: protorpc_package_length_def)
  qed
  show "unat (protorpc_package_length (m_head m)) = length (frame m)"
    using l(2) by (simp add: w frame_def unat_of_nat del: of_nat_add)
  show "sint (protorpc_package_length (m_head m)) = int (length (frame m))"
    using l(2) by (simp add: w frame_def signed_of_nat signed_take_bit_int_eq_self del: of_nat_add)
qed

lemma store_head: "length b \<ge> 12 \<Longrightarrow> store_at 0 (head_bytes h) b = Inr (head_bytes h @ drop 12 b)"
  by (simp add: store_at_def)

text \<open>Packing into a buffer that is large enough writes the frame at its start.\<close>

lemma pack_frame:
  assumes m: "message_ok m" and b: "length (frame m) \<le> length b" and l: "length (frame m) \<le> unat len"
  shows "protorpc_pack (Some m) (Some b) len =
    Inr (int (length (frame m)), Some (frame m @ drop (length (frame m)) b))"
proof -
  have "len \<noteq> 0" using l by (auto simp: frame_def)
  moreover have "\<not> len < protorpc_package_length (m_head m)"
    using package_length_frame(1) [OF m] l by (simp add: word_less_nat_alt)
  moreover have "length b \<ge> 12" using b by (simp add: frame_def)
  moreover have "store_at 12 (body_bytes m) (head_bytes (m_head m) @ drop 12 b) =
      Inr (frame m @ drop (length (frame m)) b)"
    using b by (simp add: store_at_def frame_def add.commute)
  ultimately show ?thesis
    using m package_length_frame(2) [OF m] store_head [of b "m_head m"]
    by (auto simp: protorpc_pack_def Let_def message_ok_def body_bytes_def frame_def split: option.splits)
qed

lemma list4: "length xs = 4 \<Longrightarrow> [xs ! 0, xs ! 1, xs ! 2, xs ! 3] = xs"
  by (auto simp: eval_nat_numeral length_Suc_conv)

lemma list2: "length xs = 2 \<Longrightarrow> [xs ! 0, xs ! 1] = xs"
  by (auto simp: eval_nat_numeral length_Suc_conv)

lemma read_head_bytes:
  assumes "length (h_protocol h) = 4" and "length (h_reserved h) = 2"
  shows "read_head (head_bytes h @ rest) = h"
proof -
  have "read_head (head_bytes h @ rest) =
      \<lparr>h_protocol = [h_protocol h ! 0, h_protocol h ! 1, h_protocol h ! 2, h_protocol h ! 3],
       h_version = h_version h, h_flags = h_flags h, h_reserved = [h_reserved h ! 0, h_reserved h ! 1],
       h_length = h_length h\<rparr>"
    using read_length_length_bytes [of "h_length h"]
    by (simp add: read_head_def head_bytes_def length_bytes_def nth_append)
  also have "\<dots> = h" using list4 [OF assms(1)] list2 [OF assms(2)] by simp
  finally show ?thesis .
qed

text \<open>
  Unpacking a buffer that starts with a frame gives back the header, the body as a prefix of
  the rest of the buffer, and the length of the frame.
\<close>

lemma unpack_frame:
  assumes m: "message_ok m" and len: "unat len = length (frame m @ rest)" "unat len < 2 ^ 31"
  shows "protorpc_unpack (Some m0) (Some (frame m @ rest)) len =
    Inr (int (length (frame m)),
      Some (m0\<lparr>m_head := m_head m, m_body := (if body_bytes m @ rest = [] then m_body m0
        else Some (body_bytes m @ rest))\<rparr>))"
proof -
  have s: "sint len = int (length (frame m @ rest))"
    using sint_small [OF len(2)] len(1) by simp
  have "len \<noteq> 0" using len(1) by (auto simp: frame_def)
  moreover have "read_head (frame m @ rest) = m_head m"
    using m read_head_bytes [of "m_head m" "body_bytes m @ rest"] by (simp add: message_ok_def frame_def)
  moreover have "\<not> len < protorpc_package_length (m_head m)"
    using package_length_frame(1) [OF m] len(1) by (simp add: word_less_nat_alt)
  ultimately show ?thesis
    using s package_length_frame(2) [OF m]
    by (cases "body_bytes m"; cases rest) (auto simp: protorpc_unpack_def Let_def frame_def)
qed

section \<open>Messages that pass the checks\<close>

definition zero_message :: protorpc_message where
  "zero_message = \<lparr>m_head = \<lparr>h_protocol = [0, 0, 0, 0], h_version = 0, h_flags = 0, h_reserved = [0, 0],
     h_length = 0\<rparr>, m_body = None\<rparr>"

definition sendable :: "protorpc_message \<Rightarrow> bool" where
  "sendable m \<longleftrightarrow> message_ok m \<and> protorpc_head_check (m_head m) = 0"

section \<open>Properties\<close>

definition sample_message :: protorpc_message where
  "sample_message = \<lparr>m_head = \<lparr>h_protocol = PROTORPC_NAME, h_version = 1, h_flags = 5, h_reserved = [0, 0],
     h_length = 2\<rparr>, m_body = Some [7, 8]\<rparr>"

lemma sample_message_ok: "sendable sample_message" "message_ok sample_message" "length (frame sample_message) = 14"
  by (simp_all add: sample_message_def sendable_def message_ok_def protorpc_head_check_def PROTORPC_NAME_def
      PROTORPC_VERSION_def frame_def body_bytes_def)

text \<open>
  C29: Packing a message whose length field is the length of its body into a buffer with room for
  it, and unpacking that buffer, gives back header and body; both calls return the length of the
  frame, which is 12 plus the length of the body.
\<close>

theorem pack_unpack_roundtrip:
  assumes "message_ok m" and "length (frame m) \<le> length buf" and "unat len = length buf" and "unat len < 2 ^ 31"
  shows "\<exists>buf'. protorpc_pack (Some m) (Some buf) len = Inr (12 + int (length (body_bytes m)), Some buf') \<and>
    length buf' = length buf \<and> (\<exists>m'. protorpc_unpack (Some m0) (Some buf') len =
      Inr (12 + int (length (body_bytes m)), Some m') \<and> m_head m' = m_head m \<and>
      (m_body m \<noteq> None \<longrightarrow> map_option (take (length (body_bytes m))) (m_body m') = m_body m))"
proof -
  let ?b = "frame m @ drop (length (frame m)) buf"
  have "protorpc_pack (Some m) (Some buf) len = Inr (int (length (frame m)), Some ?b)"
    using assms by (intro pack_frame) auto
  moreover have u: "unat len = length ?b" using assms by simp
  moreover have "body_bytes m @ drop (length (frame m)) buf \<noteq> []" if "m_body m \<noteq> None"
    using that assms(1) by (auto simp: message_ok_def body_bytes_def)
  ultimately show ?thesis
    using unpack_frame [OF assms(1) u assms(4), of m0] assms(2)
    by (auto simp: frame_def body_bytes_def split: option.splits)
qed

theorem pack_unpack_roundtrip_witness:
  "\<exists>buf'. protorpc_pack (Some sample_message) (Some (replicate 20 0)) 20 = Inr (14, Some buf') \<and>
     length buf' = 20"
  using pack_unpack_roundtrip [OF sample_message_ok(2), of "replicate 20 0" 20 zero_message] sample_message_ok(3)
  by (auto simp: sample_message_def body_bytes_def)

text \<open>
  The package length wraps around: a header that announces a body of \<open>2\<^sup>3\<^sup>2 - 12\<close> bytes or more
  passes the check of the buffer length, and \<^verbatim>\<open>protorpc_unpack\<close> reports a package that is
  shorter than its own header.
\<close>

theorem unpack_accepts_oversized:
  assumes "length b = 12" and "2 ^ 32 - 12 \<le> unat (h_length (read_head b))"
  shows "protorpc_unpack (Some m0) (Some b) 12 =
    Inr (int (unat (h_length (read_head b))) - (2 ^ 32 - 12), Some (m0\<lparr>m_head := read_head b\<rparr>))"
proof -
  let ?w = "h_length (read_head b)"
  have "unat ?w < 2 ^ 32" using unsigned_less [of ?w] by simp
  then have "unat (12 + ?w) = unat ?w - (2 ^ 32 - 12)"
    using assms(2) by (simp add: unat_word_ariths(1)) (simp add: le_mod_geq)
  moreover from this \<open>unat ?w < 2 ^ 32\<close> have "unat (12 + ?w) < 12" by simp
  ultimately show ?thesis
    using assms sint_small [of "12 + ?w"]
    by (simp add: protorpc_unpack_def Let_def protorpc_package_length_def word_less_nat_alt)
qed

theorem unpack_accepts_oversized_witness:
  "\<exists>m. protorpc_unpack (Some zero_message)
     (Some [0x48, 0x52, 0x50, 0x43, 1, 0, 0, 0, 0xFF, 0xFF, 0xFF, 0xFF]) 12 = Inr (11, Some m)"
proof -
  let ?b = "[0x48, 0x52, 0x50, 0x43, 1, 0, 0, 0, 0xFF, 0xFF, 0xFF, 0xFF] :: bytes"
  have "h_length (read_head ?b) = 0xFFFFFFFF" by (simp add: read_head_def read_length_def)
  with unpack_accepts_oversized [of ?b zero_message] show ?thesis by simp
qed

end
