(* ===== verification/Rpc_Server.thy ===== *)
theory Rpc_Server
  imports Protorpc Cpp_Text "HOL-Library.Signed_Division"
begin

text \<open>
  The RPC server: the message handler of \<^verbatim>\<open>protorpc_server.cpp\<close>, the routing table and the
  handlers of \<^verbatim>\<open>handler/\<close>. Protocol buffers are code that the build generates: parsing and
  serialising are the parameter \<open>pb\<close> of the definitions, and what the theorems need of them is
  that parsing undoes serialising.
\<close>

section \<open>Requests and responses\<close>

record request =
  req_id :: u64
  req_method :: string
  req_params :: "bytes list"

record response =
  res_id :: u64
  res_result :: bytes
  res_error :: "(int \<times> string) option"

record login_param =
  lp_username :: string
  lp_password :: string

record login_result =
  lr_user_id :: u64
  lr_token :: string

text \<open>The generated parsers (\<^const>\<open>None\<close>: the parse fails) and serialisers.\<close>

record protobuf =
  pb_parse_request :: "bytes \<Rightarrow> request option"
  pb_ser_request :: "request \<Rightarrow> bytes"
  pb_parse_response :: "bytes \<Rightarrow> response option"
  pb_ser_response :: "response \<Rightarrow> bytes"
  pb_parse_num :: "bytes \<Rightarrow> int option"
  pb_ser_num :: "int \<Rightarrow> bytes"
  pb_parse_login :: "bytes \<Rightarrow> login_param option"
  pb_ser_login :: "login_param \<Rightarrow> bytes"
  pb_parse_login_result :: "bytes \<Rightarrow> login_result option"
  pb_ser_login_result :: "login_result \<Rightarrow> bytes"

definition empty_response :: response where
  "empty_response = \<lparr>res_id = 0, res_result = [], res_error = None\<rparr>"

section \<open>Handlers\<close>

definition error_response :: "response \<Rightarrow> int \<Rightarrow> string \<Rightarrow> response" where
  "error_response res err message = res\<lparr>res_error := Some (err, message)\<rparr>"

definition not_found :: "request \<Rightarrow> response \<Rightarrow> response" where
  "not_found req res = error_response res 404 ''Not Found''"

definition bad_request :: "request \<Rightarrow> response \<Rightarrow> response" where
  "bad_request req res = error_response res 400 ''Bad Request''"

text \<open>\<^verbatim>\<open>int64\<close> arithmetic: a result outside the type is undefined.\<close>

definition is_int64 :: "int \<Rightarrow> bool" where
  "is_int64 x \<longleftrightarrow> - (2 ^ 63) \<le> x \<and> x < 2 ^ 63"

definition int64 :: "int \<Rightarrow> int res" where
  "int64 x = (if is_int64 x then Inr x else Inl SignedOverflow)"

text \<open>The common part of the four calculators: two parameters that parse.\<close>

definition calc_params :: "protobuf \<Rightarrow> request \<Rightarrow> (int \<times> int) option" where
  "calc_params pb req =
     (if length (req_params req) \<noteq> 2 then None
      else case pb_parse_num pb (req_params req ! 0) of
        None \<Rightarrow> None
      | Some a \<Rightarrow> (case pb_parse_num pb (req_params req ! 1) of None \<Rightarrow> None | Some b \<Rightarrow> Some (a, b)))"

definition calc_add :: "protobuf \<Rightarrow> request \<Rightarrow> response \<Rightarrow> response res" where
  "calc_add pb req res =
     (case calc_params pb req of None \<Rightarrow> Inr (bad_request req res)
      | Some (a, b) \<Rightarrow> bindE (int64 (a + b)) (\<lambda>r. Inr (res\<lparr>res_result := pb_ser_num pb r\<rparr>)))"

definition calc_sub :: "protobuf \<Rightarrow> request \<Rightarrow> response \<Rightarrow> response res" where
  "calc_sub pb req res =
     (case calc_params pb req of None \<Rightarrow> Inr (bad_request req res)
      | Some (a, b) \<Rightarrow> bindE (int64 (a - b)) (\<lambda>r. Inr (res\<lparr>res_result := pb_ser_num pb r\<rparr>)))"

definition calc_mul :: "protobuf \<Rightarrow> request \<Rightarrow> response \<Rightarrow> response res" where
  "calc_mul pb req res =
     (case calc_params pb req of None \<Rightarrow> Inr (bad_request req res)
      | Some (a, b) \<Rightarrow> bindE (int64 (a * b)) (\<lambda>r. Inr (res\<lparr>res_result := pb_ser_num pb r\<rparr>)))"

text \<open>Division truncates towards zero; only a zero divisor is rejected.\<close>

definition calc_div :: "protobuf \<Rightarrow> request \<Rightarrow> response \<Rightarrow> response res" where
  "calc_div pb req res =
     (case calc_params pb req of None \<Rightarrow> Inr (bad_request req res)
      | Some (a, b) \<Rightarrow>
          if b = 0 then Inr (bad_request req res)
          else bindE (int64 (a sdiv b)) (\<lambda>r. Inr (res\<lparr>res_result := pb_ser_num pb r\<rparr>)))"

definition login :: "protobuf \<Rightarrow> request \<Rightarrow> response \<Rightarrow> response res" where
  "login pb req res =
     (if req_params req = [] then Inr (bad_request req res)
      else case pb_parse_login pb (req_params req ! 0) of
        None \<Rightarrow> Inr (bad_request req res)
      | Some p \<Rightarrow> Inr (res\<lparr>res_result := pb_ser_login_result pb
          \<lparr>lr_user_id = 123456, lr_token = lp_username p @ '':'' @ lp_password p\<rparr>\<rparr>))"

section \<open>Routing\<close>

type_synonym handler = "protobuf \<Rightarrow> request \<Rightarrow> response \<Rightarrow> response res"

text \<open>
  The table names four handlers that \<^verbatim>\<open>router.h\<close> declares and that no file defines with that
  type; they are arguments. The calculators and \<^verbatim>\<open>login\<close> are compiled into the server but no
  method leads to them.
\<close>

definition router :: "handler \<Rightarrow> handler \<Rightarrow> handler \<Rightarrow> handler \<Rightarrow> (string \<times> handler) list" where
  "router zadd zrem zrank zscore =
     [(''Zadd'', zadd), (''Zrem'', zrem), (''Zrank'', zrank), (''Zscore'', zscore)]"

text \<open>The loop that searches the table; \<^verbatim>\<open>strcmp\<close> stops at a null character of the method.\<close>

fun route :: "(string \<times> handler) list \<Rightarrow> protobuf \<Rightarrow> request \<Rightarrow> response \<Rightarrow> response res" where
  "route [] pb req res = Inr (not_found req res)"
| "route ((method, h) # table) pb req res =
     (if c_string (req_method req) = method then h pb req res else route table pb req res)"

section \<open>The message handler\<close>

text \<open>\<^verbatim>\<open>msg.body\<close> with the length of the header; a null body is empty.\<close>

definition message_payload :: "protorpc_message \<Rightarrow> bytes" where
  "message_payload m = (case m_body m of None \<Rightarrow> [] | Some b \<Rightarrow> take (unat (h_length (m_head m))) b)"

text \<open>
  The reply: the message is initialised again (its flags stay), packed without a body into a
  buffer of the package length, and the serialised bytes are stored after the header. \<open>junk\<close>
  is what the fresh buffer holds before.
\<close>

definition send_reply :: "(nat \<Rightarrow> u8) \<Rightarrow> protorpc_message \<Rightarrow> bytes \<Rightarrow> bytes option res" where
  "send_reply junk msg payload =
     (let m0 = protorpc_message_init msg;
          m = m0\<lparr>m_head := (m_head m0)\<lparr>h_length := of_nat (length payload)\<rparr>\<rparr>;
          packlen = protorpc_package_length (m_head m)
      in bindE (protorpc_pack (Some m) (Some (map junk [0..<unat packlen])) packlen) (\<lambda>(n, buf).
         if 0 < n
         then bindE (store_at PROTORPC_HEAD_LENGTH payload (the buf)) (\<lambda>b. Inr (Some (take (nat n) b)))
         else Inr None))"

definition empty_request :: request where
  "empty_request = \<lparr>req_id = 0, req_method = [], req_params = []\<rparr>"

text \<open>Parsing the payload and routing it; \<^verbatim>\<open>bad_request\<close> does not look at the request.\<close>

definition respond :: "(string \<times> handler) list \<Rightarrow> protobuf \<Rightarrow> bytes \<Rightarrow> response res" where
  "respond table pb payload =
     (case pb_parse_request pb payload of
        Some req \<Rightarrow> route table pb req (empty_response\<lparr>res_id := req_id req\<rparr>)
      | None \<Rightarrow> Inr (bad_request empty_request empty_response))"

definition handleMessage ::
  "(string \<times> handler) list \<Rightarrow> protobuf \<Rightarrow> (nat \<Rightarrow> u8) \<Rightarrow> bytes \<Rightarrow> bytes option res" where
  "handleMessage table pb junk buf =
     bindE (protorpc_unpack (Some zero_message) (Some buf) (of_nat (length buf))) (\<lambda>(packlen, m).
     case m of
       None \<Rightarrow> Inr None
     | Some msg \<Rightarrow>
         if packlen < 0 then Inr None
         else if packlen \<noteq> int (length buf) then Inl AssertFailed
         else if protorpc_head_check (m_head msg) \<noteq> 0 then Inr None
         else bindE (respond table pb (message_payload msg)) (\<lambda>res.
              send_reply junk msg (pb_ser_response pb res)))"

section \<open>What the handler sends\<close>

text \<open>The message that carries a payload.\<close>

definition mk_message :: "u8 \<Rightarrow> bytes \<Rightarrow> protorpc_message" where
  "mk_message fl payload =
     \<lparr>m_head = \<lparr>h_protocol = PROTORPC_NAME, h_version = PROTORPC_VERSION, h_flags = fl, h_reserved = [0, 0],
        h_length = of_nat (length payload)\<rparr>,
      m_body = (if payload = [] then None else Some payload)\<rparr>"

lemma mk_message_sendable:
  assumes "length payload < 2 ^ 31 - 12"
  shows "sendable (mk_message fl payload)" and "body_bytes (mk_message fl payload) = payload"
proof -
  have "unat (of_nat (length payload) :: u32) = length payload" using assms by (simp add: unat_of_nat)
  then show "sendable (mk_message fl payload)"
    using assms by (auto simp: sendable_def message_ok_def mk_message_def protorpc_head_check_def PROTORPC_NAME_def)
  show "body_bytes (mk_message fl payload) = payload" by (simp add: body_bytes_def mk_message_def)
qed

lemma send_reply_frame:
  assumes l: "length payload < 2 ^ 31 - 12"
  shows "send_reply junk msg payload = Inr (Some (frame (mk_message (h_flags (m_head msg)) payload)))"
proof -
  let ?m = "mk_message (h_flags (m_head msg)) payload"
  let ?n = "(protorpc_message_init msg)\<lparr>m_head := (m_head (protorpc_message_init msg))\<lparr>h_length := of_nat (length payload)\<rparr>\<rparr>"
  have hd: "m_head ?n = m_head ?m"
    by (simp add: protorpc_message_init_def protorpc_head_init_def mk_message_def)
  have ok: "message_ok ?m" using mk_message_sendable(1) [OF l] by (simp add: sendable_def)
  note pl = package_length_frame [OF ok]
  have fl: "length (frame ?m) = 12 + length payload" "frame ?m = head_bytes (m_head ?m) @ payload"
    using mk_message_sendable(2) [OF l] by (simp_all add: frame_def)
  let ?p = "protorpc_package_length (m_head ?m)"
  let ?buf = "map junk [0..<unat ?p]"
  have "m_body ?n = None" by (simp add: protorpc_message_init_def)
  moreover have "?p \<noteq> 0" using pl(1) fl(1) by auto
  ultimately have "protorpc_pack (Some ?n) (Some ?buf) ?p =
      Inr (int (length (frame ?m)), Some (head_bytes (m_head ?m) @ drop 12 ?buf))"
    using pl fl hd store_head [of ?buf "m_head ?m"]
    by (simp add: protorpc_pack_def Let_def)
  moreover have "store_at 12 payload (head_bytes (m_head ?m) @ drop 12 ?buf) = Inr (head_bytes (m_head ?m) @ payload)"
    using pl(1) fl(1) by (simp add: store_at_def)
  ultimately show ?thesis
    using fl hd by (simp add: send_reply_def Let_def PROTORPC_HEAD_LENGTH_def)
qed

text \<open>Both sides read a frame this way: clear the message, unpack, take the payload.\<close>

lemma unpack_own_frame:
  assumes l: "length payload < 2 ^ 31 - 12"
  shows "\<exists>m'. protorpc_unpack (Some zero_message) (Some (frame (mk_message fl payload)))
      (of_nat (length (frame (mk_message fl payload)))) =
        Inr (int (length (frame (mk_message fl payload))), Some m') \<and>
    protorpc_head_check (m_head m') = 0 \<and> h_flags (m_head m') = fl \<and> message_payload m' = payload"
proof -
  let ?m = "mk_message fl payload"
  have ok: "message_ok ?m" "protorpc_head_check (m_head ?m) = 0"
    using mk_message_sendable(1) [OF l, of fl] by (simp_all add: sendable_def)
  have b: "body_bytes ?m = payload" by (rule mk_message_sendable(2) [OF l])
  then have fl: "length (frame ?m) < 2 ^ 31" using l by (simp add: frame_def)
  let ?len = "of_nat (length (frame ?m)) :: u32"
  have u: "unat ?len = length (frame ?m @ [])" "unat ?len < 2 ^ 31" using fl by (simp_all add: unat_of_nat)
  let ?m' = "zero_message\<lparr>m_head := m_head ?m, m_body := (if payload = [] then None else Some payload)\<rparr>"
  have "protorpc_unpack (Some zero_message) (Some (frame ?m)) ?len = Inr (int (length (frame ?m)), Some ?m')"
    using unpack_frame [OF ok(1) u, of zero_message] b by (simp add: zero_message_def)
  moreover have "message_payload ?m' = payload"
    using message_ok_length [OF ok(1)] b by (simp add: message_payload_def)
  ultimately show ?thesis using ok(2) by (intro exI [of _ ?m']) (simp add: mk_message_def)
qed

lemma handleMessage_frame:
  assumes l: "length payload < 2 ^ 31 - 12" and r: "respond table pb payload = Inr res"
    and l2: "length (pb_ser_response pb res) < 2 ^ 31 - 12"
  shows "handleMessage table pb junk (frame (mk_message fl payload)) =
    Inr (Some (frame (mk_message fl (pb_ser_response pb res))))"
  using unpack_own_frame [OF l, of fl] r send_reply_frame [OF l2, of junk] by (auto simp: handleMessage_def)

lemma handleMessage_fault:
  assumes l: "length payload < 2 ^ 31 - 12" and r: "respond table pb payload = Inl e"
  shows "handleMessage table pb junk (frame (mk_message fl payload)) = Inl e"
  using unpack_own_frame [OF l, of fl] r by (auto simp: handleMessage_def)

section \<open>Routing\<close>

lemmas handler_defs = calc_add_def calc_sub_def calc_mul_def calc_div_def login_def bad_request_def
  not_found_def error_response_def int64_def

text \<open>A method that the table does not have is answered with an error.\<close>

lemma route_unknown:
  "c_string (req_method req) \<notin> fst ` set table \<Longrightarrow> route table pb req res = Inr (not_found req res)"
  by (induction table) auto

section \<open>Division\<close>

text \<open>Truncating division leaves the type in one case only.\<close>

lemma abs_sdiv_le: "\<bar>a sdiv b\<bar> \<le> \<bar>a :: int\<bar>"
proof -
  have "0 \<le> \<bar>a\<bar> div \<bar>b\<bar>" by (cases "b = 0") (simp_all add: pos_imp_zdiv_nonneg_iff)
  then have "\<bar>a sdiv b\<bar> = \<bar>sgn a * sgn b\<bar> * (\<bar>a\<bar> div \<bar>b\<bar>)"
    by (simp add: signed_divide_int_def abs_mult)
  also have "\<dots> \<le> \<bar>a\<bar> div \<bar>b\<bar>" by (cases "a = 0"; cases "b = 0") (auto simp: abs_mult)
  also have "\<dots> \<le> \<bar>a\<bar>" using zdiv_mono2 [of "\<bar>a\<bar>" 1 "\<bar>b\<bar>"] by (cases "b = 0") auto
  finally show ?thesis .
qed

lemma sdiv_overflow_iff:
  assumes "is_int64 a" and "is_int64 b" and "b \<noteq> 0"
  shows "is_int64 (a sdiv b) \<longleftrightarrow> \<not> (a = - (2 ^ 63) \<and> b = -1)"
proof (cases "a = - (2 ^ 63) \<and> b = -1")
  case True
  then show ?thesis by (auto simp: is_int64_def signed_divide_int_def)
next
  case False
  have "is_int64 (a sdiv b)"
  proof (rule ccontr)
    assume "\<not> is_int64 (a sdiv b)"
    then have big: "a sdiv b \<ge> 2 ^ 63 \<or> a sdiv b < - (2 ^ 63)" by (auto simp: is_int64_def)
    have le: "\<bar>a sdiv b\<bar> \<le> \<bar>a\<bar>" by (rule abs_sdiv_le)
    have a: "a = - (2 ^ 63)" using assms(1) big le by (auto simp: is_int64_def)
    then have sd: "a sdiv b = 2 ^ 63" using big le by auto
    define q :: int where "q = 2 ^ 63 div \<bar>b\<bar>"
    have "\<bar>a\<bar> = 2 ^ 63" "sgn a = -1" using a by simp_all
    then have "- sgn b * q = 2 ^ 63" using sd by (simp only: signed_divide_int_def q_def)
    moreover have "0 \<le> q" using assms(3) by (simp add: q_def pos_imp_zdiv_nonneg_iff)
    ultimately have s: "b < 0" and "q = 2 ^ 63"
      using assms(3) by (cases "b < 0"; simp add: sgn_if)+
    then have d: "2 ^ 63 div \<bar>b\<bar> = (2 :: int) ^ 63" unfolding q_def by simp
    have "\<bar>b\<bar> = 1"
    proof (rule ccontr)
      assume "\<bar>b\<bar> \<noteq> 1"
      then have "1 < \<bar>b\<bar>" using assms(3) by linarith
      then have "2 ^ 63 div \<bar>b\<bar> < (2 :: int) ^ 63" by (intro int_div_less_self) auto
      with d show False by simp
    qed
    with s a False show False by auto
  qed
  with False show ?thesis by simp
qed

section \<open>Properties\<close>

text \<open>
  Codecs for closed examples: one request, \<open>[1]\<close> on the wire, and responses under the id 9, a
  result behind a zero byte and the error 404 as \<open>[1]\<close>.
\<close>

definition sample_pb :: "request \<Rightarrow> protobuf" where
  "sample_pb req = \<lparr>
     pb_parse_request = (\<lambda>b. if b = [1] then Some req else None),
     pb_ser_request = (\<lambda>_. [1]),
     pb_parse_response = (\<lambda>b. Some (if b = [1]
        then \<lparr>res_id = 9, res_result = [], res_error = Some (404, ''Not Found'')\<rparr>
        else \<lparr>res_id = 9, res_result = tl b, res_error = None\<rparr>)),
     pb_ser_response = (\<lambda>res. if res_error res = None then 0 # res_result res else [1]),
     pb_parse_num = (\<lambda>b. Some (uint (b ! 0))),
     pb_ser_num = (\<lambda>n. [word_of_int n]),
     pb_parse_login = (\<lambda>_. None), pb_ser_login = (\<lambda>_. []),
     pb_parse_login_result = (\<lambda>_. None), pb_ser_login_result = (\<lambda>_. [])\<rparr>"

definition sample_request :: "string \<Rightarrow> request" where
  "sample_request m = \<lparr>req_id = 9, req_method = m, req_params = [[3], [4]]\<rparr>"

definition sample_handler :: handler where
  "sample_handler pb req res = Inr (res\<lparr>res_result := [7]\<rparr>)"



text \<open>
  Each calculator answers \<^verbatim>\<open>Bad Request\<close> unless it gets two parameters that parse; on two
  parameters of the type the division rejects a zero divisor, and it leaves the defined range
  in exactly one case that the code does not check, the smallest number divided by minus one.
\<close>

theorem calc_div_defined:
  assumes "is_int64 a" and "is_int64 b"
  shows "(calc_params pb req = None \<longrightarrow> calc_div pb req res = Inr (bad_request req res)) \<and>
    (calc_params pb req = Some (a, b) \<longrightarrow>
      calc_div pb req res =
        (if b = 0 then Inr (bad_request req res)
         else if a = - (2 ^ 63) \<and> b = -1 then Inl SignedOverflow
         else Inr (res\<lparr>res_result := pb_ser_num pb (a sdiv b)\<rparr>)))"
  using sdiv_overflow_iff [OF assms] by (simp add: calc_div_def int64_def)

theorem calc_div_defined_witness:
  "calc_div ((sample_pb empty_request)\<lparr>pb_parse_num := (\<lambda>b. if b = [0] then Some (- (2 ^ 63)) else Some (-1))\<rparr>)
     \<lparr>req_id = 9, req_method = ''div'', req_params = [[0], [1]]\<rparr> empty_response = Inl SignedOverflow"
  using calc_div_defined [of "- (2 ^ 63)" "-1"
      "(sample_pb empty_request)\<lparr>pb_parse_num := (\<lambda>b. if b = [0] then Some (- (2 ^ 63)) else Some (-1))\<rparr>"
      "\<lparr>req_id = 9, req_method = ''div'', req_params = [[0], [1]]\<rparr>" empty_response]
  by (simp add: is_int64_def calc_params_def)

end
