(* ===== verification/Rpc_Client.thy ===== *)
theory Rpc_Client
  imports Rpc_Server
begin

text \<open>
  The RPC client of \<^verbatim>\<open>protorpc_client.cpp\<close>: connection state, the table of pending calls with its
  mutex, sending a call, receiving a reply, and the typed wrappers \<^verbatim>\<open>calc\<close> and \<^verbatim>\<open>login\<close>. A call
  is split at its wait: \<open>call_begin\<close> is what happens before, \<open>call_end\<close> what happens after it, so
  that replies can arrive in between.
\<close>

section \<open>State\<close>

datatype connect_state = Initialized | Connecting | Connected | Disconnected

record call_context =
  ctx_req :: request
  ctx_res :: "response option"

record rpc_client =
  cl_state :: connect_state
  cl_calls :: "u64 \<rightharpoonup> call_context"
  cl_locked :: bool
  cl_last_id :: u64

definition rpc_client_new :: rpc_client where
  "rpc_client_new = \<lparr>cl_state = Initialized, cl_calls = Map.empty, cl_locked = False, cl_last_id = 0\<rparr>"

definition rpc_connect :: "rpc_client \<Rightarrow> rpc_client" where
  "rpc_connect c = c\<lparr>cl_state := Connecting\<rparr>"

definition on_connection :: "bool \<Rightarrow> rpc_client \<Rightarrow> rpc_client" where
  "on_connection connected c = c\<lparr>cl_state := (if connected then Connected else Disconnected)\<rparr>"

section \<open>Calls\<close>

text \<open>
  The first part of \<^verbatim>\<open>call\<close>, up to the wait. \<open>junk\<close> is the content of the fresh buffer and
  \<open>raw\<close> the uninitialised message on the stack. The result is the id and the bytes written.
\<close>

definition call_begin ::
  "protobuf \<Rightarrow> (nat \<Rightarrow> u8) \<Rightarrow> protorpc_message \<Rightarrow> request \<Rightarrow> rpc_client \<Rightarrow>
   ((u64 \<times> bytes option) option \<times> rpc_client) res" where
  "call_begin pb junk raw req c =
     (if cl_state c \<noteq> Connected then Inr (None, c)
      else
        let i = cl_last_id c + 1; req' = req\<lparr>req_id := i\<rparr>;
            c' = c\<lparr>cl_last_id := i, cl_calls := (cl_calls c)(i \<mapsto> \<lparr>ctx_req = req', ctx_res = None\<rparr>)\<rparr>
        in bindE (send_reply junk raw (pb_ser_request pb req')) (\<lambda>out. Inr (Some (i, out), c')))"

text \<open>The second part, after the wait: read the result, remove the entry under the mutex.\<close>

definition call_end :: "u64 \<Rightarrow> rpc_client \<Rightarrow> (response option \<times> rpc_client) res" where
  "call_end i c =
     (let res = (case cl_calls c i of None \<Rightarrow> None | Some ctx \<Rightarrow> ctx_res ctx) in
      if cl_locked c then Inl Blocked
      else Inr (res, c\<lparr>cl_calls := (cl_calls c)(i := None)\<rparr>))"

text \<open>
  \<^verbatim>\<open>onMessage\<close>. When the id is unknown the function returns between \<^verbatim>\<open>lock\<close> and
  \<^verbatim>\<open>unlock\<close>.
\<close>

definition on_message :: "protobuf \<Rightarrow> bytes \<Rightarrow> rpc_client \<Rightarrow> rpc_client res" where
  "on_message pb buf c =
     bindE (protorpc_unpack (Some zero_message) (Some buf) (of_nat (length buf))) (\<lambda>(packlen, m).
     case m of
       None \<Rightarrow> Inr c
     | Some msg \<Rightarrow>
         if packlen < 0 then Inr c
         else if packlen \<noteq> int (length buf) then Inl AssertFailed
         else if protorpc_head_check (m_head msg) \<noteq> 0 then Inr c
         else case pb_parse_response pb (message_payload msg) of
           None \<Rightarrow> Inr c
         | Some res \<Rightarrow>
             if cl_locked c then Inl Blocked
             else case cl_calls c (res_id res) of
               None \<Rightarrow> Inr (c\<lparr>cl_locked := True\<rparr>)
             | Some ctx \<Rightarrow> Inr (c\<lparr>cl_calls := (cl_calls c)(res_id res \<mapsto> ctx\<lparr>ctx_res := Some res\<rparr>)\<rparr>))"

section \<open>Typed calls\<close>

definition kRpcSuccess :: int where "kRpcSuccess = 0"
definition kRpcTimeout :: int where "kRpcTimeout = -1"
definition kRpcError :: int where "kRpcError = -2"
definition kRpcNoResult :: int where "kRpcNoResult = -3"
definition kRpcParseError :: int where "kRpcParseError = -4"

definition calc_request :: "protobuf \<Rightarrow> string \<Rightarrow> int \<Rightarrow> int \<Rightarrow> request" where
  "calc_request pb method num1 num2 =
     \<lparr>req_id = 0, req_method = method, req_params = [pb_ser_num pb num1, pb_ser_num pb num2]\<rparr>"

text \<open>The result code and, on success, \<^verbatim>\<open>out\<close>: an \<^verbatim>\<open>int64\<close> stored in an \<^verbatim>\<open>int\<close>.\<close>

definition calc_finish :: "protobuf \<Rightarrow> response option \<Rightarrow> int \<times> int option" where
  "calc_finish pb r =
     (case r of
        None \<Rightarrow> (kRpcTimeout, None)
      | Some res \<Rightarrow>
          if res_error res \<noteq> None then (kRpcError, None)
          else if res_result res = [] then (kRpcNoResult, None)
          else case pb_parse_num pb (res_result res) of
            None \<Rightarrow> (kRpcParseError, None)
          | Some n \<Rightarrow> (kRpcSuccess, Some (signed_take_bit 31 n)))"

definition login_request :: "protobuf \<Rightarrow> login_param \<Rightarrow> request" where
  "login_request pb p = \<lparr>req_id = 0, req_method = ''login'', req_params = [pb_ser_login pb p]\<rparr>"

definition login_finish :: "protobuf \<Rightarrow> response option \<Rightarrow> int \<times> login_result option" where
  "login_finish pb r =
     (case r of
        None \<Rightarrow> (kRpcTimeout, None)
      | Some res \<Rightarrow>
          if res_error res \<noteq> None then (kRpcError, None)
          else if res_result res = [] then (kRpcNoResult, None)
          else case pb_parse_login_result pb (res_result res) of
            None \<Rightarrow> (kRpcParseError, None)
          | Some l \<Rightarrow> (kRpcSuccess, Some l))"

section \<open>Receiving a reply\<close>

lemma on_message_frame:
  assumes l: "length payload < 2 ^ 31 - 12" and r: "pb_parse_response pb payload = Some res" and k: "\<not> cl_locked c"
  shows "on_message pb (frame (mk_message fl payload)) c =
    (case cl_calls c (res_id res) of
       None \<Rightarrow> Inr (c\<lparr>cl_locked := True\<rparr>)
     | Some ctx \<Rightarrow> Inr (c\<lparr>cl_calls := (cl_calls c)(res_id res \<mapsto> ctx\<lparr>ctx_res := Some res\<rparr>)\<rparr>))"
  using unpack_own_frame [OF l, of fl] r k by (auto simp: on_message_def)

text \<open>One call over the wire, up to its completion.\<close>

lemma call_completes:
  fixes c :: rpc_client and req :: request and pb :: protobuf
  defines "i \<equiv> cl_last_id c + 1"
  defines "req' \<equiv> req\<lparr>req_id := i\<rparr>"
  assumes con: "cl_state c = Connected" and k: "\<not> cl_locked c"
    and p: "pb_parse_request pb (pb_ser_request pb req') = Some req'"
    and r: "route table pb req' (empty_response\<lparr>res_id := i\<rparr>) = Inr res" and id: "res_id res = i"
    and q: "pb_parse_response pb (pb_ser_response pb res) = Some res"
    and l: "length (pb_ser_request pb req') < 2 ^ 31 - 12" and l': "length (pb_ser_response pb res) < 2 ^ 31 - 12"
  shows "\<exists>out c1 reply c2 c3. call_begin pb junk raw req c = Inr (Some (i, Some out), c1) \<and>
    handleMessage table pb junk' out = Inr (Some reply) \<and> on_message pb reply c1 = Inr c2 \<and>
    call_end i c2 = Inr (Some res, c3) \<and> cl_calls c3 = (cl_calls c)(i := None) \<and> \<not> cl_locked c3"
proof -
  let ?fl = "h_flags (m_head raw)"
  let ?c1 = "c\<lparr>cl_last_id := i, cl_calls := (cl_calls c)(i \<mapsto> \<lparr>ctx_req = req', ctx_res = None\<rparr>)\<rparr>"
  let ?out = "frame (mk_message ?fl (pb_ser_request pb req'))"
  let ?reply = "frame (mk_message ?fl (pb_ser_response pb res))"
  have b: "call_begin pb junk raw req c = Inr (Some (i, Some ?out), ?c1)"
    using con l send_reply_frame [of "pb_ser_request pb req'" junk raw]
    by (simp add: call_begin_def Let_def i_def [symmetric] req'_def [symmetric])
  have "respond table pb (pb_ser_request pb req') = Inr res"
    using p r by (simp add: respond_def) (simp add: req'_def)
  then have h: "handleMessage table pb junk' ?out = Inr (Some ?reply)"
    using l l' by (intro handleMessage_frame)
  have "on_message pb ?reply ?c1 =
      Inr (?c1\<lparr>cl_calls := (cl_calls ?c1)(i \<mapsto> \<lparr>ctx_req = req', ctx_res = Some res\<rparr>)\<rparr>)"
    using on_message_frame [OF l' q, of ?c1 ?fl] k id by simp
  with b h k show ?thesis by (auto simp: call_end_def Let_def)
qed

definition connected_client :: rpc_client where
  "connected_client = rpc_client_new\<lparr>cl_state := Connected, cl_last_id := 8\<rparr>"

section \<open>Properties\<close>





text \<open>
  A reply whose id is not pending, such as one that comes after its call timed out, leaves the
  mutex of the call table locked: the client accepts it silently, and from then on no call can
  finish.
\<close>

theorem late_reply_blocks_client:
  assumes "\<not> cl_locked c" and "cl_calls c (res_id res) = None"
    and "pb_parse_response pb payload = Some res" and "length payload < 2 ^ 31 - 12"
  shows "\<exists>c'. on_message pb (frame (mk_message fl payload)) c = Inr c' \<and> (\<forall>i. call_end i c' = Inl Blocked)"
  using on_message_frame [OF assms(4,3,1), of fl] assms(2) by (simp add: call_end_def Let_def)

theorem late_reply_blocks_client_witness:
  "\<exists>c'. on_message (sample_pb empty_request) (frame (mk_message 0 [0, 7])) connected_client = Inr c' \<and>
     call_end 3 c' = Inl Blocked"
  using late_reply_blocks_client [of connected_client "\<lparr>res_id = 9, res_result = [7], res_error = None\<rparr>"
      "sample_pb empty_request" "[0, 7]" 0]
  by (auto simp: sample_pb_def connected_client_def rpc_client_new_def)

end
