(* ===== verification/Work_Queue.thy ===== *)
theory Work_Queue
  imports Prelude
begin

text \<open>
  The task queue of \<^verbatim>\<open>work_queue.h\<close>. Every operation holds the queue's mutex from its first to its
  last statement, so each is one atomic step on the list of waiting elements.
\<close>

section \<open>Operations\<close>

record 'a WorkQueue =
  work_queue :: "'a list"

definition WorkQueue_new :: "'a WorkQueue" where
  "WorkQueue_new = \<lparr>work_queue = []\<rparr>"

definition WorkQueue_Empty :: "'a WorkQueue \<Rightarrow> bool" where
  "WorkQueue_Empty q \<longleftrightarrow> work_queue q = []"

text \<open>\<^verbatim>\<open>size_t\<close> returned as an \<^verbatim>\<open>int\<close>.\<close>

definition WorkQueue_Size :: "'a WorkQueue \<Rightarrow> int" where
  "WorkQueue_Size q = signed_take_bit 31 (int (length (work_queue q)))"

definition PushQueue :: "'a \<Rightarrow> 'a WorkQueue \<Rightarrow> 'a WorkQueue" where
  "PushQueue t q = q\<lparr>work_queue := work_queue q @ [t]\<rparr>"

text \<open>The result, the new value of the reference argument \<open>t\<close>, and the queue.\<close>

definition PopQueue :: "'a option \<Rightarrow> 'a WorkQueue \<Rightarrow> bool \<times> 'a option \<times> 'a WorkQueue" where
  "PopQueue t q =
     (if work_queue q = [] then (False, t, q)
      else (True, Some (hd (work_queue q)), q\<lparr>work_queue := tl (work_queue q)\<rparr>))"

section \<open>The interface\<close>

text \<open>First in, first out: what is popped is what was pushed, in the same order.\<close>

fun pop_many :: "('a option \<Rightarrow> 'q \<Rightarrow> bool \<times> 'a option \<times> 'q) \<Rightarrow> nat \<Rightarrow> 'q \<Rightarrow> 'a list \<times> 'q" where
  "pop_many pop 0 q = ([], q)"
| "pop_many pop (Suc n) q =
     (case pop None q of
        (True, Some x, q') \<Rightarrow> (let (xs, q'') = pop_many pop n q' in (x # xs, q''))
      | _ \<Rightarrow> ([], q))"

locale fifo =
  fixes waiting :: "'q \<Rightarrow> 'a list"
    and fresh :: 'q
    and is_empty :: "'q \<Rightarrow> bool"
    and push :: "'a \<Rightarrow> 'q \<Rightarrow> 'q"
    and pop :: "'a option \<Rightarrow> 'q \<Rightarrow> bool \<times> 'a option \<times> 'q"
  assumes fresh_waiting: "waiting fresh = []"
    and empty_iff: "is_empty q \<longleftrightarrow> waiting q = []"
    and push_waiting: "waiting (push x q) = waiting q @ [x]"
    and pop_none: "waiting q = [] \<Longrightarrow> pop t q = (False, t, q)"
    and pop_some: "waiting q = x # xs \<Longrightarrow> \<exists>q'. pop t q = (True, Some x, q') \<and> waiting q' = xs"
begin

lemma push_many: "waiting (fold push xs q) = waiting q @ xs"
  by (induction xs arbitrary: q) (auto simp: push_waiting)

lemma pop_many_waiting:
  "waiting q = xs @ ys \<Longrightarrow> \<exists>q'. pop_many pop (length xs) q = (xs, q') \<and> waiting q' = ys"
proof (induction xs arbitrary: q)
  case Nil
  then show ?case by simp
next
  case (Cons x xs)
  obtain q1 where q1: "pop None q = (True, Some x, q1)" "waiting q1 = xs @ ys"
    using pop_some [of q x "xs @ ys" None] Cons.prems by auto
  from Cons.IH [OF q1(2)] q1(1) show ?case by auto
qed

lemma first_in_first_out:
  "\<exists>q'. pop_many pop (length xs) (fold push xs fresh) = (xs, q') \<and> is_empty q'"
  using pop_many_waiting [of "fold push xs fresh" xs "[]"] push_many [of xs fresh] fresh_waiting empty_iff
  by auto

end

interpretation wq: fifo work_queue WorkQueue_new WorkQueue_Empty PushQueue PopQueue
  by unfold_locales (auto simp: WorkQueue_new_def WorkQueue_Empty_def PushQueue_def PopQueue_def)

section \<open>Properties\<close>

text \<open>
  The work queue is first in, first out: after any tasks were pushed on a fresh queue, as many
  pops return exactly these tasks in the order of their submission and leave the queue empty; a
  pop on the empty queue reports failure and leaves its argument alone.
\<close>

theorem work_queue_fifo:
  "(\<exists>q'. pop_many PopQueue (length xs) (fold PushQueue xs WorkQueue_new) = (xs, q') \<and> WorkQueue_Empty q') \<and>
   PopQueue t WorkQueue_new = (False, t, WorkQueue_new)"
  using wq.first_in_first_out wq.pop_none wq.fresh_waiting by blast

end
