(* ===== verification/Thread_Pool.thy ===== *)
theory Thread_Pool
  imports Step_Systems Work_Queue "HOL-Library.Multiset"
begin

text \<open>
  The thread pool of \<^verbatim>\<open>thread_pool.h\<close> as a step relation: the worker threads, the threads that
  submit work and the thread that shuts the pool down each contribute atomic actions, in any
  order. A condition variable is modelled as the standard describes it: waiting releases the
  mutex and puts the thread to sleep in one action, a notification wakes a sleeping thread if
  there is one and is lost otherwise, and a sleeping thread may wake by itself. Accesses to the
  flag \<^verbatim>\<open>shutdown_\<close> are taken to be atomic.
\<close>

section \<open>State\<close>

text \<open>
  Where a worker is in \<^verbatim>\<open>WorkThread_::operator()\<close>: at the test of the \<^verbatim>\<open>while\<close> loop, before
  the mutex, at the predicate of \<^verbatim>\<open>wait\<close>, about to sleep, asleep, before \<^verbatim>\<open>PopQueue\<close>, after the
  loop, returned, or stopped by a fault.
\<close>

datatype worker_pc =
  WTest | WLock | WPred | WPark | WSleep | WPop | WFinal | WDone | WCrashed fault

text \<open>
  A worker's two locals: \<^verbatim>\<open>function\<close>, where \<open>None\<close> is the empty function, and \<^verbatim>\<open>pop_queue\<close>,
  where \<open>None\<close> is the value before the first assignment.
\<close>

record 'a WorkThread =
  wk_pc :: worker_pc
  wk_function :: "'a option"
  wk_pop_queue :: "bool option"

definition WorkThread_new :: "'a WorkThread" where
  "WorkThread_new = \<lparr>wk_pc = WTest, wk_function = None, wk_pop_queue = None\<rparr>"

text \<open>Where the thread is that calls \<^verbatim>\<open>Shutdown\<close>: not yet there, between the flag and the
  notification, joining the workers one after the other, returned.\<close>

datatype shutdown_pc = Open | Notifying | Joining nat | Joined

text \<open>
  The pool. \<open>notifies\<close> counts the calls of \<^verbatim>\<open>SubmitWork\<close> between their push and their
  notification; \<open>submitted\<close> and \<open>executed\<close> record what happened: the tasks in the order of
  their submission, and which worker ran which task. The future that \<^verbatim>\<open>SubmitWork\<close> returns for a
  task becomes ready exactly when the task is recorded as executed.
\<close>

record 'a ThreadPool =
  thread_number :: int
  shutdown :: bool
  tp_queue :: "'a WorkQueue"
  tp_worker :: "nat \<Rightarrow> 'a WorkThread"
  cond_owner :: "nat option"
  notifies :: nat
  tp_main :: shutdown_pc
  submitted :: "'a list"
  executed :: "(nat \<times> 'a) list"

definition ThreadPool_new :: "int \<Rightarrow> 'a ThreadPool res" where
  "ThreadPool_new n =
     (if n < 0 then Inl LengthError
      else Inr \<lparr>thread_number = n, shutdown = False, tp_queue = WorkQueue_new,
                tp_worker = (\<lambda>_. WorkThread_new), cond_owner = None, notifies = 0,
                tp_main = Open, submitted = [], executed = []\<rparr>)"

definition ThreadPool_Size :: "'a ThreadPool \<Rightarrow> int" where
  "ThreadPool_Size p = thread_number p"

definition IsShutdown :: "'a ThreadPool \<Rightarrow> bool" where
  "IsShutdown p = shutdown p"

abbreviation tp_count :: "'a ThreadPool \<Rightarrow> nat" where
  "tp_count p \<equiv> nat (thread_number p)"

abbreviation pc_of :: "'a ThreadPool \<Rightarrow> nat \<Rightarrow> worker_pc" where
  "pc_of p i \<equiv> wk_pc (tp_worker p i)"

section \<open>Operations\<close>

definition set_worker :: "nat \<Rightarrow> 'a WorkThread \<Rightarrow> 'a ThreadPool \<Rightarrow> 'a ThreadPool" where
  "set_worker i w p = p\<lparr>tp_worker := (tp_worker p)(i := w)\<rparr>"

definition goto :: "nat \<Rightarrow> worker_pc \<Rightarrow> 'a ThreadPool \<Rightarrow> 'a ThreadPool" where
  "goto i c p = set_worker i ((tp_worker p i)\<lparr>wk_pc := c\<rparr>) p"

text \<open>The call \<^verbatim>\<open>if(pop_queue) function()\<close> after the loop.\<close>

definition worker_final :: "nat \<Rightarrow> 'a ThreadPool \<Rightarrow> 'a ThreadPool" where
  "worker_final i p =
     (case wk_pop_queue (tp_worker p i) of
        None \<Rightarrow> goto i (WCrashed Uninit) p
      | Some False \<Rightarrow> goto i WDone p
      | Some True \<Rightarrow>
          (case wk_function (tp_worker p i) of
             None \<Rightarrow> goto i (WCrashed BadFunctionCall) p
           | Some t \<Rightarrow> goto i WDone (p\<lparr>executed := executed p @ [(i, t)]\<rparr>)))"

definition worker_pop :: "nat \<Rightarrow> 'a ThreadPool \<Rightarrow> 'a ThreadPool" where
  "worker_pop i p =
     (case PopQueue (wk_function (tp_worker p i)) (tp_queue p) of
        (b, f, q) \<Rightarrow>
          set_worker i \<lparr>wk_pc = WTest, wk_function = f, wk_pop_queue = Some b\<rparr>
            (p\<lparr>tp_queue := q, cond_owner := None\<rparr>))"

text \<open>The next action of worker \<open>i\<close>; \<open>None\<close> when it has to wait or has ended.\<close>

definition worker_step :: "nat \<Rightarrow> 'a ThreadPool \<Rightarrow> 'a ThreadPool option" where
  "worker_step i p =
     (case pc_of p i of
        WTest \<Rightarrow> Some (goto i (if shutdown p then WFinal else WLock) p)
      | WLock \<Rightarrow>
          (if cond_owner p = None then Some (goto i WPred (p\<lparr>cond_owner := Some i\<rparr>)) else None)
      | WPred \<Rightarrow> Some (goto i (if WorkQueue_Empty (tp_queue p) then WPark else WPop) p)
      | WPark \<Rightarrow> Some (goto i WSleep (p\<lparr>cond_owner := None\<rparr>))
      | WSleep \<Rightarrow> None
      | WPop \<Rightarrow> Some (worker_pop i p)
      | WFinal \<Rightarrow> Some (worker_final i p)
      | WDone \<Rightarrow> None
      | WCrashed e \<Rightarrow> None)"

text \<open>\<^verbatim>\<open>SubmitWork\<close>: the push, and later the notification, which wakes the sleeping worker
  \<open>w\<close> (any of them) or is lost.\<close>

definition submit_push :: "'a \<Rightarrow> 'a ThreadPool \<Rightarrow> 'a ThreadPool" where
  "submit_push t p = p\<lparr>tp_queue := PushQueue t (tp_queue p), submitted := submitted p @ [t],
                      notifies := Suc (notifies p)\<rparr>"

definition sleepers :: "'a ThreadPool \<Rightarrow> nat list" where
  "sleepers p = filter (\<lambda>i. pc_of p i = WSleep) [0..<tp_count p]"

definition submit_notify :: "nat \<Rightarrow> 'a ThreadPool \<Rightarrow> 'a ThreadPool option" where
  "submit_notify w p =
     (if notifies p = 0 then None
      else if sleepers p = [] then Some (p\<lparr>notifies := notifies p - 1\<rparr>)
      else if w \<in> set (sleepers p) then Some (goto w WLock (p\<lparr>notifies := notifies p - 1\<rparr>))
      else None)"

text \<open>A sleeping worker that wakes without a notification.\<close>

definition spurious_wake :: "nat \<Rightarrow> 'a ThreadPool \<Rightarrow> 'a ThreadPool option" where
  "spurious_wake w p = (if w \<in> set (sleepers p) then Some (goto w WLock p) else None)"

text \<open>The actions of \<^verbatim>\<open>Shutdown\<close>; \<^verbatim>\<open>join\<close> waits for the worker to return.\<close>

definition Shutdown_step :: "'a ThreadPool \<Rightarrow> 'a ThreadPool option" where
  "Shutdown_step p =
     (case tp_main p of
        Open \<Rightarrow> Some (p\<lparr>shutdown := True, tp_main := Notifying\<rparr>)
      | Notifying \<Rightarrow> Some (fold (\<lambda>w. goto w WLock) (sleepers p) p\<lparr>tp_main := Joining 0\<rparr>)
      | Joining k \<Rightarrow>
          (if tp_count p \<le> k then Some (p\<lparr>tp_main := Joined\<rparr>)
           else if pc_of p k = WDone then Some (p\<lparr>tp_main := Joining (Suc k)\<rparr>)
           else None)
      | Joined \<Rightarrow> None)"

text \<open>All actions but a submission, and all actions.\<close>

inductive tp_internal :: "'a ThreadPool \<Rightarrow> 'a ThreadPool \<Rightarrow> bool" where
  work: "i < tp_count p \<Longrightarrow> worker_step i p = Some p' \<Longrightarrow> tp_internal p p'"
| notify: "submit_notify w p = Some p' \<Longrightarrow> tp_internal p p'"
| spurious: "spurious_wake w p = Some p' \<Longrightarrow> tp_internal p p'"
| stop: "Shutdown_step p = Some p' \<Longrightarrow> tp_internal p p'"

inductive tp_step :: "'a ThreadPool \<Rightarrow> 'a ThreadPool \<Rightarrow> bool" where
  internal: "tp_internal p p' \<Longrightarrow> tp_step p p'"
| submit: "tp_step p (submit_push t p)"

definition tp_start :: "'a ThreadPool \<Rightarrow> bool" where
  "tp_start p \<longleftrightarrow> ThreadPool_new (thread_number p) = Inr p"

definition tp_reach :: "'a ThreadPool \<Rightarrow> bool" where
  "tp_reach p \<longleftrightarrow> (\<exists>p0. tp_start p0 \<and> tp_step\<^sup>*\<^sup>* p0 p)"

lemmas tp_exec [exec] =
  ThreadPool_new_def WorkThread_new_def set_worker_def goto_def worker_final_def worker_pop_def
  worker_step_def submit_push_def sleepers_def submit_notify_def spurious_wake_def Shutdown_step_def
  WorkQueue_new_def WorkQueue_Empty_def PushQueue_def PopQueue_def

section \<open>Invariant\<close>

text \<open>What a worker still holds and has not run; a returned worker holds nothing.\<close>

definition held :: "'a WorkThread \<Rightarrow> 'a multiset" where
  "held w = (if wk_pc w = WDone then {#} else (case wk_function w of None \<Rightarrow> {#} | Some t \<Rightarrow> {#t#}))"

text \<open>
  A worker leaves the loop only after the flag was set; every executed task was run by a worker
  that has returned, each by a different one; and what was executed, waits or is held are distinct
  submissions.
\<close>

fun left_loop :: "worker_pc \<Rightarrow> bool" where
  "left_loop WFinal = True"
| "left_loop WDone = True"
| "left_loop (WCrashed e) = True"
| "left_loop c = False"

definition tasks_in :: "'a ThreadPool \<Rightarrow> 'a multiset" where
  "tasks_in p = mset (map snd (executed p)) + mset (work_queue (tp_queue p)) +
     (\<Sum>i<tp_count p. held (tp_worker p i))"

definition tp_inv :: "'a ThreadPool \<Rightarrow> bool" where
  "tp_inv p \<longleftrightarrow>
     (\<forall>i. left_loop (pc_of p i) \<longrightarrow> shutdown p) \<and>
     (\<forall>i t. (i, t) \<in> set (executed p) \<longrightarrow> i < tp_count p \<and> pc_of p i = WDone) \<and>
     distinct (map fst (executed p)) \<and>
     tasks_in p \<subseteq># mset (submitted p) \<and> 0 \<le> thread_number p"

lemma tp_inv_start: "tp_start p \<Longrightarrow> tp_inv p"
  by (cases p) (auto simp: tp_start_def tp_exec tp_inv_def tasks_in_def held_def split: if_splits)

text \<open>Replacing one worker exchanges what it holds.\<close>

lemma held_exchange:
  fixes f :: "nat \<Rightarrow> 'a WorkThread"
  assumes "i < n"
  shows "(\<Sum>j<n. held ((f(i := w)) j)) + held (f i) = (\<Sum>j<n. held (f j)) + held w"
proof -
  have "(\<Sum>j<n. held (g j)) = held (g i) + (\<Sum>j \<in> {..<n} - {i}. held (g j))" for g :: "nat \<Rightarrow> 'a WorkThread"
    using assms by (simp add: sum.remove)
  from this [of f] this [of "f(i := w)"] show ?thesis by simp
qed

lemma tasks_in_same_held:
  assumes "\<And>i. held (tp_worker p' i) = held (tp_worker p i)" and "executed p' = executed p"
    and "tp_queue p' = tp_queue p" and "thread_number p' = thread_number p"
  shows "tasks_in p' = tasks_in p"
  using assms by (simp add: tasks_in_def)

text \<open>
  Actions that leave queue and records alone, move workers only between places where they keep
  what they hold, and never reset the flag.
\<close>

lemma tp_inv_quiet:
  assumes inv: "tp_inv p"
    and w: "\<And>i. wk_function (tp_worker p' i) = wk_function (tp_worker p i)"
    and ret: "\<And>i. pc_of p' i = WDone \<longleftrightarrow> pc_of p i = WDone"
    and out: "\<And>i. left_loop (pc_of p' i) \<Longrightarrow> left_loop (pc_of p i) \<or> shutdown p"
    and flag: "shutdown p \<Longrightarrow> shutdown p'"
    and same: "executed p' = executed p" "tp_queue p' = tp_queue p" "submitted p' = submitted p"
      "thread_number p' = thread_number p"
  shows "tp_inv p'"
proof -
  have "tasks_in p' = tasks_in p"
    by (rule tasks_in_same_held) (simp_all add: held_def w ret same)
  then show ?thesis
    using inv w ret out flag same unfolding tp_inv_def by fastforce
qed

lemma tp_inv_goto:
  assumes "tp_inv p" and "pc_of p i \<noteq> WDone" and "c \<noteq> WDone" and "left_loop c \<Longrightarrow> shutdown p"
  shows "tp_inv (goto i c p)"
  by (rule tp_inv_quiet [of p]) (use assms in \<open>auto simp: goto_def set_worker_def split: if_splits\<close>)

lemma tp_inv_owner [simp]: "tp_inv (p\<lparr>cond_owner := o1\<rparr>) \<longleftrightarrow> tp_inv p"
  by (simp add: tp_inv_def tasks_in_def)

lemma tp_inv_notifies [simp]: "tp_inv (p\<lparr>notifies := k\<rparr>) \<longleftrightarrow> tp_inv p"
  by (simp add: tp_inv_def tasks_in_def)

lemma tp_inv_main [simp]: "tp_inv (p\<lparr>tp_main := m\<rparr>) \<longleftrightarrow> tp_inv p"
  by (simp add: tp_inv_def tasks_in_def)

lemma tp_inv_flag: "tp_inv p \<Longrightarrow> tp_inv (p\<lparr>shutdown := True\<rparr>)"
  by (erule tp_inv_quiet) auto

lemma tp_inv_pop:
  assumes inv: "tp_inv p" and i: "i < tp_count p" and pc: "pc_of p i = WPop"
  shows "tp_inv (worker_pop i p)"
proof (cases "work_queue (tp_queue p)")
  case Nil
  have "tasks_in (worker_pop i p) = tasks_in p"
    by (rule tasks_in_same_held) (auto simp: worker_pop_def PopQueue_def set_worker_def held_def Nil pc)
  with inv pc show ?thesis
    by (auto simp: tp_inv_def worker_pop_def PopQueue_def set_worker_def Nil)
next
  case (Cons t ts)
  let ?w = "\<lparr>wk_pc = WTest, wk_function = Some t, wk_pop_queue = Some True\<rparr>"
  have p': "worker_pop i p = set_worker i ?w (p\<lparr>tp_queue := tp_queue p\<lparr>work_queue := ts\<rparr>, cond_owner := None\<rparr>)"
    by (simp add: worker_pop_def PopQueue_def Cons)
  have "tasks_in (worker_pop i p) + held (tp_worker p i) = tasks_in p"
    using held_exchange [OF i, of "tp_worker p" ?w]
    by (simp add: tasks_in_def p' set_worker_def Cons held_def [of ?w] ac_simps)
  then have "tasks_in (worker_pop i p) \<subseteq># tasks_in p"
    by (metis mset_subset_eq_add_left)
  then show ?thesis
    using inv pc unfolding tp_inv_def
    by (auto simp: p' set_worker_def split: if_splits intro: subset_mset.order_trans)
qed

lemma tp_inv_return:
  assumes inv: "tp_inv p" and i: "i < tp_count p" and pc: "pc_of p i = WFinal"
    and f: "wk_function (tp_worker p i) = Some t"
  shows "tp_inv (goto i WDone (p\<lparr>executed := executed p @ [(i, t)]\<rparr>))" (is "tp_inv ?p")
proof -
  let ?w = "(tp_worker p i)\<lparr>wk_pc := WDone\<rparr>"
  have "(\<Sum>j<tp_count p. held (((tp_worker p)(i := ?w)) j)) + {#t#} = (\<Sum>j<tp_count p. held (tp_worker p j))"
    using held_exchange [OF i, of "tp_worker p" ?w] by (simp add: held_def [of "tp_worker p i"] held_def [of ?w] pc f)
  then have "tasks_in ?p = tasks_in p"
    by (simp add: tasks_in_def goto_def set_worker_def ac_simps flip: add_mset_add_single)
  moreover have "i \<notin> fst ` set (executed p)" and "shutdown p"
    using inv pc by (force simp: tp_inv_def dest: spec [of _ i])+
  ultimately show ?thesis
    using inv i unfolding tp_inv_def by (auto simp: goto_def set_worker_def)
qed

lemma tp_inv_skip:
  assumes inv: "tp_inv p" and i: "i < tp_count p" and pc: "pc_of p i = WFinal"
  shows "tp_inv (goto i WDone p)"
proof -
  let ?w = "(tp_worker p i)\<lparr>wk_pc := WDone\<rparr>"
  have "tasks_in (goto i WDone p) + held (tp_worker p i) = tasks_in p"
    using held_exchange [OF i, of "tp_worker p" ?w]
    by (simp add: tasks_in_def goto_def set_worker_def held_def [of ?w] ac_simps)
  then have "tasks_in (goto i WDone p) \<subseteq># tasks_in p"
    by (metis mset_subset_eq_add_left)
  moreover have "shutdown p" using inv pc by (metis tp_inv_def left_loop.simps(1))
  ultimately show ?thesis
    using inv unfolding tp_inv_def
    by (auto simp: goto_def set_worker_def split: if_splits intro: subset_mset.order_trans)
qed

lemma tp_inv_final:
  assumes inv: "tp_inv p" and i: "i < tp_count p" and pc: "pc_of p i = WFinal"
  shows "tp_inv (worker_final i p)"
proof -
  have "shutdown p" using inv pc by (metis tp_inv_def left_loop.simps(1))
  then have "tp_inv (goto i (WCrashed e) p)" for e
    using inv pc by (intro tp_inv_goto) auto
  then show ?thesis
    using tp_inv_skip [OF assms] tp_inv_return [OF assms]
    by (auto simp: worker_final_def split: option.split bool.split)
qed

lemma tp_inv_worker:
  assumes inv: "tp_inv p" and i: "i < tp_count p" and step: "worker_step i p = Some p'"
  shows "tp_inv p'"
proof (cases "pc_of p i")
  case WPop
  then show ?thesis using step tp_inv_pop [OF inv i] by (simp add: worker_step_def)
next
  case WFinal
  then show ?thesis using step tp_inv_final [OF inv i] by (simp add: worker_step_def)
qed (use inv step in \<open>auto simp: worker_step_def intro!: tp_inv_goto split: if_splits\<close>)

lemma tp_inv_wake:
  assumes "tp_inv p" and "set ws \<subseteq> set (sleepers p)"
  shows "tp_inv (fold (\<lambda>w. goto w WLock) ws p)"
proof -
  have "fold (\<lambda>w. goto w WLock) ws p =
      p\<lparr>tp_worker := \<lambda>i. if i \<in> set ws then (tp_worker p i)\<lparr>wk_pc := WLock\<rparr> else tp_worker p i\<rparr>" for p :: "'a ThreadPool"
    by (induction ws arbitrary: p) (auto simp: goto_def set_worker_def fun_eq_iff)
  then show ?thesis
    by (intro tp_inv_quiet [OF assms(1)]) (use assms in \<open>auto simp: sleepers_def split: if_splits\<close>)
qed

lemma tp_inv_wake_one: "tp_inv p \<Longrightarrow> w \<in> set (sleepers p) \<Longrightarrow> tp_inv (goto w WLock p)"
  using tp_inv_wake [of p "[w]"] by simp

lemma tp_inv_shutdown:
  assumes "tp_inv p" and "Shutdown_step p = Some p'"
  shows "tp_inv p'"
  using assms tp_inv_wake [of p "sleepers p"]
  by (auto simp: Shutdown_step_def intro: tp_inv_flag split: shutdown_pc.splits if_splits)

lemma tp_inv_submit: "tp_inv p \<Longrightarrow> tp_inv (submit_push t p)"
  by (auto simp: submit_push_def tp_inv_def tasks_in_def PushQueue_def ac_simps)

lemma tp_inv_notify:
  assumes "tp_inv p" and "submit_notify w p = Some p'"
  shows "tp_inv p'"
proof -
  have "sleepers (p\<lparr>notifies := k\<rparr>) = sleepers p" for k by (simp add: sleepers_def)
  then show ?thesis
    using assms tp_inv_wake_one [of "p\<lparr>notifies := notifies p - 1\<rparr>" w]
    by (auto simp: submit_notify_def split: if_splits)
qed

lemma tp_inv_step: "tp_inv p \<Longrightarrow> tp_step p p' \<Longrightarrow> tp_inv p'"
  by (erule tp_step.cases, erule tp_internal.cases)
    (auto intro: tp_inv_worker tp_inv_notify tp_inv_shutdown tp_inv_submit tp_inv_wake_one
      simp: spurious_wake_def split: if_splits)

interpretation tp: step_invariant tp_start tp_step tp_inv
  by unfold_locales (auto intro: tp_inv_start tp_inv_step)

lemma tp_reach_inv: "tp_reach p \<Longrightarrow> tp_inv p"
  by (auto simp: tp_reach_def intro: tp.reached_good)

section \<open>A shutdown that does not return\<close>

text \<open>A worker that is inside \<^verbatim>\<open>wait\<close> while the queue is empty, and not yet joined.\<close>

definition in_wait :: "worker_pc \<Rightarrow> bool" where
  "in_wait c \<longleftrightarrow> c \<in> {WLock, WPred, WPark, WSleep}"

definition waits_forever :: "nat \<Rightarrow> 'a ThreadPool \<Rightarrow> bool" where
  "waits_forever i p \<longleftrightarrow>
     i < tp_count p \<and> in_wait (pc_of p i) \<and> WorkQueue_Empty (tp_queue p) \<and>
     (case tp_main p of Joined \<Rightarrow> False | Joining k \<Rightarrow> k \<le> i | _ \<Rightarrow> True)"

lemma goto_fields [simp]:
  "tp_queue (goto i c p) = tp_queue p" "tp_main (goto i c p) = tp_main p"
  "thread_number (goto i c p) = thread_number p"
  "pc_of (goto i c p) j = (if j = i then c else pc_of p j)"
  by (simp_all add: goto_def set_worker_def)

lemma wake_all_fields [simp]:
  "tp_queue (fold (\<lambda>w. goto w WLock) ws p) = tp_queue p"
  "thread_number (fold (\<lambda>w. goto w WLock) ws p) = thread_number p"
  "pc_of (fold (\<lambda>w. goto w WLock) ws p) j = (if j \<in> set ws then WLock else pc_of p j)"
  by (induction ws arbitrary: p) auto

lemma waits_worker:
  "waits_forever i p \<Longrightarrow> worker_step j p = Some p' \<Longrightarrow> waits_forever i p'"
  by (auto simp: waits_forever_def worker_step_def worker_pop_def worker_final_def in_wait_def
      set_worker_def WorkQueue_Empty_def PopQueue_def
      split: worker_pc.splits if_splits option.splits bool.splits)

lemma waits_shutdown: "waits_forever i p \<Longrightarrow> Shutdown_step p = Some p' \<Longrightarrow> waits_forever i p'"
  by (auto simp: waits_forever_def Shutdown_step_def in_wait_def Suc_le_eq order.order_iff_strict
      split: shutdown_pc.splits if_splits)

lemma waits_wake: "waits_forever i p \<Longrightarrow> waits_forever i (goto w WLock p)"
  by (auto simp: waits_forever_def in_wait_def)

lemma waits_notifies [simp]: "waits_forever i (p\<lparr>notifies := k\<rparr>) \<longleftrightarrow> waits_forever i p"
  by (simp add: waits_forever_def)

lemma waits_internal: "waits_forever i p \<Longrightarrow> tp_internal p p' \<Longrightarrow> waits_forever i p'"
  by (erule tp_internal.cases)
    (auto intro: waits_worker waits_shutdown waits_wake
      simp: submit_notify_def spurious_wake_def split: if_splits)

interpretation tw: step_invariant "waits_forever i" tp_internal "waits_forever i" for i
  by unfold_locales (auto intro: waits_internal)

section \<open>Properties\<close>

text \<open>
  C33: As long as \<^verbatim>\<open>Shutdown\<close> was not called, no submitted task is executed, whatever the
  interleaving: the task is called after the worker's loop and not inside it, so that the futures
  of \<^verbatim>\<open>SubmitWork\<close> stay unfulfilled while the pool is in use.
\<close>

theorem pool_runs_nothing_while_open:
  assumes "tp_reach p" and "\<not> IsShutdown p"
  shows "executed p = []"
proof (cases "executed p")
  case (Cons e es)
  obtain i t where "e = (i, t)" by (cases e)
  with Cons have "pc_of p i = WDone"
    using tp_reach_inv [OF assms(1)] by (auto simp: tp_inv_def)
  then have "shutdown p"
    using tp_reach_inv [OF assms(1)] by (metis tp_inv_def left_loop.simps(2))
  with assms(2) show ?thesis by (simp add: IsShutdown_def)
qed

text \<open>
  C32: Whatever the interleaving, what the pool has executed are distinct submissions, no task
  twice and none made up, each run by a different worker; so it never runs more tasks than it
  has threads.
\<close>

theorem pool_runs_submitted_once:
  assumes "tp_reach p"
  shows "mset (map snd (executed p)) \<subseteq># mset (submitted p) \<and> distinct (map fst (executed p)) \<and>
    int (length (executed p)) \<le> ThreadPool_Size p"
proof -
  have inv: "tp_inv p" by (rule tp_reach_inv [OF assms])
  have "mset (map snd (executed p)) \<subseteq># tasks_in p"
    by (simp add: tasks_in_def)
  then have sub: "mset (map snd (executed p)) \<subseteq># mset (submitted p)"
    using inv unfolding tp_inv_def by (meson subset_mset.order_trans)
  have d: "distinct (map fst (executed p))" using inv by (simp add: tp_inv_def)
  have fin: "fst ` set (executed p) \<subseteq> {..<tp_count p}" using inv by (auto simp: tp_inv_def)
  have "length (executed p) = card (fst ` set (executed p))"
    using distinct_card [OF d] by simp
  also have "\<dots> \<le> tp_count p" using card_mono [OF _ fin] by simp
  finally have len: "length (executed p) \<le> tp_count p" .
  moreover have "0 \<le> thread_number p" using inv by (simp add: tp_inv_def)
  ultimately show ?thesis using sub d by (simp add: ThreadPool_Size_def le_nat_iff)
qed

text \<open>
  C34: When a worker is inside \<^verbatim>\<open>wait\<close> and the queue is empty, then \<^verbatim>\<open>Shutdown\<close> never returns
  unless more work is submitted: the wait's predicate does not look at the flag, so the
  notification only makes the worker test the queue and sleep again, and \<^verbatim>\<open>join\<close> waits for it.
\<close>

theorem shutdown_never_returns:
  assumes "tp_internal\<^sup>*\<^sup>* p p'" and "i < nat (ThreadPool_Size p)" and "in_wait (pc_of p i)"
    and "WorkQueue_Empty (tp_queue p)" and "tp_main p = Open"
  shows "tp_main p' \<noteq> Joined \<and> in_wait (pc_of p' i)"
proof -
  have "waits_forever i p" using assms by (simp add: waits_forever_def ThreadPool_Size_def)
  with tw.path_good [OF assms(1)] have "waits_forever i p'" by blast
  then show ?thesis by (auto simp: waits_forever_def)
qed

section \<open>Runs\<close>

text \<open>
  A schedule: which action comes next. \<open>run_pool\<close> executes a schedule and fails when an action is
  not enabled; what it reaches is reachable.
\<close>

datatype 'a pool_action = Work nat | Submit 'a | Notify nat | Stop

fun do_action :: "'a pool_action \<Rightarrow> 'a ThreadPool \<Rightarrow> 'a ThreadPool option" where
  "do_action (Work i) p = (if i < tp_count p then worker_step i p else None)"
| "do_action (Submit t) p = Some (submit_push t p)"
| "do_action (Notify w) p = submit_notify w p"
| "do_action Stop p = Shutdown_step p"

fun run_pool :: "'a pool_action list \<Rightarrow> 'a ThreadPool \<Rightarrow> 'a ThreadPool option" where
  "run_pool [] p = Some p"
| "run_pool (a # as) p = (case do_action a p of None \<Rightarrow> None | Some p' \<Rightarrow> run_pool as p')"

fun is_submit :: "'a pool_action \<Rightarrow> bool" where
  "is_submit (Submit t) = True"
| "is_submit a = False"

lemma do_action_step: "do_action a p = Some p' \<Longrightarrow> tp_step p p'"
  by (cases a) (auto intro: tp_internal.intros tp_step.intros split: if_splits)

lemma do_action_internal: "do_action a p = Some p' \<Longrightarrow> \<not> is_submit a \<Longrightarrow> tp_internal p p'"
  by (cases a) (auto intro: tp_internal.intros split: if_splits)

lemma run_pool_steps: "run_pool as p = Some p' \<Longrightarrow> tp_step\<^sup>*\<^sup>* p p'"
  by (induction as arbitrary: p)
    (auto split: option.splits intro: converse_rtranclp_into_rtranclp do_action_step)

lemma run_pool_internal:
  "run_pool as p = Some p' \<Longrightarrow> list_all (\<lambda>a. \<not> is_submit a) as \<Longrightarrow> tp_internal\<^sup>*\<^sup>* p p'"
  by (induction as arbitrary: p)
    (auto split: option.splits intro: converse_rtranclp_into_rtranclp do_action_internal)

text \<open>A pool of one thread whose tasks are numbers, after a schedule.\<close>

definition one_thread :: "int pool_action list \<Rightarrow> int ThreadPool" where
  "one_thread as = (case ThreadPool_new 1 of Inr p \<Rightarrow> the (run_pool as p))"

definition runs_on_one :: "int pool_action list \<Rightarrow> bool" where
  "runs_on_one as = (case ThreadPool_new 1 of Inr p \<Rightarrow> run_pool as p \<noteq> None)"

lemma one_thread_reach:
  assumes "runs_on_one as"
  shows "tp_reach (one_thread as)"
proof -
  obtain p0 :: "int ThreadPool" where p0: "ThreadPool_new 1 = Inr p0"
    by (simp add: ThreadPool_new_def)
  then have "thread_number p0 = 1" by (auto simp: ThreadPool_new_def)
  with p0 have "tp_start p0" by (simp add: tp_start_def)
  moreover obtain p where "run_pool as p0 = Some p"
    using assms p0 by (auto simp: runs_on_one_def)
  ultimately show ?thesis
    using run_pool_steps p0 by (auto simp: tp_reach_def one_thread_def)
qed

lemmas pool_exec = one_thread_def runs_on_one_def IsShutdown_def ThreadPool_Size_def tp_exec

text \<open>Two tasks, both taken, only the second run, after the shutdown.\<close>

abbreviation two_tasks :: "int pool_action list" where
  "two_tasks \<equiv> [Submit 7, Submit 8, Work 0, Work 0, Work 0, Work 0, Work 0, Work 0, Work 0, Work 0]"

theorem pool_runs_nothing_while_open_witness:
  "tp_reach (one_thread two_tasks) \<and> submitted (one_thread two_tasks) = [7, 8] \<and>
   work_queue (tp_queue (one_thread two_tasks)) = [] \<and> executed (one_thread two_tasks) = []"
proof -
  have r: "tp_reach (one_thread two_tasks)" by (rule one_thread_reach) (simp add: pool_exec)
  have "\<not> IsShutdown (one_thread two_tasks)" by (simp add: pool_exec)
  from pool_runs_nothing_while_open [OF r this] r show ?thesis by (simp add: pool_exec)
qed

abbreviation two_tasks_stop :: "int pool_action list" where
  "two_tasks_stop \<equiv> two_tasks @ [Stop, Work 0, Work 0, Stop, Stop, Stop]"

theorem pool_runs_submitted_once_witness:
  "tp_reach (one_thread two_tasks_stop) \<and> executed (one_thread two_tasks_stop) = [(0, 8)] \<and>
   tp_main (one_thread two_tasks_stop) = Joined \<and> length (executed (one_thread two_tasks_stop)) \<le> 1"
proof -
  have r: "tp_reach (one_thread two_tasks_stop)" by (rule one_thread_reach) (simp add: pool_exec)
  from pool_runs_submitted_once [OF r] r show ?thesis by (simp add: pool_exec)
qed

text \<open>The worker sleeps; the flag is set, it is notified, tests the queue and sleeps again.\<close>

abbreviation idle :: "int pool_action list" where
  "idle \<equiv> [Work 0, Work 0, Work 0, Work 0]"

abbreviation stop_idle :: "int pool_action list" where
  "stop_idle \<equiv> [Stop, Stop, Work 0, Work 0, Work 0]"

theorem shutdown_never_returns_witness:
  "tp_internal\<^sup>*\<^sup>* (one_thread idle) (one_thread (idle @ stop_idle)) \<and>
   IsShutdown (one_thread (idle @ stop_idle)) \<and> tp_main (one_thread (idle @ stop_idle)) = Joining 0 \<and>
   in_wait (pc_of (one_thread (idle @ stop_idle)) 0)"
proof -
  have "run_pool stop_idle (one_thread idle) = Some (one_thread (idle @ stop_idle))"
    by (simp add: pool_exec)
  then have r: "tp_internal\<^sup>*\<^sup>* (one_thread idle) (one_thread (idle @ stop_idle))"
    by (rule run_pool_internal) simp
  have "in_wait (pc_of (one_thread (idle @ stop_idle)) 0)"
    by (rule conjunct2 [OF shutdown_never_returns [OF r, of 0]]) (simp_all add: pool_exec in_wait_def)
  then show ?thesis using r by (simp add: pool_exec)
qed

text \<open>
  Two schedules of a pool of one thread that go wrong. When \<^verbatim>\<open>Shutdown\<close> is called before
  the worker first tests the flag, the worker reads \<^verbatim>\<open>pop_queue\<close> before it was assigned. When work
  is submitted between the worker's test of the queue and its sleep, the notification is lost,
  because \<^verbatim>\<open>SubmitWork\<close> does not hold the condition's mutex: the task is in the queue, no
  notification is due and the only worker sleeps.
\<close>

theorem pool_faults:
  "(\<exists>p :: int ThreadPool. tp_reach p \<and> pc_of p 0 = WCrashed Uninit) \<and>
   (\<exists>p :: int ThreadPool. tp_reach p \<and> \<not> IsShutdown p \<and> work_queue (tp_queue p) = [7] \<and> notifies p = 0 \<and>
      ThreadPool_Size p = 1 \<and> pc_of p 0 = WSleep \<and> worker_step 0 p = None)"
proof
  let ?u = "one_thread [Stop, Work 0, Work 0]"
  have "tp_reach ?u" by (rule one_thread_reach) (simp add: pool_exec)
  then show "\<exists>p :: int ThreadPool. tp_reach p \<and> pc_of p 0 = WCrashed Uninit"
    by (intro exI [of _ ?u]) (simp add: pool_exec)
next
  let ?l = "one_thread [Work 0, Work 0, Work 0, Submit 7, Notify 0, Work 0]"
  have "tp_reach ?l" by (rule one_thread_reach) (simp add: pool_exec)
  then show "\<exists>p :: int ThreadPool. tp_reach p \<and> \<not> IsShutdown p \<and> work_queue (tp_queue p) = [7] \<and> notifies p = 0 \<and>
      ThreadPool_Size p = 1 \<and> pc_of p 0 = WSleep \<and> worker_step 0 p = None"
    by (intro exI [of _ ?l]) (simp add: pool_exec)
qed

end
