(* ===== verification/Json_Value.thy ===== *)
theory Json_Value
  imports Prelude
begin

text \<open>
  JSON values of \<^verbatim>\<open>include/hv/json.hpp\<close> and how a reader builds them: a reader reports what it
  sees to a handler (\<^verbatim>\<open>json_sax\<close>), and the handler \<^verbatim>\<open>json_sax_dom_parser\<close> puts the value
  together with a stack of the containers that are still open. A reader is modelled by the list
  of the events it reports, so that every input format shares the handler.
\<close>

section \<open>Values\<close>

type_synonym octets = "u8 list"

text \<open>
  \<^verbatim>\<open>number_integer_t\<close> is \<^verbatim>\<open>int64_t\<close>, \<^verbatim>\<open>number_unsigned_t\<close> is \<^verbatim>\<open>uint64_t\<close>, and a
  \<^verbatim>\<open>double\<close> is given by its 64 bits. A binary value has an optional subtype. An object is a
  \<^verbatim>\<open>std::map\<close>: its entries in the order of the keys.
\<close>

datatype json =
    JNull
  | JBool bool
  | JInt int
  | JUint nat
  | JFloat u64
  | JString octets
  | JBinary octets "u8 option"
  | JArray "json list"
  | JObject "(octets \<times> json) list"
  | JDiscarded

text \<open>
  The exceptions of the library with their numbers; a parse error also carries the number of
  bytes read. \<open>OutOfFuel\<close> is not an exception of the code: it marks a run that was cut off, and
  it is proved not to occur.
\<close>

datatype json_error =
    ParseError nat nat
  | OutOfRangeError nat
  | TypeError nat
  | JsonAssert
  | OutOfFuel

text \<open>\<^verbatim>\<open>std::isfinite\<close> of a \<^verbatim>\<open>double\<close>: the exponent bits are not all set.\<close>

definition is_finite :: "u64 \<Rightarrow> bool" where
  "is_finite d \<longleftrightarrow> unat d div 2 ^ 52 mod 2048 \<noteq> 2047"

section \<open>Ordered maps\<close>

text \<open>\<^verbatim>\<open>std::string\<close> compares bytes as unsigned numbers, which is the order on lists of words.\<close>

fun map_put :: "octets \<Rightarrow> 'a \<Rightarrow> (octets \<times> 'a) list \<Rightarrow> (octets \<times> 'a) list" where
  "map_put k v [] = [(k, v)]"
| "map_put k v ((k', v') # m) =
     (if k = k' then (k, v) # m else if k < k' then (k, v) # (k', v') # m else (k', v') # map_put k v m)"

definition map_index :: "octets \<Rightarrow> 'a \<Rightarrow> (octets \<times> 'a) list \<Rightarrow> (octets \<times> 'a) list" where
  "map_index k d m = (if k \<in> fst ` set m then m else map_put k d m)"

definition keys_sorted :: "(octets \<times> 'a) list \<Rightarrow> bool" where
  "keys_sorted m \<longleftrightarrow> sorted_wrt (<) (map fst m)"

lemma map_put_keys: "fst ` set (map_put k v m) = insert k (fst ` set m)"
proof (induction m)
  case (Cons e m)
  then show ?case by (cases e) (simp add: insert_commute)
qed simp

lemma map_put_sorted: "keys_sorted m \<Longrightarrow> keys_sorted (map_put k v m)"
proof (induction m)
  case (Cons e m)
  obtain k' v' where "e = (k', v')" by (cases e)
  with Cons show ?case
    using map_put_keys [of k v m] by (fastforce simp: keys_sorted_def)
qed (simp add: keys_sorted_def)

lemma map_index_sorted: "keys_sorted m \<Longrightarrow> keys_sorted (map_index k d m)"
  by (simp add: map_index_def map_put_sorted)

lemma map_put_last: "(\<And>k'. k' \<in> fst ` set m \<Longrightarrow> k' < k) \<Longrightarrow> map_put k v m = m @ [(k, v)]"
  by (induction m) force+

lemma map_put_again: "map_put k v (map_put k d m) = map_put k v m"
  by (induction m) auto

lemma map_put_set: "set (map_put k v m) \<subseteq> insert (k, v) (set m)"
  by (induction k v m rule: map_put.induct) (auto split: if_splits)

lemma map_index_put: "map_put k v (map_index k d m) = map_put k v m"
  by (simp add: map_index_def map_put_again)

section \<open>Well-formed values\<close>

text \<open>
  The bounds of the types: 64-bit integers, containers no longer than their \<^verbatim>\<open>max_size()\<close>, which
  for elements of 16 bytes and tree nodes of 80 bytes is the following, and keys in order.
\<close>

definition array_max_size :: nat where
  "array_max_size = (2 ^ 63 - 1) div 16"

definition object_max_size :: nat where
  "object_max_size = (2 ^ 63 - 1) div 80"

fun json_ok :: "json \<Rightarrow> bool" where
  "json_ok (JInt i) \<longleftrightarrow> - (2 ^ 63) \<le> i \<and> i < 2 ^ 63"
| "json_ok (JUint n) \<longleftrightarrow> n < 2 ^ 64"
| "json_ok (JString s) \<longleftrightarrow> length s < 2 ^ 63"
| "json_ok (JBinary b t) \<longleftrightarrow> length b < 2 ^ 63"
| "json_ok (JArray xs) \<longleftrightarrow> length xs \<le> array_max_size \<and> list_all json_ok xs"
| "json_ok (JObject m) \<longleftrightarrow> length m \<le> object_max_size \<and> keys_sorted m \<and>
     list_all (\<lambda>(k, v). length k < 2 ^ 63 \<and> json_ok v) m"
| "json_ok JDiscarded \<longleftrightarrow> False"
| "json_ok _ \<longleftrightarrow> True"

text \<open>The types without the bounds on the size: 64-bit integers and ordered keys.\<close>

fun json_typed :: "json \<Rightarrow> bool" where
  "json_typed (JInt i) \<longleftrightarrow> - (2 ^ 63) \<le> i \<and> i < 2 ^ 63"
| "json_typed (JUint n) \<longleftrightarrow> n < 2 ^ 64"
| "json_typed (JArray xs) \<longleftrightarrow> list_all json_typed xs"
| "json_typed (JObject m) \<longleftrightarrow> keys_sorted m \<and> list_all (\<lambda>(k, v). json_typed v) m"
| "json_typed JDiscarded \<longleftrightarrow> False"
| "json_typed _ \<longleftrightarrow> True"

lemma json_ok_typed: "json_ok v \<Longrightarrow> json_typed v"
  by (induction v rule: json_ok.induct) (auto simp: list_all_iff)

section \<open>Events\<close>

datatype sax_event =
    ENull
  | EBool bool
  | EInt int
  | EUint nat
  | EFloat u64
  | EString octets
  | EBinary octets "u8 option"
  | EStartObject
  | EKey octets
  | EEndObject
  | EStartArray
  | EEndArray

text \<open>
  \<^verbatim>\<open>start_array\<close> and \<^verbatim>\<open>start_object\<close> throw when the announced length is more than a container
  can hold; \<open>None\<close> is the length \<^verbatim>\<open>size_t(-1)\<close> of a container whose end is marked.
\<close>

definition start_array :: "nat option \<Rightarrow> json_error + sax_event list" where
  "start_array len =
     (case len of
        None \<Rightarrow> Inr [EStartArray]
      | Some n \<Rightarrow> if array_max_size < n then Inl (OutOfRangeError 408) else Inr [EStartArray])"

definition start_object :: "nat option \<Rightarrow> json_error + sax_event list" where
  "start_object len =
     (case len of
        None \<Rightarrow> Inr [EStartObject]
      | Some n \<Rightarrow> if object_max_size < n then Inl (OutOfRangeError 408) else Inr [EStartObject])"

section \<open>The handler that builds the value\<close>

text \<open>
  \<^verbatim>\<open>ref_stack\<close> holds the open containers, the innermost first here; an open object also has the
  key for which \<^verbatim>\<open>object_element\<close> was set. A container is put into its parent when it is
  closed: nobody looks at the parent before that. A value in an object without a key is
  \<^verbatim>\<open>JSON_ASSERT(object_element)\<close>.
\<close>

datatype open_frame =
    FArray "json list"
  | FObject "(octets \<times> json) list" "octets option"

record dom =
  dom_root :: json
  ref_stack :: "open_frame list"

definition dom_new :: dom where
  "dom_new = \<lparr>dom_root = JNull, ref_stack = []\<rparr>"

definition handle_value :: "json \<Rightarrow> dom \<Rightarrow> json_error + dom" where
  "handle_value v d =
     (case ref_stack d of
        [] \<Rightarrow> Inr (d\<lparr>dom_root := v\<rparr>)
      | FArray xs # fs \<Rightarrow> Inr (d\<lparr>ref_stack := FArray (xs @ [v]) # fs\<rparr>)
      | FObject m (Some k) # fs \<Rightarrow> Inr (d\<lparr>ref_stack := FObject (map_put k v m) None # fs\<rparr>)
      | FObject m None # fs \<Rightarrow> Inl JsonAssert)"

definition dom_key :: "octets \<Rightarrow> dom \<Rightarrow> json_error + dom" where
  "dom_key k d =
     (case ref_stack d of
        FObject m e # fs \<Rightarrow> Inr (d\<lparr>ref_stack := FObject (map_index k JNull m) (Some k) # fs\<rparr>)
      | _ \<Rightarrow> Inl JsonAssert)"

definition dom_push :: "open_frame \<Rightarrow> dom \<Rightarrow> json_error + dom" where
  "dom_push f d = Inr (d\<lparr>ref_stack := f # ref_stack d\<rparr>)"

definition dom_pop :: "dom \<Rightarrow> json_error + dom" where
  "dom_pop d =
     (case ref_stack d of
        [] \<Rightarrow> Inl JsonAssert
      | FArray xs # fs \<Rightarrow> handle_value (JArray xs) (d\<lparr>ref_stack := fs\<rparr>)
      | FObject m e # fs \<Rightarrow> handle_value (JObject m) (d\<lparr>ref_stack := fs\<rparr>))"

fun dom_event :: "sax_event \<Rightarrow> dom \<Rightarrow> json_error + dom" where
  "dom_event ENull = handle_value JNull"
| "dom_event (EBool b) = handle_value (JBool b)"
| "dom_event (EInt i) = handle_value (JInt i)"
| "dom_event (EUint n) = handle_value (JUint n)"
| "dom_event (EFloat f) = handle_value (JFloat f)"
| "dom_event (EString s) = handle_value (JString s)"
| "dom_event (EBinary b t) = handle_value (JBinary b t)"
| "dom_event EStartObject = dom_push (FObject [] None)"
| "dom_event (EKey k) = dom_key k"
| "dom_event EEndObject = dom_pop"
| "dom_event EStartArray = dom_push (FArray [])"
| "dom_event EEndArray = dom_pop"

definition build :: "sax_event list \<Rightarrow> json_error + json" where
  "build es = bindE (foldE dom_event es dom_new) (\<lambda>d. Inr (dom_root d))"


text \<open>The events of a value, and that the handler puts them together to the value again.\<close>

fun events :: "json \<Rightarrow> sax_event list" where
  "events JNull = [ENull]"
| "events (JBool b) = [EBool b]"
| "events (JInt i) = [EInt i]"
| "events (JUint n) = [EUint n]"
| "events (JFloat f) = [EFloat f]"
| "events (JString s) = [EString s]"
| "events (JBinary b t) = [EBinary b t]"
| "events (JArray xs) = EStartArray # concat (map events xs) @ [EEndArray]"
| "events (JObject m) = EStartObject # concat (map (\<lambda>(k, v). EKey k # events v) m) @ [EEndObject]"
| "events JDiscarded = []"

text \<open>A stack on which a value can be put: no open object waits for its key.\<close>

definition takes_value :: "dom \<Rightarrow> bool" where
  "takes_value d \<longleftrightarrow> (case ref_stack d of FObject m None # fs \<Rightarrow> False | _ \<Rightarrow> True)"

lemma foldE_Nil_eq [simp]: "foldE f [] = Inr"
  by (simp add: fun_eq_iff)

lemma handle_value_ok: "takes_value d \<Longrightarrow> \<exists>d'. handle_value v d = Inr d'"
  by (auto simp: takes_value_def handle_value_def split: list.splits open_frame.splits option.splits)

lemma build_array_elements:
  assumes "\<And>x d. x \<in> set xs \<Longrightarrow> takes_value d \<Longrightarrow> foldE dom_event (events x) d = handle_value x d"
    and "ref_stack d = FArray ys # fs"
  shows "foldE dom_event (concat (map events xs)) d = Inr (d\<lparr>ref_stack := FArray (ys @ xs) # fs\<rparr>)"
  using assms
proof (induction xs arbitrary: d ys)
  case (Cons x xs)
  have "takes_value d" using Cons.prems(2) by (simp add: takes_value_def)
  then have "foldE dom_event (events x) d = Inr (d\<lparr>ref_stack := FArray (ys @ [x]) # fs\<rparr>)"
    using Cons.prems by (simp add: handle_value_def)
  then show ?case
    using Cons.IH [of "d\<lparr>ref_stack := FArray (ys @ [x]) # fs\<rparr>" "ys @ [x]"] Cons.prems(1)
    by (simp add: foldE_append)
qed simp

lemma build_object_entry:
  assumes "\<And>d. takes_value d \<Longrightarrow> foldE dom_event (events v) d = handle_value v d"
    and "ref_stack d = FObject m None # fs"
  shows "foldE dom_event (EKey k # events v) d = Inr (d\<lparr>ref_stack := FObject (map_put k v m) None # fs\<rparr>)"
proof -
  let ?d = "d\<lparr>ref_stack := FObject (map_index k JNull m) (Some k) # fs\<rparr>"
  have "takes_value ?d" by (simp add: takes_value_def)
  with assms show ?thesis by (simp add: dom_key_def handle_value_def map_index_put)
qed

lemma build_object_entries:
  assumes "\<forall>v \<in> snd ` set m. \<forall>d. takes_value d \<longrightarrow> foldE dom_event (events v) d = handle_value v d"
    and "ref_stack d = FObject m0 None # fs" and "keys_sorted (m0 @ m)"
  shows "foldE dom_event (concat (map (\<lambda>(k, v). EKey k # events v) m)) d =
    Inr (d\<lparr>ref_stack := FObject (m0 @ m) None # fs\<rparr>)"
  using assms
proof (induction m arbitrary: d m0)
  case (Cons e m)
  obtain k v where e: "e = (k, v)" by (cases e)
  have "map_put k v m0 = m0 @ [(k, v)]"
    using Cons.prems(3) by (intro map_put_last) (auto simp: keys_sorted_def e sorted_wrt_append)
  with build_object_entry [of v d m0 fs k] Cons.prems(1,2)
  have "foldE dom_event (EKey k # events v) d = Inr (d\<lparr>ref_stack := FObject (m0 @ [(k, v)]) None # fs\<rparr>)"
    by (auto simp: e)
  moreover have "foldE dom_event (concat (map (\<lambda>(k, v). EKey k # events v) m))
      (d\<lparr>ref_stack := FObject (m0 @ [(k, v)]) None # fs\<rparr>) =
      Inr (d\<lparr>ref_stack := FObject ((m0 @ [(k, v)]) @ m) None # fs\<rparr>)"
    using Cons.IH [of "d\<lparr>ref_stack := FObject (m0 @ [(k, v)]) None # fs\<rparr>" "m0 @ [(k, v)]"]
      Cons.prems(1,3) by (simp add: e)
  ultimately show ?case
    using foldE_append [of dom_event "EKey k # events v" _ d] by (simp add: e del: foldE.simps)
qed simp

lemma build_value: "json_typed v \<Longrightarrow> takes_value d \<Longrightarrow> foldE dom_event (events v) d = handle_value v d"
proof (induction v arbitrary: d)
  case (JArray xs)
  let ?d = "d\<lparr>ref_stack := FArray [] # ref_stack d\<rparr>"
  have "foldE dom_event (concat (map events xs)) ?d = Inr (?d\<lparr>ref_stack := FArray ([] @ xs) # ref_stack d\<rparr>)"
    by (rule build_array_elements) (use JArray in \<open>auto simp: list_all_iff\<close>)
  then show ?case by (simp add: dom_push_def foldE_append dom_pop_def)
next
  case (JObject m)
  let ?d = "d\<lparr>ref_stack := FObject [] None # ref_stack d\<rparr>"
  have "foldE dom_event (concat (map (\<lambda>(k, v). EKey k # events v) m)) ?d =
      Inr (?d\<lparr>ref_stack := FObject ([] @ m) None # ref_stack d\<rparr>)"
    by (rule build_object_entries) (use JObject in \<open>fastforce simp: list_all_iff\<close>)+
  then show ?case by (simp add: dom_push_def foldE_append dom_pop_def)
qed auto

lemma build_typed: "json_typed v \<Longrightarrow> build (events v) = Inr v"
  using build_value [of v dom_new] by (simp add: build_def dom_new_def takes_value_def handle_value_def)

lemma build_events: "json_ok v \<Longrightarrow> build (events v) = Inr v"
  by (rule build_typed [OF json_ok_typed])

section \<open>What a reader delivers\<close>

text \<open>
  A list of events delivers a value, the elements of an array or the entries of an object when the
  handler makes exactly that of it.
\<close>

definition delivers :: "sax_event list \<Rightarrow> bool" where
  "delivers es \<longleftrightarrow>
     (\<exists>v. json_typed v \<and> (\<forall>d. takes_value d \<longrightarrow> foldE dom_event es d = handle_value v d))"

definition delivers_elements :: "sax_event list \<Rightarrow> bool" where
  "delivers_elements es \<longleftrightarrow>
     (\<exists>vs. list_all json_typed vs \<and>
        (\<forall>d xs fs. ref_stack d = FArray xs # fs \<longrightarrow>
           foldE dom_event es d = Inr (d\<lparr>ref_stack := FArray (xs @ vs) # fs\<rparr>)))"

definition delivers_entries :: "sax_event list \<Rightarrow> bool" where
  "delivers_entries es \<longleftrightarrow>
     (\<exists>g. (\<forall>m. json_typed (JObject m) \<longrightarrow> json_typed (JObject (g m))) \<and>
        (\<forall>d m fs. ref_stack d = FObject m None # fs \<longrightarrow>
           foldE dom_event es d = Inr (d\<lparr>ref_stack := FObject (g m) None # fs\<rparr>)))"

lemma delivers_one: "dom_event e = handle_value v \<Longrightarrow> json_typed v \<Longrightarrow> delivers [e]"
  by (auto simp: delivers_def)

lemma delivers_atoms [simp]:
  "delivers [ENull]" "delivers [EBool b]" "delivers [EFloat f]" "delivers [EString s]" "delivers [EBinary bs t]"
  "- (2 ^ 63) \<le> i \<Longrightarrow> i < 2 ^ 63 \<Longrightarrow> delivers [EInt i]" "n < 2 ^ 64 \<Longrightarrow> delivers [EUint n]"
  by (rule delivers_one, rule dom_event.simps, simp)+

lemma delivers_elements_Nil: "delivers_elements []"
  unfolding delivers_elements_def by (rule exI [of _ "[]"]) (auto simp: dom.equality)

lemma delivers_elements_append:
  assumes "delivers_elements es" and "delivers_elements es'"
  shows "delivers_elements (es @ es')"
proof -
  obtain vs vs' where "list_all json_typed vs" "list_all json_typed vs'"
    "\<And>d xs fs. ref_stack d = FArray xs # fs \<Longrightarrow> foldE dom_event es d = Inr (d\<lparr>ref_stack := FArray (xs @ vs) # fs\<rparr>)"
    "\<And>d xs fs. ref_stack d = FArray xs # fs \<Longrightarrow> foldE dom_event es' d = Inr (d\<lparr>ref_stack := FArray (xs @ vs') # fs\<rparr>)"
    using assms by (auto simp: delivers_elements_def)
  then show ?thesis
    unfolding delivers_elements_def by (intro exI [of _ "vs @ vs'"]) (simp add: foldE_append)
qed

lemma delivers_element: "delivers es \<Longrightarrow> delivers_elements es"
  unfolding delivers_def delivers_elements_def
  by (erule exE, rule_tac x = "[v]" in exI) (auto simp: takes_value_def handle_value_def)

lemma delivers_array:
  assumes "delivers_elements es"
  shows "delivers (EStartArray # es @ [EEndArray])"
proof -
  obtain vs where vs: "list_all json_typed vs"
    "\<And>d xs fs. ref_stack d = FArray xs # fs \<Longrightarrow> foldE dom_event es d = Inr (d\<lparr>ref_stack := FArray (xs @ vs) # fs\<rparr>)"
    using assms by (auto simp: delivers_elements_def)
  then show ?thesis
    unfolding delivers_def by (intro exI [of _ "JArray vs"]) (simp add: foldE_append dom_push_def dom_pop_def)
qed

lemma delivers_entries_Nil: "delivers_entries []"
  unfolding delivers_entries_def by (rule exI [of _ id]) auto

lemma delivers_entries_append:
  assumes "delivers_entries es" and "delivers_entries es'"
  shows "delivers_entries (es @ es')"
proof -
  obtain g g' where "\<And>m. json_typed (JObject m) \<Longrightarrow> json_typed (JObject (g m))"
    "\<And>m. json_typed (JObject m) \<Longrightarrow> json_typed (JObject (g' m))"
    "\<And>d m fs. ref_stack d = FObject m None # fs \<Longrightarrow> foldE dom_event es d = Inr (d\<lparr>ref_stack := FObject (g m) None # fs\<rparr>)"
    "\<And>d m fs. ref_stack d = FObject m None # fs \<Longrightarrow> foldE dom_event es' d = Inr (d\<lparr>ref_stack := FObject (g' m) None # fs\<rparr>)"
    using assms unfolding delivers_entries_def by metis
  then show ?thesis
    unfolding delivers_entries_def by (intro exI [of _ "\<lambda>m. g' (g m)"]) (simp add: foldE_append)
qed

lemma delivers_entry:
  assumes "delivers es"
  shows "delivers_entries (EKey k # es)"
proof -
  obtain v where v: "json_typed v" "\<And>d. takes_value d \<Longrightarrow> foldE dom_event es d = handle_value v d"
    using assms by (auto simp: delivers_def)
  have "foldE dom_event (EKey k # es) d = Inr (d\<lparr>ref_stack := FObject (map_put k v m) None # fs\<rparr>)"
    if "ref_stack d = FObject m None # fs" for d m fs
    using that v(2) [of "d\<lparr>ref_stack := FObject (map_index k JNull m) (Some k) # fs\<rparr>"]
    by (simp add: dom_key_def takes_value_def handle_value_def map_index_put)
  moreover have "json_typed (JObject (map_put k v m))" if "json_typed (JObject m)" for m
    using that v(1) map_put_sorted [of m k v] map_put_set [of k v m] by (fastforce simp: list_all_iff)
  ultimately show ?thesis unfolding delivers_entries_def by blast
qed

lemma delivers_object:
  assumes "delivers_entries es"
  shows "delivers (EStartObject # es @ [EEndObject])"
proof -
  obtain g where "\<And>m. json_typed (JObject m) \<Longrightarrow> json_typed (JObject (g m))"
    "\<And>d m fs. ref_stack d = FObject m None # fs \<Longrightarrow> foldE dom_event es d = Inr (d\<lparr>ref_stack := FObject (g m) None # fs\<rparr>)"
    using assms unfolding delivers_entries_def by metis
  moreover from this(1) [of "[]"] have "json_typed (JObject (g []))" by (simp add: keys_sorted_def)
  ultimately show ?thesis
    unfolding delivers_def by (intro exI [of _ "JObject (g [])"]) (simp add: foldE_append dom_push_def dom_pop_def)
qed

lemma build_delivers: "delivers es \<Longrightarrow> \<exists>v. build es = Inr v \<and> json_typed v"
  by (auto simp: delivers_def build_def takes_value_def dom_new_def handle_value_def)

end
