(* ===== verification/Json_Binary.thy ===== *)
theory Json_Binary
  imports Json_Value
begin

text \<open>
  What the binary formats of \<^verbatim>\<open>json.hpp\<close> share: the input with the last byte read and the
  number of bytes read, numbers in network order, byte strings, and floating-point numbers by
  their bits.
\<close>

section \<open>Input\<close>

text \<open>\<^verbatim>\<open>current\<close> is \<open>None\<close> when the last read hit the end of the input.\<close>

record reader =
  r_input :: octets
  r_current :: "u8 option"
  chars_read :: nat

definition reader_new :: "octets \<Rightarrow> reader" where
  "reader_new bs = \<lparr>r_input = bs, r_current = None, chars_read = 0\<rparr>"

definition rget :: "reader \<Rightarrow> reader" where
  "rget r =
     (case r_input r of
        [] \<Rightarrow> r\<lparr>r_current := None, chars_read := Suc (chars_read r)\<rparr>
      | b # bs \<Rightarrow> r\<lparr>r_input := bs, r_current := Some b, chars_read := Suc (chars_read r)\<rparr>)"

definition unexpect_eof :: "reader \<Rightarrow> json_error + unit" where
  "unexpect_eof r = (case r_current r of None \<Rightarrow> Inl (ParseError 110 (chars_read r)) | Some b \<Rightarrow> Inr ())"

text \<open>\<open>k\<close> bytes, each followed by the test for the end of the input.\<close>

fun get_bytes :: "nat \<Rightarrow> reader \<Rightarrow> json_error + octets \<times> reader" where
  "get_bytes 0 r = Inr ([], r)"
| "get_bytes (Suc k) r =
     (let r1 = rget r in
      case r_current r1 of
        None \<Rightarrow> Inl (ParseError 110 (chars_read r1))
      | Some b \<Rightarrow> bindE (get_bytes k r1) (\<lambda>(bs, r2). Inr (b # bs, r2)))"

text \<open>
  The bytes of a number in memory on a little-endian machine, and the number that such bytes are.
\<close>

fun le_bytes :: "nat \<Rightarrow> nat \<Rightarrow> octets" where
  "le_bytes 0 n = []"
| "le_bytes (Suc k) n = word_of_nat n # le_bytes k (n div 256)"

fun le_value :: "octets \<Rightarrow> nat" where
  "le_value [] = 0"
| "le_value (b # bs) = unat b + 256 * le_value bs"

text \<open>\<^verbatim>\<open>get_number\<close> fills the array from its end, \<^verbatim>\<open>write_number\<close> reverses it.\<close>

definition get_number :: "nat \<Rightarrow> reader \<Rightarrow> json_error + nat \<times> reader" where
  "get_number k r = bindE (get_bytes k r) (\<lambda>(bs, r1). Inr (le_value (rev bs), r1))"

definition write_number :: "nat \<Rightarrow> nat \<Rightarrow> octets" where
  "write_number k n = rev (le_bytes k n)"

text \<open>A signed number of \<open>k\<close> bytes, written and read.\<close>

definition write_signed :: "nat \<Rightarrow> int \<Rightarrow> octets" where
  "write_signed k i = write_number k (nat (i mod 256 ^ k))"

definition signed_of :: "nat \<Rightarrow> nat \<Rightarrow> int" where
  "signed_of k n = signed_take_bit (8 * k - 1) (int n)"

text \<open>\<^verbatim>\<open>get_string\<close> and \<^verbatim>\<open>get_binary\<close> append \<open>len\<close> bytes to their result.\<close>

definition get_string :: "nat \<Rightarrow> reader \<Rightarrow> json_error + octets \<times> reader" where
  "get_string len r = get_bytes len r"

definition get_binary :: "nat \<Rightarrow> reader \<Rightarrow> json_error + octets \<times> reader" where
  "get_binary len r = get_bytes len r"

text \<open>A length or number of \<open>k\<close> bytes, and what is done with it.\<close>

abbreviation with_number :: "nat \<Rightarrow> reader \<Rightarrow> (nat \<Rightarrow> reader \<Rightarrow> json_error + 'a) \<Rightarrow> json_error + 'a" where
  "with_number k r f \<equiv> bindE (get_number k r) (\<lambda>(n, r1). f n r1)"

text \<open>\<open>n\<close> items one after the other.\<close>

fun read_n :: "(reader \<Rightarrow> json_error + 'a list \<times> reader) \<Rightarrow> nat \<Rightarrow> reader \<Rightarrow> json_error + 'a list \<times> reader" where
  "read_n p 0 r = Inr ([], r)"
| "read_n p (Suc n) r = bindE (p r) (\<lambda>(xs, r1). bindE (read_n p n r1) (\<lambda>(ys, r2). Inr (xs @ ys, r2)))"

definition invalid_byte :: "reader \<Rightarrow> json_error + 'a" where
  "invalid_byte r = Inl (ParseError 112 (chars_read r))"

text \<open>
  \<^verbatim>\<open>sax_parse\<close>: in strict mode the input has to end after the value. The \<^verbatim>\<open>from_\<close> functions build the
  value; without exceptions a parse error makes it a discarded value, while the exception for an
  excessive length is thrown either way.
\<close>

definition sax_parse :: "bool \<Rightarrow> json_error + sax_event list \<times> reader \<Rightarrow> json_error + sax_event list" where
  "sax_parse strict res =
     bindE res (\<lambda>(es, r).
     if strict then
       let r1 = rget r in
       case r_current r1 of
         None \<Rightarrow> Inr es
       | Some b \<Rightarrow> Inl (ParseError 110 (chars_read r1))
     else Inr es)"

definition from_binary :: "bool \<Rightarrow> json_error + sax_event list \<Rightarrow> json_error + json" where
  "from_binary allow_exceptions res =
     (case res of
        Inl (ParseError c n) \<Rightarrow> if allow_exceptions then Inl (ParseError c n) else Inr JDiscarded
      | Inl e \<Rightarrow> Inl e
      | Inr es \<Rightarrow> build es)"

lemmas reader_exec [exec] =
  reader_new_def rget_def unexpect_eof_def get_number_def write_number_def get_string_def get_binary_def
  write_signed_def signed_of_def invalid_byte_def sax_parse_def from_binary_def build_def dom_new_def
  start_array_def start_object_def array_max_size_def object_max_size_def handle_value_def dom_key_def
  dom_push_def dom_pop_def map_index_def

section \<open>Reading what was written\<close>

abbreviation reads :: "nat \<Rightarrow> reader \<Rightarrow> reader" where
  "reads n r \<equiv> (rget ^^ n) r"

lemma rget_Cons: "r_input r = b # bs \<Longrightarrow> r_input (rget r) = bs \<and> r_current (rget r) = Some b"
  by (simp add: rget_def)

lemma reads_Suc: "reads (Suc n) r = reads n (rget r)"
  by (simp add: funpow_swap1)

lemma reads_add: "reads (m + n) r = reads n (reads m r)"
  by (simp add: funpow_add add.commute [of m n])

lemma r_input_rget [simp]: "r_input (rget r) = tl (r_input r)"
  by (simp add: rget_def split: list.split)

lemma r_input_reads [simp]: "r_input (reads n r) = drop n (r_input r)"
  by (induction n) (simp_all add: drop_Suc drop_tl)

lemma get_bytes_append:
  "r_input r = bs @ rest \<Longrightarrow> get_bytes (length bs) r = Inr (bs, reads (length bs) r)"
  by (induction bs arbitrary: r) (auto simp: Let_def rget_Cons reads_Suc simp del: funpow.simps)

lemma length_le_bytes [simp]: "length (le_bytes k n) = k"
  by (induction k arbitrary: n) auto

lemma length_write_number [simp]: "length (write_number k n) = k"
  by (simp add: write_number_def)

lemma le_bytes_numeral [exec]:
  "le_bytes (numeral k) n = word_of_nat n # le_bytes (pred_numeral k) (n div 256)"
  by (subst numeral_eq_Suc [of k]) (simp only: le_bytes.simps)

lemma get_bytes_numeral [exec]:
  "get_bytes (numeral k) r =
     (let r1 = rget r in
      case r_current r1 of
        None \<Rightarrow> Inl (ParseError 110 (chars_read r1))
      | Some b \<Rightarrow> bindE (get_bytes (pred_numeral k) r1) (\<lambda>(bs, r2). Inr (b # bs, r2)))"
  by (subst numeral_eq_Suc [of k]) (simp only: get_bytes.simps)

lemma le_value_le_bytes: "le_value (le_bytes k n) = n mod 256 ^ k"
  by (induction k arbitrary: n) (auto simp: unsigned_of_nat take_bit_eq_mod mod_mult2_eq)

lemma le_value_bound: "le_value bs < 256 ^ length bs"
proof (induction bs)
  case (Cons b bs)
  have "unat b < 256" using unsigned_less [of b] by simp
  with Cons show ?case by (simp add: algebra_simps)
qed simp

lemma get_number_write:
  assumes "r_input r = write_number k n @ rest" and "n < 256 ^ k"
  shows "get_number k r = Inr (n, reads k r)"
  using get_bytes_append [OF assms(1)] assms(2)
  by (simp add: get_number_def le_value_le_bytes) (simp add: write_number_def le_value_le_bytes)

lemma read_wide_head:
  assumes "r_input r = b # write_number k n @ rest" and "n < 256 ^ k"
  shows "r_current (rget r) = Some b" and "get_number k (rget r) = Inr (n, reads (Suc k) r)"
  using rget_Cons [OF assms(1)] get_number_write [of "rget r" k n rest] assms(2)
  by (simp_all add: reads_Suc del: funpow.simps)

lemma get_string_append:
  "r_input r = s @ rest \<Longrightarrow> get_string (length s) r = Inr (s, reads (length s) r)"
  by (simp add: get_string_def get_bytes_append)

lemma get_binary_append:
  "r_input r = s @ rest \<Longrightarrow> get_binary (length s) r = Inr (s, reads (length s) r)"
  by (simp add: get_binary_def get_bytes_append)

text \<open>One byte.\<close>

definition byte :: "nat \<Rightarrow> u8" where
  "byte n = word_of_nat n"

lemma byte_numeral [simp]: "byte (numeral k) = numeral k" "byte 0 = 0"
  by (simp_all add: byte_def)

lemma write_number_1 [simp]: "write_number (Suc 0) n = [byte n]"
  by (simp add: write_number_def byte_def)

lemma write_number_2: "write_number 2 n = [word_of_nat (n div 256), word_of_nat n]"
  by (simp add: write_number_def numeral_2_eq_2)

lemma unat_byte [simp]: "n < 256 \<Longrightarrow> unat (byte n) = n"
  by (simp add: byte_def unsigned_of_nat take_bit_nat_eq_self)

lemma write_signed_nat: "0 \<le> i \<Longrightarrow> i < 256 ^ k \<Longrightarrow> write_signed k i = write_number k (nat i)"
  by (simp add: write_signed_def)

lemma signed_of_write:
  assumes "0 < k" and "- (2 ^ (8 * k - 1)) \<le> i" and "i < 2 ^ (8 * k - 1)"
  shows "signed_of k (nat (i mod 256 ^ k)) = i"
proof -
  have "(256 :: int) ^ k = 2 ^ (8 * k)" by (simp add: power_mult)
  then have "int (nat (i mod 256 ^ k)) = take_bit (8 * k) i" by (simp add: take_bit_eq_mod)
  then have "signed_of k (nat (i mod 256 ^ k)) = signed_take_bit (8 * k - 1) i"
    using assms(1) by (auto simp: signed_of_def signed_take_bit_take_bit)
  also have "\<dots> = i" using assms(2,3) by (simp add: signed_take_bit_int_eq_self)
  finally show ?thesis .
qed

lemma signed_of_bounds:
  "0 < k \<Longrightarrow> - (2 ^ (8 * k - 1)) \<le> signed_of k n \<and> signed_of k n < 2 ^ (8 * k - 1)"
  by (simp add: signed_of_def signed_take_bit_int_greater_eq_minus_exp signed_take_bit_int_less_exp)

section \<open>Floating-point numbers by their bits\<close>

text \<open>Sign, biased exponent and mantissa of a \<^verbatim>\<open>double\<close> and of a \<^verbatim>\<open>float\<close>.\<close>

definition f64 :: "nat \<Rightarrow> nat \<Rightarrow> nat \<Rightarrow> u64" where
  "f64 s e m = word_of_nat ((s * 2048 + e) * 2 ^ 52 + m)"

definition f64_sign :: "u64 \<Rightarrow> nat" where "f64_sign d = unat d div 2 ^ 52 div 2048"
definition f64_exp :: "u64 \<Rightarrow> nat" where "f64_exp d = unat d div 2 ^ 52 mod 2048"
definition f64_man :: "u64 \<Rightarrow> nat" where "f64_man d = unat d mod 2 ^ 52"

definition f32 :: "nat \<Rightarrow> nat \<Rightarrow> nat \<Rightarrow> u32" where
  "f32 s e m = word_of_nat ((s * 256 + e) * 2 ^ 23 + m)"

definition f32_sign :: "u32 \<Rightarrow> nat" where "f32_sign f = unat f div 2 ^ 23 div 256"
definition f32_exp :: "u32 \<Rightarrow> nat" where "f32_exp f = unat f div 2 ^ 23 mod 256"
definition f32_man :: "u32 \<Rightarrow> nat" where "f32_man f = unat f mod 2 ^ 23"

definition is_nan :: "u64 \<Rightarrow> bool" where "is_nan d \<longleftrightarrow> f64_exp d = 2047 \<and> f64_man d \<noteq> 0"
definition is_inf :: "u64 \<Rightarrow> bool" where "is_inf d \<longleftrightarrow> f64_exp d = 2047 \<and> f64_man d = 0"

definition quiet_nan :: u64 where "quiet_nan = f64 0 2047 (2 ^ 51)"

text \<open>The position of the highest bit that is set.\<close>

fun top_bit :: "nat \<Rightarrow> nat" where
  "top_bit n = (if n < 2 then 0 else Suc (top_bit (n div 2)))"

declare top_bit.simps [simp del]

text \<open>
  \<^verbatim>\<open>std::ldexp(m, e)\<close> for \<open>0 < m < 2 ^ 53\<close> and exponents that stay in the normal range, and the
  conversion from \<^verbatim>\<open>float\<close> to \<^verbatim>\<open>double\<close>, which makes a NaN quiet and is exact otherwise.
\<close>

definition f64_ldexp :: "nat \<Rightarrow> nat \<Rightarrow> int \<Rightarrow> u64" where
  "f64_ldexp s m e =
     (if m = 0 then f64 s 0 0
      else let k = top_bit m in f64 s (nat (1023 + int k + e)) ((m - 2 ^ k) * 2 ^ (52 - k)))"

definition float_to_double :: "u32 \<Rightarrow> u64" where
  "float_to_double f =
     (let s = f32_sign f; e = f32_exp f; m = f32_man f in
      if e = 255 then f64 s 2047 (if m = 0 then 0 else m * 2 ^ 29 mod 2 ^ 51 + 2 ^ 51)
      else if e = 0 then f64_ldexp s m (- 149)
      else f64 s (e + 896) (m * 2 ^ 29))"

text \<open>
  The conversion back. The only use of it is in \<^verbatim>\<open>write_compact_float\<close>, which compares the
  converted value with the original: a number that is no \<^verbatim>\<open>float\<close> fails the comparison however
  it is rounded, so the mantissa is cut here instead of rounded.
\<close>

definition double_to_float :: "u64 \<Rightarrow> u32" where
  "double_to_float d =
     (let s = f64_sign d; e = f64_exp d; m = f64_man d in
      if 897 \<le> e then f32 s (e - 896) (m div 2 ^ 29)
      else if 874 \<le> e then f32 s 0 (2 ^ (e - 874) + m div 2 ^ (52 - (e - 874)))
      else f32 s 0 0)"

text \<open>Between \<^verbatim>\<open>numeric_limits<float>::lowest()\<close> and \<^verbatim>\<open>max()\<close>; a NaN is not.\<close>

definition in_float_range :: "u64 \<Rightarrow> bool" where
  "in_float_range d \<longleftrightarrow> unat d mod 2 ^ 63 \<le> 0x47EFFFFFE0000000"

definition write_compact_float :: "u8 \<Rightarrow> u8 \<Rightarrow> u64 \<Rightarrow> octets" where
  "write_compact_float prefix32 prefix64 d =
     (if in_float_range d \<and> float_to_double (double_to_float d) = d
      then prefix32 # write_number 4 (unat (double_to_float d))
      else prefix64 # write_number 8 (unat d))"

lemmas float_exec [exec] =
  f64_def f64_sign_def f64_exp_def f64_man_def f32_def f32_sign_def f32_exp_def f32_man_def is_nan_def
  is_inf_def quiet_nan_def f64_ldexp_def float_to_double_def double_to_float_def in_float_range_def
  write_compact_float_def

text \<open>The three fields of a number determine it, and each is what it was put together from.\<close>

lemma unat_of_small: "n < 2 ^ LENGTH('a) \<Longrightarrow> unat (word_of_nat n :: 'a::len word) = n"
  by (simp add: unsigned_of_nat take_bit_nat_eq_self)

lemma fields_join:
  fixes s e m A B :: nat
  assumes "e < A" and "m < B"
  shows "((s * A + e) * B + m) mod B = m" "((s * A + e) * B + m) div B mod A = e"
    "((s * A + e) * B + m) div B div A = s"
  using assms by auto

lemma fields_bound:
  fixes s e m A B :: nat
  assumes "s < 2" "e < A" "m < B"
  shows "(s * A + e) * B + m < 2 * A * B"
proof -
  have "s * A + e < 2 * A" using assms mult_le_mono1 [of s 1 A] by linarith
  then have "Suc (s * A + e) * B \<le> 2 * A * B" by (intro mult_le_mono1) simp
  with assms(3) show ?thesis by simp
qed

lemma f64_fields:
  assumes "s < 2" and "e < 2048" and "m < 2 ^ 52"
  shows "f64_sign (f64 s e m) = s" and "f64_exp (f64 s e m) = e" and "f64_man (f64 s e m) = m"
proof -
  have "unat (f64 s e m) = (s * 2048 + e) * 2 ^ 52 + m"
    unfolding f64_def by (rule unat_of_small) (use fields_bound [OF assms] in simp)
  then show "f64_sign (f64 s e m) = s" "f64_exp (f64 s e m) = e" "f64_man (f64 s e m) = m"
    unfolding f64_sign_def f64_exp_def f64_man_def by (simp_all only: fields_join [OF assms(2,3)])
qed

lemma f32_fields_eq: "f32 (f32_sign f) (f32_exp f) (f32_man f) = f"
  unfolding f32_def f32_sign_def f32_exp_def f32_man_def
  by (simp only: div_mult_mod_eq of_nat_unat ucast_id)

lemma f64_fields_eq: "f64 (f64_sign d) (f64_exp d) (f64_man d) = d"
  unfolding f64_def f64_sign_def f64_exp_def f64_man_def
  by (simp only: div_mult_mod_eq of_nat_unat ucast_id)

lemma f64_bounds: "f64_sign d < 2" "f64_exp d < 2048" "f64_man d < 2 ^ 52"
proof -
  have "unat d < 2 ^ 64" using unsigned_less [of d] by simp
  then show "f64_sign d < 2" by (simp add: f64_sign_def div_mult2_eq [symmetric] less_mult_imp_div_less)
qed (simp_all add: f64_exp_def f64_man_def)

lemma f32_bounds: "f32_sign f < 2" "f32_exp f < 256" "f32_man f < 2 ^ 23"
proof -
  have "unat f < 2 ^ 32" using unsigned_less [of f] by simp
  then show "f32_sign f < 2" by (simp add: f32_sign_def div_mult2_eq [symmetric] less_mult_imp_div_less)
qed (simp_all add: f32_exp_def f32_man_def)

lemma top_bit_bounds: "0 < n \<Longrightarrow> 2 ^ top_bit n \<le> n \<and> n < 2 * 2 ^ top_bit n"
proof (induction n rule: top_bit.induct)
  case (1 n)
  show ?case
  proof (cases "n < 2")
    case True
    with 1 show ?thesis by (simp add: top_bit.simps [of n])
  next
    case False
    with 1 have "2 ^ top_bit (n div 2) \<le> n div 2 \<and> n div 2 < 2 * 2 ^ top_bit (n div 2)" by simp
    then show ?thesis using False unfolding top_bit.simps [of n] by auto
  qed
qed

text \<open>Every finite \<^verbatim>\<open>float\<close> survives the way through \<^verbatim>\<open>double\<close>.\<close>

lemma double_to_float_widen:
  assumes "f32_exp f \<noteq> 255"
  shows "double_to_float (float_to_double f) = f"
proof -
  let ?s = "f32_sign f" and ?e = "f32_exp f" and ?m = "f32_man f"
  note b = f32_bounds [of f]
  consider (zero) "?e = 0" "?m = 0" | (sub) "?e = 0" "0 < ?m" | (normal) "0 < ?e" by auto
  then show ?thesis
  proof cases
    case zero
    then have "float_to_double f = f64 ?s 0 0"
      by (simp add: float_to_double_def f64_ldexp_def Let_def)
    then have "double_to_float (float_to_double f) = f32 ?s 0 0"
      using f64_fields [of ?s 0 0] b by (simp add: double_to_float_def Let_def)
    with zero show ?thesis using f32_fields_eq [of f] by simp
  next
    case sub
    let ?k = "top_bit ?m"
    have k: "2 ^ ?k \<le> ?m" "?m < 2 * 2 ^ ?k" using top_bit_bounds [OF sub(2)] by auto
    have "(2 :: nat) ^ ?k < 2 ^ 23" using k(1) b(3) by linarith
    then have k23: "?k < 23" by (rule power_less_imp_less_exp [rotated]) simp
    have "(?m - 2 ^ ?k) * 2 ^ (52 - ?k) < 2 ^ ?k * 2 ^ (52 - ?k)" using k by (intro mult_strict_right_mono) auto
    then have m: "(?m - 2 ^ ?k) * 2 ^ (52 - ?k) < 2 ^ 52" using k23 by (simp flip: power_add)
    have "float_to_double f = f64 ?s (874 + ?k) ((?m - 2 ^ ?k) * 2 ^ (52 - ?k))"
      using sub by (simp add: float_to_double_def f64_ldexp_def Let_def nat_add_distrib)
    then have "double_to_float (float_to_double f) = f32 ?s 0 (2 ^ ?k + (?m - 2 ^ ?k))"
      using f64_fields [OF b(1) _ m, of "874 + ?k"] k23 by (simp add: double_to_float_def Let_def)
    with sub k show ?thesis using f32_fields_eq [of f] by simp
  next
    case normal
    have m: "?m * 2 ^ 29 < 2 ^ 52" using b(3) by simp
    then show ?thesis
      using f64_fields [OF b(1) _ m, of "?e + 896"] normal assms b(2) f32_fields_eq [of f]
      by (simp add: float_to_double_def double_to_float_def Let_def)
  qed
qed

section \<open>Formats\<close>

text \<open>
  What a binary format promises: a reader that is at the bytes of a written value reports the
  events of the value, up to what the format does not distinguish, and stands behind these bytes.
  The bound on the depth only has to exceed the number of bytes.
\<close>

locale binary_format =
  fixes encode :: "json \<Rightarrow> octets"
    and parse :: "nat \<Rightarrow> reader \<Rightarrow> json_error + sax_event list \<times> reader"
    and writable :: "json \<Rightarrow> bool"
    and norm :: "json \<Rightarrow> json"
  assumes parse_written: "writable j \<Longrightarrow> r_input r = encode j @ rest \<Longrightarrow> length (encode j) < fuel \<Longrightarrow>
      parse fuel r = Inr (events (norm j), reads (length (encode j)) r)"
    and norm_ok: "writable j \<Longrightarrow> json_ok (norm j)"
begin

lemma read_back:
  assumes "writable j"
  shows "from_binary ex (sax_parse True (parse (Suc (length (encode j))) (reader_new (encode j)))) = Inr (norm j)"
proof -
  let ?r = "reader_new (encode j)"
  have "parse (Suc (length (encode j))) ?r = Inr (events (norm j), reads (length (encode j)) ?r)"
    using assms by (intro parse_written [where rest = "[]"]) (auto simp: reader_new_def)
  moreover have "r_current (rget (reads (length (encode j)) ?r)) = None"
    by (simp add: rget_def reader_new_def)
  ultimately show ?thesis
    using build_events [OF norm_ok [OF assms]] by (simp add: sax_parse_def from_binary_def)
qed

text \<open>Values that are written to the same bytes are the same up to what the format distinguishes.\<close>

lemma encode_inj: "writable i \<Longrightarrow> writable j \<Longrightarrow> encode i = encode j \<Longrightarrow> norm i = norm j"
  using read_back [of i] read_back [of j] by simp

end

lemma concat_member_length: "x \<in> set xs \<Longrightarrow> length (w x) \<le> length (concat (map w xs))"
  by (induction xs) auto

text \<open>Reading the items of a list that were written one after the other.\<close>

lemma read_n_written:
  assumes "\<And>x r rest. x \<in> set xs \<Longrightarrow> r_input r = w x @ rest \<Longrightarrow> p r = Inr (e x, reads (length (w x)) r)"
    and "r_input r = concat (map w xs) @ rest"
  shows "read_n p (length xs) r = Inr (concat (map e xs), reads (length (concat (map w xs))) r)"
  using assms
proof (induction xs arbitrary: r)
  case (Cons x xs)
  have "p r = Inr (e x, reads (length (w x)) r)" using Cons.prems by simp
  moreover have "read_n p (length xs) (reads (length (w x)) r) =
      Inr (concat (map e xs), reads (length (concat (map w xs))) (reads (length (w x)) r))"
    using Cons.prems by (intro Cons.IH) auto
  ultimately show ?case by (simp add: reads_add)
qed simp

section \<open>Reading any input\<close>

text \<open>
  The exceptions that a reader throws, and a result that was not cut off and did not put bytes back
  into the input.
\<close>

fun read_error :: "json_error \<Rightarrow> bool" where
  "read_error (ParseError c n) \<longleftrightarrow> True"
| "read_error (OutOfRangeError c) \<longleftrightarrow> c = 408"
| "read_error e \<longleftrightarrow> False"

definition ends :: "nat \<Rightarrow> json_error + 'a \<times> reader \<Rightarrow> bool" where
  "ends n res \<longleftrightarrow> (case res of Inl e \<Rightarrow> read_error e | Inr (x, r) \<Rightarrow> length (r_input r) \<le> n)"

lemma ends_simps [simp]: "ends n (Inl e) \<longleftrightarrow> read_error e" "ends n (Inr (x, r)) \<longleftrightarrow> length (r_input r) \<le> n"
  by (simp_all add: ends_def)

lemma ends_invalid [simp]: "ends n (invalid_byte r)"
  by (simp add: invalid_byte_def)

lemma ends_mono: "ends m res \<Longrightarrow> m \<le> n \<Longrightarrow> ends n res"
  by (auto simp: ends_def split: sum.splits)

lemma ends_bind:
  "ends n m \<Longrightarrow> (\<And>x r. m = Inr (x, r) \<Longrightarrow> length (r_input r) \<le> n \<Longrightarrow> ends n (f (x, r))) \<Longrightarrow> ends n (bindE m f)"
  by (cases m) auto

lemma ends_start [simp]:
  "(\<And>e. ends n (f e)) \<Longrightarrow> ends n (bindE (start_array len) f)"
  "(\<And>e. ends n (f e)) \<Longrightarrow> ends n (bindE (start_object len) f)"
  by (auto simp: start_array_def start_object_def split: option.split)

lemma ends_get_bytes [intro]: "ends (length (r_input r)) (get_bytes k r)"
proof (induction k arbitrary: r)
  case (Suc k)
  have "ends (length (r_input r)) (get_bytes k (rget r))"
    by (rule ends_mono [OF Suc.IH]) simp
  then show ?case
    by (auto simp: Let_def split: option.split intro!: ends_bind)
qed simp

lemma ends_get_string [intro]: "ends (length (r_input r)) (get_string k r)"
  by (auto simp: get_string_def)

lemma ends_get_binary [intro]: "ends (length (r_input r)) (get_binary k r)"
  by (auto simp: get_binary_def)

lemma ends_get_number [intro]: "ends (length (r_input r)) (get_number k r)"
  by (auto simp: get_number_def intro!: ends_bind)

lemma ends_with_number:
  "(\<And>n r1. length (r_input r1) \<le> length (r_input r) \<Longrightarrow> ends (length (r_input r)) (f n r1)) \<Longrightarrow>
   ends (length (r_input r)) (with_number k r f)"
  by (auto intro!: ends_bind)

lemma ends_read_n:
  "(\<And>r'. length (r_input r') \<le> length (r_input r) \<Longrightarrow> ends (length (r_input r')) (p r')) \<Longrightarrow>
   ends (length (r_input r)) (read_n p k r)"
proof (induction k arbitrary: r)
  case (Suc k)
  have "ends (length (r_input r)) (read_n p k r1)" if "length (r_input r1) \<le> length (r_input r)" for r1
    by (rule ends_mono [OF Suc.IH that]) (use Suc.prems that in auto)
  then show ?case using Suc.prems by (auto intro!: ends_bind)
qed simp

text \<open>A result that, if there is one, has a property.\<close>

definition gives :: "('a \<Rightarrow> bool) \<Rightarrow> json_error + 'a \<times> reader \<Rightarrow> bool" where
  "gives P res \<longleftrightarrow> (\<forall>x r. res = Inr (x, r) \<longrightarrow> P x)"

lemma gives_simps [simp]: "gives P (Inl e)" "gives P (Inr (x, r)) \<longleftrightarrow> P x" "gives P (invalid_byte r)"
  by (auto simp: gives_def invalid_byte_def)

lemma get_bytes_length: "get_bytes k r = Inr (bs, r') \<Longrightarrow> length bs = k"
  by (induction k arbitrary: r bs r') (auto simp: Let_def bindE_Inr_iff split: option.splits)

lemma gives_any [simp]: "gives (\<lambda>_. True) m"
  by (simp add: gives_def)

lemma gives_then: "gives Q m \<Longrightarrow> (\<And>x r. Q x \<Longrightarrow> gives P (f (x, r))) \<Longrightarrow> gives P (bindE m f)"
  by (cases m) auto

lemma get_number_bound:
  assumes "get_number k r = Inr (n, r')"
  shows "n < 256 ^ k"
proof -
  obtain bs where "get_bytes k r = Inr (bs, r')" "n = le_value (rev bs)"
    using assms by (auto simp: get_number_def bindE_Inr_iff)
  with get_bytes_length le_value_bound [of "rev bs"] show ?thesis by fastforce
qed

lemma gives_with_number: "(\<And>n r. n < 256 ^ k \<Longrightarrow> gives P (f n r)) \<Longrightarrow> gives P (with_number k r f)"
  by (rule gives_then [of "\<lambda>n. n < 256 ^ k"]) (auto simp: gives_def dest: get_number_bound)

lemma gives_read_n:
  assumes "P []" and "\<And>xs ys. Q xs \<Longrightarrow> P ys \<Longrightarrow> P (xs @ ys)" and "\<And>r. gives Q (p r)"
  shows "gives P (read_n p k r)"
  by (induction k arbitrary: r) (auto intro!: assms gives_then [OF assms(3)] gives_then [where Q = P])

text \<open>
  What the \<^verbatim>\<open>from_\<close> functions return: a value with its types, a discarded value or an exception.
\<close>

definition read_result :: "bool \<Rightarrow> json_error + json \<Rightarrow> bool" where
  "read_result allow_exceptions res \<longleftrightarrow>
     (case res of
        Inl e \<Rightarrow> read_error e \<and> (allow_exceptions \<or> e = OutOfRangeError 408)
      | Inr j \<Rightarrow> json_typed j \<or> j = JDiscarded \<and> \<not> allow_exceptions)"

lemma read_error_cases: "read_error e \<Longrightarrow> (\<exists>c n. e = ParseError c n) \<or> e = OutOfRangeError 408"
  by (cases e) auto

lemma sax_parse_result:
  assumes "ends n p" and "gives delivers p"
  shows "case sax_parse strict p of Inl e \<Rightarrow> read_error e | Inr es \<Rightarrow> delivers es"
  using assms by (cases p) (auto simp: sax_parse_def Let_def split: option.split)

lemma from_binary_result:
  assumes "ends n p" and "gives delivers p"
  shows "read_result ex (from_binary ex (sax_parse strict p))"
  using sax_parse_result [OF assms, of strict]
  by (auto simp: from_binary_def read_result_def dest!: read_error_cases build_delivers split: sum.splits if_splits)

end
