(* ===== verification/Json_Cbor.thy ===== *)
theory Json_Cbor
  imports Json_Binary
begin

text \<open>
  CBOR: the writer (\<^verbatim>\<open>binary_writer::write_cbor\<close>) and the reader (\<^verbatim>\<open>binary_reader::parse_cbor_internal\<close>
  and the functions it calls) of \<^verbatim>\<open>json.hpp\<close>. The reader is recursive; its model has a bound on the
  depth of the recursion, and the bound that \<open>from_cbor\<close> takes is proved to be enough for every input.
\<close>

section \<open>Writing\<close>

definition cbor_write_unsigned :: "nat \<Rightarrow> octets" where
  "cbor_write_unsigned n =
     (if n \<le> 0x17 then write_number 1 n
      else if n \<le> 0xFF then 0x18 # write_number 1 n
      else if n \<le> 0xFFFF then 0x19 # write_number 2 n
      else if n \<le> 0xFFFFFFFF then 0x1A # write_number 4 n
      else 0x1B # write_number 8 n)"

definition cbor_write_integer :: "int \<Rightarrow> octets" where
  "cbor_write_integer i =
     (if 0 \<le> i then
        if i \<le> 0x17 then write_signed 1 i
        else if i \<le> 0xFF then 0x18 # write_signed 1 i
        else if i \<le> 0xFFFF then 0x19 # write_signed 2 i
        else if i \<le> 0xFFFFFFFF then 0x1A # write_signed 4 i
        else 0x1B # write_signed 8 i
      else
        let positive_number = - 1 - i in
        if - 24 \<le> i then write_signed 1 (0x20 + positive_number)
        else if positive_number \<le> 0xFF then 0x38 # write_signed 1 positive_number
        else if positive_number \<le> 0xFFFF then 0x39 # write_signed 2 positive_number
        else if positive_number \<le> 0xFFFFFFFF then 0x3A # write_signed 4 positive_number
        else 0x3B # write_signed 8 positive_number)"

definition cbor_write_float :: "u64 \<Rightarrow> octets" where
  "cbor_write_float d =
     (if is_nan d then [0xF9, 0x7E, 0x00]
      else if is_inf d then [0xF9, if f64_sign d = 0 then 0x7C else 0xFC, 0x00]
      else write_compact_float 0xFA 0xFB d)"

definition cbor_string_head :: "nat \<Rightarrow> octets" where
  "cbor_string_head N =
     (if N \<le> 0x17 then write_number 1 (0x60 + N)
      else if N \<le> 0xFF then 0x78 # write_number 1 N
      else if N \<le> 0xFFFF then 0x79 # write_number 2 N
      else if N \<le> 0xFFFFFFFF then 0x7A # write_number 4 N
      else if N \<le> 0xFFFFFFFFFFFFFFFF then 0x7B # write_number 8 N
      else [])"

definition cbor_write_string :: "octets \<Rightarrow> octets" where
  "cbor_write_string s = cbor_string_head (length s) @ s"

definition cbor_array_head :: "nat \<Rightarrow> octets" where
  "cbor_array_head N =
     (if N \<le> 0x17 then write_number 1 (0x80 + N)
      else if N \<le> 0xFF then 0x98 # write_number 1 N
      else if N \<le> 0xFFFF then 0x99 # write_number 2 N
      else if N \<le> 0xFFFFFFFF then 0x9A # write_number 4 N
      else if N \<le> 0xFFFFFFFFFFFFFFFF then 0x9B # write_number 8 N
      else [])"

definition cbor_binary_head :: "nat \<Rightarrow> octets" where
  "cbor_binary_head N =
     (if N \<le> 0x17 then write_number 1 (0x40 + N)
      else if N \<le> 0xFF then 0x58 # write_number 1 N
      else if N \<le> 0xFFFF then 0x59 # write_number 2 N
      else if N \<le> 0xFFFFFFFF then 0x5A # write_number 4 N
      else if N \<le> 0xFFFFFFFFFFFFFFFF then 0x5B # write_number 8 N
      else [])"

definition cbor_write_binary :: "octets \<Rightarrow> u8 option \<Rightarrow> octets" where
  "cbor_write_binary b subtype =
     (case subtype of None \<Rightarrow> [] | Some t \<Rightarrow> write_number 1 0xD8 @ write_number 1 (unat t)) @
     cbor_binary_head (length b) @ b"

definition cbor_object_head :: "nat \<Rightarrow> octets" where
  "cbor_object_head N =
     (if N \<le> 0x17 then write_number 1 (0xA0 + N)
      else if N \<le> 0xFF then 0xB8 # write_number 1 N
      else if N \<le> 0xFFFF then 0xB9 # write_number 2 N
      else if N \<le> 0xFFFFFFFF then 0xBA # write_number 4 N
      else if N \<le> 0xFFFFFFFFFFFFFFFF then 0xBB # write_number 8 N
      else [])"

fun write_cbor :: "json \<Rightarrow> octets" where
  "write_cbor JNull = [0xF6]"
| "write_cbor (JBool b) = [if b then 0xF5 else 0xF4]"
| "write_cbor (JInt i) = cbor_write_integer i"
| "write_cbor (JUint n) = cbor_write_unsigned n"
| "write_cbor (JFloat d) = cbor_write_float d"
| "write_cbor (JString s) = cbor_write_string s"
| "write_cbor (JBinary b t) = cbor_write_binary b t"
| "write_cbor (JArray xs) = cbor_array_head (length xs) @ concat (map write_cbor xs)"
| "write_cbor (JObject m) =
     cbor_object_head (length m) @ concat (map (\<lambda>(k, v). cbor_write_string k @ write_cbor v) m)"
| "write_cbor JDiscarded = []"

section \<open>Reading\<close>

text \<open>Items until the break byte \<^verbatim>\<open>0xFF\<close>.\<close>

fun read_until_break ::
  "(reader \<Rightarrow> json_error + 'a list \<times> reader) \<Rightarrow> nat \<Rightarrow> reader \<Rightarrow> json_error + 'a list \<times> reader" where
  "read_until_break p 0 r = Inl OutOfFuel"
| "read_until_break p (Suc n) r =
     (let r1 = rget r in
      if r_current r1 = Some 0xFF then Inr ([], r1)
      else bindE (p r1) (\<lambda>(xs, r2). bindE (read_until_break p n r2) (\<lambda>(ys, r3). Inr (xs @ ys, r3))))"

fun get_cbor_string :: "nat \<Rightarrow> reader \<Rightarrow> json_error + octets \<times> reader" where
  "get_cbor_string 0 r = Inl OutOfFuel"
| "get_cbor_string (Suc fuel) r =
     (case r_current r of
        None \<Rightarrow> Inl (ParseError 110 (chars_read r))
      | Some b \<Rightarrow>
          let c = unat b in
          if 0x60 \<le> c \<and> c \<le> 0x77 then get_string (c mod 0x20) r
          else if c = 0x78 then with_number 1 r get_string
          else if c = 0x79 then with_number 2 r get_string
          else if c = 0x7A then with_number 4 r get_string
          else if c = 0x7B then with_number 8 r get_string
          else if c = 0x7F then read_until_break (get_cbor_string fuel) (Suc fuel) r
          else Inl (ParseError 113 (chars_read r)))"

fun get_cbor_binary :: "nat \<Rightarrow> reader \<Rightarrow> json_error + octets \<times> reader" where
  "get_cbor_binary 0 r = Inl OutOfFuel"
| "get_cbor_binary (Suc fuel) r =
     (case r_current r of
        None \<Rightarrow> Inl (ParseError 110 (chars_read r))
      | Some b \<Rightarrow>
          let c = unat b in
          if 0x40 \<le> c \<and> c \<le> 0x57 then get_binary (c mod 0x20) r
          else if c = 0x58 then with_number 1 r get_binary
          else if c = 0x59 then with_number 2 r get_binary
          else if c = 0x5A then with_number 4 r get_binary
          else if c = 0x5B then with_number 8 r get_binary
          else if c = 0x5F then read_until_break (get_cbor_binary fuel) (Suc fuel) r
          else Inl (ParseError 113 (chars_read r)))"

text \<open>
  Containers. The length \<^verbatim>\<open>size_t(-1)\<close> stands for a container whose end is marked, also when it
  was read from the input.
\<close>

definition size_arg :: "nat \<Rightarrow> nat option" where
  "size_arg n = (if n = 2 ^ 64 - 1 then None else Some n)"

type_synonym parse = "bool \<Rightarrow> reader \<Rightarrow> json_error + sax_event list \<times> reader"

definition get_cbor_array :: "nat \<Rightarrow> parse \<Rightarrow> nat option \<Rightarrow> reader \<Rightarrow> json_error + sax_event list \<times> reader" where
  "get_cbor_array fuel parse len r =
     bindE (start_array len) (\<lambda>e.
     bindE (case len of
              Some n \<Rightarrow> read_n (parse True) n r
            | None \<Rightarrow> read_until_break (parse False) (Suc fuel) r) (\<lambda>(es, r1).
     Inr (e @ es @ [EEndArray], r1)))"

text \<open>One entry, after the first byte of the key was read.\<close>

definition cbor_entry :: "nat \<Rightarrow> parse \<Rightarrow> reader \<Rightarrow> json_error + sax_event list \<times> reader" where
  "cbor_entry fuel parse r =
     bindE (get_cbor_string (Suc fuel) r) (\<lambda>(key, r1).
     bindE (parse True r1) (\<lambda>(es, r2). Inr (EKey key # es, r2)))"

definition get_cbor_object :: "nat \<Rightarrow> parse \<Rightarrow> nat option \<Rightarrow> reader \<Rightarrow> json_error + sax_event list \<times> reader" where
  "get_cbor_object fuel parse len r =
     bindE (start_object len) (\<lambda>e.
     bindE (case len of
              Some n \<Rightarrow> read_n (\<lambda>r. cbor_entry fuel parse (rget r)) n r
            | None \<Rightarrow> read_until_break (cbor_entry fuel parse) (Suc fuel) r) (\<lambda>(es, r1).
     Inr (e @ es @ [EEndObject], r1)))"

text \<open>The cases of \<^verbatim>\<open>parse_cbor_internal\<close> by the first byte \<open>c\<close>.\<close>

definition cbor_unsigned :: "nat \<Rightarrow> reader \<Rightarrow> json_error + sax_event list \<times> reader" where
  "cbor_unsigned c r =
     (if c \<le> 0x17 then Inr ([EUint c], r)
      else if c = 0x18 then with_number 1 r (\<lambda>n r. Inr ([EUint n], r))
      else if c = 0x19 then with_number 2 r (\<lambda>n r. Inr ([EUint n], r))
      else if c = 0x1A then with_number 4 r (\<lambda>n r. Inr ([EUint n], r))
      else if c = 0x1B then with_number 8 r (\<lambda>n r. Inr ([EUint n], r))
      else invalid_byte r)"

definition cbor_negative :: "nat \<Rightarrow> reader \<Rightarrow> json_error + sax_event list \<times> reader" where
  "cbor_negative c r =
     (if c \<le> 0x37 then Inr ([EInt (0x20 - 1 - int c)], r)
      else if c = 0x38 then with_number 1 r (\<lambda>n r. Inr ([EInt (- 1 - int n)], r))
      else if c = 0x39 then with_number 2 r (\<lambda>n r. Inr ([EInt (- 1 - int n)], r))
      else if c = 0x3A then with_number 4 r (\<lambda>n r. Inr ([EInt (- 1 - int n)], r))
      else if c = 0x3B then with_number 8 r (\<lambda>n r. Inr ([EInt (- 1 - signed_of 8 n)], r))
      else invalid_byte r)"

definition cbor_bytes :: "nat \<Rightarrow> nat \<Rightarrow> reader \<Rightarrow> json_error + sax_event list \<times> reader" where
  "cbor_bytes fuel c r =
     (if c \<le> 0x5B \<or> c = 0x5F then bindE (get_cbor_binary (Suc fuel) r) (\<lambda>(b, r1). Inr ([EBinary b None], r1))
      else invalid_byte r)"

definition cbor_text :: "nat \<Rightarrow> nat \<Rightarrow> reader \<Rightarrow> json_error + sax_event list \<times> reader" where
  "cbor_text fuel c r =
     (if c \<le> 0x7B \<or> c = 0x7F then bindE (get_cbor_string (Suc fuel) r) (\<lambda>(s, r1). Inr ([EString s], r1))
      else invalid_byte r)"

definition cbor_array :: "nat \<Rightarrow> parse \<Rightarrow> nat \<Rightarrow> reader \<Rightarrow> json_error + sax_event list \<times> reader" where
  "cbor_array fuel parse c r =
     (if c \<le> 0x97 then get_cbor_array fuel parse (Some (c mod 0x20)) r
      else if c = 0x98 then with_number 1 r (\<lambda>n. get_cbor_array fuel parse (Some n))
      else if c = 0x99 then with_number 2 r (\<lambda>n. get_cbor_array fuel parse (Some n))
      else if c = 0x9A then with_number 4 r (\<lambda>n. get_cbor_array fuel parse (Some n))
      else if c = 0x9B then with_number 8 r (\<lambda>n. get_cbor_array fuel parse (size_arg n))
      else if c = 0x9F then get_cbor_array fuel parse None r
      else invalid_byte r)"

definition cbor_map :: "nat \<Rightarrow> parse \<Rightarrow> nat \<Rightarrow> reader \<Rightarrow> json_error + sax_event list \<times> reader" where
  "cbor_map fuel parse c r =
     (if c \<le> 0xB7 then get_cbor_object fuel parse (Some (c mod 0x20)) r
      else if c = 0xB8 then with_number 1 r (\<lambda>n. get_cbor_object fuel parse (Some n))
      else if c = 0xB9 then with_number 2 r (\<lambda>n. get_cbor_object fuel parse (Some n))
      else if c = 0xBA then with_number 4 r (\<lambda>n. get_cbor_object fuel parse (Some n))
      else if c = 0xBB then with_number 8 r (\<lambda>n. get_cbor_object fuel parse (size_arg n))
      else if c = 0xBF then get_cbor_object fuel parse None r
      else invalid_byte r)"

datatype cbor_tag_handler_t = Tag_error | Tag_ignore

definition cbor_tag ::
  "cbor_tag_handler_t \<Rightarrow> parse \<Rightarrow> nat \<Rightarrow> reader \<Rightarrow> json_error + sax_event list \<times> reader" where
  "cbor_tag tag_handler parse c r =
     (if 0xC6 \<le> c \<and> c \<le> 0xD4 \<or> 0xD8 \<le> c \<and> c \<le> 0xDB then
        case tag_handler of
          Tag_error \<Rightarrow> invalid_byte r
        | Tag_ignore \<Rightarrow>
            if c = 0xD8 then with_number 1 r (\<lambda>_. parse True)
            else if c = 0xD9 then with_number 2 r (\<lambda>_. parse True)
            else if c = 0xDA then with_number 4 r (\<lambda>_. parse True)
            else if c = 0xDB then with_number 8 r (\<lambda>_. parse True)
            else parse True r
      else invalid_byte r)"

text \<open>A half-precision number; the sign is put on last, also for a NaN.\<close>

definition half_to_double :: "nat \<Rightarrow> u64" where
  "half_to_double half =
     (let s = half div 2 ^ 15; e = half div 2 ^ 10 mod 2 ^ 5; m = half mod 2 ^ 10 in
      if e = 0 then f64_ldexp s m (- 24)
      else if e = 31 then (if m = 0 then f64 s 2047 0 else f64 s 2047 (2 ^ 51))
      else f64_ldexp s (m + 1024) (int e - 25))"

definition cbor_simple :: "nat \<Rightarrow> reader \<Rightarrow> json_error + sax_event list \<times> reader" where
  "cbor_simple c r =
     (if c = 0xF4 then Inr ([EBool False], r)
      else if c = 0xF5 then Inr ([EBool True], r)
      else if c = 0xF6 then Inr ([ENull], r)
      else if c = 0xF9 then with_number 2 r (\<lambda>half r. Inr ([EFloat (half_to_double half)], r))
      else if c = 0xFA then with_number 4 r (\<lambda>n r. Inr ([EFloat (float_to_double (word_of_nat n))], r))
      else if c = 0xFB then with_number 8 r (\<lambda>n r. Inr ([EFloat (word_of_nat n)], r))
      else invalid_byte r)"

fun parse_cbor_internal ::
  "nat \<Rightarrow> cbor_tag_handler_t \<Rightarrow> bool \<Rightarrow> reader \<Rightarrow> json_error + sax_event list \<times> reader" where
  "parse_cbor_internal 0 t get_char r0 = Inl OutOfFuel"
| "parse_cbor_internal (Suc fuel) t get_char r0 =
     (let r = (if get_char then rget r0 else r0); parse = parse_cbor_internal fuel t in
      case r_current r of
        None \<Rightarrow> Inl (ParseError 110 (chars_read r))
      | Some b \<Rightarrow>
          let c = unat b in
          if c < 0x20 then cbor_unsigned c r
          else if c < 0x40 then cbor_negative c r
          else if c < 0x60 then cbor_bytes fuel c r
          else if c < 0x80 then cbor_text fuel c r
          else if c < 0xA0 then cbor_array fuel parse c r
          else if c < 0xC0 then cbor_map fuel parse c r
          else if c < 0xE0 then cbor_tag t parse c r
          else cbor_simple c r)"

definition from_cbor :: "octets \<Rightarrow> bool \<Rightarrow> bool \<Rightarrow> cbor_tag_handler_t \<Rightarrow> json_error + json" where
  "from_cbor bs strict allow_exceptions t =
     from_binary allow_exceptions
       (sax_parse strict (parse_cbor_internal (Suc (length bs)) t True (reader_new bs)))"

definition to_cbor :: "json \<Rightarrow> octets" where
  "to_cbor j = write_cbor j"

lemmas cbor_exec [exec] =
  cbor_write_unsigned_def cbor_write_integer_def cbor_write_float_def cbor_string_head_def
  cbor_write_string_def cbor_array_head_def cbor_binary_head_def cbor_write_binary_def
  cbor_object_head_def size_arg_def get_cbor_array_def cbor_entry_def get_cbor_object_def
  cbor_unsigned_def cbor_negative_def cbor_bytes_def cbor_text_def cbor_array_def
  cbor_map_def cbor_tag_def half_to_double_def cbor_simple_def from_cbor_def to_cbor_def

end
