(* ===== verification/Json_Cbor_Spec.thy ===== *)
theory Json_Cbor_Spec
  imports Json_Cbor
begin

text \<open>
  What the CBOR reader makes of what the CBOR writer wrote, that it ends on every input, and where
  it departs from the format.
\<close>

section \<open>Heads\<close>

text \<open>
  All heads have the same shape: the number itself in the first byte when it is small, or the
  number of bytes it takes there and the number in the bytes behind it.
\<close>

definition cbor_head :: "nat \<Rightarrow> nat \<Rightarrow> octets" where
  "cbor_head base N =
     (if N \<le> 0x17 then [byte (base + N)]
      else if N \<le> 0xFF then byte (base + 0x18) # write_number 1 N
      else if N \<le> 0xFFFF then byte (base + 0x19) # write_number 2 N
      else if N \<le> 0xFFFFFFFF then byte (base + 0x1A) # write_number 4 N
      else byte (base + 0x1B) # write_number 8 N)"

lemma heads_eq:
  "N < 2 ^ 64 \<Longrightarrow> cbor_write_unsigned N = cbor_head 0 N"
  "N < 2 ^ 64 \<Longrightarrow> cbor_binary_head N = cbor_head 0x40 N"
  "N < 2 ^ 64 \<Longrightarrow> cbor_string_head N = cbor_head 0x60 N"
  "N < 2 ^ 64 \<Longrightarrow> cbor_array_head N = cbor_head 0x80 N"
  "N < 2 ^ 64 \<Longrightarrow> cbor_object_head N = cbor_head 0xA0 N"
  by (simp_all add: cbor_head_def cbor_write_unsigned_def cbor_binary_head_def cbor_string_head_def
      cbor_array_head_def cbor_object_head_def)

lemma small_negative: "i < 0 \<Longrightarrow> nat (31 - i) = 32 + nat (- 1 - i)"
  by arith

lemma integer_head:
  assumes "- (2 ^ 63) \<le> i" and "i < 2 ^ 63"
  shows "cbor_write_integer i = (if 0 \<le> i then cbor_head 0 (nat i) else cbor_head 0x20 (nat (- 1 - i)))"
  using assms
  by (auto simp: cbor_write_integer_def cbor_head_def write_signed_nat Let_def nat_le_iff small_negative)

lemma cbor_low_bits: "N \<le> 23 \<Longrightarrow> (64 + N) mod 32 = N" "N \<le> 23 \<Longrightarrow> (96 + N) mod 32 = N"
  "N \<le> 23 \<Longrightarrow> (128 + N) mod 32 = N" "N \<le> 23 \<Longrightarrow> (160 + N) mod 32 = N" for N :: nat
  using mod_mult_self2 [of N 32 2] mod_mult_self2 [of N 32 3] mod_mult_self2 [of N 32 4]
    mod_mult_self2 [of N 32 5] by (simp_all add: add.commute)

lemma cbor_head_nonempty: "cbor_head base N \<noteq> []"
  by (simp add: cbor_head_def)

lemma cbor_head_cases:
  assumes "r_input r = cbor_head base N @ rest" and "N < 2 ^ 64" and "base \<le> 0xE0"
  obtains
    (short) b where "N \<le> 0x17" "r_current (rget r) = Some b" "unat b = base + N"
      "reads (length (cbor_head base N)) r = rget r"
  | (w1) b where "r_current (rget r) = Some b" "unat b = base + 0x18"
      "get_number 1 (rget r) = Inr (N, reads (length (cbor_head base N)) r)"
  | (w2) b where "r_current (rget r) = Some b" "unat b = base + 0x19"
      "get_number 2 (rget r) = Inr (N, reads (length (cbor_head base N)) r)"
  | (w4) b where "r_current (rget r) = Some b" "unat b = base + 0x1A"
      "get_number 4 (rget r) = Inr (N, reads (length (cbor_head base N)) r)"
  | (w8) b where "r_current (rget r) = Some b" "unat b = base + 0x1B"
      "get_number 8 (rget r) = Inr (N, reads (length (cbor_head base N)) r)"
proof -
  have wide: "\<exists>b. r_current (rget r) = Some b \<and> unat b = base + c \<and>
      get_number k (rget r) = Inr (N, reads (length (cbor_head base N)) r)"
    if "cbor_head base N = byte (base + c) # write_number k N" "c < 0x20" "N < 256 ^ k" for c k
  proof -
    have "r_input r = byte (base + c) # write_number k N @ rest" using assms(1) that(1) by simp
    from read_wide_head [OF this that(3)] show ?thesis
      using that(1,2) assms(3) by simp
  qed
  consider "N \<le> 0x17" | "0x17 < N" "N \<le> 0xFF" | "0xFF < N" "N \<le> 0xFFFF"
    | "0xFFFF < N" "N \<le> 0xFFFFFFFF" | "0xFFFFFFFF < N" by linarith
  then show thesis
  proof cases
    case 1
    then have h: "cbor_head base N = [byte (base + N)]" by (simp add: cbor_head_def)
    with rget_Cons [of r "byte (base + N)" rest] assms(1,3) 1 show thesis
      by (intro short [of "byte (base + N)"]) simp_all
  next
    case 2
    then show thesis using wide [of "0x18" 1] w1 by (auto simp: cbor_head_def)
  next
    case 3
    then show thesis using wide [of "0x19" 2] w2 by (auto simp: cbor_head_def)
  next
    case 4
    then show thesis using wide [of "0x1A" 4] w4 by (auto simp: cbor_head_def)
  next
    case 5
    then show thesis using wide [of "0x1B" 8] w8 assms(2) by (auto simp: cbor_head_def)
  qed
qed

section \<open>Reading back what was written\<close>

text \<open>
  CBOR does not tell a signed integer that is not negative from an unsigned one, and all NaNs are
  written as the same three bytes.
\<close>

fun cbor_norm :: "json \<Rightarrow> json" where
  "cbor_norm (JInt i) = (if 0 \<le> i then JUint (nat i) else JInt i)"
| "cbor_norm (JFloat d) = JFloat (if is_nan d then quiet_nan else d)"
| "cbor_norm (JArray xs) = JArray (map cbor_norm xs)"
| "cbor_norm (JObject m) = JObject (map (\<lambda>(k, v). (k, cbor_norm v)) m)"
| "cbor_norm j = j"

text \<open>A subtype is written as a tag, which the reader refuses or drops.\<close>

fun no_subtype :: "json \<Rightarrow> bool" where
  "no_subtype (JBinary b t) \<longleftrightarrow> t = None"
| "no_subtype (JArray xs) \<longleftrightarrow> list_all no_subtype xs"
| "no_subtype (JObject m) \<longleftrightarrow> list_all (\<lambda>(k, v). no_subtype v) m"
| "no_subtype j \<longleftrightarrow> True"

definition cbor_writable :: "json \<Rightarrow> bool" where
  "cbor_writable j \<longleftrightarrow> json_ok j \<and> no_subtype j"

lemma cbor_norm_ok: "json_ok j \<Longrightarrow> json_ok (cbor_norm j)"
proof (induction j)
  case (JObject m)
  have "keys_sorted (map (\<lambda>(k, v). (k, cbor_norm v)) m) = keys_sorted m"
    by (simp add: keys_sorted_def comp_def case_prod_beta)
  moreover have "json_ok (cbor_norm v)" if "(k, v) \<in> set m" for k v
    using JObject that by (fastforce simp: list_all_iff)
  ultimately show ?case using JObject.prems by (auto simp: list_all_iff)
qed (auto simp: list_all_iff)

lemma get_cbor_string_head:
  assumes "r_input r = cbor_write_string s @ rest" and "length s < 2 ^ 63"
  shows "get_cbor_string (Suc f) (rget r) = Inr (s, reads (length (cbor_write_string s)) r)"
proof -
  have h: "cbor_write_string s = cbor_head 0x60 (length s) @ s"
    using assms(2) by (simp add: cbor_write_string_def heads_eq)
  let ?k = "length (cbor_head 0x60 (length s))"
  have "get_string (length s) (reads ?k r) = Inr (s, reads (length s) (reads ?k r))"
    using assms(1) h by (intro get_string_append [where rest = rest]) simp
  moreover have "reads (length s) (reads ?k r) = reads (length (cbor_write_string s)) r"
    by (simp add: h reads_add)
  ultimately have g: "get_string (length s) (reads ?k r) = Inr (s, reads (length (cbor_write_string s)) r)"
    by simp
  have "r_input r = cbor_head 0x60 (length s) @ s @ rest" using assms(1) h by simp
  then show ?thesis
    by (rule cbor_head_cases) (use assms(2) g in \<open>simp_all add: Let_def cbor_low_bits\<close>)
qed

lemma get_cbor_binary_head:
  assumes "r_input r = cbor_write_binary s None @ rest" and "length s < 2 ^ 63"
  shows "get_cbor_binary (Suc f) (rget r) = Inr (s, reads (length (cbor_write_binary s None)) r)"
proof -
  have h: "cbor_write_binary s None = cbor_head 0x40 (length s) @ s"
    using assms(2) by (simp add: cbor_write_binary_def heads_eq)
  let ?k = "length (cbor_head 0x40 (length s))"
  have "get_binary (length s) (reads ?k r) = Inr (s, reads (length s) (reads ?k r))"
    using assms(1) h by (intro get_binary_append [where rest = rest]) simp
  moreover have "reads (length s) (reads ?k r) = reads (length (cbor_write_binary s None)) r"
    by (simp add: h reads_add)
  ultimately have g: "get_binary (length s) (reads ?k r) = Inr (s, reads (length (cbor_write_binary s None)) r)"
    by simp
  have "r_input r = cbor_head 0x40 (length s) @ s @ rest" using assms(1) h by simp
  then show ?thesis
    by (rule cbor_head_cases) (use assms(2) g in \<open>simp_all add: Let_def cbor_low_bits\<close>)
qed

text \<open>The heads of containers.\<close>

lemma parse_array_head:
  assumes "r_input r = cbor_head 0x80 N @ rest" and "N \<le> array_max_size"
  shows "parse_cbor_internal (Suc f) t True r =
    bindE (read_n (parse_cbor_internal f t True) N (reads (length (cbor_head 0x80 N)) r))
      (\<lambda>(es, r1). Inr (EStartArray # es @ [EEndArray], r1))"
proof -
  have n: "N < 2 ^ 64" "size_arg N = Some N" "start_array (Some N) = Inr [EStartArray]"
    using assms(2) by (auto simp: array_max_size_def size_arg_def start_array_def)
  show ?thesis
    by (rule cbor_head_cases [OF assms(1) n(1)])
      (use n in \<open>simp_all add: Let_def cbor_low_bits cbor_array_def get_cbor_array_def\<close>)
qed

lemma parse_map_head:
  assumes "r_input r = cbor_head 0xA0 N @ rest" and "N \<le> object_max_size"
  shows "parse_cbor_internal (Suc f) t True r =
    bindE (read_n (\<lambda>r. cbor_entry f (parse_cbor_internal f t) (rget r)) N (reads (length (cbor_head 0xA0 N)) r))
      (\<lambda>(es, r1). Inr (EStartObject # es @ [EEndObject], r1))"
proof -
  have n: "N < 2 ^ 64" "size_arg N = Some N" "start_object (Some N) = Inr [EStartObject]"
    using assms(2) by (auto simp: object_max_size_def size_arg_def start_object_def)
  show ?thesis
    by (rule cbor_head_cases [OF assms(1) n(1)])
      (use n in \<open>simp_all add: Let_def cbor_low_bits cbor_map_def get_cbor_object_def\<close>)
qed

text \<open>Values without parts.\<close>

lemma parse_unsigned_head:
  assumes "r_input r = cbor_head 0 N @ rest" and "N < 2 ^ 64"
  shows "parse_cbor_internal (Suc f) t True r = Inr ([EUint N], reads (length (cbor_head 0 N)) r)"
  by (rule cbor_head_cases [OF assms]) (simp_all add: Let_def cbor_unsigned_def)

lemma parse_negative_head:
  assumes "r_input r = cbor_head 0x20 N @ rest" and "N < 2 ^ 63"
  shows "parse_cbor_internal (Suc f) t True r = Inr ([EInt (- 1 - int N)], reads (length (cbor_head 0x20 N)) r)"
proof -
  have s: "signed_of 8 N = int N"
    using assms(2) by (simp add: signed_of_def signed_take_bit_int_eq_self)
  show ?thesis
    by (rule cbor_head_cases [OF assms(1)]) (use assms(2) s in \<open>simp_all add: Let_def cbor_negative_def\<close>)
qed

lemma parse_float_number:
  assumes "r_input r = b # write_number k n @ rest" and "n < 256 ^ k" and "0xE0 \<le> unat b"
    and "\<And>r'. cbor_simple (unat b) r' = with_number k r' (\<lambda>n r. Inr ([EFloat (g n)], r))"
  shows "parse_cbor_internal (Suc f) t True r = Inr ([EFloat (g n)], reads (Suc k) r)"
  using read_wide_head [OF assms(1,2)] assms(3,4) by (simp add: Let_def del: funpow.simps)

lemma half_infinity: "half_to_double 0x7C00 = f64 0 2047 0" "half_to_double 0xFC00 = f64 1 2047 0"
  and half_nan: "half_to_double 0x7E00 = quiet_nan"
  by (simp_all add: half_to_double_def quiet_nan_def Let_def)

lemma infinity_eq: "is_inf d \<Longrightarrow> d = f64 (if f64_sign d = 0 then 0 else 1) 2047 0"
  using f64_fields_eq [of d] f64_bounds(1) [of d] by (auto simp: is_inf_def less_2_cases_iff)

lemma parse_float:
  assumes "r_input r = cbor_write_float d @ rest"
  shows "parse_cbor_internal (Suc f) t True r =
    Inr ([EFloat (if is_nan d then quiet_nan else d)], reads (length (cbor_write_float d)) r)"
proof -
  have half: "parse_cbor_internal (Suc f) t True r = Inr ([EFloat (half_to_double h)], reads (length (cbor_write_float d)) r)"
    if "cbor_write_float d = 0xF9 # write_number 2 h" "h < 256 ^ 2" for h
    using parse_float_number [where b = "0xF9" and k = 2 and n = h and g = half_to_double] that assms
    by (simp add: cbor_simple_def)
  have two: "write_number 2 0x7E00 = [0x7E, 0]" "write_number 2 0x7C00 = [0x7C, 0]" "write_number 2 0xFC00 = [0xFC, 0]"
    by (simp_all add: write_number_2)
  consider (nan) "is_nan d" | (inf) "is_inf d" "\<not> is_nan d"
    | (single) "\<not> is_nan d" "\<not> is_inf d" "in_float_range d" "float_to_double (double_to_float d) = d"
    | (double) "\<not> is_nan d" "\<not> is_inf d" "\<not> (in_float_range d \<and> float_to_double (double_to_float d) = d)"
    by blast
  then show ?thesis
  proof cases
    case nan
    then show ?thesis using half [of "0x7E00"] two half_nan by (simp add: cbor_write_float_def)
  next
    case inf
    then show ?thesis
      using half [of "0x7C00"] half [of "0xFC00"] two half_infinity infinity_eq [OF inf(1)]
      by (simp add: cbor_write_float_def split: if_splits)
  next
    case single
    then have w: "cbor_write_float d = 0xFA # write_number 4 (unat (double_to_float d))"
      by (simp add: cbor_write_float_def write_compact_float_def)
    have "unat (double_to_float d) < 256 ^ 4" using unsigned_less [of "double_to_float d"] by simp
    with parse_float_number
      [where b = "0xFA" and k = 4 and n = "unat (double_to_float d)" and g = "\<lambda>n. float_to_double (word_of_nat n)"]
    show ?thesis using assms w single by (simp add: cbor_simple_def)
  next
    case double
    then have w: "cbor_write_float d = 0xFB # write_number 8 (unat d)"
      by (auto simp: cbor_write_float_def write_compact_float_def)
    have "unat d < 256 ^ 8" using unsigned_less [of d] by simp
    with parse_float_number [where b = "0xFB" and k = 8 and n = "unat d" and g = word_of_nat]
    show ?thesis using assms w double by (simp add: cbor_simple_def)
  qed
qed

text \<open>Byte strings and the entries of objects.\<close>

lemma parse_text:
  assumes "r_input r = cbor_write_string s @ rest" and "length s < 2 ^ 63"
  shows "parse_cbor_internal (Suc f) t True r = Inr ([EString s], reads (length (cbor_write_string s)) r)"
proof -
  have "r_input r = cbor_head 0x60 (length s) @ s @ rest"
    using assms(1,2) by (simp add: cbor_write_string_def heads_eq)
  then show ?thesis
    by (rule cbor_head_cases)
      (use assms(2) get_cbor_string_head [OF assms] in \<open>simp_all add: Let_def cbor_text_def\<close>)
qed

lemma parse_bytes:
  assumes "r_input r = cbor_write_binary b None @ rest" and "length b < 2 ^ 63"
  shows "parse_cbor_internal (Suc f) t True r = Inr ([EBinary b None], reads (length (cbor_write_binary b None)) r)"
proof -
  have "r_input r = cbor_head 0x40 (length b) @ b @ rest"
    using assms(1,2) by (simp add: cbor_write_binary_def heads_eq)
  then show ?thesis
    by (rule cbor_head_cases)
      (use assms(2) get_cbor_binary_head [OF assms] in \<open>simp_all add: Let_def cbor_bytes_def\<close>)
qed

lemma parse_entry:
  assumes "r_input r = cbor_write_string k @ w @ rest" and "length k < 2 ^ 63"
    and "\<And>r. r_input r = w @ rest \<Longrightarrow> parse True r = Inr (es, reads (length w) r)"
  shows "cbor_entry f parse (rget r) = Inr (EKey k # es, reads (length (cbor_write_string k @ w)) r)"
  using get_cbor_string_head [OF assms(1,2)] assms(3) [of "reads (length (cbor_write_string k)) r"] assms(1)
  by (simp add: cbor_entry_def reads_add)

text \<open>\<open>reads_back fuel t j\<close>: wherever the value stands in the input, it is read back.\<close>

definition reads_back :: "nat \<Rightarrow> cbor_tag_handler_t \<Rightarrow> json \<Rightarrow> bool" where
  "reads_back fuel t j \<longleftrightarrow>
     (\<forall>r rest. r_input r = write_cbor j @ rest \<longrightarrow>
        parse_cbor_internal fuel t True r = Inr (events (cbor_norm j), reads (length (write_cbor j)) r))"

lemma head_length: "0 < length (cbor_head base N)"
  using cbor_head_nonempty by simp

lemma reads_back_array:
  assumes "length xs \<le> array_max_size" and "\<And>x. x \<in> set xs \<Longrightarrow> reads_back f t x"
  shows "reads_back (Suc f) t (JArray xs)"
  unfolding reads_back_def
proof (intro allI impI)
  fix r :: reader and rest assume r: "r_input r = write_cbor (JArray xs) @ rest"
  let ?h = "cbor_head 0x80 (length xs)"
  have h: "cbor_array_head (length xs) = ?h"
    using assms(1) by (intro heads_eq) (simp add: array_max_size_def)
  have "read_n (parse_cbor_internal f t True) (length xs) (reads (length ?h) r) =
      Inr (concat (map (\<lambda>x. events (cbor_norm x)) xs), reads (length (concat (map write_cbor xs))) (reads (length ?h) r))"
    by (rule read_n_written [where rest = rest]) (use assms(2) r h in \<open>auto simp: reads_back_def\<close>)
  moreover have "parse_cbor_internal (Suc f) t True r =
      bindE (read_n (parse_cbor_internal f t True) (length xs) (reads (length ?h) r))
        (\<lambda>(es, r1). Inr (EStartArray # es @ [EEndArray], r1))"
    using assms(1) r h by (intro parse_array_head) auto
  ultimately show "parse_cbor_internal (Suc f) t True r =
      Inr (events (cbor_norm (JArray xs)), reads (length (write_cbor (JArray xs))) r)"
    by (simp add: h reads_add comp_def del: parse_cbor_internal.simps)
qed

lemma reads_back_object:
  assumes "length m \<le> object_max_size"
    and "\<And>k v. (k, v) \<in> set m \<Longrightarrow> length k < 2 ^ 63 \<and> reads_back f t v"
  shows "reads_back (Suc f) t (JObject m)"
  unfolding reads_back_def
proof (intro allI impI)
  fix r :: reader and rest assume r: "r_input r = write_cbor (JObject m) @ rest"
  let ?h = "cbor_head 0xA0 (length m)" and ?w = "\<lambda>(k, v). cbor_write_string k @ write_cbor v"
  let ?e = "\<lambda>(k, v). EKey k # events (cbor_norm v)"
  have h: "cbor_object_head (length m) = ?h"
    using assms(1) by (intro heads_eq) (simp add: object_max_size_def)
  have "read_n (\<lambda>r. cbor_entry f (parse_cbor_internal f t) (rget r)) (length m) (reads (length ?h) r) =
      Inr (concat (map ?e m), reads (length (concat (map ?w m))) (reads (length ?h) r))"
  proof (rule read_n_written [where rest = rest])
    show "cbor_entry f (parse_cbor_internal f t) (rget r') = Inr (?e x, reads (length (?w x)) r')"
      if "x \<in> set m" "r_input r' = ?w x @ rest'" for x r' rest'
      using parse_entry [of r' "fst x" "write_cbor (snd x)" rest' "parse_cbor_internal f t" "events (cbor_norm (snd x))" f]
        that assms(2) [of "fst x" "snd x"] by (auto simp: reads_back_def case_prod_beta)
  qed (use r h in simp)
  moreover have "parse_cbor_internal (Suc f) t True r =
      bindE (read_n (\<lambda>r. cbor_entry f (parse_cbor_internal f t) (rget r)) (length m) (reads (length ?h) r))
        (\<lambda>(es, r1). Inr (EStartObject # es @ [EEndObject], r1))"
    using assms(1) r h by (intro parse_map_head) auto
  moreover have "(\<lambda>(k, v). EKey k # events v) \<circ> (\<lambda>(k, v). (k, cbor_norm v)) = ?e"
    by (auto simp: fun_eq_iff)
  ultimately show "parse_cbor_internal (Suc f) t True r =
      Inr (events (cbor_norm (JObject m)), reads (length (write_cbor (JObject m))) r)"
    by (simp add: h reads_add del: parse_cbor_internal.simps)
qed

lemma reads_back_simple: "reads_back (Suc f) t JNull" "reads_back (Suc f) t (JBool b)" "reads_back (Suc f) t (JFloat d)"
  using rget_Cons parse_float by (auto simp: reads_back_def Let_def cbor_simple_def)

lemma reads_back_numbers:
  "json_ok (JInt i) \<Longrightarrow> reads_back (Suc f) t (JInt i)" "json_ok (JUint n) \<Longrightarrow> reads_back (Suc f) t (JUint n)"
  using parse_unsigned_head [of _ "nat i"] parse_negative_head [of _ "nat (- 1 - i)"] integer_head [of i]
    parse_unsigned_head [of _ n] heads_eq(1) [of n]
  by (auto simp: reads_back_def nat_less_iff simp del: parse_cbor_internal.simps split: if_splits)

lemma reads_back_strings:
  "json_ok (JString s) \<Longrightarrow> reads_back (Suc f) t (JString s)"
  "json_ok (JBinary s None) \<Longrightarrow> reads_back (Suc f) t (JBinary s None)"
  using parse_text parse_bytes by (auto simp: reads_back_def simp del: parse_cbor_internal.simps)

lemma parts_length:
  assumes "json_ok j" and "length (write_cbor j) < Suc f"
  shows "j = JArray xs \<Longrightarrow> x \<in> set xs \<Longrightarrow> length (write_cbor x) < f"
    and "j = JObject m \<Longrightarrow> (k, v) \<in> set m \<Longrightarrow> length (write_cbor v) < f"
proof -
  show "length (write_cbor x) < f" if "j = JArray xs" "x \<in> set xs"
    using concat_member_length [OF that(2), of write_cbor] head_length [of "0x80" "length xs"] assms that
    by (simp add: heads_eq array_max_size_def del: length_greater_0_conv)
  show "length (write_cbor v) < f" if "j = JObject m" "(k, v) \<in> set m"
    using concat_member_length [OF that(2), of "\<lambda>(k, v). cbor_write_string k @ write_cbor v"]
      head_length [of "0xA0" "length m"] assms that
    by (simp add: heads_eq object_max_size_def del: length_greater_0_conv)
qed

lemma parse_written_cbor:
  "json_ok j \<Longrightarrow> no_subtype j \<Longrightarrow> length (write_cbor j) < fuel \<Longrightarrow> reads_back fuel t j"
proof (induction j arbitrary: fuel)
  case (JArray xs)
  then obtain f where f: "fuel = Suc f" by (cases fuel) auto
  have "reads_back f t x" if "x \<in> set xs" for x
    using JArray.IH [OF that] JArray.prems that parts_length(1) [of "JArray xs" f xs x]
    by (auto simp: f list_all_iff)
  then show ?case using JArray.prems(1) by (auto simp: f intro: reads_back_array)
next
  case (JObject m)
  then obtain f where f: "fuel = Suc f" by (cases fuel) auto
  have "length k < 2 ^ 63 \<and> reads_back f t v" if "(k, v) \<in> set m" for k v
    using JObject.IH [OF that, of v f] JObject.prems that parts_length(2) [of "JObject m" f m k v]
    by (auto simp: f list_all_iff)
  then show ?case using JObject.prems(1) by (auto simp: f intro: reads_back_object)
next
  case (JString s)
  then show ?case using reads_back_strings(1) by (cases fuel) auto
next
  case (JBinary b st)
  then show ?case using reads_back_strings(2) by (cases fuel) auto
next
  case (JInt i)
  then show ?case using reads_back_numbers(1) by (cases fuel) auto
next
  case (JUint n)
  then show ?case using reads_back_numbers(2) by (cases fuel) auto
qed (use reads_back_simple in \<open>(metis Suc_pred gr_implies_not0 neq0_conv json_ok.simps(7))+\<close>)

interpretation cb: binary_format write_cbor "\<lambda>fuel. parse_cbor_internal fuel t True" cbor_writable cbor_norm for t
  by unfold_locales (auto simp: cbor_writable_def reads_back_def cbor_norm_ok dest: parse_written_cbor [where t = t])

section \<open>Reading any input\<close>

text \<open>A step of a loop that fails at the end of the input.\<close>

definition fails_at_end :: "(reader \<Rightarrow> json_error + 'a) \<Rightarrow> bool" where
  "fails_at_end p \<longleftrightarrow> (\<forall>r. r_current r = None \<longrightarrow> p r = Inl (ParseError 110 (chars_read r)))"

lemma ends_until_break:
  assumes "fails_at_end p" and "length (r_input r) < n"
    and "\<And>r'. length (r_input r') < length (r_input r) \<Longrightarrow> ends (length (r_input r')) (p r')"
  shows "ends (length (r_input r)) (read_until_break p n r)"
  using assms(2,3)
proof (induction n arbitrary: r)
  case (Suc n)
  show ?case
  proof (cases "r_input r")
    case Nil
    then have "r_current (rget r) = None" by (simp add: rget_def)
    then have "p (rget r) = Inl (ParseError 110 (chars_read (rget r)))"
      using assms(1) by (simp add: fails_at_end_def)
    with \<open>r_current (rget r) = None\<close> show ?thesis by (simp add: Let_def)
  next
    case (Cons b bs)
    have "ends (length (r_input r)) (read_until_break p n r2)" if "length (r_input r2) \<le> length bs" for r2
      by (rule ends_mono [OF Suc.IH]) (use Suc.prems Cons that in auto)
    moreover have "ends (length bs) (p (rget r))" using Suc.prems(2) [of "rget r"] Cons by simp
    ultimately show ?thesis
      using Cons by (cases "p (rget r)") (auto simp: Let_def intro!: ends_bind)
  qed
qed simp

lemma get_cbor_string_at_end: "fails_at_end (get_cbor_string (Suc f))" "fails_at_end (get_cbor_binary (Suc f))"
  by (simp_all add: fails_at_end_def)

lemma ends_get_cbor_string: "Suc (length (r_input r)) < f \<Longrightarrow> ends (length (r_input r)) (get_cbor_string f r)"
proof (induction f arbitrary: r)
  case (Suc f)
  then obtain f' where "f = Suc f'" by (cases f) auto
  then have "ends (length (r_input r)) (read_until_break (get_cbor_string f) (Suc f) r)"
    using Suc get_cbor_string_at_end(1) [of f'] by (intro ends_until_break) auto
  then show ?case
    by (auto simp: Let_def split: option.split intro!: ends_with_number ends_mono [OF ends_get_string])
qed simp

lemma ends_get_cbor_binary: "Suc (length (r_input r)) < f \<Longrightarrow> ends (length (r_input r)) (get_cbor_binary f r)"
proof (induction f arbitrary: r)
  case (Suc f)
  then obtain f' where "f = Suc f'" by (cases f) auto
  then have "ends (length (r_input r)) (read_until_break (get_cbor_binary f) (Suc f) r)"
    using Suc get_cbor_string_at_end(2) [of f'] by (intro ends_until_break) auto
  then show ?case
    by (auto simp: Let_def split: option.split intro!: ends_with_number ends_mono [OF ends_get_binary])
qed simp

text \<open>
  A parser that works on the inputs that are left in the middle of a value: after the first byte
  was read there are fewer than \<open>f\<close> bytes.
\<close>

definition parser_ends :: "nat \<Rightarrow> parse \<Rightarrow> bool" where
  "parser_ends f parse \<longleftrightarrow>
     (\<forall>r. length (r_input r) < f \<longrightarrow> ends (length (r_input r)) (parse True r)) \<and>
     (\<forall>r. Suc (length (r_input r)) < f \<longrightarrow> ends (length (r_input r)) (parse False r)) \<and>
     fails_at_end (parse False)"

lemma parser_ends_True:
  "parser_ends f parse \<Longrightarrow> length (r_input r) \<le> n \<Longrightarrow> n < f \<Longrightarrow> ends n (parse True r)"
  by (rule ends_mono [of "length (r_input r)"]) (auto simp: parser_ends_def)

lemma ends_entry:
  assumes "parser_ends f parse" and "length (r_input r) < f"
  shows "ends (length (r_input r)) (cbor_entry f parse r)"
proof -
  have "ends (length (r_input r)) (parse True r1)" if "length (r_input r1) \<le> length (r_input r)" for r1
    using parser_ends_True [OF assms(1) that assms(2)] .
  moreover have "ends (length (r_input r)) (get_cbor_string (Suc f) r)"
    using assms(2) by (intro ends_get_cbor_string) simp
  ultimately show ?thesis by (auto simp: cbor_entry_def intro!: ends_bind)
qed

lemma entry_at_end: "fails_at_end (cbor_entry f parse)"
  by (simp add: fails_at_end_def cbor_entry_def)

lemma ends_array:
  assumes "parser_ends f parse" and "length (r_input r) < f"
  shows "ends (length (r_input r)) (get_cbor_array f parse len r)"
proof -
  have "ends (length (r_input r)) (read_n (parse True) n r)" for n
    using assms by (intro ends_read_n) (auto simp: parser_ends_def)
  moreover have "ends (length (r_input r)) (read_until_break (parse False) (Suc f) r)"
    using assms by (intro ends_until_break) (auto simp: parser_ends_def)
  ultimately show ?thesis
    by (auto simp: get_cbor_array_def split: option.split intro!: ends_start ends_bind)
qed

lemma ends_object:
  assumes "parser_ends f parse" and "length (r_input r) < f"
  shows "ends (length (r_input r)) (get_cbor_object f parse len r)"
proof -
  have "ends (length (r_input r')) (cbor_entry f parse (rget r'))" if "length (r_input r') < f" for r'
    by (rule ends_mono [OF ends_entry [OF assms(1)]]) (use that in auto)
  then have "ends (length (r_input r)) (read_n (\<lambda>r. cbor_entry f parse (rget r)) n r)" for n
    using assms(2) by (intro ends_read_n) auto
  moreover have "ends (length (r_input r)) (read_until_break (cbor_entry f parse) (Suc f) r)"
    using assms ends_entry [OF assms(1)] entry_at_end by (intro ends_until_break) auto
  ultimately show ?thesis
    by (auto simp: get_cbor_object_def split: option.split intro!: ends_start ends_bind)
qed

lemma ends_cases:
  assumes "parser_ends f parse" and "length (r_input r) < f"
  shows "ends (length (r_input r)) (cbor_array f parse c r)" "ends (length (r_input r)) (cbor_map f parse c r)"
    "ends (length (r_input r)) (cbor_tag t parse c r)" "ends (length (r_input r)) (cbor_bytes f c r)"
    "ends (length (r_input r)) (cbor_text f c r)"
proof -
  have a: "ends (length (r_input r)) (get_cbor_array f parse len r1)"
    "ends (length (r_input r)) (get_cbor_object f parse len r1)" "ends (length (r_input r)) (parse True r1)"
    if "length (r_input r1) \<le> length (r_input r)" for len r1
    using ends_array [OF assms(1), of r1 len] ends_object [OF assms(1), of r1 len] that assms(2)
      parser_ends_True [OF assms(1) that assms(2)] by (auto intro: ends_mono)
  show "ends (length (r_input r)) (cbor_array f parse c r)" "ends (length (r_input r)) (cbor_map f parse c r)"
    "ends (length (r_input r)) (cbor_tag t parse c r)"
    using a by (auto simp: cbor_array_def cbor_map_def cbor_tag_def split: cbor_tag_handler_t.split intro!: ends_with_number)
  show "ends (length (r_input r)) (cbor_bytes f c r)" "ends (length (r_input r)) (cbor_text f c r)"
    using ends_get_cbor_binary [of r "Suc f"] ends_get_cbor_string [of r "Suc f"] assms(2)
    by (auto simp: cbor_bytes_def cbor_text_def intro!: ends_bind)
qed

lemma ends_numbers:
  "ends (length (r_input r)) (cbor_unsigned c r)" "ends (length (r_input r)) (cbor_negative c r)"
  "ends (length (r_input r)) (cbor_simple c r)"
  by (auto simp: cbor_unsigned_def cbor_negative_def cbor_simple_def intro!: ends_with_number)

lemma ends_parse_body:
  assumes "parser_ends f (parse_cbor_internal f t)" and "length (r_input r) < f"
  shows "ends (length (r_input r)) (parse_cbor_internal (Suc f) t False r)"
  using ends_cases [OF assms] ends_numbers [of r] by (auto simp: Let_def split: option.split)

lemma parse_cbor_get: "parse_cbor_internal (Suc f) t True r = parse_cbor_internal (Suc f) t False (rget r)"
  by (simp add: Let_def)

lemma ends_parse_cbor: "parser_ends (Suc f) (parse_cbor_internal (Suc f) t)"
proof (induction f)
  case 0
  then show ?case by (simp add: parser_ends_def fails_at_end_def Let_def rget_def)
next
  case (Suc f)
  note body = ends_parse_body [OF Suc]
  have "ends (length (r_input r)) (parse_cbor_internal (Suc (Suc f)) t True r)"
    if "length (r_input r) < Suc (Suc f)" for r
  proof (cases "r_input r")
    case Nil
    then show ?thesis by (simp add: Let_def rget_def)
  next
    case (Cons b bs)
    then show ?thesis
      unfolding parse_cbor_get using that by (intro ends_mono [OF body]) auto
  qed
  then show ?case using body by (auto simp: parser_ends_def fails_at_end_def Let_def)
qed

text \<open>What is read is the events of a value, with integers in range.\<close>

lemma gives_until_break:
  assumes "P []" and "\<And>xs ys. Q xs \<Longrightarrow> P ys \<Longrightarrow> P (xs @ ys)" and "\<And>r. gives Q (p r)"
  shows "gives P (read_until_break p k r)"
  by (induction k arbitrary: r)
    (auto simp: Let_def intro!: assms gives_then [OF assms(3)] gives_then [where Q = P])

lemma gives_array:
  assumes "\<And>g r. gives delivers (parse g r)"
  shows "gives delivers (get_cbor_array f parse len r)"
proof -
  have "gives delivers_elements (read_n (parse True) n r)" "gives delivers_elements (read_until_break (parse False) n r)" for n
    using assms delivers_elements_append delivers_element delivers_elements_Nil
    by (auto intro!: gives_read_n [where Q = delivers] gives_until_break [where Q = delivers])
  then show ?thesis
    by (auto simp: get_cbor_array_def start_array_def simp del: read_until_break.simps split: option.split
        intro!: gives_then [where Q = delivers_elements] delivers_array)
qed

lemma gives_object:
  assumes "\<And>g r. gives delivers (parse g r)"
  shows "gives delivers (get_cbor_object f parse len r)"
proof -
  have "gives delivers_entries (cbor_entry f parse r)" for r
    unfolding cbor_entry_def by (rule gives_then [OF gives_any]) (auto intro!: gives_then [OF assms] delivers_entry)
  then have "gives delivers_entries (read_n (\<lambda>r. cbor_entry f parse (rget r)) n r)"
    "gives delivers_entries (read_until_break (cbor_entry f parse) n r)" for n
    using delivers_entries_append delivers_entries_Nil
    by (auto intro!: gives_read_n [where Q = delivers_entries] gives_until_break [where Q = delivers_entries])
  then show ?thesis
    by (auto simp: get_cbor_object_def start_object_def simp del: read_until_break.simps split: option.split
        intro!: gives_then [where Q = delivers_entries] delivers_object)
qed

lemma gives_numbers:
  "gives delivers (cbor_unsigned c r)" "0x20 \<le> c \<Longrightarrow> gives delivers (cbor_negative c r)"
  "gives delivers (cbor_simple c r)" "gives delivers (cbor_bytes f c r)" "gives delivers (cbor_text f c r)"
proof -
  have "- (2 ^ 63) \<le> - 1 - signed_of 8 n \<and> - 1 - signed_of 8 n < 2 ^ 63" for n
    using signed_of_bounds [of 8 n] by simp
  then show "0x20 \<le> c \<Longrightarrow> gives delivers (cbor_negative c r)"
    by (auto simp: cbor_negative_def intro!: gives_with_number)
  show "gives delivers (cbor_unsigned c r)" "gives delivers (cbor_simple c r)"
    by (auto simp: cbor_unsigned_def cbor_simple_def intro!: gives_with_number)
  show "gives delivers (cbor_bytes f c r)" "gives delivers (cbor_text f c r)"
    by (auto simp: cbor_bytes_def cbor_text_def simp del: get_cbor_string.simps get_cbor_binary.simps
        intro!: gives_then [OF gives_any])
qed

lemma gives_parse_cbor: "gives delivers (parse_cbor_internal f t g r)"
proof (induction f arbitrary: g r)
  case (Suc f)
  note a = gives_array [OF Suc] gives_object [OF Suc]
  have "gives delivers (cbor_array f (parse_cbor_internal f t) c r)"
    "gives delivers (cbor_map f (parse_cbor_internal f t) c r)" "gives delivers (cbor_tag t (parse_cbor_internal f t) c r)" for c r
    using a Suc by (auto simp: cbor_array_def cbor_map_def cbor_tag_def intro!: gives_with_number split: cbor_tag_handler_t.split)
  then show ?case
    using gives_numbers by (auto simp: Let_def split: option.split)
qed simp

section \<open>Properties\<close>

text \<open>
  C14: CBOR round trip. Every well-formed JSON value without binary subtypes, of any nesting and
  size, is read back by \<^verbatim>\<open>from_cbor\<close> from the bytes that \<^verbatim>\<open>to_cbor\<close> wrote, whatever the tag
  handler and the exception mode; a signed integer that is not negative comes back as the unsigned
  integer of the same value, and a NaN as the quiet NaN.
\<close>

theorem cbor_roundtrip:
  assumes "json_ok j" and "no_subtype j"
  shows "from_cbor (to_cbor j) True ex t = Inr (cbor_norm j)"
  using cb.read_back [of j ex t] assms by (simp add: from_cbor_def to_cbor_def cbor_writable_def)

text \<open>
  C16: The CBOR reader is total and type safe: whatever the bytes, \<^verbatim>\<open>from_cbor\<close> ends within the
  depth it allows for; it returns a value whose integers fit their types and whose objects have
  ordered keys, or throws a parse error, or the exception 408 for an excessive length; without
  exceptions a parse error becomes a discarded value. No assertion of the value builder fails.
\<close>

theorem cbor_reader_total:
  "read_result ex (from_cbor bs strict ex t)"
proof -
  let ?p = "parse_cbor_internal (Suc (length bs)) t True (reader_new bs)"
  have e: "ends (length bs) ?p"
    by (rule parser_ends_True [OF ends_parse_cbor]) (simp_all add: reader_new_def)
  show ?thesis
    unfolding from_cbor_def by (rule from_binary_result [OF e gives_parse_cbor])
qed

text \<open>A value with every kind of part: nested containers, all number types, bytes and text.\<close>

definition sample_json :: json where
  "sample_json =
     JObject
       [([0x61], JArray [JInt (- 1), JInt 500, JUint 70000, JNull, JBool True]),
        ([0x62], JFloat 0x3FF8000000000000),
        ([0x63], JBinary [1, 2] None),
        ([0x64], JString [])]"

lemma sample_json_ok: "json_ok sample_json" "no_subtype sample_json"
  by (simp_all add: sample_json_def keys_sorted_def array_max_size_def object_max_size_def)

theorem cbor_roundtrip_witness:
  "from_cbor (to_cbor sample_json) True True Tag_error =
     Inr (JObject
       [([0x61], JArray [JInt (- 1), JUint 500, JUint 70000, JNull, JBool True]),
        ([0x62], JFloat 0x3FF8000000000000),
        ([0x63], JBinary [1, 2] None),
        ([0x64], JString [])])"
  using cbor_roundtrip [OF sample_json_ok, of True Tag_error]
  by (simp add: sample_json_def is_nan_def f64_exp_def)

text \<open>What the reader makes of a value with a subtype when it ignores tags.\<close>

lemma parse_ignored_subtype:
  assumes "length b < 2 ^ 63" and "bs = cbor_write_binary b (Some s)"
  shows "parse_cbor_internal (Suc (length bs)) Tag_ignore True (reader_new bs) =
    Inr ([EBinary b None], reads (length bs) (reader_new bs))"
proof -
  let ?w = "cbor_write_binary b None" and ?r = "reader_new bs"
  have bs: "bs = 0xD8 # write_number 1 (unat s) @ ?w"
    using assms(2) by (simp add: cbor_write_binary_def)
  have r1: "r_input (rget ?r) = write_number 1 (unat s) @ ?w" "r_current (rget ?r) = Some 0xD8"
    using bs by (simp_all add: rget_def reader_new_def)
  have "unat s < 256 ^ 1" using unsigned_less [of s] by simp
  with r1(1) have num: "get_number 1 (rget ?r) = Inr (unat s, reads 1 (rget ?r))"
    by (intro get_number_write)
  have "parse_cbor_internal (length bs) Tag_ignore True (reads 1 (rget ?r)) =
      Inr (events (cbor_norm (JBinary b None)), reads (length (write_cbor (JBinary b None))) (reads 1 (rget ?r)))"
    using assms(1) r1(1) bs by (intro cb.parse_written [where rest = "[]"]) (auto simp: cbor_writable_def)
  moreover have "reads (length ?w) (reads 1 (rget ?r)) = reads (length bs) ?r"
    by (simp add: bs reads_Suc del: funpow.simps)
  ultimately show ?thesis using r1(2) num by (simp add: Let_def cbor_tag_def)
qed

text \<open>
  A binary value with a subtype is not read back: its subtype is written as a CBOR tag, which
  the default tag handler refuses as an invalid first byte, and which the other handler drops, so
  that the value comes back without its subtype.
\<close>

theorem cbor_subtype_lost:
  assumes "length b < 2 ^ 63"
  shows "from_cbor (to_cbor (JBinary b (Some s))) True True Tag_error = Inl (ParseError 112 1) \<and>
    from_cbor (to_cbor (JBinary b (Some s))) True True Tag_ignore = Inr (JBinary b None)"
proof
  let ?bs = "cbor_write_binary b (Some s)"
  show "from_cbor (to_cbor (JBinary b (Some s))) True True Tag_error = Inl (ParseError 112 1)"
    by (simp add: from_cbor_def to_cbor_def cbor_write_binary_def reader_new_def Let_def rget_def cbor_tag_def
        invalid_byte_def sax_parse_def from_binary_def)
  have "r_current (rget (reads (length ?bs) (reader_new ?bs))) = None"
    by (simp add: rget_def reader_new_def)
  then show "from_cbor (to_cbor (JBinary b (Some s))) True True Tag_ignore = Inr (JBinary b None)"
    using parse_ignored_subtype [OF assms refl, of s] build_events [of "JBinary b None"] assms
    by (simp add: from_cbor_def to_cbor_def sax_parse_def from_binary_def Let_def del: parse_cbor_internal.simps)
qed

theorem cbor_subtype_lost_witness:
  "from_cbor (to_cbor (JBinary [7] (Some 42))) True True Tag_error = Inl (ParseError 112 1) \<and>
   to_cbor (JBinary [7] (Some 42)) = [0xD8, 42, 0x41, 7]"
  using cbor_subtype_lost [of "[7]" 42] by (simp add: to_cbor_def cbor_write_binary_def cbor_binary_head_def)

text \<open>
  A CBOR negative integer below the range of \<^verbatim>\<open>int64_t\<close> is accepted and comes back with a
  value that is not negative: the encoding of \<open>- 1 - n\<close> with \<open>n\<close> of 64 bits is read as
  \<open>2 ^ 64 - 1 - n\<close> once \<open>n\<close> has its highest bit set.
\<close>

theorem cbor_negative_wraps:
  assumes "2 ^ 63 \<le> n" and "n < 2 ^ 64"
  shows "from_cbor (0x3B # write_number 8 n) True ex t = Inr (JInt (2 ^ 64 - 1 - int n))"
proof -
  let ?bs = "0x3B # write_number 8 n" and ?r = "reader_new (0x3B # write_number 8 n)"
  have s: "signed_of 8 n = int n - 2 ^ 64"
    using assms by (simp add: signed_of_def signed_take_bit_eq_take_bit_shift take_bit_eq_mod mod_pos_geq)
  have r: "r_input (rget ?r) = write_number 8 n @ []" "r_current (rget ?r) = Some 0x3B"
    by (simp_all add: rget_def reader_new_def)
  have "get_number 8 (rget ?r) = Inr (n, reads 8 (rget ?r))"
    using assms(2) by (intro get_number_write [OF r(1)]) simp
  moreover have "r_current (rget (reads 8 (rget ?r))) = None"
    using r(1) by (simp add: rget_def [of "reads 8 (rget ?r)"])
  moreover have p: "parse_cbor_internal (Suc k) t True ?r = Inr ([EInt (2 ^ 64 - 1 - int n)], reads 8 (rget ?r))" for k
    using r(2) s calculation(1) by (simp add: Let_def cbor_negative_def)
  ultimately show ?thesis
    using p [of 9] by (simp add: from_cbor_def sax_parse_def from_binary_def build_def dom_new_def handle_value_def Let_def
        del: parse_cbor_internal.simps)
qed

theorem cbor_negative_wraps_witness:
  "from_cbor [0x3B, 255, 255, 255, 255, 255, 255, 255, 255] True True Tag_error = Inr (JInt 0)"
proof -
  have "write_number 8 (2 ^ 64 - 1) = [255, 255, 255, 255, 255, 255, 255, 255]"
    by (simp add: write_number_def le_bytes_numeral)
  then show ?thesis
    using cbor_negative_wraps [of "2 ^ 64 - 1" True Tag_error] by simp
qed

end
