(* ===== verification/Json_Msgpack.thy ===== *)
theory Json_Msgpack
  imports Json_Binary
begin

unbundle bit_operations_syntax

text \<open>
  MessagePack: the writer (\<^verbatim>\<open>binary_writer::write_msgpack\<close>) and the reader
  (\<^verbatim>\<open>binary_reader::parse_msgpack_internal\<close> and the functions it calls) of \<^verbatim>\<open>json.hpp\<close>. Lengths have
  at most 32 bits; for anything longer the writer writes no head at all.
\<close>

section \<open>Writing\<close>

definition msgpack_write_unsigned :: "nat \<Rightarrow> octets" where
  "msgpack_write_unsigned n =
     (if n < 128 then write_number 1 n
      else if n \<le> 0xFF then 0xCC # write_number 1 n
      else if n \<le> 0xFFFF then 0xCD # write_number 2 n
      else if n \<le> 0xFFFFFFFF then 0xCE # write_number 4 n
      else if n \<le> 0xFFFFFFFFFFFFFFFF then 0xCF # write_number 8 n
      else [])"

definition msgpack_write_integer :: "int \<Rightarrow> octets" where
  "msgpack_write_integer i =
     (if 0 \<le> i then
        if i < 128 then write_signed 1 i
        else if i \<le> 0xFF then 0xCC # write_signed 1 i
        else if i \<le> 0xFFFF then 0xCD # write_signed 2 i
        else if i \<le> 0xFFFFFFFF then 0xCE # write_signed 4 i
        else if i \<le> 0xFFFFFFFFFFFFFFFF then 0xCF # write_signed 8 i
        else []
      else
        if - 32 \<le> i then write_signed 1 i
        else if - (2 ^ 7) \<le> i \<and> i < 2 ^ 7 then 0xD0 # write_signed 1 i
        else if - (2 ^ 15) \<le> i \<and> i < 2 ^ 15 then 0xD1 # write_signed 2 i
        else if - (2 ^ 31) \<le> i \<and> i < 2 ^ 31 then 0xD2 # write_signed 4 i
        else if - (2 ^ 63) \<le> i \<and> i < 2 ^ 63 then 0xD3 # write_signed 8 i
        else [])"

definition msgpack_string_head :: "nat \<Rightarrow> octets" where
  "msgpack_string_head N =
     (if N \<le> 31 then write_number 1 (0xA0 OR N)
      else if N \<le> 0xFF then 0xD9 # write_number 1 N
      else if N \<le> 0xFFFF then 0xDA # write_number 2 N
      else if N \<le> 0xFFFFFFFF then 0xDB # write_number 4 N
      else [])"

definition msgpack_write_string :: "octets \<Rightarrow> octets" where
  "msgpack_write_string s = msgpack_string_head (length s) @ s"

definition msgpack_array_head :: "nat \<Rightarrow> octets" where
  "msgpack_array_head N =
     (if N \<le> 15 then write_number 1 (0x90 OR N)
      else if N \<le> 0xFFFF then 0xDC # write_number 2 N
      else if N \<le> 0xFFFFFFFF then 0xDD # write_number 4 N
      else [])"

text \<open>The control byte and the length; a subtype selects the extension types.\<close>

definition msgpack_binary_head :: "bool \<Rightarrow> nat \<Rightarrow> octets" where
  "msgpack_binary_head use_ext N =
     (if N \<le> 0xFF then
        if use_ext then
          if N = 1 then [0xD4]
          else if N = 2 then [0xD5]
          else if N = 4 then [0xD6]
          else if N = 8 then [0xD7]
          else if N = 16 then [0xD8]
          else 0xC7 # write_number 1 N
        else 0xC4 # write_number 1 N
      else if N \<le> 0xFFFF then (if use_ext then 0xC8 else 0xC5) # write_number 2 N
      else if N \<le> 0xFFFFFFFF then (if use_ext then 0xC9 else 0xC6) # write_number 4 N
      else [])"

definition msgpack_write_binary :: "octets \<Rightarrow> u8 option \<Rightarrow> octets" where
  "msgpack_write_binary b subtype =
     msgpack_binary_head (subtype \<noteq> None) (length b) @
     (case subtype of None \<Rightarrow> [] | Some t \<Rightarrow> write_signed 1 (sint t)) @ b"

definition msgpack_object_head :: "nat \<Rightarrow> octets" where
  "msgpack_object_head N =
     (if N \<le> 15 then write_number 1 (0x80 OR (N AND 0xF))
      else if N \<le> 0xFFFF then 0xDE # write_number 2 N
      else if N \<le> 0xFFFFFFFF then 0xDF # write_number 4 N
      else [])"

fun write_msgpack :: "json \<Rightarrow> octets" where
  "write_msgpack JNull = [0xC0]"
| "write_msgpack (JBool b) = [if b then 0xC3 else 0xC2]"
| "write_msgpack (JInt i) = msgpack_write_integer i"
| "write_msgpack (JUint n) = msgpack_write_unsigned n"
| "write_msgpack (JFloat d) = write_compact_float 0xCA 0xCB d"
| "write_msgpack (JString s) = msgpack_write_string s"
| "write_msgpack (JBinary b t) = msgpack_write_binary b t"
| "write_msgpack (JArray xs) = msgpack_array_head (length xs) @ concat (map write_msgpack xs)"
| "write_msgpack (JObject m) =
     msgpack_object_head (length m) @ concat (map (\<lambda>(k, v). msgpack_write_string k @ write_msgpack v) m)"
| "write_msgpack JDiscarded = []"

section \<open>Reading\<close>

definition get_msgpack_string :: "reader \<Rightarrow> json_error + octets \<times> reader" where
  "get_msgpack_string r =
     (case r_current r of
        None \<Rightarrow> Inl (ParseError 110 (chars_read r))
      | Some b \<Rightarrow>
          let c = unat b in
          if 0xA0 \<le> c \<and> c \<le> 0xBF then get_string (c mod 0x20) r
          else if c = 0xD9 then with_number 1 r get_string
          else if c = 0xDA then with_number 2 r get_string
          else if c = 0xDB then with_number 4 r get_string
          else Inl (ParseError 113 (chars_read r)))"

text \<open>A byte string of a known length without or with the subtype before it.\<close>

definition msgpack_bin :: "nat \<Rightarrow> reader \<Rightarrow> json_error + (octets \<times> u8 option) \<times> reader" where
  "msgpack_bin len r = bindE (get_binary len r) (\<lambda>(b, r1). Inr ((b, None), r1))"

definition msgpack_ext :: "nat \<Rightarrow> reader \<Rightarrow> json_error + (octets \<times> u8 option) \<times> reader" where
  "msgpack_ext len r =
     with_number 1 r (\<lambda>subtype r1.
     bindE (get_binary len r1) (\<lambda>(b, r2). Inr ((b, Some (word_of_nat subtype)), r2)))"

text \<open>The last case is not reached: the caller has looked at the byte.\<close>

definition get_msgpack_binary :: "nat \<Rightarrow> reader \<Rightarrow> json_error + (octets \<times> u8 option) \<times> reader" where
  "get_msgpack_binary c r =
     (if c = 0xC4 then with_number 1 r msgpack_bin
      else if c = 0xC5 then with_number 2 r msgpack_bin
      else if c = 0xC6 then with_number 4 r msgpack_bin
      else if c = 0xC7 then with_number 1 r msgpack_ext
      else if c = 0xC8 then with_number 2 r msgpack_ext
      else if c = 0xC9 then with_number 4 r msgpack_ext
      else if c = 0xD4 then msgpack_ext 1 r
      else if c = 0xD5 then msgpack_ext 2 r
      else if c = 0xD6 then msgpack_ext 4 r
      else if c = 0xD7 then msgpack_ext 8 r
      else if c = 0xD8 then msgpack_ext 16 r
      else Inl JsonAssert)"

type_synonym mparse = "reader \<Rightarrow> json_error + sax_event list \<times> reader"

definition get_msgpack_array :: "mparse \<Rightarrow> nat \<Rightarrow> reader \<Rightarrow> json_error + sax_event list \<times> reader" where
  "get_msgpack_array parse len r =
     bindE (start_array (Some len)) (\<lambda>e.
     bindE (read_n parse len r) (\<lambda>(es, r1). Inr (e @ es @ [EEndArray], r1)))"

definition msgpack_entry :: "mparse \<Rightarrow> reader \<Rightarrow> json_error + sax_event list \<times> reader" where
  "msgpack_entry parse r =
     bindE (get_msgpack_string (rget r)) (\<lambda>(key, r1).
     bindE (parse r1) (\<lambda>(es, r2). Inr (EKey key # es, r2)))"

definition get_msgpack_object :: "mparse \<Rightarrow> nat \<Rightarrow> reader \<Rightarrow> json_error + sax_event list \<times> reader" where
  "get_msgpack_object parse len r =
     bindE (start_object (Some len)) (\<lambda>e.
     bindE (read_n (msgpack_entry parse) len r) (\<lambda>(es, r1). Inr (e @ es @ [EEndObject], r1)))"

text \<open>The cases of \<^verbatim>\<open>parse_msgpack_internal\<close> by the first byte \<open>c\<close>.\<close>

definition msgpack_fixint :: "nat \<Rightarrow> reader \<Rightarrow> json_error + sax_event list \<times> reader" where
  "msgpack_fixint c r = Inr ([EUint c], r)"

definition msgpack_fixed :: "mparse \<Rightarrow> nat \<Rightarrow> reader \<Rightarrow> json_error + sax_event list \<times> reader" where
  "msgpack_fixed parse c r =
     (if c \<le> 0x8F then get_msgpack_object parse (c mod 0x10) r
      else if c \<le> 0x9F then get_msgpack_array parse (c mod 0x10) r
      else bindE (get_msgpack_string r) (\<lambda>(s, r1). Inr ([EString s], r1)))"

definition msgpack_number :: "nat \<Rightarrow> reader \<Rightarrow> json_error + sax_event list \<times> reader" where
  "msgpack_number c r =
     (if c = 0xCA then with_number 4 r (\<lambda>n r. Inr ([EFloat (float_to_double (word_of_nat n))], r))
      else if c = 0xCB then with_number 8 r (\<lambda>n r. Inr ([EFloat (word_of_nat n)], r))
      else if c = 0xCC then with_number 1 r (\<lambda>n r. Inr ([EUint n], r))
      else if c = 0xCD then with_number 2 r (\<lambda>n r. Inr ([EUint n], r))
      else if c = 0xCE then with_number 4 r (\<lambda>n r. Inr ([EUint n], r))
      else if c = 0xCF then with_number 8 r (\<lambda>n r. Inr ([EUint n], r))
      else if c = 0xD0 then with_number 1 r (\<lambda>n r. Inr ([EInt (signed_of 1 n)], r))
      else if c = 0xD1 then with_number 2 r (\<lambda>n r. Inr ([EInt (signed_of 2 n)], r))
      else if c = 0xD2 then with_number 4 r (\<lambda>n r. Inr ([EInt (signed_of 4 n)], r))
      else with_number 8 r (\<lambda>n r. Inr ([EInt (signed_of 8 n)], r)))"

definition msgpack_container :: "mparse \<Rightarrow> nat \<Rightarrow> reader \<Rightarrow> json_error + sax_event list \<times> reader" where
  "msgpack_container parse c r =
     (if c = 0xDC then with_number 2 r (get_msgpack_array parse)
      else if c = 0xDD then with_number 4 r (get_msgpack_array parse)
      else if c = 0xDE then with_number 2 r (get_msgpack_object parse)
      else with_number 4 r (get_msgpack_object parse))"

text \<open>Negative fixint: the byte as \<^verbatim>\<open>int8_t\<close>.\<close>

definition msgpack_negative :: "nat \<Rightarrow> reader \<Rightarrow> json_error + sax_event list \<times> reader" where
  "msgpack_negative c r = Inr ([EInt (signed_of 1 c)], r)"

definition msgpack_other :: "mparse \<Rightarrow> nat \<Rightarrow> reader \<Rightarrow> json_error + sax_event list \<times> reader" where
  "msgpack_other parse c r =
     (if c = 0xC0 then Inr ([ENull], r)
      else if c = 0xC2 then Inr ([EBool False], r)
      else if c = 0xC3 then Inr ([EBool True], r)
      else if 0xC4 \<le> c \<and> c \<le> 0xC9 \<or> 0xD4 \<le> c \<and> c \<le> 0xD8 then
        bindE (get_msgpack_binary c r) (\<lambda>((b, t), r1). Inr ([EBinary b t], r1))
      else if 0xCA \<le> c \<and> c \<le> 0xD3 then msgpack_number c r
      else if 0xD9 \<le> c \<and> c \<le> 0xDB then bindE (get_msgpack_string r) (\<lambda>(s, r1). Inr ([EString s], r1))
      else if 0xDC \<le> c \<and> c \<le> 0xDF then msgpack_container parse c r
      else invalid_byte r)"

fun parse_msgpack_internal :: "nat \<Rightarrow> reader \<Rightarrow> json_error + sax_event list \<times> reader" where
  "parse_msgpack_internal 0 r0 = Inl OutOfFuel"
| "parse_msgpack_internal (Suc fuel) r0 =
     (let r = rget r0; parse = parse_msgpack_internal fuel in
      case r_current r of
        None \<Rightarrow> Inl (ParseError 110 (chars_read r))
      | Some b \<Rightarrow>
          let c = unat b in
          if c \<le> 0x7F then msgpack_fixint c r
          else if c \<le> 0xBF then msgpack_fixed parse c r
          else if c \<le> 0xDF then msgpack_other parse c r
          else msgpack_negative c r)"

definition from_msgpack :: "octets \<Rightarrow> bool \<Rightarrow> bool \<Rightarrow> json_error + json" where
  "from_msgpack bs strict allow_exceptions =
     from_binary allow_exceptions
       (sax_parse strict (parse_msgpack_internal (Suc (length bs)) (reader_new bs)))"

definition to_msgpack :: "json \<Rightarrow> octets" where
  "to_msgpack j = write_msgpack j"

end
