(* ===== verification/Json_Msgpack_Spec.thy ===== *)
theory Json_Msgpack_Spec
  imports Json_Msgpack
begin

unbundle bit_operations_syntax

text \<open>
  What the MessagePack reader makes of what the writer wrote, and that it ends on every input.
\<close>

section \<open>Heads\<close>

lemma or_small:
  "N \<le> 31 \<Longrightarrow> 0xA0 OR N = 0xA0 + N" "N \<le> 15 \<Longrightarrow> 0x90 OR N = 0x90 + N"
  "N \<le> 15 \<Longrightarrow> 0x80 OR (N AND 0xF) = 0x80 + N" for N :: nat
proof -
  have "\<forall>N \<in> set [0..<32]. 0xA0 OR N = 0xA0 + (N :: nat)" by code_simp
  then show "N \<le> 31 \<Longrightarrow> 0xA0 OR N = 0xA0 + N" by simp
  have "\<forall>N \<in> set [0..<16]. 0x90 OR N = 0x90 + (N :: nat)" by code_simp
  then show "N \<le> 15 \<Longrightarrow> 0x90 OR N = 0x90 + N" by simp
  have "\<forall>N \<in> set [0..<16]. 0x80 OR (N AND 0xF) = 0x80 + (N :: nat)" by code_simp
  then show "N \<le> 15 \<Longrightarrow> 0x80 OR (N AND 0xF) = 0x80 + N" by simp
qed

lemma msgpack_low_bits:
  "N \<le> 31 \<Longrightarrow> (0xA0 + N) mod 0x20 = N" "N \<le> 15 \<Longrightarrow> (0x90 + N) mod 0x10 = N" "N \<le> 15 \<Longrightarrow> (0x80 + N) mod 0x10 = N" for N :: nat
  using mod_mult_self2 [of N "0x20" 5] mod_mult_self2 [of N "0x10" 9] mod_mult_self2 [of N "0x10" 8]
  by (simp_all add: add.commute)

lemma byte_unat [simp]: "byte (unat t) = t"
  by (simp add: byte_def)

lemma write_subtype: "write_signed 1 (sint t) = write_number 1 (unat t)" for t :: u8
proof -
  have "uint (word_of_int (sint t) :: u8) = take_bit 8 (sint t)"
    by (simp only: uint_word_of_int_eq) simp
  then have "sint t mod 256 = uint t" by (simp add: take_bit_eq_mod)
  then show ?thesis by (simp add: write_signed_def)
qed

text \<open>Text: the first byte is one of those for text, and the text is read.\<close>

lemma msgpack_string_read:
  assumes "r_input r = msgpack_write_string s @ rest" and "length s < 2 ^ 32"
  shows "\<exists>b. r_current (rget r) = Some b \<and> (0xA0 \<le> unat b \<and> unat b \<le> 0xBF \<or> 0xD9 \<le> unat b \<and> unat b \<le> 0xDB)"
    and "get_msgpack_string (rget r) = Inr (s, reads (length (msgpack_write_string s)) r)"
proof -
  let ?h = "msgpack_string_head (length s)"
  have r: "r_input r = ?h @ s @ rest" using assms(1) by (simp add: msgpack_write_string_def)
  have g: "get_string (length s) (reads (length ?h) r) = Inr (s, reads (length (msgpack_write_string s)) r)"
    using get_string_append [of "reads (length ?h) r" s rest] r by (simp add: msgpack_write_string_def reads_add)
  have wide: "(\<exists>b. r_current (rget r) = Some b \<and> unat b = c) \<and> get_number k (rget r) = Inr (length s, reads (length ?h) r)"
    if "?h = byte c # write_number k (length s)" "c < 256" "length s < 256 ^ k" for c k
    using read_wide_head [of r "byte c" k "length s" "s @ rest"] r that by simp
  consider "length s \<le> 31" | "31 < length s" "length s \<le> 0xFF" | "0xFF < length s" "length s \<le> 0xFFFF"
    | "0xFFFF < length s" by linarith
  then have "(\<exists>b. r_current (rget r) = Some b \<and> (0xA0 \<le> unat b \<and> unat b \<le> 0xBF \<or> 0xD9 \<le> unat b \<and> unat b \<le> 0xDB)) \<and>
    get_msgpack_string (rget r) = Inr (s, reads (length (msgpack_write_string s)) r)"
  proof cases
    case 1
    then have h: "?h = [byte (0xA0 + length s)]" by (simp add: msgpack_string_head_def or_small)
    then have "r_current (rget r) = Some (byte (0xA0 + length s))" using rget_Cons r by simp
    with 1 g h show ?thesis by (simp add: get_msgpack_string_def msgpack_low_bits)
  next
    case 2
    then show ?thesis using wide [of "0xD9" 1] g by (auto simp: msgpack_string_head_def get_msgpack_string_def)
  next
    case 3
    then show ?thesis using wide [of "0xDA" 2] g by (auto simp: msgpack_string_head_def get_msgpack_string_def)
  next
    case 4
    then show ?thesis using wide [of "0xDB" 4] g assms(2) by (auto simp: msgpack_string_head_def get_msgpack_string_def)
  qed
  then show "\<exists>b. r_current (rget r) = Some b \<and> (0xA0 \<le> unat b \<and> unat b \<le> 0xBF \<or> 0xD9 \<le> unat b \<and> unat b \<le> 0xDB)"
    "get_msgpack_string (rget r) = Inr (s, reads (length (msgpack_write_string s)) r)" by auto
qed

text \<open>Byte strings.\<close>

lemma msgpack_bin_read:
  "r_input r = b @ rest \<Longrightarrow> msgpack_bin (length b) r = Inr ((b, None), reads (length b) r)"
  by (simp add: msgpack_bin_def get_binary_append)

lemma msgpack_ext_read:
  assumes "r_input r = write_number 1 (unat t) @ b @ rest"
  shows "msgpack_ext (length b) r = Inr ((b, Some t), reads (length b) (reads 1 r))"
proof -
  have "unat t < 256 ^ 1" using unsigned_less [of t] by simp
  from get_number_write [OF assms this] have "get_number 1 r = Inr (unat t, reads 1 r)" .
  moreover have "r_input (reads 1 r) = b @ rest" using assms by simp
  ultimately show ?thesis by (simp add: msgpack_ext_def get_binary_append)
qed

text \<open>The bytes behind the head: the subtype, if there is one, and the byte string.\<close>

definition binary_body :: "octets \<Rightarrow> u8 option \<Rightarrow> octets" where
  "binary_body b t = (case t of None \<Rightarrow> [] | Some t \<Rightarrow> write_number 1 (unat t)) @ b"

definition read_body :: "nat \<Rightarrow> u8 option \<Rightarrow> reader \<Rightarrow> json_error + (octets \<times> u8 option) \<times> reader" where
  "read_body n t = (if t = None then msgpack_bin n else msgpack_ext n)"

lemma read_body_ok:
  "r_input r = binary_body b t @ rest \<Longrightarrow> read_body (length b) t r = Inr ((b, t), reads (length (binary_body b t)) r)"
  by (cases t) (simp_all add: read_body_def binary_body_def msgpack_bin_read msgpack_ext_read reads_Suc del: funpow.simps)

lemma msgpack_write_binary_eq:
  "msgpack_write_binary b t = msgpack_binary_head (t \<noteq> None) (length b) @ binary_body b t"
  by (cases t) (simp_all add: msgpack_write_binary_def binary_body_def write_subtype [unfolded One_nat_def] del: write_number_1)

abbreviation binary_byte :: "nat \<Rightarrow> bool" where
  "binary_byte c \<equiv> 0xC4 \<le> c \<and> c \<le> 0xC9 \<or> 0xD4 \<le> c \<and> c \<le> 0xD8"

lemma msgpack_binary_read:
  assumes "r_input r = msgpack_write_binary b t @ rest" and "length b < 2 ^ 32"
  shows "\<exists>a. r_current (rget r) = Some a \<and> binary_byte (unat a) \<and>
    get_msgpack_binary (unat a) (rget r) = Inr ((b, t), reads (length (msgpack_write_binary b t)) r)"
proof -
  let ?h = "msgpack_binary_head (t \<noteq> None) (length b)"
  have r: "r_input r = ?h @ binary_body b t @ rest" using assms(1) by (simp add: msgpack_write_binary_eq)
  have g: "read_body (length b) t (reads (length ?h) r) = Inr ((b, t), reads (length (msgpack_write_binary b t)) r)"
    using read_body_ok [of "reads (length ?h) r" b t rest] r by (simp add: msgpack_write_binary_eq reads_add)
  have fixed: ?thesis if "?h = [byte c]" "0xD4 \<le> c" "c \<le> 0xD8" "\<And>r. get_msgpack_binary c r = read_body (length b) t r" for c
    using rget_Cons [of r "byte c"] r g that by simp
  have wide: ?thesis if "?h = byte c # write_number k (length b)" "0xC4 \<le> c" "c \<le> 0xC9" "length b < 256 ^ k"
    "\<And>r. get_msgpack_binary c r = with_number k r (\<lambda>n. read_body n t)" for c k
    using read_wide_head [of r "byte c" k "length b" "binary_body b t @ rest"] r g that by simp
  consider "length b \<le> 0xFF" | "0xFF < length b" "length b \<le> 0xFFFF" | "0xFFFF < length b" by linarith
  then show ?thesis
  proof cases
    case 1
    let ?N = "length b"
    let ?c = "if ?N = 1 then 0xD4 else if ?N = 2 then 0xD5 else if ?N = 4 then 0xD6 else if ?N = 8 then 0xD7 else 0xD8"
    consider (none) "t = None" | (ext) "t \<noteq> None" "?N \<notin> {1, 2, 4, 8, 16}" | (small) "t \<noteq> None" "?N \<in> {1, 2, 4, 8, 16}"
      by auto
    then show ?thesis
    proof cases
      case none
      with 1 show ?thesis
        by (intro wide [of "0xC4" 1]) (auto simp: msgpack_binary_head_def get_msgpack_binary_def read_body_def)
    next
      case ext
      with 1 show ?thesis
        by (intro wide [of "0xC7" 1]) (auto simp: msgpack_binary_head_def get_msgpack_binary_def read_body_def)
    next
      case small
      then show ?thesis
        by (intro fixed [of ?c]) (auto simp: msgpack_binary_head_def get_msgpack_binary_def read_body_def)
    qed
  next
    case 2
    then show ?thesis
      by (intro wide [of "if t = None then 0xC5 else 0xC8" 2])
        (auto simp: msgpack_binary_head_def get_msgpack_binary_def read_body_def)
  next
    case 3
    then show ?thesis
      using assms(2) by (intro wide [of "if t = None then 0xC6 else 0xC9" 4])
        (auto simp: msgpack_binary_head_def get_msgpack_binary_def read_body_def)
  qed
qed

section \<open>Reading back what was written\<close>

text \<open>
  MessagePack does not tell a signed integer that is not negative from an unsigned one; everything
  else comes back as it was, subtypes and NaNs included.
\<close>

fun msgpack_norm :: "json \<Rightarrow> json" where
  "msgpack_norm (JInt i) = (if 0 \<le> i then JUint (nat i) else JInt i)"
| "msgpack_norm (JArray xs) = JArray (map msgpack_norm xs)"
| "msgpack_norm (JObject m) = JObject (map (\<lambda>(k, v). (k, msgpack_norm v)) m)"
| "msgpack_norm j = j"

text \<open>Lengths that fit into 32 bits.\<close>

fun short_lengths :: "json \<Rightarrow> bool" where
  "short_lengths (JString s) \<longleftrightarrow> length s < 2 ^ 32"
| "short_lengths (JBinary b t) \<longleftrightarrow> length b < 2 ^ 32"
| "short_lengths (JArray xs) \<longleftrightarrow> length xs < 2 ^ 32 \<and> list_all short_lengths xs"
| "short_lengths (JObject m) \<longleftrightarrow> length m < 2 ^ 32 \<and> list_all (\<lambda>(k, v). length k < 2 ^ 32 \<and> short_lengths v) m"
| "short_lengths j \<longleftrightarrow> True"

definition msgpack_writable :: "json \<Rightarrow> bool" where
  "msgpack_writable j \<longleftrightarrow> json_ok j \<and> short_lengths j"

lemma msgpack_norm_ok: "json_ok j \<Longrightarrow> json_ok (msgpack_norm j)"
proof (induction j)
  case (JObject m)
  have "keys_sorted (map (\<lambda>(k, v). (k, msgpack_norm v)) m) = keys_sorted m"
    by (simp add: keys_sorted_def comp_def case_prod_beta)
  moreover have "json_ok (msgpack_norm v)" if "(k, v) \<in> set m" for k v
    using JObject that by (fastforce simp: list_all_iff)
  ultimately show ?case using JObject.prems by (auto simp: list_all_iff)
qed (auto simp: list_all_iff)

definition mp_reads_back :: "nat \<Rightarrow> json \<Rightarrow> bool" where
  "mp_reads_back fuel j \<longleftrightarrow>
     (\<forall>r rest. r_input r = write_msgpack j @ rest \<longrightarrow>
        parse_msgpack_internal fuel r = Inr (events (msgpack_norm j), reads (length (write_msgpack j)) r))"

text \<open>A number behind a control byte.\<close>

lemma parse_msgpack_number:
  assumes "r_input r = byte c # write_number k n @ rest" and "n < 256 ^ k" and "0xCA \<le> c" and "c \<le> 0xD3"
    and "\<And>r. msgpack_number c r = with_number k r (\<lambda>n r. Inr ([g n], r))"
  shows "parse_msgpack_internal (Suc f) r = Inr ([g n], reads (Suc k) r)"
  using read_wide_head [OF assms(1,2)] assms(3-5) by (simp add: Let_def msgpack_other_def del: funpow.simps)

lemma parse_msgpack_signed:
  assumes "r_input r = byte c # write_signed k i @ rest" and "0 < k" and "- (2 ^ (8 * k - 1)) \<le> i" and "i < 2 ^ (8 * k - 1)"
    and "0xCA \<le> c" and "c \<le> 0xD3" and "\<And>r. msgpack_number c r = with_number k r (\<lambda>n r. Inr ([EInt (signed_of k n)], r))"
  shows "parse_msgpack_internal (Suc f) r = Inr ([EInt i], reads (Suc k) r)"
proof -
  have "nat (i mod 256 ^ k) < 256 ^ k" by (simp add: nat_less_iff)
  from parse_msgpack_number [OF assms(1) [unfolded write_signed_def] this assms(5-7)]
  show ?thesis using signed_of_write [OF assms(2-4)] by simp
qed

lemma parse_msgpack_unsigned:
  assumes "r_input r = msgpack_write_unsigned n @ rest" and "n < 2 ^ 64"
  shows "parse_msgpack_internal (Suc f) r = Inr ([EUint n], reads (length (msgpack_write_unsigned n)) r)"
proof -
  note w = msgpack_write_unsigned_def
  consider "n < 128" | "128 \<le> n" "n \<le> 0xFF" | "0xFF < n" "n \<le> 0xFFFF" | "0xFFFF < n" "n \<le> 0xFFFFFFFF"
    | "0xFFFFFFFF < n" by linarith
  then show ?thesis
  proof cases
    case 1
    with rget_Cons [of r "byte n" rest] assms(1) show ?thesis
      by (simp add: w Let_def msgpack_fixint_def)
  next
    case 2
    then show ?thesis
      using assms(1) parse_msgpack_number [of r "0xCC" 1 n rest EUint f] by (simp add: w msgpack_number_def)
  next
    case 3
    then show ?thesis
      using assms(1) parse_msgpack_number [of r "0xCD" 2 n rest EUint f] by (simp add: w msgpack_number_def)
  next
    case 4
    then show ?thesis
      using assms(1) parse_msgpack_number [of r "0xCE" 4 n rest EUint f] by (simp add: w msgpack_number_def)
  next
    case 5
    then show ?thesis
      using assms parse_msgpack_number [of r "0xCF" 8 n rest EUint f] by (simp add: w msgpack_number_def)
  qed
qed

lemma msgpack_write_nonneg:
  assumes "0 \<le> i" and "i < 2 ^ 63"
  shows "msgpack_write_integer i = msgpack_write_unsigned (nat i)"
  using assms by (simp add: msgpack_write_integer_def msgpack_write_unsigned_def write_signed_nat nat_le_iff nat_less_iff)

lemma parse_msgpack_negative:
  assumes "r_input r = msgpack_write_integer i @ rest" and "- (2 ^ 63) \<le> i" and "i < 0"
  shows "parse_msgpack_internal (Suc f) r = Inr ([EInt i], reads (length (msgpack_write_integer i)) r)"
proof -
  note w = msgpack_write_integer_def
  have len: "length (write_signed k i) = k" for k by (simp add: write_signed_def)
  consider "- 32 \<le> i" | "i < - 32" "- (2 ^ 7) \<le> i" | "i < - (2 ^ 7)" "- (2 ^ 15) \<le> i"
    | "i < - (2 ^ 15)" "- (2 ^ 31) \<le> i" | "i < - (2 ^ 31)" by linarith
  then show ?thesis
  proof cases
    case 1
    then have h: "msgpack_write_integer i = [byte (nat (i mod 256))]"
      using assms(3) by (simp add: w write_signed_def)
    have "i mod 256 = i + 256" using 1 assms(3) by (intro int_mod_pos_eq [where q = "- 1"]) auto
    then have "nat (i mod 256) \<le> 0xFF" "0xE0 \<le> nat (i mod 256)" using 1 assms(3) by simp_all
    moreover have "signed_of 1 (nat (i mod 256)) = i" using signed_of_write [of 1 i] 1 assms(3) by simp
    ultimately show ?thesis
      using rget_Cons [of r "byte (nat (i mod 256))" rest] assms(1) h
      by (simp add: Let_def msgpack_negative_def)
  next
    case 2
    then show ?thesis
      using assms parse_msgpack_signed [of r "0xD0" 1 i rest f] by (simp add: w msgpack_number_def len)
  next
    case 3
    then show ?thesis
      using assms parse_msgpack_signed [of r "0xD1" 2 i rest f] by (simp add: w msgpack_number_def len)
  next
    case 4
    then show ?thesis
      using assms parse_msgpack_signed [of r "0xD2" 4 i rest f] by (simp add: w msgpack_number_def len)
  next
    case 5
    then show ?thesis
      using assms parse_msgpack_signed [of r "0xD3" 8 i rest f] by (simp add: w msgpack_number_def len)
  qed
qed

lemma mp_numbers:
  "json_ok (JInt i) \<Longrightarrow> mp_reads_back (Suc f) (JInt i)" "json_ok (JUint n) \<Longrightarrow> mp_reads_back (Suc f) (JUint n)"
  using parse_msgpack_negative [of _ i] parse_msgpack_unsigned [of _ "nat i"] parse_msgpack_unsigned [of _ n]
    msgpack_write_nonneg [of i]
  by (auto simp: mp_reads_back_def nat_less_iff simp del: parse_msgpack_internal.simps)

lemma mp_float: "mp_reads_back (Suc f) (JFloat d)"
  unfolding mp_reads_back_def
proof (intro allI impI)
  fix r :: reader and rest assume r: "r_input r = write_msgpack (JFloat d) @ rest"
  show "parse_msgpack_internal (Suc f) r =
      Inr (events (msgpack_norm (JFloat d)), reads (length (write_msgpack (JFloat d))) r)"
  proof (cases "in_float_range d \<and> float_to_double (double_to_float d) = d")
    case True
    moreover have "unat (double_to_float d) < 256 ^ 4" using unsigned_less [of "double_to_float d"] by simp
    ultimately show ?thesis
      using r parse_msgpack_number [of r "0xCA" 4 "unat (double_to_float d)" rest
          "\<lambda>n. EFloat (float_to_double (word_of_nat n))" f]
      by (simp add: write_compact_float_def msgpack_number_def)
  next
    case False
    moreover have "unat d < 256 ^ 8" using unsigned_less [of d] by simp
    ultimately show ?thesis
      using r parse_msgpack_number [of r "0xCB" 8 "unat d" rest "\<lambda>n. EFloat (word_of_nat n)" f]
      by (auto simp: write_compact_float_def msgpack_number_def)
  qed
qed

lemma mp_simple: "mp_reads_back (Suc f) JNull" "mp_reads_back (Suc f) (JBool b)"
  using rget_Cons by (auto simp: mp_reads_back_def Let_def msgpack_other_def)

lemma mp_string: "length s < 2 ^ 32 \<Longrightarrow> mp_reads_back (Suc f) (JString s)"
  unfolding mp_reads_back_def
  using msgpack_string_read by (fastforce simp: Let_def msgpack_fixed_def msgpack_other_def)

lemma mp_binary: "length b < 2 ^ 32 \<Longrightarrow> mp_reads_back (Suc f) (JBinary b t)"
  unfolding mp_reads_back_def
  using msgpack_binary_read by (fastforce simp: Let_def msgpack_other_def)

text \<open>Containers: the parser reads the head and then as many items.\<close>

lemma msgpack_array_head_read:
  assumes "r_input r = msgpack_array_head N @ rest" and "N < 2 ^ 32"
  shows "parse_msgpack_internal (Suc f) r =
    get_msgpack_array (parse_msgpack_internal f) N (reads (length (msgpack_array_head N)) r)"
proof -
  note w = msgpack_array_head_def msgpack_container_def msgpack_other_def
  consider "N \<le> 15" | "15 < N" "N \<le> 0xFFFF" | "0xFFFF < N" by linarith
  then show ?thesis
  proof cases
    case 1
    with rget_Cons [of r "byte (0x90 + N)" rest] assms(1) show ?thesis
      by (simp add: w or_small msgpack_low_bits Let_def msgpack_fixed_def)
  next
    case 2
    then show ?thesis
      using read_wide_head [of r "0xDC" 2 N rest] assms(1) by (simp add: w Let_def)
  next
    case 3
    then show ?thesis
      using read_wide_head [of r "0xDD" 4 N rest] assms by (simp add: w Let_def)
  qed
qed

lemma msgpack_object_head_read:
  assumes "r_input r = msgpack_object_head N @ rest" and "N < 2 ^ 32"
  shows "parse_msgpack_internal (Suc f) r =
    get_msgpack_object (parse_msgpack_internal f) N (reads (length (msgpack_object_head N)) r)"
proof -
  note w = msgpack_object_head_def msgpack_container_def msgpack_other_def
  consider "N \<le> 15" | "15 < N" "N \<le> 0xFFFF" | "0xFFFF < N" by linarith
  then show ?thesis
  proof cases
    case 1
    with rget_Cons [of r "byte (0x80 + N)" rest] assms(1) show ?thesis
      by (simp add: w or_small msgpack_low_bits Let_def msgpack_fixed_def)
  next
    case 2
    then show ?thesis
      using read_wide_head [of r "0xDE" 2 N rest] assms(1) by (simp add: w Let_def)
  next
    case 3
    then show ?thesis
      using read_wide_head [of r "0xDF" 4 N rest] assms by (simp add: w Let_def)
  qed
qed

lemma mp_array:
  assumes "json_ok (JArray xs)" and "length xs < 2 ^ 32" and "\<And>x. x \<in> set xs \<Longrightarrow> mp_reads_back f x"
  shows "mp_reads_back (Suc f) (JArray xs)"
  unfolding mp_reads_back_def
proof (intro allI impI)
  fix r :: reader and rest assume r: "r_input r = write_msgpack (JArray xs) @ rest"
  let ?h = "msgpack_array_head (length xs)"
  have "read_n (parse_msgpack_internal f) (length xs) (reads (length ?h) r) =
      Inr (concat (map (\<lambda>x. events (msgpack_norm x)) xs), reads (length (concat (map write_msgpack xs))) (reads (length ?h) r))"
    by (rule read_n_written [where rest = rest]) (use assms(3) r in \<open>auto simp: mp_reads_back_def\<close>)
  moreover have "parse_msgpack_internal (Suc f) r = get_msgpack_array (parse_msgpack_internal f) (length xs) (reads (length ?h) r)"
    using r assms(2) by (intro msgpack_array_head_read) auto
  ultimately show "parse_msgpack_internal (Suc f) r =
      Inr (events (msgpack_norm (JArray xs)), reads (length (write_msgpack (JArray xs))) r)"
    using assms(1) by (simp add: get_msgpack_array_def start_array_def reads_add comp_def del: parse_msgpack_internal.simps)
qed

lemma mp_entry:
  assumes "r_input r = msgpack_write_string k @ write_msgpack v @ rest" and "length k < 2 ^ 32" and "mp_reads_back f v"
  shows "msgpack_entry (parse_msgpack_internal f) r =
    Inr (EKey k # events (msgpack_norm v), reads (length (msgpack_write_string k @ write_msgpack v)) r)"
  using msgpack_string_read(2) [OF assms(1,2)] assms(1,3)
  by (simp add: msgpack_entry_def mp_reads_back_def reads_add)

lemma mp_object:
  assumes "json_ok (JObject m)" and "length m < 2 ^ 32"
    and "\<And>k v. (k, v) \<in> set m \<Longrightarrow> length k < 2 ^ 32 \<and> mp_reads_back f v"
  shows "mp_reads_back (Suc f) (JObject m)"
  unfolding mp_reads_back_def
proof (intro allI impI)
  fix r :: reader and rest assume r: "r_input r = write_msgpack (JObject m) @ rest"
  let ?h = "msgpack_object_head (length m)" and ?w = "\<lambda>(k, v). msgpack_write_string k @ write_msgpack v"
  let ?e = "\<lambda>(k, v). EKey k # events (msgpack_norm v)"
  have "read_n (msgpack_entry (parse_msgpack_internal f)) (length m) (reads (length ?h) r) =
      Inr (concat (map ?e m), reads (length (concat (map ?w m))) (reads (length ?h) r))"
    by (rule read_n_written [where rest = rest]) (use assms(3) r mp_entry in \<open>auto simp: case_prod_beta\<close>)
  moreover have "parse_msgpack_internal (Suc f) r = get_msgpack_object (parse_msgpack_internal f) (length m) (reads (length ?h) r)"
    using r assms(2) by (intro msgpack_object_head_read) auto
  moreover have "(\<lambda>(k, v). EKey k # events v) \<circ> (\<lambda>(k, v). (k, msgpack_norm v)) = ?e"
    by (auto simp: fun_eq_iff)
  ultimately show "parse_msgpack_internal (Suc f) r =
      Inr (events (msgpack_norm (JObject m)), reads (length (write_msgpack (JObject m))) r)"
    using assms(1) by (simp add: get_msgpack_object_def start_object_def reads_add del: parse_msgpack_internal.simps)
qed

lemma mp_head_length: "N < 2 ^ 32 \<Longrightarrow> 1 \<le> length (msgpack_array_head N)" "N < 2 ^ 32 \<Longrightarrow> 1 \<le> length (msgpack_object_head N)"
  by (auto simp: msgpack_array_head_def msgpack_object_head_def)

lemma mp_parts_length:
  assumes "short_lengths j" and "length (write_msgpack j) < Suc f"
  shows "j = JArray xs \<Longrightarrow> x \<in> set xs \<Longrightarrow> length (write_msgpack x) < f"
    and "j = JObject m \<Longrightarrow> (k, v) \<in> set m \<Longrightarrow> length (write_msgpack v) < f"
proof -
  show "length (write_msgpack x) < f" if "j = JArray xs" "x \<in> set xs"
    using concat_member_length [OF that(2), of write_msgpack] mp_head_length(1) [of "length xs"] assms that by simp
  show "length (write_msgpack v) < f" if "j = JObject m" "(k, v) \<in> set m"
    using concat_member_length [OF that(2), of "\<lambda>(k, v). msgpack_write_string k @ write_msgpack v"]
      mp_head_length(2) [of "length m"] assms that by simp
qed

lemma parse_written_msgpack:
  "json_ok j \<Longrightarrow> short_lengths j \<Longrightarrow> length (write_msgpack j) < fuel \<Longrightarrow> mp_reads_back fuel j"
proof (induction j arbitrary: fuel)
  case (JArray xs)
  then obtain f where f: "fuel = Suc f" by (cases fuel) auto
  have "mp_reads_back f x" if "x \<in> set xs" for x
    using JArray.IH [OF that] JArray.prems that mp_parts_length(1) [of "JArray xs" f xs x]
    by (auto simp: f list_all_iff)
  then show ?case using JArray.prems(1,2) mp_array [of xs f] by (auto simp: f)
next
  case (JObject m)
  then obtain f where f: "fuel = Suc f" by (cases fuel) auto
  have "length k < 2 ^ 32 \<and> mp_reads_back f v" if "(k, v) \<in> set m" for k v
    using JObject.IH [OF that, of v f] JObject.prems that mp_parts_length(2) [of "JObject m" f m k v]
    by (auto simp: f list_all_iff)
  then show ?case using JObject.prems(1,2) mp_object [of m f] by (auto simp: f)
next
  case JDiscarded
  then show ?case by simp
qed (use mp_simple mp_float mp_numbers mp_string mp_binary in \<open>(case_tac fuel, simp, simp)+\<close>)

interpretation mp: binary_format write_msgpack parse_msgpack_internal msgpack_writable msgpack_norm
  by unfold_locales (auto simp: msgpack_writable_def mp_reads_back_def msgpack_norm_ok dest: parse_written_msgpack)

section \<open>Reading any input\<close>

lemma ends_msgpack_string [intro]: "ends (length (r_input r)) (get_msgpack_string r)"
  by (auto simp: get_msgpack_string_def Let_def split: option.split intro!: ends_with_number ends_mono [OF ends_get_string])

lemma ends_msgpack_bin: "ends (length (r_input r)) (msgpack_bin n r)" "ends (length (r_input r)) (msgpack_ext n r)"
  by (auto simp: msgpack_bin_def msgpack_ext_def intro!: ends_with_number ends_bind ends_mono [OF ends_get_binary])

lemma ends_msgpack_binary: "binary_byte c \<Longrightarrow> ends (length (r_input r)) (get_msgpack_binary c r)"
  by (auto simp: get_msgpack_binary_def intro!: ends_with_number ends_mono [OF ends_msgpack_bin(1)]
      ends_mono [OF ends_msgpack_bin(2)])

lemma ends_msgpack_array:
  assumes "\<And>r'. length (r_input r') \<le> length (r_input r) \<Longrightarrow> ends (length (r_input r')) (p r')"
  shows "ends (length (r_input r)) (get_msgpack_array p n r)"
  using ends_read_n [OF assms] by (auto simp: get_msgpack_array_def intro!: ends_start ends_bind)

lemma ends_msgpack_entry:
  assumes "\<And>r'. length (r_input r') \<le> length (r_input r) \<Longrightarrow> ends (length (r_input r')) (p r')"
  shows "ends (length (r_input r)) (msgpack_entry p r)"
proof -
  have "ends (length (r_input r)) (get_msgpack_string (rget r))"
    by (rule ends_mono [OF ends_msgpack_string]) simp
  moreover have "ends (length (r_input r)) (p r1)" if "length (r_input r1) \<le> length (r_input r)" for r1
    by (rule ends_mono [OF assms]) (use that in auto)
  ultimately show ?thesis by (auto simp: msgpack_entry_def intro!: ends_bind)
qed

lemma ends_msgpack_object:
  assumes "\<And>r'. length (r_input r') \<le> length (r_input r) \<Longrightarrow> ends (length (r_input r')) (p r')"
  shows "ends (length (r_input r)) (get_msgpack_object p n r)"
proof -
  have "ends (length (r_input r)) (read_n (msgpack_entry p) n r)"
    by (rule ends_read_n, rule ends_msgpack_entry, rule assms) simp
  then show ?thesis by (auto simp: get_msgpack_object_def intro!: ends_start ends_bind)
qed

lemma ends_msgpack_number: "ends (length (r_input r)) (msgpack_number c r)"
  by (auto simp: msgpack_number_def intro!: ends_with_number)

lemma ends_msgpack_cases:
  assumes "\<And>r'. length (r_input r') \<le> length (r_input r) \<Longrightarrow> ends (length (r_input r')) (p r')"
  shows "ends (length (r_input r)) (msgpack_fixed p c r)" "ends (length (r_input r)) (msgpack_other p c r)"
proof -
  have a: "ends (length (r_input r)) (get_msgpack_array p n r1)" "ends (length (r_input r)) (get_msgpack_object p n r1)"
    if "length (r_input r1) \<le> length (r_input r)" for n r1
    by (rule ends_mono [OF ends_msgpack_array], rule assms, use that in simp, use that in simp)
      (rule ends_mono [OF ends_msgpack_object], rule assms, use that in simp, use that in simp)
  then have "ends (length (r_input r)) (msgpack_container p c r)"
    by (auto simp: msgpack_container_def intro!: ends_with_number)
  then show "ends (length (r_input r)) (msgpack_other p c r)"
    using ends_msgpack_number ends_msgpack_binary by (auto simp: msgpack_other_def intro!: ends_bind)
  show "ends (length (r_input r)) (msgpack_fixed p c r)"
    using a by (auto simp: msgpack_fixed_def intro!: ends_bind)
qed

lemma ends_parse_msgpack:
  "length (r_input r) < f \<Longrightarrow> ends (length (r_input r)) (parse_msgpack_internal f r)"
proof (induction f arbitrary: r)
  case (Suc f)
  show ?case
  proof (cases "r_input r")
    case Nil
    then show ?thesis by (simp add: Let_def rget_def)
  next
    case (Cons b bs)
    have IH: "ends (length (r_input r')) (parse_msgpack_internal f r')"
      if "length (r_input r') \<le> length (r_input (rget r))" for r'
      using that Suc.prems Cons by (intro Suc.IH) simp
    have "ends (length (r_input (rget r))) (msgpack_fixed (parse_msgpack_internal f) c (rget r))"
      "ends (length (r_input (rget r))) (msgpack_other (parse_msgpack_internal f) c (rget r))" for c
      by (rule ends_msgpack_cases, erule IH)+
    then have "ends (length (r_input (rget r))) (parse_msgpack_internal (Suc f) r)"
      by (auto simp: Let_def msgpack_fixint_def msgpack_negative_def split: option.split)
    then show ?thesis by (rule ends_mono) simp
  qed
qed simp

text \<open>What is read is the events of a value, with integers in range.\<close>

lemma gives_msgpack_array:
  assumes "\<And>r. gives delivers (p r)"
  shows "gives delivers (get_msgpack_array p n r)"
proof -
  have "gives delivers_elements (read_n p n r)"
    using assms delivers_elements_append delivers_element delivers_elements_Nil
    by (auto intro!: gives_read_n [where Q = delivers])
  then show ?thesis
    by (auto simp: get_msgpack_array_def start_array_def intro!: gives_then [where Q = delivers_elements] delivers_array)
qed

lemma gives_msgpack_object:
  assumes "\<And>r. gives delivers (p r)"
  shows "gives delivers (get_msgpack_object p n r)"
proof -
  have "gives delivers_entries (msgpack_entry p r)" for r
    unfolding msgpack_entry_def by (rule gives_then [OF gives_any]) (auto intro!: gives_then [OF assms] delivers_entry)
  then have "gives delivers_entries (read_n (msgpack_entry p) n r)"
    using delivers_entries_append delivers_entries_Nil by (auto intro!: gives_read_n [where Q = delivers_entries])
  then show ?thesis
    by (auto simp: get_msgpack_object_def start_object_def intro!: gives_then [where Q = delivers_entries] delivers_object)
qed

lemma gives_msgpack_number: "gives delivers (msgpack_number c r)"
proof -
  have "- (2 ^ 63) \<le> signed_of k n \<and> signed_of k n < 2 ^ 63" if "k \<in> {1, 2, 4, 8}" for k n
    using signed_of_bounds [of k n] that by auto
  then show ?thesis by (auto simp: msgpack_number_def intro!: gives_with_number)
qed

lemma gives_parse_msgpack: "gives delivers (parse_msgpack_internal f r)"
proof (induction f arbitrary: r)
  case (Suc f)
  note a = gives_msgpack_array [OF Suc] gives_msgpack_object [OF Suc]
  have t: "gives delivers (bindE (get_msgpack_string r) (\<lambda>(s, r1). Inr ([EString s], r1)))"
    "gives delivers (bindE (get_msgpack_binary c r) (\<lambda>((b, t), r1). Inr ([EBinary b t], r1)))" for c r
    by (auto intro!: gives_then [OF gives_any])
  have "gives delivers (msgpack_container (parse_msgpack_internal f) c r)" for c r
    using a by (auto simp: msgpack_container_def intro!: gives_with_number)
  then have "gives delivers (msgpack_other (parse_msgpack_internal f) c r)" "gives delivers (msgpack_fixed (parse_msgpack_internal f) c r)" for c r
    using t a gives_msgpack_number by (auto simp: msgpack_other_def msgpack_fixed_def)
  moreover have "- (2 ^ 63) \<le> signed_of 1 c \<and> signed_of 1 c < 2 ^ 63" for c using signed_of_bounds [of 1 c] by auto
  ultimately show ?case
    by (auto simp: Let_def msgpack_fixint_def msgpack_negative_def split: option.split)
qed simp

section \<open>Properties\<close>

text \<open>
  C15: MessagePack round trip. Every well-formed JSON value whose lengths fit into 32 bits, of any
  nesting, is read back by \<^verbatim>\<open>from_msgpack\<close> from the bytes that \<^verbatim>\<open>to_msgpack\<close> wrote, with its binary
  subtypes and its floating-point numbers bit by bit; a signed integer that is not negative comes
  back as the unsigned integer of the same value.
\<close>

theorem msgpack_roundtrip:
  assumes "json_ok j" and "short_lengths j"
  shows "from_msgpack (to_msgpack j) True ex = Inr (msgpack_norm j)"
  using mp.read_back [of j ex] assms by (simp add: from_msgpack_def to_msgpack_def msgpack_writable_def)

text \<open>A value with nested containers, integers of several sizes and a binary value with a subtype.\<close>

definition sample_value :: json where
  "sample_value =
     JObject
       [([0x61], JArray [JInt (- 1), JInt (- 200), JInt 500, JUint 70000, JNull, JBool True]),
        ([0x62], JFloat 0x3FF8000000000000),
        ([0x63], JBinary [1, 2] (Some 42)),
        ([0x64], JString [])]"

theorem msgpack_roundtrip_witness:
  "from_msgpack (to_msgpack sample_value) True True =
     Inr (JObject
       [([0x61], JArray [JInt (- 1), JInt (- 200), JUint 500, JUint 70000, JNull, JBool True]),
        ([0x62], JFloat 0x3FF8000000000000),
        ([0x63], JBinary [1, 2] (Some 42)),
        ([0x64], JString [])])"
  using msgpack_roundtrip [of sample_value True]
  by (simp add: sample_value_def keys_sorted_def array_max_size_def object_max_size_def)

text \<open>
  C17: The MessagePack reader is total and type safe: whatever the bytes, \<^verbatim>\<open>from_msgpack\<close> ends
  within the depth it allows for; it returns a value whose integers fit their types and whose
  objects have ordered keys, or throws a parse error or the exception 408; without exceptions a
  parse error becomes a discarded value.
\<close>

theorem msgpack_reader_total:
  "read_result ex (from_msgpack bs strict ex)"
proof -
  have e: "ends (length bs) (parse_msgpack_internal (Suc (length bs)) (reader_new bs))"
    using ends_parse_msgpack [of "reader_new bs" "Suc (length bs)"] by (simp add: reader_new_def)
  show ?thesis
    unfolding from_msgpack_def by (rule from_binary_result [OF e gives_parse_msgpack])
qed

end
