(* ===== verification/Json_Grisu.thy ===== *)
theory Json_Grisu
  imports Json_Value "HOL-Library.Signed_Division"
begin

text \<open>
  The conversion of a floating-point number to its decimal text in \<^verbatim>\<open>include/hv/json.hpp\<close>: the Grisu2
  algorithm in \<^verbatim>\<open>detail::dtoa_impl\<close> and \<^verbatim>\<open>detail::to_chars\<close>. A 64-bit number is a natural number
  and every operation that could leave the range is taken modulo \<open>2 ^ 64\<close>; a shift is a multiplication
  or division by a power of two. A failed \<^verbatim>\<open>JSON_ASSERT\<close> is the error \<open>JsonAssert\<close>.
\<close>

definition json_assert :: "bool \<Rightarrow> json_error + unit" where
  "json_assert b = (if b then Inr () else Inl JsonAssert)"

lemma json_assert_simps [simp]: "json_assert True = Inr ()" "json_assert False = Inl JsonAssert"
  by (simp_all add: json_assert_def)

section \<open>Numbers \<open>f * 2 ^ e\<close>\<close>

record diyfp =
  fp_f :: nat
  fp_e :: int

definition fp_sub :: "diyfp \<Rightarrow> diyfp \<Rightarrow> json_error + diyfp" where
  "fp_sub x y =
     bindE (json_assert (fp_e x = fp_e y)) (\<lambda>_.
     bindE (json_assert (fp_f y \<le> fp_f x)) (\<lambda>_.
     Inr \<lparr>fp_f = fp_f x - fp_f y, fp_e = fp_e x\<rparr>))"

definition fp_mul :: "diyfp \<Rightarrow> diyfp \<Rightarrow> diyfp" where
  "fp_mul x y =
     (let u_lo = fp_f x mod 2 ^ 32; u_hi = fp_f x div 2 ^ 32;
          v_lo = fp_f y mod 2 ^ 32; v_hi = fp_f y div 2 ^ 32;
          p0 = u_lo * v_lo mod 2 ^ 64; p1 = u_lo * v_hi mod 2 ^ 64;
          p2 = u_hi * v_lo mod 2 ^ 64; p3 = u_hi * v_hi mod 2 ^ 64;
          p0_hi = p0 div 2 ^ 32;
          p1_lo = p1 mod 2 ^ 32; p1_hi = p1 div 2 ^ 32;
          p2_lo = p2 mod 2 ^ 32; p2_hi = p2 div 2 ^ 32;
          Q = (p0_hi + p1_lo + p2_lo) mod 2 ^ 64;
          Q1 = (Q + 2 ^ 31) mod 2 ^ 64;
          h = (p3 + p2_hi + p1_hi + Q1 div 2 ^ 32) mod 2 ^ 64
      in \<lparr>fp_f = h, fp_e = fp_e x + fp_e y + 64\<rparr>)"

text \<open>The loop of \<^verbatim>\<open>normalize\<close>; the assertion in front of it excludes zero, for which it would not end.\<close>

function normalize_loop :: "diyfp \<Rightarrow> diyfp" where
  "normalize_loop x =
     (if fp_f x div 2 ^ 63 = 0 \<and> fp_f x \<noteq> 0
      then normalize_loop (x\<lparr>fp_f := fp_f x * 2 mod 2 ^ 64, fp_e := fp_e x - 1\<rparr>)
      else x)"
  by auto
termination
  by (relation "measure (\<lambda>x. 2 ^ 63 - fp_f x)") (auto simp: div_eq_0_iff)

declare normalize_loop.simps [simp del]

definition fp_normalize :: "diyfp \<Rightarrow> json_error + diyfp" where
  "fp_normalize x = bindE (json_assert (fp_f x \<noteq> 0)) (\<lambda>_. Inr (normalize_loop x))"

definition normalize_to :: "diyfp \<Rightarrow> int \<Rightarrow> json_error + diyfp" where
  "normalize_to x target_exponent =
     (let delta = fp_e x - target_exponent in
      bindE (json_assert (0 \<le> delta)) (\<lambda>_.
      let f = fp_f x * 2 ^ nat delta mod 2 ^ 64 in
      bindE (json_assert (f div 2 ^ nat delta = fp_f x)) (\<lambda>_.
      Inr \<lparr>fp_f = f, fp_e = target_exponent\<rparr>)))"

section \<open>Boundaries\<close>

record boundaries =
  b_w :: diyfp
  b_minus :: diyfp
  b_plus :: diyfp

text \<open>
  The argument is the bit pattern of a positive \<^verbatim>\<open>double\<close>. \<open>fp_of_bits\<close> is \<^verbatim>\<open>v\<close>, and the neighbours
  of \<^verbatim>\<open>v\<close> are half way at \<open>m_plus\<close> and \<open>m_minus\<close>.
\<close>

definition fp_of_bits :: "nat \<Rightarrow> diyfp" where
  "fp_of_bits bits =
     (let E = bits div 2 ^ 52; F = bits mod 2 ^ 52 in
      if E = 0 then \<lparr>fp_f = F, fp_e = - 1074\<rparr> else \<lparr>fp_f = F + 2 ^ 52, fp_e = int E - 1075\<rparr>)"

definition m_plus :: "nat \<Rightarrow> diyfp" where
  "m_plus bits = (let v = fp_of_bits bits in \<lparr>fp_f = 2 * fp_f v + 1, fp_e = fp_e v - 1\<rparr>)"

definition m_minus :: "nat \<Rightarrow> diyfp" where
  "m_minus bits =
     (let v = fp_of_bits bits in
      if bits mod 2 ^ 52 = 0 \<and> 1 < bits div 2 ^ 52
      then \<lparr>fp_f = 4 * fp_f v - 1, fp_e = fp_e v - 2\<rparr>
      else \<lparr>fp_f = 2 * fp_f v - 1, fp_e = fp_e v - 1\<rparr>)"

definition compute_boundaries :: "nat \<Rightarrow> json_error + boundaries" where
  "compute_boundaries bits =
     bindE (json_assert (bits div 2 ^ 52 < 2047)) (\<lambda>_.
     bindE (json_assert (0 < bits)) (\<lambda>_.
     bindE (fp_normalize (m_plus bits)) (\<lambda>w_plus.
     bindE (normalize_to (m_minus bits) (fp_e w_plus)) (\<lambda>w_minus.
     bindE (fp_normalize (fp_of_bits bits)) (\<lambda>w.
     Inr \<lparr>b_w = w, b_minus = w_minus, b_plus = w_plus\<rparr>)))))"

section \<open>Cached powers of ten\<close>

definition kAlpha :: int where "kAlpha = - 60"
definition kGamma :: int where "kGamma = - 32"

text \<open>\<open>(f, e, k)\<close> stands for \<open>f * 2 ^ e\<close>, which is close to \<open>10 ^ k\<close>.\<close>

definition kCachedPowers :: "(nat \<times> int \<times> int) list" where
  "kCachedPowers =
    [(0xAB70FE17C79AC6CA, - 1060, - 300), (0xFF77B1FCBEBCDC4F, - 1034, - 292), (0xBE5691EF416BD60C, - 1007, - 284),
     (0x8DD01FAD907FFC3C, - 980, - 276), (0xD3515C2831559A83, - 954, - 268), (0x9D71AC8FADA6C9B5, - 927, - 260),
     (0xEA9C227723EE8BCB, - 901, - 252), (0xAECC49914078536D, - 874, - 244), (0x823C12795DB6CE57, - 847, - 236),
     (0xC21094364DFB5637, - 821, - 228), (0x9096EA6F3848984F, - 794, - 220), (0xD77485CB25823AC7, - 768, - 212),
     (0xA086CFCD97BF97F4, - 741, - 204), (0xEF340A98172AACE5, - 715, - 196), (0xB23867FB2A35B28E, - 688, - 188),
     (0x84C8D4DFD2C63F3B, - 661, - 180), (0xC5DD44271AD3CDBA, - 635, - 172), (0x936B9FCEBB25C996, - 608, - 164),
     (0xDBAC6C247D62A584, - 582, - 156), (0xA3AB66580D5FDAF6, - 555, - 148), (0xF3E2F893DEC3F126, - 529, - 140),
     (0xB5B5ADA8AAFF80B8, - 502, - 132), (0x87625F056C7C4A8B, - 475, - 124), (0xC9BCFF6034C13053, - 449, - 116),
     (0x964E858C91BA2655, - 422, - 108), (0xDFF9772470297EBD, - 396, - 100), (0xA6DFBD9FB8E5B88F, - 369, - 92),
     (0xF8A95FCF88747D94, - 343, - 84), (0xB94470938FA89BCF, - 316, - 76), (0x8A08F0F8BF0F156B, - 289, - 68),
     (0xCDB02555653131B6, - 263, - 60), (0x993FE2C6D07B7FAC, - 236, - 52), (0xE45C10C42A2B3B06, - 210, - 44),
     (0xAA242499697392D3, - 183, - 36), (0xFD87B5F28300CA0E, - 157, - 28), (0xBCE5086492111AEB, - 130, - 20),
     (0x8CBCCC096F5088CC, - 103, - 12), (0xD1B71758E219652C, - 77, - 4), (0x9C40000000000000, - 50, 4),
     (0xE8D4A51000000000, - 24, 12), (0xAD78EBC5AC620000, 3, 20), (0x813F3978F8940984, 30, 28),
     (0xC097CE7BC90715B3, 56, 36), (0x8F7E32CE7BEA5C70, 83, 44), (0xD5D238A4ABE98068, 109, 52),
     (0x9F4F2726179A2245, 136, 60), (0xED63A231D4C4FB27, 162, 68), (0xB0DE65388CC8ADA8, 189, 76),
     (0x83C7088E1AAB65DB, 216, 84), (0xC45D1DF942711D9A, 242, 92), (0x924D692CA61BE758, 269, 100),
     (0xDA01EE641A708DEA, 295, 108), (0xA26DA3999AEF774A, 322, 116), (0xF209787BB47D6B85, 348, 124),
     (0xB454E4A179DD1877, 375, 132), (0x865B86925B9BC5C2, 402, 140), (0xC83553C5C8965D3D, 428, 148),
     (0x952AB45CFA97A0B3, 455, 156), (0xDE469FBD99A05FE3, 481, 164), (0xA59BC234DB398C25, 508, 172),
     (0xF6C69A72A3989F5C, 534, 180), (0xB7DCBF5354E9BECE, 561, 188), (0x88FCF317F22241E2, 588, 196),
     (0xCC20CE9BD35C78A5, 614, 204), (0x98165AF37B2153DF, 641, 212), (0xE2A0B5DC971F303A, 667, 220),
     (0xA8D9D1535CE3B396, 694, 228), (0xFB9B7CD9A4A7443C, 720, 236), (0xBB764C4CA7A44410, 747, 244),
     (0x8BAB8EEFB6409C1A, 774, 252), (0xD01FEF10A657842C, 800, 260), (0x9B10A4E5E9913129, 827, 268),
     (0xE7109BFBA19C0C9D, 853, 276), (0xAC2820D9623BF429, 880, 284), (0x80444B5E7AA7CF85, 907, 292),
     (0xBF21E44003ACDD2D, 933, 300), (0x8E679C2F5E44FF8F, 960, 308), (0xD433179D9C8CB841, 986, 316),
     (0x9E19DB92B4E31BA9, 1013, 324)]"

definition cached_index :: "int \<Rightarrow> int" where
  "cached_index e =
     (let f = kAlpha - e - 1;
          k = f * 78913 sdiv 2 ^ 18 + (if 0 < f then 1 else 0)
      in (300 + k + 7) sdiv 8)"

definition get_cached_power_for_binary_exponent :: "int \<Rightarrow> json_error + nat \<times> int \<times> int" where
  "get_cached_power_for_binary_exponent e =
     bindE (json_assert (- 1500 \<le> e)) (\<lambda>_.
     bindE (json_assert (e \<le> 1500)) (\<lambda>_.
     let index = cached_index e in
     bindE (json_assert (0 \<le> index)) (\<lambda>_.
     bindE (json_assert (nat index < length kCachedPowers)) (\<lambda>_.
     let cached = kCachedPowers ! nat index in
     bindE (json_assert (kAlpha \<le> fst (snd cached) + e + 64)) (\<lambda>_.
     bindE (json_assert (fst (snd cached) + e + 64 \<le> kGamma)) (\<lambda>_.
     Inr cached))))))"

section \<open>Digits\<close>

definition find_largest_pow10 :: "nat \<Rightarrow> nat \<times> nat" where
  "find_largest_pow10 n =
     (if 1000000000 \<le> n then (10, 1000000000) else if 100000000 \<le> n then (9, 100000000)
      else if 10000000 \<le> n then (8, 10000000) else if 1000000 \<le> n then (7, 1000000)
      else if 100000 \<le> n then (6, 100000) else if 10000 \<le> n then (5, 10000)
      else if 1000 \<le> n then (4, 1000) else if 100 \<le> n then (3, 100)
      else if 10 \<le> n then (2, 10) else (1, 1))"

lemma round_decreases: "b \<noteq> (0x30 :: u8) \<Longrightarrow> unat (b - 0x31) < unat (b - 0x30)"
proof -
  assume "b \<noteq> 0x30"
  then have "b - 0x30 \<noteq> 0" by simp
  then have "unat (b - 0x30 - 1) < unat (b - 0x30)" using unat_minus_one [of "b - 0x30"] by (simp add: unat_gt_0 del: diff_diff_eq)
  moreover have "b - 0x31 = b - 0x30 - 1" by simp
  ultimately show ?thesis by metis
qed

text \<open>The loop of \<^verbatim>\<open>grisu2_round\<close> on the last digit; it ends because the digit is asserted not to be \<^verbatim>\<open>'0'\<close>.\<close>

function round_loop :: "nat \<Rightarrow> nat \<Rightarrow> nat \<Rightarrow> nat \<Rightarrow> u8 \<Rightarrow> json_error + u8" where
  "round_loop dist delta ten_k rest b =
     (if rest < dist \<and> ten_k \<le> delta - rest \<and>
         ((rest + ten_k) mod 2 ^ 64 < dist \<or> (rest + ten_k - dist) mod 2 ^ 64 < dist - rest)
      then
        bindE (json_assert (b \<noteq> 0x30)) (\<lambda>_.
        round_loop dist delta ten_k ((rest + ten_k) mod 2 ^ 64) (b - 1))
      else Inr b)"
  by auto

termination
  by (relation "measure (\<lambda>(dist, delta, ten_k, rest, b). unat (b - 0x30))")
     (auto simp: json_assert_def round_decreases split: if_splits)

declare round_loop.simps [simp del]

definition grisu2_round :: "octets \<Rightarrow> nat \<Rightarrow> nat \<Rightarrow> nat \<Rightarrow> nat \<Rightarrow> json_error + octets" where
  "grisu2_round buf dist delta rest ten_k =
     bindE (json_assert (buf \<noteq> [])) (\<lambda>_.
     bindE (json_assert (dist \<le> delta)) (\<lambda>_.
     bindE (json_assert (rest \<le> delta)) (\<lambda>_.
     bindE (json_assert (0 < ten_k)) (\<lambda>_.
     bindE (round_loop dist delta ten_k rest (last buf)) (\<lambda>b.
     Inr (butlast buf @ [b]))))))"

text \<open>
  The digits of the integral part; \<open>s\<close> is \<^verbatim>\<open>-one.e\<close>. The result is a buffer that is complete, with
  its exponent, or one that goes on with the fraction.
\<close>

datatype digits_out = D_done octets int | D_more octets

primrec gen_integral :: "nat \<Rightarrow> nat \<Rightarrow> nat \<Rightarrow> nat \<Rightarrow> nat \<Rightarrow> nat \<Rightarrow> nat \<Rightarrow> octets \<Rightarrow> json_error + digits_out" where
  "gen_integral s dist delta p2 0 p1 pow10 buf = Inr (D_more buf)"
| "gen_integral s dist delta p2 (Suc n) p1 pow10 buf =
     (let d = p1 div pow10; r = p1 mod pow10 in
      bindE (json_assert (d \<le> 9)) (\<lambda>_.
      let buf1 = buf @ [of_nat (0x30 + d)]; rest = (r * 2 ^ s mod 2 ^ 64 + p2) mod 2 ^ 64 in
      if rest \<le> delta then
        bindE (grisu2_round buf1 dist delta rest (pow10 * 2 ^ s mod 2 ^ 64)) (\<lambda>buf2.
        Inr (D_done buf2 (int n)))
      else gen_integral s dist delta p2 n r (pow10 div 10) buf1))"

text \<open>The digits of the fraction. The loop has no bound of its own: the first argument is fuel.\<close>

primrec gen_fraction :: "nat \<Rightarrow> nat \<Rightarrow> nat \<Rightarrow> nat \<Rightarrow> nat \<Rightarrow> nat \<Rightarrow> octets \<Rightarrow> json_error + octets \<times> int" where
  "gen_fraction 0 s dist delta p2 m buf = Inl OutOfFuel"
| "gen_fraction (Suc fuel) s dist delta p2 m buf =
     bindE (json_assert (p2 \<le> (2 ^ 64 - 1) div 10)) (\<lambda>_.
     let p = p2 * 10 mod 2 ^ 64; d = p div 2 ^ s; r = p mod 2 ^ s in
     bindE (json_assert (d \<le> 9)) (\<lambda>_.
     let buf1 = buf @ [of_nat (0x30 + d)]; delta1 = delta * 10 mod 2 ^ 64; dist1 = dist * 10 mod 2 ^ 64 in
     if r \<le> delta1 then
       bindE (grisu2_round buf1 dist1 delta1 r (2 ^ s)) (\<lambda>buf2. Inr (buf2, - int (Suc m)))
     else gen_fraction fuel s dist1 delta1 r (Suc m) buf1))"

definition grisu2_digit_gen :: "diyfp \<Rightarrow> diyfp \<Rightarrow> diyfp \<Rightarrow> json_error + octets \<times> int" where
  "grisu2_digit_gen M_minus w M_plus =
     bindE (json_assert (kAlpha \<le> fp_e M_plus)) (\<lambda>_.
     bindE (json_assert (fp_e M_plus \<le> kGamma)) (\<lambda>_.
     bindE (fp_sub M_plus M_minus) (\<lambda>deltafp.
     bindE (fp_sub M_plus w) (\<lambda>distfp.
     let delta = fp_f deltafp; dist = fp_f distfp; s = nat (- fp_e M_plus);
         p1 = fp_f M_plus div 2 ^ s mod 2 ^ 32; p2 = fp_f M_plus mod 2 ^ s in
     bindE (json_assert (0 < p1)) (\<lambda>_.
     case find_largest_pow10 p1 of (k, pow10) \<Rightarrow>
     bindE (gen_integral s dist delta p2 k p1 pow10 []) (\<lambda>out.
     case out of
       D_done buf n \<Rightarrow> Inr (buf, n)
     | D_more buf \<Rightarrow>
         bindE (json_assert (delta < p2)) (\<lambda>_.
         gen_fraction 20 s dist delta p2 0 buf)))))))"

text \<open>The two functions \<^verbatim>\<open>grisu2\<close>: the digits and the decimal exponent of a positive number.\<close>

definition grisu2_scaled :: "diyfp \<Rightarrow> diyfp \<Rightarrow> diyfp \<Rightarrow> json_error + octets \<times> int" where
  "grisu2_scaled mm v mp =
     bindE (json_assert (fp_e mp = fp_e mm)) (\<lambda>_.
     bindE (json_assert (fp_e mp = fp_e v)) (\<lambda>_.
     bindE (get_cached_power_for_binary_exponent (fp_e mp)) (\<lambda>(cf, ce, ck).
     let c_minus_k = \<lparr>fp_f = cf, fp_e = ce\<rparr>;
         w = fp_mul v c_minus_k; w_minus = fp_mul mm c_minus_k; w_plus = fp_mul mp c_minus_k;
         M_minus = w_minus\<lparr>fp_f := (fp_f w_minus + 1) mod 2 ^ 64\<rparr>;
         M_plus = w_plus\<lparr>fp_f := (fp_f w_plus + 2 ^ 64 - 1) mod 2 ^ 64\<rparr> in
     bindE (grisu2_digit_gen M_minus w M_plus) (\<lambda>(buf, x). Inr (buf, x - ck)))))"

definition grisu2 :: "nat \<Rightarrow> json_error + octets \<times> int" where
  "grisu2 bits = bindE (compute_boundaries bits) (\<lambda>b. grisu2_scaled (b_minus b) (b_w b) (b_plus b))"

section \<open>Text\<close>

definition append_exponent :: "int \<Rightarrow> json_error + octets" where
  "append_exponent e =
     bindE (json_assert (- 1000 < e)) (\<lambda>_.
     bindE (json_assert (e < 1000)) (\<lambda>_.
     let k = nat \<bar>e\<bar> in
     Inr ((if e < 0 then 0x2D else 0x2B) #
       (if k < 10 then [0x30, of_nat (0x30 + k)]
        else if k < 100 then [of_nat (0x30 + k div 10), of_nat (0x30 + k mod 10)]
        else [of_nat (0x30 + k div 100), of_nat (0x30 + k mod 100 div 10), of_nat (0x30 + k mod 100 mod 10)]))))"

definition format_buffer :: "octets \<Rightarrow> int \<Rightarrow> int \<Rightarrow> int \<Rightarrow> json_error + octets" where
  "format_buffer buf decimal_exponent min_exp max_exp =
     bindE (json_assert (min_exp < 0)) (\<lambda>_.
     bindE (json_assert (0 < max_exp)) (\<lambda>_.
     let k = int (length buf); n = k + decimal_exponent in
     if k \<le> n \<and> n \<le> max_exp then Inr (buf @ replicate (nat (n - k)) 0x30 @ [0x2E, 0x30])
     else if 0 < n \<and> n \<le> max_exp then
       bindE (json_assert (n < k)) (\<lambda>_. Inr (take (nat n) buf @ [0x2E] @ drop (nat n) buf))
     else if min_exp < n \<and> n \<le> 0 then Inr ([0x30, 0x2E] @ replicate (nat (- n)) 0x30 @ buf)
     else
       bindE (append_exponent (n - 1)) (\<lambda>ex.
       Inr ((if k = 1 then buf else take 1 buf @ [0x2E] @ drop 1 buf) @ [0x65] @ ex))))"

text \<open>The bits without the sign are those of the absolute value. \<^verbatim>\<open>max_digits10\<close> is 17, \<^verbatim>\<open>digits10\<close> is 15.\<close>

definition to_chars :: "u64 \<Rightarrow> json_error + octets" where
  "to_chars d =
     bindE (json_assert (is_finite d)) (\<lambda>_.
     let sign = (if 2 ^ 63 \<le> unat d then [0x2D] else []); bits = unat d mod 2 ^ 63 in
     if bits = 0 then Inr (sign @ [0x30, 0x2E, 0x30])
     else
       bindE (grisu2 bits) (\<lambda>(buf, decimal_exponent).
       bindE (json_assert (length buf \<le> 17)) (\<lambda>_.
       bindE (format_buffer buf decimal_exponent (- 4) 15) (\<lambda>t. Inr (sign @ t)))))"

end
