(* ===== verification/Json_Grisu_Num.thy ===== *)
theory Json_Grisu_Num
  imports Json_Grisu Complex_Main
begin

text \<open>
  The numbers of the Grisu2 algorithm: the product of two 64-bit significands is the exact one
  rounded, normalizing keeps the value, the boundaries of a number are exact, and the cached powers
  of ten are exact to half a unit.
\<close>

section \<open>Products\<close>

lemma mul_parts:
  fixes ul uh vl vh B :: nat
  assumes "0 < B"
  shows "(uh * B + ul) * (vh * B + vl) div B = uh * vh * B + ul * vh + uh * vl + ul * vl div B"
proof -
  have "(uh * B + ul) * (vh * B + vl) = (uh * vh * B + ul * vh + uh * vl) * B + ul * vl"
    by (simp add: algebra_simps)
  then show ?thesis using assms by simp
qed

lemma small_product: "a < 2 ^ 32 \<Longrightarrow> b < 2 ^ 32 \<Longrightarrow> a * b < (2 :: nat) ^ 64"
proof -
  assume "a < 2 ^ 32" "b < 2 ^ 32"
  then have "a * b < 2 ^ 32 * 2 ^ 32" by (intro mult_strict_mono) auto
  then show ?thesis by simp
qed

lemma fp_mul_exact:
  assumes "fp_f x < 2 ^ 64" and "fp_f y < 2 ^ 64"
  shows "fp_mul x y = \<lparr>fp_f = (fp_f x * fp_f y + 2 ^ 63) div 2 ^ 64, fp_e = fp_e x + fp_e y + 64\<rparr>"
proof -
  define B where "B = (2 :: nat) ^ 32"
  define ul uh vl vh where "ul = fp_f x mod B" and "uh = fp_f x div B" and "vl = fp_f y mod B" and "vh = fp_f y div B"
  have B: "0 < B" "B * B = 2 ^ 64" by (simp_all add: B_def)
  have small: "ul < B" "vl < B" "uh < B" "vh < B"
    using assms by (simp_all add: ul_def vl_def uh_def vh_def B_def less_mult_imp_div_less)
  have p: "ul * vl < 2 ^ 64" "ul * vh < 2 ^ 64" "uh * vl < 2 ^ 64" "uh * vh < 2 ^ 64"
    using small unfolding B_def by (simp_all only: small_product)
  define p0 p1 p2 p3 where "p0 = ul * vl" and "p1 = ul * vh" and "p2 = uh * vl" and "p3 = uh * vh"
  define Q where "Q = p0 div B + p1 mod B + p2 mod B + 2 ^ 31"
  define h where "h = p3 + p2 div B + p1 div B + Q div B"
  have "p0 div B < B" using p(1) by (simp add: p0_def B_def less_mult_imp_div_less)
  moreover have "p1 mod B < B" "p2 mod B < B" using B by simp_all
  ultimately have q: "Q < 4 * B" by (simp add: Q_def B_def)
  have "fp_f x * fp_f y div B = p3 * B + p1 + p2 + p0 div B"
    using mul_parts [OF B(1), of uh ul vh vl] by (simp add: ul_def uh_def vl_def vh_def p0_def p1_def p2_def p3_def)
  also have "\<dots> + 2 ^ 31 = (p3 + p2 div B + p1 div B) * B + Q"
    by (simp add: Q_def algebra_simps)
  finally have l: "fp_f x * fp_f y div B + 2 ^ 31 = (p3 + p2 div B + p1 div B) * B + Q" .
  have "(fp_f x * fp_f y + 2 ^ 63) div 2 ^ 64 = (fp_f x * fp_f y + 2 ^ 31 * B) div B div B"
    by (simp add: div_mult2_eq [symmetric] B_def)
  also have "\<dots> = (fp_f x * fp_f y div B + 2 ^ 31) div B" using B by (simp add: add.commute)
  also have "\<dots> = h" unfolding l using B by (simp add: h_def)
  finally have h: "(fp_f x * fp_f y + 2 ^ 63) div 2 ^ 64 = h" .
  have "fp_f x * fp_f y \<le> (2 ^ 64 - 1) * (2 ^ 64 - 1)" using assms by (intro mult_mono) auto
  then have "fp_f x * fp_f y + 2 ^ 63 < 2 ^ 64 * 2 ^ 64" by simp
  then have "h < 2 ^ 64" unfolding h [symmetric] by (simp only: less_mult_imp_div_less)
  then show ?thesis
    unfolding h fp_mul_def Let_def B_def [symmetric] ul_def [symmetric] uh_def [symmetric] vl_def [symmetric] vh_def [symmetric]
    using p q by (simp add: p0_def p1_def p2_def p3_def h_def Q_def B_def)
qed

section \<open>Normalizing\<close>

lemma normalize_loop_ok:
  "fp_f x \<noteq> 0 \<Longrightarrow> fp_f x < 2 ^ 64 \<Longrightarrow>
     \<exists>j. normalize_loop x = \<lparr>fp_f = fp_f x * 2 ^ j, fp_e = fp_e x - int j\<rparr> \<and> 2 ^ 63 \<le> fp_f x * 2 ^ j \<and> fp_f x * 2 ^ j < 2 ^ 64"
proof (induction x rule: normalize_loop.induct)
  case (1 x)
  show ?case
  proof (cases "fp_f x < 2 ^ 63")
    case False
    then have "fp_f x div 2 ^ 63 \<noteq> 0" by (simp add: div_eq_0_iff)
    then have "normalize_loop x = x" by (subst normalize_loop.simps) simp
    with False 1(3) show ?thesis by (intro exI [of _ 0]) (simp add: diyfp.equality)
  next
    case True
    then have c: "fp_f x div 2 ^ 63 = 0 \<and> fp_f x \<noteq> 0" using 1(2) by simp
    have m: "fp_f x * 2 mod 2 ^ 64 = fp_f x * 2" using True by simp
    have "normalize_loop x = normalize_loop (x\<lparr>fp_f := fp_f x * 2, fp_e := fp_e x - 1\<rparr>)"
      by (subst normalize_loop.simps) (simp only: c m simp_thms if_True)
    moreover obtain j where "normalize_loop (x\<lparr>fp_f := fp_f x * 2, fp_e := fp_e x - 1\<rparr>) =
        \<lparr>fp_f = fp_f x * 2 * 2 ^ j, fp_e = fp_e x - 1 - int j\<rparr>"
        "2 ^ 63 \<le> fp_f x * 2 * 2 ^ j" "fp_f x * 2 * 2 ^ j < 2 ^ 64"
      using 1(1) [OF c] 1(2) True unfolding m by auto
    ultimately show ?thesis by (intro exI [of _ "Suc j"]) (simp add: mult.assoc)
  qed
qed

section \<open>Boundaries\<close>

lemma fp_of_bits_bounds:
  assumes "0 < bits" and "bits div 2 ^ 52 < 2047"
  shows "0 < fp_f (fp_of_bits bits)" "fp_f (fp_of_bits bits) < 2 ^ 53"
    "- 1074 \<le> fp_e (fp_of_bits bits)" "fp_e (fp_of_bits bits) \<le> 971"
    "fp_f (fp_of_bits bits) < 2 ^ 52 \<Longrightarrow> fp_e (fp_of_bits bits) = - 1074"
proof -
  have m: "bits mod 2 ^ 52 < 2 ^ 52" by simp
  have "bits div 2 ^ 52 = 0 \<Longrightarrow> bits mod 2 ^ 52 \<noteq> 0" using assms(1) by (metis div_mult_mod_eq mult_0 add_0 less_numeral_extra(3))
  then show "0 < fp_f (fp_of_bits bits)" by (auto simp: fp_of_bits_def Let_def)
  have "fp_f (fp_of_bits bits) \<le> bits mod 2 ^ 52 + 2 ^ 52" by (simp add: fp_of_bits_def Let_def)
  moreover have "(2 :: nat) ^ 53 = 2 ^ 52 + 2 ^ 52" by simp
  ultimately show "fp_f (fp_of_bits bits) < 2 ^ 53" using m by linarith
  show "- 1074 \<le> fp_e (fp_of_bits bits)" "fp_e (fp_of_bits bits) \<le> 971"
    using assms(2) by (auto simp: fp_of_bits_def Let_def)
  show "fp_f (fp_of_bits bits) < 2 ^ 52 \<Longrightarrow> fp_e (fp_of_bits bits) = - 1074"
    by (auto simp: fp_of_bits_def Let_def split: if_splits)
qed

text \<open>
  The three numbers with a common exponent: \<open>g\<close> is the distance to the lower boundary, half of the
  distance to the upper one when the number is a power of two.
\<close>

definition scaled_bounds :: "nat \<Rightarrow> nat \<Rightarrow> nat \<Rightarrow> boundaries \<Rightarrow> bool" where
  "scaled_bounds bits s g b \<longleftrightarrow>
     (let v = fp_of_bits bits; e = fp_e v - 1 - int s in
      b = \<lparr>b_w = \<lparr>fp_f = 2 * fp_f v * 2 ^ s, fp_e = e\<rparr>, b_minus = \<lparr>fp_f = 2 * fp_f v * 2 ^ s - g, fp_e = e\<rparr>,
           b_plus = \<lparr>fp_f = (2 * fp_f v + 1) * 2 ^ s, fp_e = e\<rparr>\<rparr>)"

lemma odd_above_power:
  assumes "2 ^ 63 \<le> (2 * f + 1) * (2 :: nat) ^ s" and "s < 63"
  shows "2 ^ 63 \<le> f * 2 ^ Suc s"
proof -
  obtain k where k: "63 = s + Suc k" using assms(2) by (metis less_imp_Suc_add add_Suc_right)
  then have "(2 :: nat) ^ 63 = 2 ^ s * (2 * 2 ^ k)" by (metis power_add power_Suc)
  with assms(1) have "2 ^ s * (2 * 2 ^ k) \<le> 2 ^ s * (2 * f + (1 :: nat))" by (simp only: mult.commute)
  then have "2 * 2 ^ k \<le> 2 * f + (1 :: nat)" by (simp only: mult_le_cancel1) simp
  then have "2 ^ k \<le> f" by presburger
  then have "2 ^ s * (2 * 2 ^ k) \<le> f * 2 ^ Suc s" by simp
  with \<open>(2 :: nat) ^ 63 = 2 ^ s * (2 * 2 ^ k)\<close> show ?thesis by (simp only:)
qed

lemma normalize_unique:
  assumes "fp_f x \<noteq> 0" and "2 ^ 63 \<le> fp_f x * 2 ^ j" and "fp_f x * 2 ^ j < 2 ^ 64"
  shows "fp_normalize x = Inr \<lparr>fp_f = fp_f x * 2 ^ j, fp_e = fp_e x - int j\<rparr>"
proof -
  have "fp_f x \<le> fp_f x * 2 ^ j" by simp
  then have "fp_f x < 2 ^ 64" using assms(3) by (rule order_le_less_trans)
  then obtain i where i: "normalize_loop x = \<lparr>fp_f = fp_f x * 2 ^ i, fp_e = fp_e x - int i\<rparr>"
      "2 ^ 63 \<le> fp_f x * 2 ^ i" "fp_f x * 2 ^ i < 2 ^ 64"
    using normalize_loop_ok [OF assms(1)] by blast
  have le: "a \<le> b" if "2 ^ 63 \<le> fp_f x * 2 ^ b" "fp_f x * 2 ^ a < 2 ^ 64" for a b
  proof (rule ccontr)
    assume "\<not> a \<le> b"
    then have "Suc b \<le> a" by simp
    then have "fp_f x * 2 ^ Suc b \<le> fp_f x * 2 ^ a" by (intro mult_left_mono power_increasing) auto
    then have "2 * (fp_f x * 2 ^ b) \<le> fp_f x * 2 ^ a" by (simp only: power_Suc mult.left_commute)
    moreover have "(2 :: nat) ^ 64 = 2 * 2 ^ 63" by simp
    ultimately show False using that by linarith
  qed
  have "i = j" using le assms i by (intro antisym) blast+
  with i(1) assms(1) show ?thesis by (simp add: fp_normalize_def)
qed

lemma compute_boundaries_ok:
  assumes "0 < bits" and "bits div 2 ^ 52 < 2047"
  shows "\<exists>s g b. compute_boundaries bits = Inr b \<and> scaled_bounds bits s g b \<and> 10 \<le> s \<and> s \<le> 62 \<and>
    2 ^ 63 \<le> (2 * fp_f (fp_of_bits bits) + 1) * 2 ^ s \<and> (2 * fp_f (fp_of_bits bits) + 1) * 2 ^ s < 2 ^ 64 \<and>
    - 1137 \<le> fp_e (b_plus b) \<and> fp_e (b_plus b) \<le> 960 \<and>
    (g = 2 ^ s \<and> m_minus bits = \<lparr>fp_f = 2 * fp_f (fp_of_bits bits) - 1, fp_e = fp_e (fp_of_bits bits) - 1\<rparr> \<or>
     2 * g = 2 ^ s \<and> m_minus bits = \<lparr>fp_f = 4 * fp_f (fp_of_bits bits) - 1, fp_e = fp_e (fp_of_bits bits) - 2\<rparr>)"
proof -
  define v where "v = fp_of_bits bits"
  define f where "f = fp_f v"
  have b: "0 < f" "f < 2 ^ 53" "- 1074 \<le> fp_e v" "fp_e v \<le> 971" "f < 2 ^ 52 \<Longrightarrow> fp_e v = - 1074"
    using fp_of_bits_bounds [OF assms] by (simp_all add: f_def v_def)
  obtain s where s: "2 ^ 63 \<le> (2 * f + 1) * 2 ^ s" "(2 * f + 1) * 2 ^ s < 2 ^ 64"
    using normalize_loop_ok [of "m_plus bits"] b(2) by (auto simp: m_plus_def v_def [symmetric] f_def [symmetric] Let_def)
  have s10: "10 \<le> s"
  proof (rule ccontr)
    assume "\<not> 10 \<le> s"
    then have "(2 * f + 1) * 2 ^ s \<le> (2 * f + 1) * 2 ^ 9" by (intro mult_left_mono power_increasing) auto
    also have "\<dots> < 2 ^ 63" using b(2) by simp
    finally show False using s(1) by simp
  qed
  have s62: "s \<le> 62"
  proof (rule ccontr)
    assume "\<not> s \<le> 62"
    then have "3 * 2 ^ 63 \<le> (2 * f + 1) * 2 ^ s" using b(1) by (intro mult_mono power_increasing) auto
    with s(2) show False by simp
  qed
  have e: "- 1137 \<le> fp_e v - 1 - int s" "fp_e v - 1 - int s \<le> 960"
    using b(3,4) s10 s62 by simp_all
  have plus: "fp_normalize (m_plus bits) = Inr \<lparr>fp_f = (2 * f + 1) * 2 ^ s, fp_e = fp_e v - 1 - int s\<rparr>"
    using normalize_unique [of "m_plus bits" s] s by (simp add: m_plus_def v_def [symmetric] f_def [symmetric] Let_def)
  have w: "fp_normalize v = Inr \<lparr>fp_f = 2 * f * 2 ^ s, fp_e = fp_e v - 1 - int s\<rparr>"
    using normalize_unique [of v "Suc s"] odd_above_power [OF s(1)] s62 s(2) b(1)
    by (simp add: f_def [symmetric] algebra_simps)
  show ?thesis
  proof (cases "bits mod 2 ^ 52 = 0 \<and> 1 < bits div 2 ^ 52")
    case False
    then have mm: "m_minus bits = \<lparr>fp_f = 2 * f - 1, fp_e = fp_e v - 1\<rparr>"
      by (auto simp: m_minus_def v_def [symmetric] f_def [symmetric] Let_def)
    have lt: "(2 * f - 1) * 2 ^ s < 2 ^ 64"
      using s(2) by (rule order_le_less_trans [rotated]) (intro mult_right_mono, auto)
    have "2 * f * 2 ^ s - 2 ^ s = (2 * f - 1) * 2 ^ s" by (simp add: diff_mult_distrib)
    then have "normalize_to (m_minus bits) (fp_e v - 1 - int s) = Inr \<lparr>fp_f = 2 * f * 2 ^ s - 2 ^ s, fp_e = fp_e v - 1 - int s\<rparr>"
      using mod_less [OF lt] by (simp add: normalize_to_def mm Let_def)
    with plus w show ?thesis
      using assms s s10 s62 e mm
      by (intro exI [of _ s] exI [of _ "2 ^ s"])
         (simp add: compute_boundaries_def scaled_bounds_def v_def [symmetric] f_def [symmetric])
  next
    case True
    then have mm: "m_minus bits = \<lparr>fp_f = 4 * f - 1, fp_e = fp_e v - 2\<rparr>"
      by (auto simp: m_minus_def v_def [symmetric] f_def [symmetric] Let_def)
    obtain t where t: "s = Suc t" using s10 by (cases s) auto
    have "(4 * f - 1) * 2 ^ t \<le> (2 * f + 1) * 2 ^ s" by (simp add: t algebra_simps diff_mult_distrib)
    then have lt: "(4 * f - 1) * 2 ^ t < 2 ^ 64" using s(2) by (rule order_le_less_trans)
    have "nat (fp_e v - 2 - (fp_e v - 1 - int s)) = t" by (simp add: t)
    moreover have "2 * f * 2 ^ s - 2 ^ t = (4 * f - 1) * 2 ^ t" by (simp add: t diff_mult_distrib)
    ultimately have "normalize_to (m_minus bits) (fp_e v - 1 - int s) = Inr \<lparr>fp_f = 2 * f * 2 ^ s - 2 ^ t, fp_e = fp_e v - 1 - int s\<rparr>"
      using mod_less [OF lt] s10 by (simp add: normalize_to_def mm Let_def)
    with plus w show ?thesis
      using assms s s10 s62 e mm t
      by (intro exI [of _ s] exI [of _ "2 ^ t"])
         (simp add: compute_boundaries_def scaled_bounds_def v_def [symmetric] f_def [symmetric])
  qed
qed

section \<open>Cached powers\<close>

text \<open>
  The table is checked along its entries: \<open>p\<close> is the power of five of the entry, which grows by
  \<open>5 ^ 8\<close> from one entry to the next. The index selects the entry whose exponent fits.
\<close>

fun chain_neg :: "nat \<Rightarrow> int \<Rightarrow> (nat \<times> int \<times> int) list \<Rightarrow> bool" where
  "chain_neg K p [] \<longleftrightarrow> True"
| "chain_neg K p ((cf, ce, ck) # cs) \<longleftrightarrow>
     ck = - int K \<and> ce + int K \<le> 0 \<and> \<bar>int cf * p - 2 ^ nat (- ce - int K)\<bar> * 2 \<le> p \<and> chain_neg (K + 8) (p * 390625) cs"

fun chain_pos :: "nat \<Rightarrow> int \<Rightarrow> (nat \<times> int \<times> int) list \<Rightarrow> bool" where
  "chain_pos K p [] \<longleftrightarrow> True"
| "chain_pos K p ((cf, ce, ck) # cs) \<longleftrightarrow>
     ck = int K \<and> \<bar>int cf * 2 ^ nat (ce - ck) - p * 2 ^ nat (ck - ce)\<bar> * 2 \<le> 2 ^ nat (ce - ck) \<and>
     chain_pos (K + 8) (p * 390625) cs"

fun chain_index :: "int \<Rightarrow> (nat \<times> int \<times> int) list \<Rightarrow> bool" where
  "chain_index i [] \<longleftrightarrow> True"
| "chain_index i ((cf, ce, ck) # cs) \<longleftrightarrow>
     2 ^ 63 \<le> cf \<and> cf < 2 ^ 64 \<and>
     78913 * (ce + 34) < (8 * i - 308) * 2 ^ 18 \<and> (8 * i - 300) * 2 ^ 18 < 78913 * (ce + 64) \<and> chain_index (i + 1) cs"

lemma table_neg:
  shows "chain_neg 4 (5 ^ 4) (rev (drop 20 (take 38 kCachedPowers)))"
    and "chain_neg 148 (5 ^ 148) (rev (drop 9 (take 20 kCachedPowers)))"
    and "chain_neg 236 (5 ^ 236) (rev (take 9 kCachedPowers))"
  subgoal by (simp add: kCachedPowers_def)
  subgoal by (simp add: kCachedPowers_def)
  subgoal by (simp add: kCachedPowers_def)
  done

lemma table_pos:
  shows "chain_pos 4 (5 ^ 4) (take 24 (drop 38 kCachedPowers))" and "chain_pos 196 (5 ^ 196) (drop 62 kCachedPowers)"
  subgoal by (simp add: kCachedPowers_def)
  subgoal by (simp add: kCachedPowers_def)
  done

lemma table_index: "chain_index 0 kCachedPowers" "length kCachedPowers = 79"
  by (simp_all add: kCachedPowers_def)

lemma powi_minus_nat: "(x :: real) powi (- int K) = 1 / x ^ K"
  by (simp add: power_int_minus divide_inverse)

definition power_close :: "nat \<times> int \<times> int \<Rightarrow> bool" where
  "power_close c = (case c of (cf, ce, ck) \<Rightarrow> \<bar>real cf * 2 powi ce - 10 powi ck\<bar> \<le> 2 powi ce / 2)"

lemma ten_powi: "(10 :: real) powi k = 2 powi k * 5 powi k"
  by (simp flip: power_int_mult_distrib)

lemma ten_power: "(10 :: real) ^ k = 2 ^ k * 5 ^ k"
  by (simp flip: power_mult_distrib)

lemma power_close_neg:
  assumes "ce + int K \<le> 0" and "\<bar>int cf * 5 ^ K - 2 ^ nat (- ce - int K)\<bar> * 2 \<le> 5 ^ K"
  shows "power_close (cf, ce, - int K)"
proof -
  have "real_of_int (\<bar>int cf * 5 ^ K - 2 ^ nat (- ce - int K)\<bar> * 2) \<le> real_of_int (5 ^ K)"
    using assms(2) by (simp only: of_int_le_iff)
  then have r: "\<bar>real cf * 5 ^ K - 2 powi (- ce - int K)\<bar> * 2 \<le> 5 ^ K"
    using assms(1) by (simp add: power_int_def)
  have "(real cf * 2 powi ce - 10 powi (- int K)) * 5 ^ K = (real cf * 5 ^ K - 2 powi (- ce - int K)) * 2 powi ce"
  proof -
    have "2 powi (- ce - int K) * 2 powi ce = (2 :: real) powi (- int K)" by (simp flip: power_int_add)
    then show ?thesis by (simp add: ten_powi left_diff_distrib powi_minus_nat) (simp add: field_simps ten_power)
  qed
  note eq = this
  have "\<bar>real cf * 2 powi ce - 10 powi (- int K)\<bar> * 5 ^ K = \<bar>real cf * 5 ^ K - 2 powi (- ce - int K)\<bar> * 2 powi ce"
    using arg_cong [OF eq, of abs] by (simp add: abs_mult)
  also have "\<dots> \<le> (5 ^ K / 2) * 2 powi ce" using r by (intro mult_right_mono) auto
  finally show ?thesis by (simp add: power_close_def)
qed

lemma power_close_pos:
  assumes "\<bar>int cf * 2 ^ nat (ce - int K) - 5 ^ K * 2 ^ nat (int K - ce)\<bar> * 2 \<le> 2 ^ nat (ce - int K)"
  shows "power_close (cf, ce, int K)"
proof -
  let ?a = "nat (ce - int K)" and ?b = "nat (int K - ce)"
  have "real_of_int (\<bar>int cf * 2 ^ ?a - 5 ^ K * 2 ^ ?b\<bar> * 2) \<le> real_of_int (2 ^ ?a)"
    using assms by (simp only: of_int_le_iff)
  then have r: "\<bar>real cf * 2 ^ ?a - 5 ^ K * 2 ^ ?b\<bar> * 2 \<le> 2 ^ ?a" by simp
  define c where "c = (2 :: real) powi (ce - int ?a)"
  have c: "0 < c" "2 ^ ?a * c = 2 powi ce" by (simp_all add: c_def power_int_of_nat [symmetric] flip: power_int_add del: power_int_of_nat)
  have "2 ^ ?b * c = (2 :: real) powi int K"
    by (simp add: c_def power_int_of_nat [symmetric] flip: power_int_add del: power_int_of_nat)
  then have "real cf * 2 powi ce - 10 powi int K = (real cf * 2 ^ ?a - 5 ^ K * 2 ^ ?b) * c"
    by (simp add: c(2) [symmetric] ten_power algebra_simps)
  then have "\<bar>real cf * 2 powi ce - 10 powi int K\<bar> = \<bar>real cf * 2 ^ ?a - 5 ^ K * 2 ^ ?b\<bar> * c"
    using c(1) by (simp add: abs_mult)
  also have "\<dots> \<le> (2 ^ ?a / 2) * c" using r c(1) by (intro mult_right_mono) auto
  finally show ?thesis using c(2) by (simp add: power_close_def)
qed

lemma chain_neg_close: "chain_neg K p cs \<Longrightarrow> p = 5 ^ K \<Longrightarrow> c \<in> set cs \<Longrightarrow> power_close c"
proof (induction K p cs rule: chain_neg.induct)
  case (2 K p cf ce ck cs)
  then show ?case using power_close_neg [of ce K cf] by (auto simp: power_add)
qed simp

lemma chain_pos_close: "chain_pos K p cs \<Longrightarrow> p = 5 ^ K \<Longrightarrow> c \<in> set cs \<Longrightarrow> power_close c"
proof (induction K p cs rule: chain_pos.induct)
  case (2 K p cf ce ck cs)
  then show ?case using power_close_pos [of cf ce K] by (auto simp: power_add)
qed simp

lemma table_close: "c \<in> set kCachedPowers \<Longrightarrow> power_close c"
proof -
  assume "c \<in> set kCachedPowers"
  moreover have "kCachedPowers = take 9 kCachedPowers @ drop 9 (take 20 kCachedPowers) @ drop 20 (take 38 kCachedPowers) @
      take 24 (drop 38 kCachedPowers) @ drop 62 kCachedPowers" by (simp add: kCachedPowers_def)
  ultimately have "c \<in> set (take 9 kCachedPowers) \<union> set (drop 9 (take 20 kCachedPowers)) \<union> set (drop 20 (take 38 kCachedPowers)) \<union>
      set (take 24 (drop 38 kCachedPowers)) \<union> set (drop 62 kCachedPowers)" by (metis Un_assoc set_append)
  then show ?thesis
    using chain_neg_close [OF table_neg(1) refl, of c] chain_neg_close [OF table_neg(2) refl, of c]
      chain_neg_close [OF table_neg(3) refl, of c] chain_pos_close [OF table_pos(1) refl, of c]
      chain_pos_close [OF table_pos(2) refl, of c] by auto
qed

lemma chain_index_nth:
  "chain_index i cs \<Longrightarrow> n < length cs \<Longrightarrow> cs ! n = (cf, ce, ck) \<Longrightarrow>
     2 ^ 63 \<le> cf \<and> cf < 2 ^ 64 \<and> 78913 * (ce + 34) < (8 * (i + int n) - 308) * 2 ^ 18 \<and>
     (8 * (i + int n) - 300) * 2 ^ 18 < 78913 * (ce + 64)"
proof (induction i cs arbitrary: n rule: chain_index.induct)
  case (2 i cf' ce' ck' cs)
  show ?case
  proof (cases n)
    case 0
    then show ?thesis using 2(2,4) by simp
  next
    case (Suc n')
    have "i + 1 + int n' = i + int n" by (simp add: Suc)
    then show ?thesis using 2(1) [of n'] 2(2-4) Suc by simp
  qed
qed simp

lemma cached_power_ok:
  assumes "- 1137 \<le> e" and "e \<le> 960"
  shows "\<exists>cf ce ck. get_cached_power_for_binary_exponent e = Inr (cf, ce, ck) \<and> power_close (cf, ce, ck) \<and>
    2 ^ 63 \<le> cf \<and> cf < 2 ^ 64 \<and> - 60 \<le> ce + e + 64 \<and> ce + e + 64 \<le> - 32"
proof -
  define f where "f = - 61 - e"
  define k where "k = f * 78913 sdiv 2 ^ 18 + (if 0 < f then 1 else 0)"
  have f: "- 1021 \<le> f" "f \<le> 1076" using assms by (simp_all add: f_def)
  have k: "(k - 1) * 262144 \<le> f * 78913 \<and> f * 78913 \<le> k * 262144"
  proof (cases "0 < f")
    case True
    then show ?thesis by (simp add: k_def signed_divide_int_def) linarith
  next
    case False
    then have "k = - ((- f * 78913) div 262144)" by (cases "f = 0") (simp_all add: k_def signed_divide_int_def sgn_if abs_if)
    moreover define q r where "q = (- f * 78913) div 262144" and "r = (- f * 78913) mod 262144"
    moreover have "- f * 78913 = q * 262144 + r" "0 \<le> r" "r < 262144" by (simp_all add: q_def r_def)
    ultimately show ?thesis by auto
  qed
  then have "(k - 1) * 262144 < 324 * 262144" "- 308 * 262144 < k * 262144" using f by linarith+
  then have kb: "- 307 \<le> k" "k \<le> 324" by simp_all
  define i where "i = (307 + k) div 8"
  have "kAlpha - e - 1 = f" by (simp add: kAlpha_def f_def)
  then have "cached_index e = (300 + k + 7) sdiv 8" unfolding cached_index_def Let_def k_def by simp
  also have "\<dots> = i" using kb by (simp add: i_def signed_divide_int_def sgn_if add.commute)
  finally have i: "cached_index e = i" .
  have ib: "0 \<le> i" "i \<le> 78" "8 * i \<le> 307 + k" "307 + k \<le> 8 * i + 7" using kb by (auto simp: i_def)
  obtain cf ce ck where c: "kCachedPowers ! nat i = (cf, ce, ck)" by (cases "kCachedPowers ! nat i")
  have len: "nat i < length kCachedPowers" using ib by (simp add: table_index)
  have t: "2 ^ 63 \<le> cf" "cf < 2 ^ 64" "78913 * (ce + 34) < (8 * i - 308) * 262144" "(8 * i - 300) * 262144 < 78913 * (ce + 64)"
    using chain_index_nth [OF table_index(1) len c] ib(1) by simp_all
  have "(8 * i - 308) * 262144 \<le> (k - 1) * 262144" "k * 262144 \<le> (8 * i - 300) * 262144"
    using ib(3,4) by simp_all
  with t(3,4) k have "78913 * (ce + 34) < f * 78913" "f * 78913 < 78913 * (ce + 64)" by auto
  then have r: "- 60 \<le> ce + e + 64" "ce + e + 64 \<le> - 32" by (simp_all add: f_def)
  have "power_close (cf, ce, ck)" using table_close nth_mem [OF len] c by simp
  moreover have "get_cached_power_for_binary_exponent e = Inr (cf, ce, ck)"
    using assms ib len r by (simp add: get_cached_power_for_binary_exponent_def i c kAlpha_def kGamma_def Let_def)
  ultimately show ?thesis using t(1,2) r by blast
qed

end
