(* ===== verification/Json_Lexer.thy ===== *)
theory Json_Lexer
  imports Json_Value
begin

text \<open>
  The lexer of the JSON text format in \<^verbatim>\<open>include/hv/json.hpp\<close>: the class \<^verbatim>\<open>lexer\<close> with its scan
  functions, byte by byte. Every loop is a recursion that consumes input, so that scanning always
  ends. A token carries the value that the getters of the class return. Line and column numbers,
  the raw text of a token and the wording of errors only serve messages and are left out.
\<close>

unbundle bit_operations_syntax

section \<open>Input\<close>

text \<open>
  \<open>None\<close> is the end of the input. \<^verbatim>\<open>unget\<close> makes the next \<^verbatim>\<open>get\<close> deliver the current byte again.
  The decimal point is the one of the locale.
\<close>

record lexer =
  lx_input :: octets
  lx_current :: "u8 option"
  next_unget :: bool
  chars_read_total :: nat
  decimal_point_char :: u8

definition lexer_new :: "u8 \<Rightarrow> octets \<Rightarrow> lexer" where
  "lexer_new dp bs =
     \<lparr>lx_input = bs, lx_current = None, next_unget = False, chars_read_total = 0, decimal_point_char = dp\<rparr>"

definition lget :: "lexer \<Rightarrow> lexer" where
  "lget lx0 =
     (let lx = lx0\<lparr>chars_read_total := Suc (chars_read_total lx0)\<rparr> in
      if next_unget lx then lx\<lparr>next_unget := False\<rparr>
      else
        case lx_input lx of
          [] \<Rightarrow> lx\<lparr>lx_current := None\<rparr>
        | b # bs \<Rightarrow> lx\<lparr>lx_current := Some b, lx_input := bs\<rparr>)"

definition unget :: "lexer \<Rightarrow> lexer" where
  "unget lx = lx\<lparr>next_unget := True, chars_read_total := chars_read_total lx - 1\<rparr>"

text \<open>What the coming calls of \<^verbatim>\<open>get\<close> deliver.\<close>

definition pending :: "lexer \<Rightarrow> octets" where
  "pending lx =
     (if next_unget lx then (case lx_current lx of None \<Rightarrow> [] | Some b \<Rightarrow> [b]) else []) @ lx_input lx"

lemma pending_get_le: "length (pending (lget lx)) \<le> length (pending lx)"
  by (simp add: lget_def pending_def Let_def split: list.split)

lemma pending_get_less: "lx_current (lget lx) = Some b \<Longrightarrow> length (pending (lget lx)) < length (pending lx)"
  by (auto simp: lget_def pending_def Let_def split: list.splits if_splits)

section \<open>Strings\<close>

definition hex_value :: "u8 \<Rightarrow> nat option" where
  "hex_value b =
     (if 0x30 \<le> b \<and> b \<le> 0x39 then Some (unat b - 0x30)
      else if 0x41 \<le> b \<and> b \<le> 0x46 then Some (unat b - 0x37)
      else if 0x61 \<le> b \<and> b \<le> 0x66 then Some (unat b - 0x57)
      else None)"

text \<open>\<^verbatim>\<open>get_codepoint\<close>: four hexadecimal digits, the first shifted by 12 bits.\<close>

fun codepoint_loop :: "nat list \<Rightarrow> nat \<Rightarrow> lexer \<Rightarrow> nat option \<times> lexer" where
  "codepoint_loop [] codepoint lx = (Some codepoint, lx)"
| "codepoint_loop (factor # factors) codepoint lx =
     (let lx1 = lget lx in
      case Option.bind (lx_current lx1) hex_value of
        None \<Rightarrow> (None, lx1)
      | Some d \<Rightarrow> codepoint_loop factors (codepoint + push_bit factor d) lx1)"

definition get_codepoint :: "lexer \<Rightarrow> nat option \<times> lexer" where
  "get_codepoint lx = codepoint_loop [12, 8, 4, 0] 0 lx"

text \<open>\<^verbatim>\<open>next_byte_in_range\<close> after the current byte was added; the ranges are pairs.\<close>

fun next_byte_in_range :: "(u8 \<times> u8) list \<Rightarrow> octets \<Rightarrow> lexer \<Rightarrow> octets option \<times> lexer" where
  "next_byte_in_range [] buf lx = (Some buf, lx)"
| "next_byte_in_range ((lo, hi) # ranges) buf lx =
     (let lx1 = lget lx in
      case lx_current lx1 of
        None \<Rightarrow> (None, lx1)
      | Some b \<Rightarrow>
          if lo \<le> b \<and> b \<le> hi then next_byte_in_range ranges (buf @ [b]) lx1 else (None, lx1))"

text \<open>The bytes of a code point, lines 6254 to 6277.\<close>

definition utf8_bytes :: "nat \<Rightarrow> octets" where
  "utf8_bytes cp =
     (if cp < 0x80 then [of_nat cp]
      else if cp \<le> 0x7FF then [of_nat (0xC0 OR drop_bit 6 cp), of_nat (0x80 OR (cp AND 0x3F))]
      else if cp \<le> 0xFFFF
      then [of_nat (0xE0 OR drop_bit 12 cp), of_nat (0x80 OR (drop_bit 6 cp AND 0x3F)), of_nat (0x80 OR (cp AND 0x3F))]
      else [of_nat (0xF0 OR drop_bit 18 cp), of_nat (0x80 OR (drop_bit 12 cp AND 0x3F)),
            of_nat (0x80 OR (drop_bit 6 cp AND 0x3F)), of_nat (0x80 OR (cp AND 0x3F))])"

text \<open>The escape \<^verbatim>\<open>\u\<close>, with a second one after a high surrogate.\<close>

definition scan_unicode :: "octets \<Rightarrow> lexer \<Rightarrow> octets option \<times> lexer" where
  "scan_unicode buf lx0 =
     (case get_codepoint lx0 of
        (None, lx) \<Rightarrow> (None, lx)
      | (Some cp1, lx) \<Rightarrow>
          if 0xD800 \<le> cp1 \<and> cp1 \<le> 0xDBFF then
            let lx1 = lget lx in
            if lx_current lx1 \<noteq> Some 0x5C then (None, lx1)
            else
              let lx2 = lget lx1 in
              if lx_current lx2 \<noteq> Some 0x75 then (None, lx2)
              else
                case get_codepoint lx2 of
                  (None, lx3) \<Rightarrow> (None, lx3)
                | (Some cp2, lx3) \<Rightarrow>
                    if 0xDC00 \<le> cp2 \<and> cp2 \<le> 0xDFFF
                    then (Some (buf @ utf8_bytes (push_bit 10 cp1 + cp2 - 0x35FDC00)), lx3)
                    else (None, lx3)
          else if 0xDC00 \<le> cp1 \<and> cp1 \<le> 0xDFFF then (None, lx)
          else (Some (buf @ utf8_bytes cp1), lx))"

definition simple_escape :: "u8 \<Rightarrow> u8 option" where
  "simple_escape b =
     (if b = 0x22 then Some 0x22 else if b = 0x5C then Some 0x5C else if b = 0x2F then Some 0x2F
      else if b = 0x62 then Some 0x08 else if b = 0x66 then Some 0x0C else if b = 0x6E then Some 0x0A
      else if b = 0x72 then Some 0x0D else if b = 0x74 then Some 0x09 else None)"

definition scan_escape :: "octets \<Rightarrow> lexer \<Rightarrow> octets option \<times> lexer" where
  "scan_escape buf lx0 =
     (let lx = lget lx0 in
      case lx_current lx of
        None \<Rightarrow> (None, lx)
      | Some b \<Rightarrow>
          if b = 0x75 then scan_unicode buf lx
          else
            case simple_escape b of
              None \<Rightarrow> (None, lx)
            | Some c \<Rightarrow> (Some (buf @ [c]), lx))"

text \<open>What a byte that is neither a quote nor a backslash has to be followed by.\<close>

definition utf8_ranges :: "u8 \<Rightarrow> (u8 \<times> u8) list option" where
  "utf8_ranges b =
     (if b < 0x20 then None
      else if b \<le> 0x7F then Some []
      else if 0xC2 \<le> b \<and> b \<le> 0xDF then Some [(0x80, 0xBF)]
      else if b = 0xE0 then Some [(0xA0, 0xBF), (0x80, 0xBF)]
      else if b = 0xED then Some [(0x80, 0x9F), (0x80, 0xBF)]
      else if 0xE1 \<le> b \<and> b \<le> 0xEF then Some [(0x80, 0xBF), (0x80, 0xBF)]
      else if b = 0xF0 then Some [(0x90, 0xBF), (0x80, 0xBF), (0x80, 0xBF)]
      else if 0xF1 \<le> b \<and> b \<le> 0xF3 then Some [(0x80, 0xBF), (0x80, 0xBF), (0x80, 0xBF)]
      else if b = 0xF4 then Some [(0x80, 0x8F), (0x80, 0xBF), (0x80, 0xBF)]
      else None)"

text \<open>One turn of the loop for the byte \<open>b\<close>: the longer buffer, or an error.\<close>

definition scan_char :: "u8 \<Rightarrow> octets \<Rightarrow> lexer \<Rightarrow> octets option \<times> lexer" where
  "scan_char b buf lx =
     (if b = 0x5C then scan_escape buf lx
      else
        case utf8_ranges b of
          None \<Rightarrow> (None, lx)
        | Some ranges \<Rightarrow> next_byte_in_range ranges (buf @ [b]) lx)"

lemma pending_codepoint_loop: "length (pending (snd (codepoint_loop fs cp lx))) \<le> length (pending lx)"
proof (induction fs cp lx rule: codepoint_loop.induct)
  case (2 f fs cp lx)
  then show ?case
    using pending_get_le [of lx] by (fastforce simp: Let_def split: option.split intro: order_trans)
qed simp

lemma pending_range: "length (pending (snd (next_byte_in_range rs buf lx))) \<le> length (pending lx)"
proof (induction rs buf lx rule: next_byte_in_range.induct)
  case (2 lo hi rs buf lx)
  then show ?case
    using pending_get_le [of lx] by (fastforce simp: Let_def split: option.split intro: order_trans)
qed simp

lemma pending_get_codepoint: "get_codepoint lx = (r, lx') \<Longrightarrow> length (pending lx') \<le> length (pending lx)"
  using pending_codepoint_loop [of "[12, 8, 4, 0]" 0 lx] by (simp add: get_codepoint_def)

lemma pending_scan_unicode: "length (pending (snd (scan_unicode buf lx))) \<le> length (pending lx)"
proof -
  obtain r lx1 where 1: "get_codepoint lx = (r, lx1)" by fastforce
  obtain r2 lx2 where 2: "get_codepoint (lget (lget lx1)) = (r2, lx2)" by fastforce
  show ?thesis
    using pending_get_codepoint [OF 1] pending_get_codepoint [OF 2] pending_get_le [of lx1] pending_get_le [of "lget lx1"] 1 2
    by (auto simp: scan_unicode_def Let_def split: option.split)
qed

lemma pending_scan_char: "length (pending (snd (scan_char b buf lx))) \<le> length (pending lx)"
proof -
  have "length (pending (snd (scan_escape buf lx))) \<le> length (pending lx)"
    using pending_get_le [of lx] pending_scan_unicode [of buf "lget lx"]
    by (auto simp: scan_escape_def Let_def split: option.split)
  then show ?thesis using pending_range by (auto simp: scan_char_def split: option.split)
qed

text \<open>The loop of \<^verbatim>\<open>scan_string\<close>, after the opening quote.\<close>

function scan_string_loop :: "octets \<Rightarrow> lexer \<Rightarrow> octets option \<times> lexer" where
  "scan_string_loop buf lx0 =
     (let lx = lget lx0 in
      case lx_current lx of
        None \<Rightarrow> (None, lx)
      | Some b \<Rightarrow>
          if b = 0x22 then (Some buf, lx)
          else
            case scan_char b buf lx of
              (None, lx1) \<Rightarrow> (None, lx1)
            | (Some buf', lx1) \<Rightarrow> scan_string_loop buf' lx1)"
  by auto
termination
proof (relation "measure (\<lambda>(buf, lx). length (pending lx))")
  fix buf lx0 lx b x1 x2 buf'
  assume "lx = lget lx0" and "lx_current lx = Some b" and "(x1, x2) = scan_char b buf lx" and "x1 = Some buf'"
  then show "((buf', x2), buf, lx0) \<in> measure (\<lambda>(buf, lx). length (pending lx))"
    using pending_get_less [of lx0 b] pending_scan_char [of b buf lx]
    by (metis (no_types, lifting) case_prod_conv in_measure leD le_less_trans not_le_imp_less snd_conv)
qed simp

declare scan_string_loop.simps [simp del]

section \<open>Comments\<close>

lemma pending_unget_get: "pending (unget (lget lx)) = pending lx"
  by (simp add: lget_def unget_def pending_def Let_def split: list.split)

lemma pending_get_Some: "lx_current (lget lx) \<noteq> None \<Longrightarrow> length (pending (lget lx)) < length (pending lx)"
  using pending_get_less by blast

function skip_line :: "lexer \<Rightarrow> lexer" where
  "skip_line lx0 =
     (let lx = lget lx0 in
      if lx_current lx \<in> {None, Some 0x0A, Some 0x0D, Some 0} then lx else skip_line lx)"
  by auto
termination
  by (relation "measure (\<lambda>lx. length (pending lx))") (use pending_get_Some in auto)

function skip_block :: "lexer \<Rightarrow> bool \<times> lexer" where
  "skip_block lx0 =
     (let lx = lget lx0 in
      if lx_current lx \<in> {None, Some 0} then (False, lx)
      else if lx_current lx = Some 0x2A then
        let lx1 = lget lx in
        if lx_current lx1 = Some 0x2F then (True, lx1) else skip_block (unget lx1)
      else skip_block lx)"
  by auto
termination
  by (relation "measure (\<lambda>lx. length (pending lx))") (use pending_get_Some pending_unget_get in auto)

declare skip_line.simps [simp del] skip_block.simps [simp del]

definition scan_comment :: "lexer \<Rightarrow> bool \<times> lexer" where
  "scan_comment lx0 =
     (let lx = lget lx0 in
      if lx_current lx = Some 0x2F then (True, skip_line lx)
      else if lx_current lx = Some 0x2A then skip_block lx
      else (False, lx))"

section \<open>Numbers\<close>

text \<open>
  The labels of \<^verbatim>\<open>scan_number\<close> and where each of them goes on a byte; the kind of the number
  changes on entering some of them.
\<close>

datatype number_state = N_minus | N_zero | N_any1 | N_decimal1 | N_decimal2 | N_exponent | N_sign | N_any2

datatype number_kind = K_unsigned | K_integer | K_float

datatype number_move = N_goto number_state | N_done | N_error

definition is_digit_byte :: "u8 \<Rightarrow> bool" where
  "is_digit_byte b \<longleftrightarrow> 0x30 \<le> b \<and> b \<le> 0x39"

fun number_next :: "number_state \<Rightarrow> u8 option \<Rightarrow> number_move" where
  "number_next N_minus (Some b) =
     (if b = 0x30 then N_goto N_zero else if is_digit_byte b then N_goto N_any1 else N_error)"
| "number_next N_zero (Some b) =
     (if b = 0x2E then N_goto N_decimal1 else if b = 0x65 \<or> b = 0x45 then N_goto N_exponent else N_done)"
| "number_next N_any1 (Some b) =
     (if is_digit_byte b then N_goto N_any1 else if b = 0x2E then N_goto N_decimal1
      else if b = 0x65 \<or> b = 0x45 then N_goto N_exponent else N_done)"
| "number_next N_decimal1 (Some b) = (if is_digit_byte b then N_goto N_decimal2 else N_error)"
| "number_next N_decimal2 (Some b) =
     (if is_digit_byte b then N_goto N_decimal2 else if b = 0x65 \<or> b = 0x45 then N_goto N_exponent else N_done)"
| "number_next N_exponent (Some b) =
     (if b = 0x2B \<or> b = 0x2D then N_goto N_sign else if is_digit_byte b then N_goto N_any2 else N_error)"
| "number_next N_sign (Some b) = (if is_digit_byte b then N_goto N_any2 else N_error)"
| "number_next N_any2 (Some b) = (if is_digit_byte b then N_goto N_any2 else N_done)"
| "number_next q None = (if q \<in> {N_zero, N_any1, N_decimal2, N_any2} then N_done else N_error)"

fun enter_kind :: "number_state \<Rightarrow> number_kind \<Rightarrow> number_kind" where
  "enter_kind N_minus k = K_integer"
| "enter_kind N_decimal1 k = K_float"
| "enter_kind N_exponent k = K_float"
| "enter_kind _ k = k"

function scan_number_loop ::
  "number_state \<Rightarrow> number_kind \<Rightarrow> octets \<Rightarrow> lexer \<Rightarrow> (number_kind \<times> octets) option \<times> lexer" where
  "scan_number_loop q kind buf lx0 =
     (let lx = lget lx0 in
      case number_next q (lx_current lx) of
        N_error \<Rightarrow> (None, lx)
      | N_done \<Rightarrow> (Some (kind, buf), unget lx)
      | N_goto q' \<Rightarrow>
          (case lx_current lx of
             None \<Rightarrow> (None, lx)
           | Some b \<Rightarrow>
               scan_number_loop q' (enter_kind q' kind)
                 (buf @ [if b = 0x2E then decimal_point_char lx else b]) lx))"
  by auto
termination
  by (relation "measure (\<lambda>(q, kind, buf, lx). length (pending lx))") (use pending_get_less in auto)

declare scan_number_loop.simps [simp del]

text \<open>The value of decimal digits, as \<^verbatim>\<open>strtoull\<close> and \<^verbatim>\<open>strtoll\<close> compute it.\<close>

definition decimal_value :: "octets \<Rightarrow> nat" where
  "decimal_value ds = foldl (\<lambda>n b. 10 * n + (unat b - 0x30)) 0 ds"

datatype token =
    T_uninitialized
  | T_true | T_false | T_null
  | T_string octets | T_unsigned nat | T_integer int | T_float u64
  | T_begin_array | T_begin_object | T_end_array | T_end_object
  | T_name_separator | T_value_separator
  | T_error | T_end_of_input

text \<open>
  The end of \<^verbatim>\<open>scan_number\<close>: an integer that fits its 64-bit type, otherwise what \<^verbatim>\<open>strtod\<close> of the
  C library, the argument \<open>strtod\<close>, makes of the text.
\<close>

definition number_token :: "(octets \<Rightarrow> u64) \<Rightarrow> number_kind \<Rightarrow> octets \<Rightarrow> token" where
  "number_token strtod kind buf =
     (if kind = K_unsigned \<and> decimal_value buf < 2 ^ 64 then T_unsigned (decimal_value buf)
      else if kind = K_integer \<and> decimal_value (tl buf) \<le> 2 ^ 63 then T_integer (- int (decimal_value (tl buf)))
      else T_float (strtod buf))"

definition scan_number :: "(octets \<Rightarrow> u64) \<Rightarrow> lexer \<Rightarrow> token \<times> lexer" where
  "scan_number strtod lx =
     (case lx_current lx of
        None \<Rightarrow> (T_error, lx)
      | Some b \<Rightarrow>
          let q = (if b = 0x2D then N_minus else if b = 0x30 then N_zero else N_any1) in
          case scan_number_loop q (enter_kind q K_unsigned) [b] lx of
            (None, lx1) \<Rightarrow> (T_error, lx1)
          | (Some (kind, buf), lx1) \<Rightarrow> (number_token strtod kind buf, lx1))"

section \<open>Tokens\<close>

text \<open>\<^verbatim>\<open>scan_literal\<close>, after its first letter.\<close>

fun scan_literal :: "octets \<Rightarrow> token \<Rightarrow> lexer \<Rightarrow> token \<times> lexer" where
  "scan_literal [] t lx = (t, lx)"
| "scan_literal (c # cs) t lx =
     (let lx1 = lget lx in if lx_current lx1 = Some c then scan_literal cs t lx1 else (T_error, lx1))"

definition skip_bom :: "lexer \<Rightarrow> bool \<times> lexer" where
  "skip_bom lx0 =
     (let lx = lget lx0 in
      if lx_current lx = Some 0xEF then
        let lx1 = lget lx in
        if lx_current lx1 \<noteq> Some 0xBB then (False, lx1)
        else let lx2 = lget lx1 in (lx_current lx2 = Some 0xBF, lx2)
      else (True, unget lx))"

definition is_white :: "u8 \<Rightarrow> bool" where
  "is_white b \<longleftrightarrow> b = 0x20 \<or> b = 0x09 \<or> b = 0x0A \<or> b = 0x0D"

function skip_whitespace :: "lexer \<Rightarrow> lexer" where
  "skip_whitespace lx0 =
     (let lx = lget lx0 in
      case lx_current lx of
        None \<Rightarrow> lx
      | Some b \<Rightarrow> if is_white b then skip_whitespace lx else lx)"
  by auto
termination
  by (relation "measure (\<lambda>lx. length (pending lx))") (use pending_get_less in auto)

declare skip_whitespace.simps [simp del]

lemma pending_skip_line: "length (pending (skip_line lx)) \<le> length (pending lx)"
proof (induction lx rule: skip_line.induct)
  case (1 lx)
  then show ?case
    using pending_get_le [of lx] by (subst skip_line.simps) (auto simp: Let_def)
qed

lemma pending_skip_block: "length (pending (snd (skip_block lx))) \<le> length (pending lx)"
proof (induction lx rule: skip_block.induct)
  case (1 lx)
  have "length (pending (lget (lget lx))) \<le> length (pending lx)"
    using pending_get_le [of lx] pending_get_le [of "lget lx"] by simp
  then show ?case
    using 1 pending_get_le [of lx] pending_unget_get [of "lget lx"]
    by (subst skip_block.simps) (fastforce simp: Let_def intro: order_trans)
qed

lemma pending_scan_comment: "length (pending (snd (scan_comment lx))) \<le> length (pending lx)"
  using pending_get_le [of lx] pending_skip_line [of "lget lx"] pending_skip_block [of "lget lx"]
  by (simp add: scan_comment_def Let_def)

lemma pending_skip_whitespace:
  "length (pending (skip_whitespace lx)) \<le> length (pending lx) \<and>
   (lx_current (skip_whitespace lx) \<noteq> None \<longrightarrow> length (pending (skip_whitespace lx)) < length (pending lx))"
proof (induction lx rule: skip_whitespace.induct)
  case (1 lx)
  show ?case
  proof (cases "lx_current (lget lx)")
    case None
    then show ?thesis using pending_get_le [of lx] by (subst (1 2 3) skip_whitespace.simps) (simp add: Let_def)
  next
    case (Some b)
    show ?thesis
    proof (cases "is_white b")
      case True
      then have "skip_whitespace lx = skip_whitespace (lget lx)"
        using Some by (subst skip_whitespace.simps) (simp add: Let_def)
      with 1 [OF refl Some True] pending_get_less [OF Some] show ?thesis by simp
    next
      case False
      then have "skip_whitespace lx = lget lx" using Some by (subst skip_whitespace.simps) (simp add: Let_def)
      with pending_get_less [OF Some] show ?thesis by simp
    qed
  qed
qed

text \<open>The loop over comments in \<^verbatim>\<open>scan\<close>, entered when the current byte is a slash.\<close>

function skip_comments :: "lexer \<Rightarrow> bool \<times> lexer" where
  "skip_comments lx0 =
     (case scan_comment lx0 of
        (False, lx) \<Rightarrow> (False, lx)
      | (True, lx) \<Rightarrow>
          let lx1 = skip_whitespace lx in
          if lx_current lx1 = Some 0x2F then skip_comments lx1 else (True, lx1))"
  by auto
termination
proof (relation "measure (\<lambda>lx. length (pending lx))")
  fix lx0 x lx lx1
  assume "(x, lx) = scan_comment lx0" and "lx1 = skip_whitespace lx" and "lx_current lx1 = Some 0x2F"
  then have "length (pending lx1) < length (pending lx)" "length (pending lx) \<le> length (pending lx0)"
    using pending_skip_whitespace [of lx] pending_scan_comment [of lx0] by (auto simp: snd_conv dest: sym)
  then show "(lx1, lx0) \<in> measure (\<lambda>lx. length (pending lx))" by simp
qed simp

declare skip_comments.simps [simp del]

text \<open>The switch at the end of \<^verbatim>\<open>scan\<close>. A null byte counts as the end of the input.\<close>

definition scan_token :: "(octets \<Rightarrow> u64) \<Rightarrow> lexer \<Rightarrow> token \<times> lexer" where
  "scan_token strtod lx =
     (case lx_current lx of
        None \<Rightarrow> (T_end_of_input, lx)
      | Some b \<Rightarrow>
          if b = 0x5B then (T_begin_array, lx)
          else if b = 0x5D then (T_end_array, lx)
          else if b = 0x7B then (T_begin_object, lx)
          else if b = 0x7D then (T_end_object, lx)
          else if b = 0x3A then (T_name_separator, lx)
          else if b = 0x2C then (T_value_separator, lx)
          else if b = 0x74 then scan_literal [0x72, 0x75, 0x65] T_true lx
          else if b = 0x66 then scan_literal [0x61, 0x6C, 0x73, 0x65] T_false lx
          else if b = 0x6E then scan_literal [0x75, 0x6C, 0x6C] T_null lx
          else if b = 0x22 then
            (case scan_string_loop [] lx of
               (None, lx1) \<Rightarrow> (T_error, lx1)
             | (Some s, lx1) \<Rightarrow> (T_string s, lx1))
          else if b = 0x2D \<or> is_digit_byte b then scan_number strtod lx
          else if b = 0 then (T_end_of_input, lx)
          else (T_error, lx))"

definition scan :: "(octets \<Rightarrow> u64) \<Rightarrow> bool \<Rightarrow> lexer \<Rightarrow> token \<times> lexer" where
  "scan strtod ignore_comments lx0 =
     (case (if chars_read_total lx0 = 0 then skip_bom lx0 else (True, lx0)) of
        (False, lx) \<Rightarrow> (T_error, lx)
      | (True, lx) \<Rightarrow>
          let lx1 = skip_whitespace lx in
          if ignore_comments \<and> lx_current lx1 = Some 0x2F then
            (case skip_comments lx1 of
               (False, lx2) \<Rightarrow> (T_error, lx2)
             | (True, lx2) \<Rightarrow> scan_token strtod lx2)
          else scan_token strtod lx1)"

section \<open>Scanning consumes input\<close>

lemma pending_skip_comments: "length (pending (snd (skip_comments lx))) \<le> length (pending lx)"
proof (induction lx rule: skip_comments.induct)
  case (1 lx)
  obtain ok lx1 where c: "scan_comment lx = (ok, lx1)" by fastforce
  have le: "length (pending lx1) \<le> length (pending lx)" using pending_scan_comment [of lx] c by simp
  have le2: "length (pending (skip_whitespace lx1)) \<le> length (pending lx1)" using pending_skip_whitespace by blast
  show ?case
    using 1 [OF c [symmetric]] c le le2 by (subst skip_comments.simps) (auto simp: Let_def split: bool.splits)
qed

lemma pending_string_loop: "length (pending (snd (scan_string_loop buf lx))) \<le> length (pending lx)"
proof (induction buf lx rule: scan_string_loop.induct)
  case (1 buf lx)
  show ?case
  proof (cases "lx_current (lget lx)")
    case None
    then show ?thesis using pending_get_le [of lx] by (subst scan_string_loop.simps) (simp add: Let_def)
  next
    case (Some b)
    obtain r lx1 where c: "scan_char b buf (lget lx) = (r, lx1)" by fastforce
    then have "length (pending lx1) \<le> length (pending lx)"
      using pending_scan_char [of b buf "lget lx"] pending_get_le [of lx] by simp
    with 1 [OF refl Some _ c [symmetric]] Some c pending_get_le [of lx] show ?thesis
      by (subst scan_string_loop.simps) (auto simp: Let_def split: option.splits)
  qed
qed

lemma pending_number_loop: "length (pending (snd (scan_number_loop q k buf lx))) \<le> length (pending lx)"
proof (induction q k buf lx rule: scan_number_loop.induct)
  case (1 q k buf lx)
  show ?case
    using 1 [OF refl] pending_get_le [of lx] pending_unget_get [of lx]
    by (subst scan_number_loop.simps) (fastforce simp: Let_def split: number_move.split option.split intro: order_trans)
qed

lemma pending_literal: "length (pending (snd (scan_literal cs t lx))) \<le> length (pending lx)"
proof (induction cs t lx rule: scan_literal.induct)
  case (2 c cs t lx)
  then show ?case using pending_get_le [of lx] by (auto simp: Let_def intro: order_trans)
qed simp

lemma pending_scan_number: "length (pending (snd (scan_number strtod lx))) \<le> length (pending lx)"
proof (cases "lx_current lx")
  case (Some b)
  let ?q = "if b = 0x2D then N_minus else if b = 0x30 then N_zero else N_any1"
  obtain r lx1 where r: "scan_number_loop ?q (enter_kind ?q K_unsigned) [b] lx = (r, lx1)" by fastforce
  then have "length (pending lx1) \<le> length (pending lx)"
    using pending_number_loop [of ?q "enter_kind ?q K_unsigned" "[b]" lx] by (simp only: snd_conv)
  then show ?thesis
    unfolding scan_number_def Some option.case Let_def r by (auto split: option.split)
qed (simp add: scan_number_def)

lemma pending_scan_token: "length (pending (snd (scan_token strtod lx))) \<le> length (pending lx)"
proof -
  obtain r lx1 where r: "scan_string_loop [] lx = (r, lx1)" by fastforce
  then have "length (pending lx1) \<le> length (pending lx)" using pending_string_loop [of "[]" lx] by simp
  then show ?thesis
    unfolding scan_token_def r
    by (auto simp: pending_literal pending_scan_number simp del: scan_literal.simps split: option.split)
qed

lemma scan_token_end: "lx_current lx = None \<Longrightarrow> scan_token strtod lx = (T_end_of_input, lx)"
  by (simp add: scan_token_def)

lemma pending_skip_bom: "length (pending (snd (skip_bom lx))) \<le> length (pending lx)"
proof -
  have "length (pending (lget (lget lx))) \<le> length (pending lx)"
    "length (pending (lget (lget (lget lx)))) \<le> length (pending lx)"
    using pending_get_le [of lx] pending_get_le [of "lget lx"] pending_get_le [of "lget (lget lx)"] by simp_all
  then show ?thesis by (simp add: skip_bom_def Let_def pending_unget_get)
qed

text \<open>A token that is neither the end nor an error takes at least one byte.\<close>

definition stops_parse :: "token \<Rightarrow> bool" where
  "stops_parse t \<longleftrightarrow> t = T_end_of_input \<or> t = T_error"

lemma scan_consumes:
  assumes "scan strtod ic lx = (t, lx')"
  shows "length (pending lx') \<le> length (pending lx) \<and> (\<not> stops_parse t \<longrightarrow> length (pending lx') < length (pending lx))"
proof -
  obtain ok lx0 where b: "(if chars_read_total lx = 0 then skip_bom lx else (True, lx)) = (ok, lx0)" by fastforce
  then have 0: "length (pending lx0) \<le> length (pending lx)"
    using pending_skip_bom [of lx] by (auto split: if_splits)
  let ?lx1 = "skip_whitespace lx0"
  have 1: "length (pending ?lx1) \<le> length (pending lx0)"
      "lx_current ?lx1 \<noteq> None \<Longrightarrow> length (pending ?lx1) < length (pending lx0)"
    using pending_skip_whitespace [of lx0] by auto
  obtain ok2 lx2 where c: "skip_comments ?lx1 = (ok2, lx2)" by fastforce
  have 2: "length (pending lx2) \<le> length (pending ?lx1)" using pending_skip_comments [of ?lx1] c by simp
  have t1: "length (pending (snd (scan_token strtod ?lx1))) \<le> length (pending ?lx1)"
    and t2: "length (pending (snd (scan_token strtod lx2))) \<le> length (pending lx2)"
    by (rule pending_scan_token)+
  have e: "lx_current ?lx1 = None \<Longrightarrow> scan_token strtod ?lx1 = (T_end_of_input, ?lx1)" by (rule scan_token_end)
  show ?thesis
    using assms 0 1 2 t1 t2 e unfolding scan_def b prod.case Let_def c
    by (cases "lx_current ?lx1") (auto simp: stops_parse_def split: bool.splits if_splits)
qed

end
