(* ===== verification/Json_Utf8.thy ===== *)
theory Json_Utf8
  imports Json_Lexer
begin

text \<open>
  UTF-8 in \<^verbatim>\<open>include/hv/json.hpp\<close>. The lexer checks the bytes of a string against ranges, the
  serializer runs them through the automaton \<^verbatim>\<open>decode\<close>; both are compared here with the definition
  of the encoding: the bytes of a sequence of Unicode scalar values.
\<close>

unbundle bit_operations_syntax

section \<open>Bits and bytes\<close>

lemma or_low: "x < 2 ^ n \<Longrightarrow> (push_bit n a :: nat) OR x = a * 2 ^ n + x"
proof (induction n arbitrary: x)
  case (Suc n)
  then have "x div 2 < 2 ^ n" by (simp add: less_mult_imp_div_less mult.commute)
  from Suc.IH [OF this] have "push_bit (Suc n) a OR x = of_bool (odd x) + 2 * (a * 2 ^ n + x div 2)"
    by (subst or_nat_rec) (simp add: push_bit_Suc push_bit_double)
  then show ?case by (simp add: algebra_simps)
qed simp

lemma and_6: "(x :: nat) AND 0x3F = x mod 64"
  using take_bit_eq_mask [of 6 x] by (simp add: mask_eq_exp_minus_1 take_bit_eq_mod)

lemma or_prefix:
  "x < 64 \<Longrightarrow> (0x80 :: nat) OR x = 0x80 + x" "x < 32 \<Longrightarrow> (0xC0 :: nat) OR x = 0xC0 + x"
  "x < 16 \<Longrightarrow> (0xE0 :: nat) OR x = 0xE0 + x" "x < 8 \<Longrightarrow> (0xF0 :: nat) OR x = 0xF0 + x"
  using or_low [of x 6 2] or_low [of x 5 6] or_low [of x 4 14] or_low [of x 3 30]
  by (simp_all add: push_bit_eq_mult)

lemma utf8_bytes_arith:
  assumes "cp \<le> 0x10FFFF"
  shows "utf8_bytes cp =
     (if cp < 0x80 then [of_nat cp]
      else if cp \<le> 0x7FF then [of_nat (0xC0 + cp div 64), of_nat (0x80 + cp mod 64)]
      else if cp \<le> 0xFFFF
      then [of_nat (0xE0 + cp div 4096), of_nat (0x80 + cp div 64 mod 64), of_nat (0x80 + cp mod 64)]
      else [of_nat (0xF0 + cp div 262144), of_nat (0x80 + cp div 4096 mod 64), of_nat (0x80 + cp div 64 mod 64),
            of_nat (0x80 + cp mod 64)])"
proof -
  have "cp \<le> 0x7FF \<Longrightarrow> cp div 64 < 32" "cp \<le> 0xFFFF \<Longrightarrow> cp div 4096 < 16" "cp div 262144 < 8"
    using assms by (auto simp: less_mult_imp_div_less)
  then show ?thesis by (simp add: utf8_bytes_def and_6 drop_bit_eq_div or_prefix)
qed

section \<open>The definition\<close>

text \<open>Scalar values are the code points that are no surrogates.\<close>

definition scalar :: "nat \<Rightarrow> bool" where
  "scalar cp \<longleftrightarrow> cp \<le> 0x10FFFF \<and> \<not> (0xD800 \<le> cp \<and> cp \<le> 0xDFFF)"

definition utf8 :: "octets \<Rightarrow> bool" where
  "utf8 s \<longleftrightarrow> (\<exists>cps. list_all scalar cps \<and> s = concat (map utf8_bytes cps))"

lemma utf8_Nil [simp]: "utf8 []"
  unfolding utf8_def by (rule exI [of _ "[]"]) simp

lemma utf8_append: "utf8 s \<Longrightarrow> utf8 t \<Longrightarrow> utf8 (s @ t)"
  unfolding utf8_def by (metis concat_append list_all_append map_append)

lemma utf8_one: "scalar cp \<Longrightarrow> utf8 (utf8_bytes cp)"
  unfolding utf8_def by (rule exI [of _ "[cp]"]) simp

section \<open>Ranges\<close>

text \<open>The ranges of the bytes that follow a lead byte, control characters included.\<close>

definition lead_ranges :: "u8 \<Rightarrow> (u8 \<times> u8) list option" where
  "lead_ranges b = (if b < 0x20 then Some [] else utf8_ranges b)"

definition in_ranges :: "(u8 \<times> u8) list \<Rightarrow> octets \<Rightarrow> bool" where
  "in_ranges rs bs \<longleftrightarrow> list_all2 (\<lambda>(lo, hi) b. lo \<le> b \<and> b \<le> hi) rs bs"

text \<open>The value bits of a lead byte, and the code point that continuation bytes make of it.\<close>

definition lead_value :: "nat \<Rightarrow> nat" where
  "lead_value n =
     (if n < 0x80 then n else if n < 0xE0 then n - 0xC0 else if n < 0xF0 then n - 0xE0 else n - 0xF0)"

definition continue :: "nat \<Rightarrow> octets \<Rightarrow> nat" where
  "continue cp bs = foldl (\<lambda>cp b. cp * 64 + (unat b - 0x80)) cp bs"

lemma in_ranges_simps [simp]:
  "in_ranges [] bs \<longleftrightarrow> bs = []" "in_ranges (r # rs) [] \<longleftrightarrow> False"
  "in_ranges ((lo, hi) # rs) (b # bs) \<longleftrightarrow> lo \<le> b \<and> b \<le> hi \<and> in_ranges rs bs"
  by (auto simp: in_ranges_def)

lemma in_ranges_Cons: "in_ranges ((lo, hi) # rs) bs \<longleftrightarrow> (\<exists>b cs. bs = b # cs \<and> lo \<le> b \<and> b \<le> hi \<and> in_ranges rs cs)"
  by (cases bs) auto

lemma u8_le: "(b :: u8) \<le> c \<longleftrightarrow> unat b \<le> unat c" and u8_less: "(b :: u8) < c \<longleftrightarrow> unat b < unat c"
  by (simp_all add: word_le_nat_alt word_less_nat_alt)

lemma u8_of_unat: "of_nat (unat b) = (b :: u8)"
  by simp

lemma digit_64 [simp]: "y < 64 \<Longrightarrow> (x * 64 + y) div 64 = x" "y < 64 \<Longrightarrow> (x * 64 + y) mod 64 = (y :: nat)"
  by simp_all

lemma div_64s: "n div 4096 = n div 64 div (64 :: nat)" "n div 262144 = n div 64 div 64 div (64 :: nat)"
  by (simp_all add: div_mult2_eq [symmetric])

text \<open>A continuation byte as its six bits.\<close>

lemma cont_byte:
  assumes "0x80 \<le> (c :: u8)" and "c \<le> 0xBF"
  obtains y where "unat c = 0x80 + y" and "y < 64" and "of_nat (0x80 + y) = c"
proof -
  have "0x80 \<le> unat c" "unat c \<le> 0xBF" using assms by (simp_all add: u8_le)
  then show ?thesis using that [of "unat c - 0x80"] u8_of_unat [of c] by simp
qed

lemma lead_ranges_cases:
  assumes "lead_ranges b = Some rs"
  obtains (one) "unat b < 0x80" "rs = []"
    | (two) "0xC2 \<le> unat b" "unat b \<le> 0xDF" "rs = [(0x80, 0xBF)]"
    | (three) lo hi where "0xE0 \<le> unat b" "unat b \<le> 0xEF" "rs = [(lo, hi), (0x80, 0xBF)]"
        "lo = (if unat b = 0xE0 then 0xA0 else 0x80)" "hi = (if unat b = 0xED then 0x9F else 0xBF)"
    | (four) lo hi where "0xF0 \<le> unat b" "unat b \<le> 0xF4" "rs = [(lo, hi), (0x80, 0xBF), (0x80, 0xBF)]"
        "lo = (if unat b = 0xF0 then 0x90 else 0x80)" "hi = (if unat b = 0xF4 then 0x8F else 0xBF)"
proof -
  have eq: "(b = n) = (unat b = unat n)" for n :: u8 by (rule word_unat_eq_iff)
  show ?thesis
    using assms that
    by (auto simp: lead_ranges_def utf8_ranges_def u8_le u8_less eq split: if_splits)
qed

lemma encode_two:
  assumes "0xC2 \<le> unat b" "unat b \<le> 0xDF" "0x80 \<le> c" "c \<le> (0xBF :: u8)"
  shows "scalar (continue (unat b - 0xC0) [c]) \<and> utf8_bytes (continue (unat b - 0xC0) [c]) = [b, c]"
proof -
  obtain y where y: "unat c = 0x80 + y" "y < 64" "of_nat (0x80 + y) = c" using cont_byte assms(3,4) by blast
  define x where "x = unat b - 0xC0"
  have x: "2 \<le> x" "x < 32" "of_nat (0xC0 + x) = b" using assms(1,2) u8_of_unat [of b] by (auto simp: x_def)
  have cp: "continue (unat b - 0xC0) [c] = x * 64 + y" using y by (simp add: continue_def x_def)
  have "0x80 \<le> x * 64 + y" "x * 64 + y \<le> 0x7FF" using x y by auto
  then show ?thesis
    unfolding cp using x y by (simp add: utf8_bytes_arith scalar_def del: of_nat_add)
qed

lemma encode_three:
  assumes "0xE0 \<le> unat b" "unat b \<le> 0xEF" "0x80 \<le> c" "c \<le> (0xBF :: u8)" "0x80 \<le> d" "d \<le> (0xBF :: u8)"
    and "unat b = 0xE0 \<longrightarrow> 0xA0 \<le> c" and "unat b = 0xED \<longrightarrow> c \<le> 0x9F"
  shows "scalar (continue (unat b - 0xE0) [c, d]) \<and> utf8_bytes (continue (unat b - 0xE0) [c, d]) = [b, c, d]"
proof -
  obtain y where y: "unat c = 0x80 + y" "y < 64" "of_nat (0x80 + y) = c" using cont_byte assms(3,4) by blast
  obtain z where z: "unat d = 0x80 + z" "z < 64" "of_nat (0x80 + z) = d" using cont_byte assms(5,6) by blast
  define x where "x = unat b - 0xE0"
  have x: "x < 16" "of_nat (0xE0 + x) = b" using assms(1,2) u8_of_unat [of b] by (auto simp: x_def)
  have e: "x = 0 \<longrightarrow> 0x20 \<le> y" "x = 13 \<longrightarrow> y < 0x20" using assms(1,7,8) y(1) by (auto simp: x_def u8_le)
  define n where "n = (x * 64 + y) * 64 + z"
  have cp: "continue (unat b - 0xE0) [c, d] = n" using y z by (simp add: continue_def x_def n_def)
  have r: "0x800 \<le> n" "n \<le> 0xFFFF" using x y z e by (cases "x = 0"; simp add: n_def)+
  have n: "n mod 64 = z" "n div 64 mod 64 = y" "n div 64 div 64 = x" using y(2) z(2) by (simp_all only: n_def digit_64)
  have "\<not> (0xD800 \<le> n \<and> n \<le> 0xDFFF)"
  proof
    assume a: "0xD800 \<le> n \<and> n \<le> 0xDFFF"
    then have "x = 13" using div_le_mono [of "0xD800" n 4096] div_le_mono [of n "0xDFFF" 4096] n(3) by (simp add: div_64s)
    with e a z show False by (simp add: n_def)
  qed
  with r show ?thesis
    unfolding cp using x(2) y(3) z(3) by (simp add: utf8_bytes_arith scalar_def div_64s n del: of_nat_add)
qed

lemma encode_four:
  assumes "0xF0 \<le> unat b" "unat b \<le> 0xF4" "0x80 \<le> c" "c \<le> (0xBF :: u8)" "0x80 \<le> d" "d \<le> (0xBF :: u8)"
    "0x80 \<le> e" "e \<le> (0xBF :: u8)" and "unat b = 0xF0 \<longrightarrow> 0x90 \<le> c" and "unat b = 0xF4 \<longrightarrow> c \<le> 0x8F"
  shows "scalar (continue (unat b - 0xF0) [c, d, e]) \<and> utf8_bytes (continue (unat b - 0xF0) [c, d, e]) = [b, c, d, e]"
proof -
  obtain y where y: "unat c = 0x80 + y" "y < 64" "of_nat (0x80 + y) = c" using cont_byte assms(3,4) by blast
  obtain z where z: "unat d = 0x80 + z" "z < 64" "of_nat (0x80 + z) = d" using cont_byte assms(5,6) by blast
  obtain u where u: "unat e = 0x80 + u" "u < 64" "of_nat (0x80 + u) = e" using cont_byte assms(7,8) by blast
  define x where "x = unat b - 0xF0"
  have x: "x \<le> 4" "of_nat (0xF0 + x) = b" using assms(1,2) u8_of_unat [of b] by (auto simp: x_def)
  have e: "x = 0 \<longrightarrow> 0x10 \<le> y" "x = 4 \<longrightarrow> y < 0x10" using assms(1,9,10) y(1) by (auto simp: x_def u8_le)
  define n where "n = ((x * 64 + y) * 64 + z) * 64 + u"
  have cp: "continue (unat b - 0xF0) [c, d, e] = n" using y z u by (simp add: continue_def x_def n_def)
  have r: "0x10000 \<le> n" "n \<le> 0x10FFFF" using x y z u e by (cases "x = 0"; cases "x = 4"; simp add: n_def)+
  have n: "n mod 64 = u" "n div 64 mod 64 = z" "n div 64 div 64 mod 64 = y" "n div 64 div 64 div 64 = x"
    using y(2) z(2) u(2) by (simp_all only: n_def digit_64)
  show ?thesis
    unfolding cp using r x(2) y(3) z(3) u(3) by (simp add: utf8_bytes_arith scalar_def div_64s n del: of_nat_add)
qed

lemma encode_lead:
  assumes "lead_ranges b = Some rs" and "in_ranges rs cs"
  shows "scalar (continue (lead_value (unat b)) cs) \<and> utf8_bytes (continue (lead_value (unat b)) cs) = b # cs"
  using assms(1)
proof (cases rule: lead_ranges_cases)
  case one
  then show ?thesis using assms(2) by (simp add: continue_def lead_value_def scalar_def utf8_bytes_def)
next
  case two
  then show ?thesis using assms(2) encode_two [of b] by (auto simp: in_ranges_Cons lead_value_def)
next
  case (three lo hi)
  then obtain c d where cd: "cs = [c, d]" "lo \<le> c" "c \<le> hi" "0x80 \<le> d" "d \<le> 0xBF"
    using assms(2) by (auto simp: in_ranges_Cons)
  then have "0x80 \<le> c" "c \<le> 0xBF" "unat b = 0xE0 \<longrightarrow> 0xA0 \<le> c" "unat b = 0xED \<longrightarrow> c \<le> 0x9F"
    using three(4,5) by (auto simp: u8_le split: if_splits)
  from encode_three [OF three(1,2) this(1,2) cd(4,5) this(3,4)] three cd(1) show ?thesis by (simp add: lead_value_def)
next
  case (four lo hi)
  then obtain c d e where cd: "cs = [c, d, e]" "lo \<le> c" "c \<le> hi" "0x80 \<le> d" "d \<le> 0xBF" "0x80 \<le> e" "e \<le> 0xBF"
    using assms(2) by (auto simp: in_ranges_Cons)
  then have "0x80 \<le> c" "c \<le> 0xBF" "unat b = 0xF0 \<longrightarrow> 0x90 \<le> c" "unat b = 0xF4 \<longrightarrow> c \<le> 0x8F"
    using four(4,5) by (auto simp: u8_le split: if_splits)
  from encode_four [OF four(1,2) this(1,2) cd(4-7) this(3,4)] four cd(1) show ?thesis by (simp add: lead_value_def)
qed

lemma byte_val: "n < 256 \<Longrightarrow> unat (of_nat n :: u8) = n"
  by (simp add: unat_of_nat)

text \<open>The four cases of the encoding, by the number of bytes.\<close>

lemmas lead_unfold = lead_ranges_def utf8_ranges_def u8_le u8_less word_unat_eq_iff

lemma lead_ranges_one: "n < 0x80 \<Longrightarrow> lead_ranges (of_nat n) = Some []"
  by (simp add: lead_unfold byte_val)

lemma lead_ranges_two: "2 \<le> z \<Longrightarrow> z < 32 \<Longrightarrow> lead_ranges (of_nat (0xC0 + z)) = Some [(0x80, 0xBF)]"
  using byte_val [of "0xC0 + z"] by (simp add: lead_unfold del: of_nat_add)

lemma lead_ranges_three:
  "y < 16 \<Longrightarrow> lead_ranges (of_nat (0xE0 + y)) =
     Some [(if y = 0 then 0xA0 else 0x80, if y = 13 then 0x9F else 0xBF), (0x80, 0xBF)]"
  using byte_val [of "0xE0 + y"] by (simp add: lead_unfold del: of_nat_add)

lemma lead_ranges_four:
  "x < 5 \<Longrightarrow> lead_ranges (of_nat (0xF0 + x)) =
     Some [(if x = 0 then 0x90 else 0x80, if x = 4 then 0x8F else 0xBF), (0x80, 0xBF), (0x80, 0xBF)]"
  using byte_val [of "0xF0 + x"] by (simp add: lead_unfold del: of_nat_add)

lemma lead_of_scalar:
  assumes "scalar cp"
  shows "\<exists>b cs rs. utf8_bytes cp = b # cs \<and> lead_ranges b = Some rs \<and> in_ranges rs cs \<and>
    continue (lead_value (unat b)) cs = cp"
proof -
  have le: "cp \<le> 0x10FFFF" using assms by (simp add: scalar_def)
  define x y z u where "x = cp div 64 div 64 div 64" and "y = cp div 64 div 64 mod 64" and "z = cp div 64 mod 64"
    and "u = cp mod 64"
  have b: "y < 64" "z < 64" "u < 64" by (simp_all add: y_def z_def u_def)
  have cp: "cp = ((x * 64 + y) * 64 + z) * 64 + u" by (simp add: x_def y_def z_def u_def)
  have v: "unat (of_nat (0x80 + w) :: u8) = 0x80 + w" if "w < 64" for w using that by (simp only: byte_val)
  have c: "0x80 \<le> (of_nat (0x80 + w) :: u8) \<and> (of_nat (0x80 + w) :: u8) \<le> 0xBF" if "w < 64" for w
    using that v [OF that] by (simp add: u8_le del: of_nat_add)
  consider "cp < 0x80" | "0x80 \<le> cp" "cp \<le> 0x7FF" | "0x7FF < cp" "cp \<le> 0xFFFF" | "0xFFFF < cp" by linarith
  then show ?thesis
  proof cases
    case 1
    then show ?thesis
      using lead_ranges_one [of cp] byte_val [of cp] by (simp add: utf8_bytes_def continue_def lead_value_def)
  next
    case 2
    then have xy: "x = 0" "y = 0" using cp by auto
    with 2 cp b have "cp = z * 64 + u" by simp
    with 2 b xy have h: "x = 0" "y = 0" "2 \<le> z" "z < 32" by linarith+
    have t: "utf8_bytes cp = [of_nat (0xC0 + z), of_nat (0x80 + u)]"
      using 2 le h by (simp add: utf8_bytes_arith z_def u_def)
    have "continue (lead_value (unat (of_nat (0xC0 + z) :: u8))) [of_nat (0x80 + u)] = cp"
      using byte_val [of "0xC0 + z"] v [OF b(3)] h cp by (simp add: continue_def lead_value_def del: of_nat_add)
    then show ?thesis unfolding t using lead_ranges_two [OF h(3,4)] c [OF b(3)] by fastforce
  next
    case 3
    then have x: "x = 0" using cp by auto
    with cp have e: "cp = y * 4096 + z * 64 + u" by simp
    have sc: "\<not> (0xD800 \<le> cp \<and> cp \<le> 0xDFFF)" using assms by (simp add: scalar_def)
    have h: "x = 0" "y < 16" "y = 0 \<longrightarrow> 0x20 \<le> z" "y = 13 \<longrightarrow> z < 0x20"
      using 3 e b sc x by linarith+
    have t: "utf8_bytes cp = [of_nat (0xE0 + y), of_nat (0x80 + z), of_nat (0x80 + u)]"
      using 3 le h by (simp add: utf8_bytes_arith y_def z_def u_def div_64s)
    have "continue (lead_value (unat (of_nat (0xE0 + y) :: u8))) [of_nat (0x80 + z), of_nat (0x80 + u)] = cp"
      using byte_val [of "0xE0 + y"] v [OF b(3)] v [OF b(2)] h cp
      by (simp add: continue_def lead_value_def del: of_nat_add)
    moreover have "in_ranges [(if y = 0 then 0xA0 else 0x80, if y = 13 then 0x9F else 0xBF), (0x80, 0xBF)]
        [of_nat (0x80 + z), of_nat (0x80 + u)]"
      using c [OF b(3)] c [OF b(2)] h(3,4) v [OF b(2)] by (auto simp: u8_le simp del: of_nat_add)
    ultimately show ?thesis unfolding t using lead_ranges_three [OF h(2)] by blast
  next
    case 4
    have "cp = x * 262144 + y * 4096 + z * 64 + u" using cp by simp
    with 4 b le have h: "x < 5" "x = 0 \<longrightarrow> 0x10 \<le> y" "x = 4 \<longrightarrow> y < 0x10" by linarith+
    have t: "utf8_bytes cp = [of_nat (0xF0 + x), of_nat (0x80 + y), of_nat (0x80 + z), of_nat (0x80 + u)]"
      using 4 le h by (simp add: utf8_bytes_arith x_def y_def z_def u_def div_64s)
    have "continue (lead_value (unat (of_nat (0xF0 + x) :: u8)))
        [of_nat (0x80 + y), of_nat (0x80 + z), of_nat (0x80 + u)] = cp"
      using byte_val [of "0xF0 + x"] v [OF b(3)] v [OF b(2)] v [OF b(1)] h cp
      by (simp add: continue_def lead_value_def del: of_nat_add)
    moreover have "in_ranges [(if x = 0 then 0x90 else 0x80, if x = 4 then 0x8F else 0xBF), (0x80, 0xBF), (0x80, 0xBF)]
        [of_nat (0x80 + y), of_nat (0x80 + z), of_nat (0x80 + u)]"
      using c [OF b(3)] c [OF b(2)] c [OF b(1)] h(2,3) v [OF b(1)] by (auto simp: u8_le simp del: of_nat_add)
    ultimately show ?thesis unfolding t using lead_ranges_four [OF h(1)] by blast
  qed
qed

section \<open>The automaton\<close>

definition utf8d :: "nat list" where
  "utf8d =
    [0, 0, 0, 0, 0, 0, 0, 0, 0, 0, 0, 0, 0, 0, 0, 0, 0, 0, 0, 0, 0, 0, 0, 0, 0, 0, 0, 0, 0, 0, 0, 0,
     0, 0, 0, 0, 0, 0, 0, 0, 0, 0, 0, 0, 0, 0, 0, 0, 0, 0, 0, 0, 0, 0, 0, 0, 0, 0, 0, 0, 0, 0, 0, 0,
     0, 0, 0, 0, 0, 0, 0, 0, 0, 0, 0, 0, 0, 0, 0, 0, 0, 0, 0, 0, 0, 0, 0, 0, 0, 0, 0, 0, 0, 0, 0, 0,
     0, 0, 0, 0, 0, 0, 0, 0, 0, 0, 0, 0, 0, 0, 0, 0, 0, 0, 0, 0, 0, 0, 0, 0, 0, 0, 0, 0, 0, 0, 0, 0,
     1, 1, 1, 1, 1, 1, 1, 1, 1, 1, 1, 1, 1, 1, 1, 1, 9, 9, 9, 9, 9, 9, 9, 9, 9, 9, 9, 9, 9, 9, 9, 9,
     7, 7, 7, 7, 7, 7, 7, 7, 7, 7, 7, 7, 7, 7, 7, 7, 7, 7, 7, 7, 7, 7, 7, 7, 7, 7, 7, 7, 7, 7, 7, 7,
     8, 8, 2, 2, 2, 2, 2, 2, 2, 2, 2, 2, 2, 2, 2, 2, 2, 2, 2, 2, 2, 2, 2, 2, 2, 2, 2, 2, 2, 2, 2, 2,
     10, 3, 3, 3, 3, 3, 3, 3, 3, 3, 3, 3, 3, 4, 3, 3,
     11, 6, 6, 6, 5, 8, 8, 8, 8, 8, 8, 8, 8, 8, 8, 8,
     0, 1, 2, 3, 5, 8, 7, 1, 1, 1, 4, 6, 1, 1, 1, 1,
     1, 1, 1, 1, 1, 1, 1, 1, 1, 1, 1, 1, 1, 1, 1, 1, 1, 0, 1, 1, 1, 1, 1, 0, 1, 0, 1, 1, 1, 1, 1, 1,
     1, 2, 1, 1, 1, 1, 1, 2, 1, 2, 1, 1, 1, 1, 1, 1, 1, 1, 1, 1, 1, 1, 1, 2, 1, 1, 1, 1, 1, 1, 1, 1,
     1, 2, 1, 1, 1, 1, 1, 1, 1, 2, 1, 1, 1, 1, 1, 1, 1, 1, 1, 1, 1, 1, 1, 3, 1, 3, 1, 1, 1, 1, 1, 1,
     1, 3, 1, 1, 1, 1, 1, 3, 1, 3, 1, 1, 1, 1, 1, 1, 1, 3, 1, 1, 1, 1, 1, 1, 1, 1, 1, 1, 1, 1, 1, 1]"

definition UTF8_ACCEPT :: nat where "UTF8_ACCEPT = 0"
definition UTF8_REJECT :: nat where "UTF8_REJECT = 1"

text \<open>The new state and the new code point; the index is below 400 for the states that occur.\<close>

definition decode :: "nat \<Rightarrow> nat \<Rightarrow> u8 \<Rightarrow> nat \<times> nat" where
  "decode state codep b =
     (let type = utf8d ! unat b;
          codep' = (if state \<noteq> UTF8_ACCEPT then (unat b AND 0x3F) OR push_bit 6 codep
                    else drop_bit type 0xFF AND unat b)
      in (utf8d ! (256 + state * 16 + type), codep'))"

text \<open>
  What the table says: the class and value bits of a lead byte, and for every state the range of
  the next byte. State 0 is reached when no byte is missing.
\<close>

fun state_of :: "(u8 \<times> u8) list option \<Rightarrow> nat" where
  "state_of None = 1"
| "state_of (Some rs) =
     (if rs = [] then 0 else if rs = [(0x80, 0xBF)] then 2
      else if rs = [(0x80, 0xBF), (0x80, 0xBF)] then 3 else if rs = [(0xA0, 0xBF), (0x80, 0xBF)] then 4
      else if rs = [(0x80, 0x9F), (0x80, 0xBF)] then 5 else if rs = [(0x90, 0xBF), (0x80, 0xBF), (0x80, 0xBF)] then 6
      else if rs = [(0x80, 0xBF), (0x80, 0xBF), (0x80, 0xBF)] then 7 else 8)"

definition utf8_class :: "nat \<Rightarrow> nat" where
  "utf8_class n =
     (if n < 0x80 then 0 else if n < 0x90 then 1 else if n < 0xA0 then 9 else if n < 0xC0 then 7
      else if n < 0xC2 then 8 else if n < 0xE0 then 2 else if n < 0xE1 then 10 else if n < 0xED then 3
      else if n < 0xEE then 4 else if n < 0xF0 then 3 else if n < 0xF1 then 11 else if n < 0xF4 then 6
      else if n < 0xF5 then 5 else 8)"

lemma utf8d_classes:
  "take 256 utf8d = replicate 128 0 @ replicate 16 1 @ replicate 16 9 @ replicate 32 7 @ replicate 2 8 @
     replicate 30 2 @ replicate 1 10 @ replicate 12 3 @ replicate 1 4 @ replicate 2 3 @ replicate 1 11 @
     replicate 3 6 @ replicate 1 5 @ replicate 11 8"
  by code_simp

lemma nth_run: "(replicate k x @ ys) ! n = (if n < k then x else ys ! (n - k))"
  by (simp add: nth_append)

lemma diff_run: "0 < b \<Longrightarrow> (n - a < b) = (n < a + (b :: nat))"
  by auto

lemma utf8d_class:
  assumes "n < 256"
  shows "utf8d ! n = utf8_class n"
proof -
  have "utf8d ! n = take 256 utf8d ! n" using assms by simp
  then show ?thesis
    unfolding utf8d_classes nth_run utf8_class_def diff_diff_left using assms by (simp add: diff_run)
qed

text \<open>The rows of the transitions.\<close>

lemma utf8d_rows:
  "drop 256 utf8d = concat
     [[0, 1, 2, 3, 5, 8, 7, 1, 1, 1, 4, 6, 1, 1, 1, 1],
      [1, 1, 1, 1, 1, 1, 1, 1, 1, 1, 1, 1, 1, 1, 1, 1],
      [1, 0, 1, 1, 1, 1, 1, 0, 1, 0, 1, 1, 1, 1, 1, 1],
      [1, 2, 1, 1, 1, 1, 1, 2, 1, 2, 1, 1, 1, 1, 1, 1],
      [1, 1, 1, 1, 1, 1, 1, 2, 1, 1, 1, 1, 1, 1, 1, 1],
      [1, 2, 1, 1, 1, 1, 1, 1, 1, 2, 1, 1, 1, 1, 1, 1],
      [1, 1, 1, 1, 1, 1, 1, 3, 1, 3, 1, 1, 1, 1, 1, 1],
      [1, 3, 1, 1, 1, 1, 1, 3, 1, 3, 1, 1, 1, 1, 1, 1],
      [1, 3, 1, 1, 1, 1, 1, 1, 1, 1, 1, 1, 1, 1, 1, 1]]"
  by code_simp

lemma utf8d_next: "utf8d ! (256 + k) = drop 256 utf8d ! k"
  by (simp add: utf8d_def)

lemma row_lead:
  "map (\<lambda>k. drop 256 utf8d ! k) [0, 1, 2, 3, 4, 5, 6, 7, 8, 9, 10, 11] = [0, 1, 2, 3, 5, 8, 7, 1, 1, 1, 4, 6]"
  unfolding utf8d_rows by simp

lemma and_masks:
  "(0xFF :: nat) AND n = n mod 256" "(0x3F :: nat) AND n = n mod 64" "(0x1F :: nat) AND n = n mod 32"
  "(0xF :: nat) AND n = n mod 16" "(7 :: nat) AND n = n mod 8" "(3 :: nat) AND n = n mod 4"
  using take_bit_eq_mask [of 8 n] take_bit_eq_mask [of 6 n] take_bit_eq_mask [of 5 n] take_bit_eq_mask [of 4 n]
    take_bit_eq_mask [of 3 n] take_bit_eq_mask [of 2 n]
  by (simp_all add: mask_eq_exp_minus_1 take_bit_eq_mod and.commute)

lemma unat_u8 [simp]: "unat (b :: u8) < 256"
  by (rule order_less_le_trans [OF unsigned_less]) simp

lemma mod_window: "a * d \<le> n \<Longrightarrow> n < a * d + d \<Longrightarrow> n mod d = n - a * (d :: nat)"
proof -
  assume "a * d \<le> n" "n < a * d + d"
  then have "n = (n - a * d) + a * d" "n - a * d < d" by auto
  then show ?thesis by (metis mod_less mod_mult_self1)
qed

text \<open>The first byte of a character.\<close>

lemma lead_ranges_None:
  assumes "lead_ranges b = None"
  shows "0x80 \<le> unat b" "unat b < 0xC2 \<or> 0xF5 \<le> unat b"
  using assms by (auto simp: lead_unfold split: if_splits)

lemma decode_first:
  "decode 0 cp b = (drop 256 utf8d ! utf8_class (unat b), drop_bit (utf8_class (unat b)) 0xFF AND unat b)"
  by (simp add: decode_def utf8d_class utf8d_next UTF8_ACCEPT_def Let_def)

lemma decode_lead_None: "lead_ranges b = None \<Longrightarrow> fst (decode 0 cp b) = 1"
proof -
  assume "lead_ranges b = None"
  from lead_ranges_None [OF this] have "utf8_class (unat b) \<in> {1, 9, 7, 8}" by (auto simp: utf8_class_def)
  then show ?thesis using row_lead by (auto simp: decode_first)
qed

lemma lead_class:
  assumes "lead_ranges b = Some rs"
  shows "drop 256 utf8d ! utf8_class (unat b) = state_of (Some rs) \<and>
    drop_bit (utf8_class (unat b)) 0xFF AND unat b = lead_value (unat b)"
  using assms
proof (cases rule: lead_ranges_cases)
  case one
  then have "utf8_class (unat b) = 0" by (simp add: utf8_class_def)
  with one row_lead show ?thesis by (simp add: and_masks lead_value_def)
next
  case two
  then have "utf8_class (unat b) = 2" "unat b mod 64 = unat b - 0xC0"
    using mod_window [of 3 64 "unat b"] by (simp_all add: utf8_class_def)
  with two row_lead show ?thesis by (simp add: and_masks lead_value_def drop_bit_eq_div)
next
  case (three lo hi)
  then have m: "unat b mod 32 = unat b - 0xE0" "unat b mod 16 = unat b - 0xE0"
    using mod_window [of 7 32 "unat b"] mod_window [of 14 16 "unat b"] by simp_all
  consider "unat b = 0xE0" | "unat b = 0xED" | "unat b \<noteq> 0xE0" "unat b \<noteq> 0xED" by blast
  then show ?thesis
  proof cases
    case 3
    then have "utf8_class (unat b) = 3" using three(1,2) by (auto simp: utf8_class_def)
    with 3 three row_lead m show ?thesis by (simp add: and_masks lead_value_def drop_bit_eq_div)
  qed (use three row_lead in \<open>simp_all add: utf8_class_def and_masks lead_value_def drop_bit_eq_div\<close>)
next
  case (four lo hi)
  consider "unat b = 0xF0" | "unat b = 0xF4" | "0xF1 \<le> unat b" "unat b < 0xF4" using four(1,2) by linarith
  then show ?thesis
  proof cases
    case 3
    then have "utf8_class (unat b) = 6" "unat b mod 4 = unat b - 0xF0"
      using mod_window [of 60 4 "unat b"] by (auto simp: utf8_class_def)
    with 3 four row_lead show ?thesis by (simp add: and_masks lead_value_def drop_bit_eq_div)
  qed (use four row_lead in \<open>simp_all add: utf8_class_def and_masks lead_value_def drop_bit_eq_div\<close>)
qed

lemma decode_lead_Some: "lead_ranges b = Some rs \<Longrightarrow> decode 0 cp b = (state_of (Some rs), lead_value (unat b))"
  using lead_class by (simp add: decode_first)

text \<open>The bytes after it.\<close>

lemma rows_next:
  "map (\<lambda>k. drop 256 utf8d ! k) [32, 33, 34, 35, 36, 37, 38, 39, 40, 41, 42, 43] =
     [1, 0, 1, 1, 1, 1, 1, 0, 1, 0, 1, 1]"
  "map (\<lambda>k. drop 256 utf8d ! k) [48, 49, 50, 51, 52, 53, 54, 55, 56, 57, 58, 59] =
     [1, 2, 1, 1, 1, 1, 1, 2, 1, 2, 1, 1]"
  "map (\<lambda>k. drop 256 utf8d ! k) [64, 65, 66, 67, 68, 69, 70, 71, 72, 73, 74, 75] =
     [1, 1, 1, 1, 1, 1, 1, 2, 1, 1, 1, 1]"
  "map (\<lambda>k. drop 256 utf8d ! k) [80, 81, 82, 83, 84, 85, 86, 87, 88, 89, 90, 91] =
     [1, 2, 1, 1, 1, 1, 1, 1, 1, 2, 1, 1]"
  "map (\<lambda>k. drop 256 utf8d ! k) [96, 97, 98, 99, 100, 101, 102, 103, 104, 105, 106, 107] =
     [1, 1, 1, 1, 1, 1, 1, 3, 1, 3, 1, 1]"
  "map (\<lambda>k. drop 256 utf8d ! k) [112, 113, 114, 115, 116, 117, 118, 119, 120, 121, 122, 123] =
     [1, 3, 1, 1, 1, 1, 1, 3, 1, 3, 1, 1]"
  "map (\<lambda>k. drop 256 utf8d ! k) [128, 129, 130, 131, 132, 133, 134, 135, 136, 137, 138, 139] =
     [1, 3, 1, 1, 1, 1, 1, 1, 1, 1, 1, 1]"
  unfolding utf8d_rows by simp_all

text \<open>The lists of ranges that occur.\<close>

definition range_lists :: "(u8 \<times> u8) list set" where
  "range_lists =
     {[(0x80, 0xBF)], [(0x80, 0xBF), (0x80, 0xBF)], [(0xA0, 0xBF), (0x80, 0xBF)], [(0x80, 0x9F), (0x80, 0xBF)],
      [(0x90, 0xBF), (0x80, 0xBF), (0x80, 0xBF)], [(0x80, 0xBF), (0x80, 0xBF), (0x80, 0xBF)],
      [(0x80, 0x8F), (0x80, 0xBF), (0x80, 0xBF)]}"

lemma lead_ranges_lists: "lead_ranges b = Some rs \<Longrightarrow> rs = [] \<or> rs \<in> range_lists"
  by (erule lead_ranges_cases) (auto simp: range_lists_def)

lemma range_lists_tl: "r # rs \<in> range_lists \<Longrightarrow> rs = [] \<or> rs \<in> range_lists"
  by (auto simp: range_lists_def)

lemma utf8_class_cont:
  "(utf8_class n = 1 \<longleftrightarrow> 0x80 \<le> n \<and> n < 0x90)" "(utf8_class n = 9 \<longleftrightarrow> 0x90 \<le> n \<and> n < 0xA0)"
  "(utf8_class n = 7 \<longleftrightarrow> 0xA0 \<le> n \<and> n < 0xC0)" "utf8_class n < 12"
  by (auto simp: utf8_class_def)

lemma classes: "k < 12 \<Longrightarrow> k \<in> {0, 1, 2, 3, 4, 5, 6, 7, 8, 9, 10, 11 :: nat}"
  by (simp; presburger)

lemma state_next:
  assumes "k < 12"
  shows "drop 256 utf8d ! (32 + k) = (if k \<in> {1, 7, 9} then 0 else 1)"
    and "drop 256 utf8d ! (48 + k) = (if k \<in> {1, 7, 9} then 2 else 1)"
    and "drop 256 utf8d ! (64 + k) = (if k = 7 then 2 else 1)"
    and "drop 256 utf8d ! (80 + k) = (if k \<in> {1, 9} then 2 else 1)"
    and "drop 256 utf8d ! (96 + k) = (if k \<in> {7, 9} then 3 else 1)"
    and "drop 256 utf8d ! (112 + k) = (if k \<in> {1, 7, 9} then 3 else 1)"
    and "drop 256 utf8d ! (128 + k) = (if k = 1 then 3 else 1)"
  subgoal using classes [OF assms] rows_next(1) by (elim insertE emptyE) simp_all
  subgoal using classes [OF assms] rows_next(2) by (elim insertE emptyE) simp_all
  subgoal using classes [OF assms] rows_next(3) by (elim insertE emptyE) simp_all
  subgoal using classes [OF assms] rows_next(4) by (elim insertE emptyE) simp_all
  subgoal using classes [OF assms] rows_next(5) by (elim insertE emptyE) simp_all
  subgoal using classes [OF assms] rows_next(6) by (elim insertE emptyE) simp_all
  subgoal using classes [OF assms] rows_next(7) by (elim insertE emptyE) simp_all
  done

lemma decode_later:
  assumes "s \<noteq> 0"
  shows "decode s cp b = (drop 256 utf8d ! (s * 16 + utf8_class (unat b)), cp * 64 + unat b mod 64)"
proof -
  have "(unat b AND 0x3F) OR push_bit 6 cp = cp * 64 + unat b mod 64"
    using or_low [of "unat b mod 64" 6 cp] by (simp add: and_6 or.commute)
  then show ?thesis
    using assms utf8d_next [of "s * 16 + utf8_class (unat b)"]
    by (simp add: decode_def utf8d_class UTF8_ACCEPT_def Let_def add.assoc)
qed

lemma decode_next:
  assumes "(lo, hi) # rs \<in> range_lists"
  shows "decode (state_of (Some ((lo, hi) # rs))) cp b =
    (state_of (if lo \<le> b \<and> b \<le> hi then Some rs else None), cp * 64 + unat b mod 64)"
proof -
  let ?k = "utf8_class (unat b)"
  have k: "?k < 12" "(?k = 1) = (0x80 \<le> unat b \<and> unat b < 0x90)" "(?k = 9) = (0x90 \<le> unat b \<and> unat b < 0xA0)"
      "(?k = 7) = (0xA0 \<le> unat b \<and> unat b < 0xC0)"
    by (rule utf8_class_cont)+
  note n = state_next [OF k(1)]
  have c: "(?k \<in> {1, 7, 9}) = (0x80 \<le> b \<and> b \<le> 0xBF)" "(?k = 7) = (0xA0 \<le> b \<and> b \<le> 0xBF)"
      "(?k \<in> {1, 9}) = (0x80 \<le> b \<and> b \<le> 0x9F)" "(?k \<in> {7, 9}) = (0x90 \<le> b \<and> b \<le> 0xBF)"
      "(?k = 1) = (0x80 \<le> b \<and> b \<le> 0x8F)"
    using k(2-4) by (auto simp: u8_le)
  show ?thesis
    using assms unfolding range_lists_def insert_iff list.inject prod.inject
    by (elim disjE) (simp_all add: decode_later n c [unfolded One_nat_def] del: insert_iff)
qed

end
