(* ===== verification/Json_Parser.thy ===== *)
theory Json_Parser
  imports Json_Lexer
begin

text \<open>
  The parser of the JSON text format in \<^verbatim>\<open>include/hv/json.hpp\<close>: the loop of
  \<^verbatim>\<open>parser::sax_parse_internal\<close> over the tokens with its stack of open containers, and the
  functions \<^verbatim>\<open>parse\<close> and \<^verbatim>\<open>accept\<close> on top of it. The loop consumes input, which is why it ends.
\<close>

section \<open>One turn of the loop\<close>

text \<open>
  The switch over the last token: the value is complete (\<open>V_done\<close>), or a container was opened and
  the loop goes on with its first value (\<open>V_open\<close>, \<open>True\<close> for an array).
\<close>

datatype value_out = V_done "sax_event list" lexer | V_open "sax_event list" bool token lexer

definition syntax_error :: "lexer \<Rightarrow> json_error + 'a" where
  "syntax_error lx = Inl (ParseError 101 (chars_read_total lx))"

text \<open>A colon and the first token of the value, after a key.\<close>

definition after_key :: "(lexer \<Rightarrow> token \<times> lexer) \<Rightarrow> lexer \<Rightarrow> json_error + token \<times> lexer" where
  "after_key get_token lx =
     (case get_token lx of (t1, lx1) \<Rightarrow>
      if t1 = T_name_separator then Inr (get_token lx1) else syntax_error lx1)"

fun parse_value :: "(lexer \<Rightarrow> token \<times> lexer) \<Rightarrow> token \<Rightarrow> lexer \<Rightarrow> json_error + value_out" where
  "parse_value get_token T_begin_object lx =
     (case get_token lx of
        (T_end_object, lx1) \<Rightarrow> Inr (V_done [EStartObject, EEndObject] lx1)
      | (T_string k, lx1) \<Rightarrow>
          bindE (after_key get_token lx1) (\<lambda>(t, lx2). Inr (V_open [EStartObject, EKey k] False t lx2))
      | (_, lx1) \<Rightarrow> syntax_error lx1)"
| "parse_value get_token T_begin_array lx =
     (case get_token lx of (t1, lx1) \<Rightarrow>
      if t1 = T_end_array then Inr (V_done [EStartArray, EEndArray] lx1)
      else Inr (V_open [EStartArray] True t1 lx1))"
| "parse_value get_token (T_float f) lx =
     (if is_finite f then Inr (V_done [EFloat f] lx) else Inl (OutOfRangeError 406))"
| "parse_value get_token T_false lx = Inr (V_done [EBool False] lx)"
| "parse_value get_token T_null lx = Inr (V_done [ENull] lx)"
| "parse_value get_token T_true lx = Inr (V_done [EBool True] lx)"
| "parse_value get_token (T_integer i) lx = Inr (V_done [EInt i] lx)"
| "parse_value get_token (T_string s) lx = Inr (V_done [EString s] lx)"
| "parse_value get_token (T_unsigned n) lx = Inr (V_done [EUint n] lx)"
| "parse_value get_token _ lx = syntax_error lx"

text \<open>The part after a value inside an array or object: another value, or the container is closed.\<close>

datatype state_out = S_next "sax_event list" token lexer | S_close sax_event token lexer

definition state_step :: "(lexer \<Rightarrow> token \<times> lexer) \<Rightarrow> bool \<Rightarrow> lexer \<Rightarrow> json_error + state_out" where
  "state_step get_token in_array lx =
     (case get_token lx of (t1, lx1) \<Rightarrow>
      if in_array then
        (if t1 = T_value_separator then (case get_token lx1 of (t2, lx2) \<Rightarrow> Inr (S_next [] t2 lx2))
         else if t1 = T_end_array then Inr (S_close EEndArray t1 lx1)
         else syntax_error lx1)
      else
        (if t1 = T_value_separator then
           (case get_token lx1 of
              (T_string k, lx2) \<Rightarrow> bindE (after_key get_token lx2) (\<lambda>(t, lx3). Inr (S_next [EKey k] t lx3))
            | (_, lx2) \<Rightarrow> syntax_error lx2)
         else if t1 = T_end_object then Inr (S_close EEndObject t1 lx1)
         else syntax_error lx1))"

definition emit :: "sax_event list \<Rightarrow> json_error + sax_event list \<times> lexer \<Rightarrow> json_error + sax_event list \<times> lexer" where
  "emit es r = bindE r (\<lambda>(es', lx). Inr (es @ es', lx))"

section \<open>The loop\<close>

text \<open>Measure: the bytes to come, and one more while there is a token that can start a value.\<close>

definition parse_measure :: "bool \<Rightarrow> token \<Rightarrow> lexer \<Rightarrow> nat" where
  "parse_measure skip t lx = length (pending lx) + (if \<not> skip \<and> stops_parse t then 0 else 1)"

lemma scan_measure:
  "scan strtod ic lx = (t, lx') \<Longrightarrow> parse_measure False t lx' \<le> length (pending lx)"
  using scan_consumes [of strtod ic lx t lx'] by (auto simp: parse_measure_def)

lemma after_key_measure:
  assumes "after_key (scan strtod ic) lx = Inr (t, lx')"
  shows "parse_measure False t lx' \<le> length (pending lx)"
proof -
  obtain t1 lx1 where 1: "scan strtod ic lx = (t1, lx1)" by fastforce
  with assms have "scan strtod ic lx1 = (t, lx')" by (auto simp: after_key_def syntax_error_def split: if_splits)
  from scan_measure [OF this] scan_consumes [OF 1] show ?thesis by simp
qed

lemma parse_value_open_measure:
  assumes "parse_value (scan strtod ic) tok lx = Inr (V_open es b t lx')"
  shows "parse_measure False t lx' < parse_measure False tok lx"
proof -
  obtain t1 lx1 where 1: "scan strtod ic lx = (t1, lx1)" by fastforce
  consider "tok = T_begin_object" | "tok = T_begin_array"
    using assms by (cases tok) (auto simp: syntax_error_def split: if_splits)
  then show ?thesis
  proof cases
    case 1
    then obtain k where k: "t1 = T_string k" "after_key (scan strtod ic) lx1 = Inr (t, lx')"
      using assms \<open>scan strtod ic lx = (t1, lx1)\<close> by (auto simp: syntax_error_def bindE_Inr_iff split: token.splits)
    then have "length (pending lx1) < length (pending lx)"
      using scan_consumes [OF \<open>scan strtod ic lx = (t1, lx1)\<close>] by (simp add: stops_parse_def)
    with after_key_measure [OF k(2)] show ?thesis by (simp add: parse_measure_def)
  next
    case 2
    then have "t = t1" "lx' = lx1" using assms 1 by (auto split: if_splits)
    with scan_measure [OF 1] 2 show ?thesis by (simp add: parse_measure_def stops_parse_def)
  qed
qed

lemma parse_value_done_measure:
  assumes "parse_value (scan strtod ic) tok lx = Inr (V_done es lx')"
  shows "length (pending lx') \<le> length (pending lx) \<and> \<not> stops_parse tok"
proof -
  obtain t1 lx1 where 1: "scan strtod ic lx = (t1, lx1)" by fastforce
  with assms scan_consumes [OF 1] show ?thesis
    by (cases tok) (auto simp: syntax_error_def stops_parse_def bindE_Inr_iff split: if_splits token.splits)
qed

lemma state_step_measure:
  assumes "state_step (scan strtod ic) b lx = Inr n"
  shows "case n of S_next es t lx' \<Rightarrow> parse_measure False t lx' < Suc (length (pending lx))
    | S_close e t lx' \<Rightarrow> length (pending lx') < length (pending lx)"
proof -
  obtain t1 lx1 where 1: "scan strtod ic lx = (t1, lx1)" by fastforce
  obtain t2 lx2 where 2: "scan strtod ic lx1 = (t2, lx2)" by fastforce
  have le: "length (pending lx1) \<le> length (pending lx)" "length (pending lx2) \<le> length (pending lx1)"
    using scan_consumes [OF 1] scan_consumes [OF 2] by auto
  have c: "\<not> stops_parse t1 \<Longrightarrow> length (pending lx1) < length (pending lx)" using scan_consumes [OF 1] by simp
  show ?thesis
    using assms 1 2 le c scan_measure [OF 2] after_key_measure [of strtod ic lx2]
    by (fastforce simp: state_step_def syntax_error_def stops_parse_def bindE_Inr_iff split: if_splits token.splits)
qed

function sax_parse_internal ::
  "(octets \<Rightarrow> u64) \<Rightarrow> bool \<Rightarrow> bool list \<Rightarrow> bool \<Rightarrow> token \<Rightarrow> lexer \<Rightarrow> json_error + sax_event list \<times> lexer" where
  "sax_parse_internal strtod ic states skip last_token lx =
     bindE (if skip then Inr (V_done [] lx) else parse_value (scan strtod ic) last_token lx) (\<lambda>v.
     case v of
       V_open es b t lx1 \<Rightarrow> emit es (sax_parse_internal strtod ic (b # states) False t lx1)
     | V_done es lx1 \<Rightarrow>
         (case states of
            [] \<Rightarrow> Inr (es, lx1)
          | b # states' \<Rightarrow>
              bindE (state_step (scan strtod ic) b lx1) (\<lambda>n.
              case n of
                S_next es' t lx2 \<Rightarrow> emit (es @ es') (sax_parse_internal strtod ic states False t lx2)
              | S_close e t lx2 \<Rightarrow> emit (es @ [e]) (sax_parse_internal strtod ic states' True t lx2))))"
  by auto
termination
proof (relation "measure (\<lambda>(strtod, ic, states, skip, t, lx). parse_measure skip t lx)", goal_cases)
  case 1
  then show ?case by simp
next
  case (4 strtod ic states skip tok lx v es b t lx1)
  then have "\<not> skip" "parse_value (scan strtod ic) tok lx = Inr (V_open es b t lx1)" by (auto split: if_splits)
  with parse_value_open_measure show ?case by auto
next
  case (2 strtod ic states skip tok lx v es lx1 b states' n es' t lx2)
  then have "length (pending lx1) \<le> length (pending lx)" "skip \<or> \<not> stops_parse tok"
    using parse_value_done_measure [of strtod ic tok lx es lx1] by (auto split: if_splits)
  with 2 state_step_measure [of strtod ic b lx1 n] show ?case by (auto simp: parse_measure_def)
next
  case (3 strtod ic states skip tok lx v es lx1 b states' n e t lx2)
  then have "length (pending lx1) \<le> length (pending lx)" "skip \<or> \<not> stops_parse tok"
    using parse_value_done_measure [of strtod ic tok lx es lx1] by (auto split: if_splits)
  with 3 state_step_measure [of strtod ic b lx1 n] show ?case by (auto simp: parse_measure_def)
qed

declare sax_parse_internal.simps [simp del]

section \<open>The interface\<close>

text \<open>
  \<^verbatim>\<open>parse\<close> without a callback: the handler builds the value; in strict mode the next token has to
  be the end of the input. Without exceptions every error gives a discarded value.
\<close>

definition json_parse ::
  "(octets \<Rightarrow> u64) \<Rightarrow> u8 \<Rightarrow> bool \<Rightarrow> bool \<Rightarrow> bool \<Rightarrow> octets \<Rightarrow> json_error + json" where
  "json_parse strtod dp ignore_comments strict allow_exceptions bs =
     (case
       (case scan strtod ignore_comments (lexer_new dp bs) of (t, lx) \<Rightarrow>
        bindE (sax_parse_internal strtod ignore_comments [] False t lx) (\<lambda>(es, lx1).
        bindE (build es) (\<lambda>v.
        if strict then
          (case scan strtod ignore_comments lx1 of (t2, lx2) \<Rightarrow>
           if t2 = T_end_of_input then Inr v else syntax_error lx2)
        else Inr v)))
      of Inl e \<Rightarrow> if allow_exceptions then Inl e else Inr JDiscarded
       | Inr v \<Rightarrow> Inr v)"

text \<open>\<^verbatim>\<open>accept\<close>: a handler that ignores all events.\<close>

definition json_accept :: "(octets \<Rightarrow> u64) \<Rightarrow> u8 \<Rightarrow> bool \<Rightarrow> bool \<Rightarrow> octets \<Rightarrow> bool" where
  "json_accept strtod dp ignore_comments strict bs =
     (case scan strtod ignore_comments (lexer_new dp bs) of (t, lx) \<Rightarrow>
      case sax_parse_internal strtod ignore_comments [] False t lx of
        Inl e \<Rightarrow> False
      | Inr (es, lx1) \<Rightarrow> strict \<longrightarrow> fst (scan strtod ignore_comments lx1) = T_end_of_input)"

end
