(* ===== verification/Json_Dump.thy ===== *)
theory Json_Dump
  imports Json_Utf8 Json_Parser Json_Grisu
begin

text \<open>
  The serializer of the JSON text format in \<^verbatim>\<open>include/hv/json.hpp\<close>: the escaping of strings with
  its output buffer and its three ways to treat bytes that are no UTF-8, the printing of integers by
  pairs of digits, and \<^verbatim>\<open>dump\<close> with and without line breaks. The decimal text of a floating-point
  number comes from \<open>Json_Grisu\<close>.
\<close>

unbundle bit_operations_syntax

section \<open>Strings\<close>

text \<open>
  \<open>InvalidUtf8\<close> and \<open>IncompleteUtf8\<close> are the exception 316. \<open>BufferOverrun\<close> and \<open>IndentOverread\<close> mark
  memory accesses outside the buffers of strings and numbers and outside the string of indentation
  characters, and \<open>NumberAssert\<close> is a failed assertion in
  \<^verbatim>\<open>to_chars\<close>, \<^verbatim>\<open>remove_sign\<close> or \<^verbatim>\<open>dump_integer\<close>.
\<close>

datatype dump_error = InvalidUtf8 nat | IncompleteUtf8 | BufferOverrun | IndentOverread | NumberAssert

datatype error_handler_t = EH_strict | EH_replace | EH_ignore

definition lit :: "string \<Rightarrow> octets" where
  "lit s = map of_char s"

definition hex_digit :: "nat \<Rightarrow> u8" where
  "hex_digit d = of_nat (if d < 10 then 0x30 + d else 0x57 + d)"

text \<open>\<^verbatim>\<open>"\u%04x"\<close> of a 16-bit number.\<close>

definition u_escape :: "nat \<Rightarrow> octets" where
  "u_escape n =
     [0x5C, 0x75, hex_digit (n div 4096 mod 16), hex_digit (n div 256 mod 16), hex_digit (n div 16 mod 16),
      hex_digit (n mod 16)]"

text \<open>What is written for a code point, \<open>None\<close> if the last byte is copied.\<close>

definition escape_of :: "bool \<Rightarrow> nat \<Rightarrow> octets option" where
  "escape_of ascii cp =
     (if cp = 0x08 then Some [0x5C, 0x62] else if cp = 0x09 then Some [0x5C, 0x74]
      else if cp = 0x0A then Some [0x5C, 0x6E] else if cp = 0x0C then Some [0x5C, 0x66]
      else if cp = 0x0D then Some [0x5C, 0x72] else if cp = 0x22 then Some [0x5C, 0x22]
      else if cp = 0x5C then Some [0x5C, 0x5C]
      else if cp \<le> 0x1F \<or> ascii \<and> 0x7F \<le> cp then
        Some (if cp \<le> 0xFFFF then u_escape cp
              else u_escape (0xD7C0 + drop_bit 10 cp) @ u_escape (0xDC00 + (cp AND 0x3FF)))
      else None)"

text \<open>
  The buffer of 512 bytes: \<open>es_out\<close> was written out, \<open>es_buf\<close> are the bytes in the buffer,
  \<open>es_last\<close> is \<^verbatim>\<open>bytes_after_last_accept\<close>. \<^verbatim>\<open>snprintf\<close> needs room for a null byte.
\<close>

record escaper =
  es_state :: nat
  es_codep :: nat
  es_out :: octets
  es_buf :: octets
  es_last :: nat
  es_undumped :: nat

definition es_put :: "nat \<Rightarrow> octets \<Rightarrow> escaper \<Rightarrow> dump_error + escaper" where
  "es_put extra bs e =
     (if 512 < length (es_buf e) + length bs + extra then Inl BufferOverrun
      else Inr (e\<lparr>es_buf := es_buf e @ bs\<rparr>))"

definition es_flush :: "escaper \<Rightarrow> escaper" where
  "es_flush e =
     (if 512 - length (es_buf e) < 13 then e\<lparr>es_out := es_out e @ es_buf e, es_buf := []\<rparr> else e)"

definition es_mark :: "escaper \<Rightarrow> escaper" where
  "es_mark e = e\<lparr>es_last := length (es_buf e), es_undumped := 0\<rparr>"

definition es_accept :: "bool \<Rightarrow> u8 \<Rightarrow> escaper \<Rightarrow> dump_error + escaper" where
  "es_accept ascii b e =
     bindE (case escape_of ascii (es_codep e) of
              None \<Rightarrow> es_put 0 [b] e
            | Some t \<Rightarrow> es_put (if length t \<le> 2 then 0 else 1) t e) (\<lambda>e1.
     Inr (es_mark (es_flush e1)))"

definition replacement :: "bool \<Rightarrow> octets" where
  "replacement ascii = (if ascii then [0x5C, 0x75, 0x66, 0x66, 0x66, 0x64] else [0xEF, 0xBF, 0xBD])"

definition es_reject :: "error_handler_t \<Rightarrow> bool \<Rightarrow> escaper \<Rightarrow> dump_error + escaper" where
  "es_reject handler ascii e =
     (let e1 = e\<lparr>es_buf := take (es_last e) (es_buf e)\<rparr> in
      bindE (if handler = EH_replace
             then bindE (es_put 0 (replacement ascii) e1) (\<lambda>e2. Inr (es_mark (es_flush e2)))
             else Inr e1) (\<lambda>e3.
      Inr (e3\<lparr>es_undumped := 0, es_state := UTF8_ACCEPT\<rparr>)))"

lemma es_reject_undumped: "es_reject handler ascii e = Inr e1 \<Longrightarrow> es_undumped e1 = 0"
  by (auto simp: es_reject_def bindE_Inr_iff Let_def)

text \<open>The loop; \<open>i\<close> is the index of the next byte. A rejected byte is read again if others were pending.\<close>

function escape_loop ::
  "error_handler_t \<Rightarrow> bool \<Rightarrow> nat \<Rightarrow> octets \<Rightarrow> escaper \<Rightarrow> dump_error + escaper" where
  "escape_loop handler ascii i [] e = Inr e"
| "escape_loop handler ascii i (b # s) e =
     (case decode (es_state e) (es_codep e) b of (st, cp) \<Rightarrow>
      let e0 = e\<lparr>es_state := st, es_codep := cp\<rparr> in
      if st = UTF8_ACCEPT then bindE (es_accept ascii b e0) (\<lambda>e1. escape_loop handler ascii (Suc i) s e1)
      else if st = UTF8_REJECT then
        (if handler = EH_strict then Inl (InvalidUtf8 i)
         else if 0 < es_undumped e
         then bindE (es_reject handler ascii e0) (\<lambda>e1. escape_loop handler ascii i (b # s) e1)
         else bindE (es_reject handler ascii e0) (\<lambda>e1. escape_loop handler ascii (Suc i) s e1))
      else
        bindE (if ascii then Inr e0 else es_put 0 [b] e0) (\<lambda>e1.
        escape_loop handler ascii (Suc i) s (e1\<lparr>es_undumped := Suc (es_undumped e1)\<rparr>)))"
  by pat_completeness auto

termination
  by (relation "measures [\<lambda>(h, a, i, s, e). length s, \<lambda>(h, a, i, s, e). es_undumped e]")
     (auto dest: es_reject_undumped)

declare escape_loop.simps(2) [simp del]

definition dump_escaped :: "error_handler_t \<Rightarrow> bool \<Rightarrow> octets \<Rightarrow> dump_error + octets" where
  "dump_escaped handler ascii s =
     bindE (escape_loop handler ascii 0 s
              \<lparr>es_state = UTF8_ACCEPT, es_codep = 0, es_out = [], es_buf = [], es_last = 0, es_undumped = 0\<rparr>) (\<lambda>e.
     if es_state e = UTF8_ACCEPT then Inr (es_out e @ es_buf e)
     else
       case handler of
         EH_strict \<Rightarrow> Inl IncompleteUtf8
       | EH_ignore \<Rightarrow> Inr (es_out e @ take (es_last e) (es_buf e))
       | EH_replace \<Rightarrow> Inr (es_out e @ take (es_last e) (es_buf e) @ replacement ascii))"

section \<open>Integers\<close>

function count_digits :: "nat \<Rightarrow> nat \<Rightarrow> nat" where
  "count_digits x n_digits =
     (if x < 10 then n_digits else if x < 100 then n_digits + 1 else if x < 1000 then n_digits + 2
      else if x < 10000 then n_digits + 3 else count_digits (x div 10000) (n_digits + 4))"
  by auto
termination by (relation "measure fst") auto

declare count_digits.simps [simp del]

text \<open>The table \<^verbatim>\<open>digits_to_99\<close>, entry by entry, and writing from the end of the number to the front.\<close>

definition digits_to_99 :: "nat \<Rightarrow> u8 \<times> u8" where
  "digits_to_99 k =
     (case [
      ''00'', ''01'', ''02'', ''03'', ''04'', ''05'', ''06'', ''07'', ''08'', ''09'',
      ''10'', ''11'', ''12'', ''13'', ''14'', ''15'', ''16'', ''17'', ''18'', ''19'',
      ''20'', ''21'', ''22'', ''23'', ''24'', ''25'', ''26'', ''27'', ''28'', ''29'',
      ''30'', ''31'', ''32'', ''33'', ''34'', ''35'', ''36'', ''37'', ''38'', ''39'',
      ''40'', ''41'', ''42'', ''43'', ''44'', ''45'', ''46'', ''47'', ''48'', ''49'',
      ''50'', ''51'', ''52'', ''53'', ''54'', ''55'', ''56'', ''57'', ''58'', ''59'',
      ''60'', ''61'', ''62'', ''63'', ''64'', ''65'', ''66'', ''67'', ''68'', ''69'',
      ''70'', ''71'', ''72'', ''73'', ''74'', ''75'', ''76'', ''77'', ''78'', ''79'',
      ''80'', ''81'', ''82'', ''83'', ''84'', ''85'', ''86'', ''87'', ''88'', ''89'',
      ''90'', ''91'', ''92'', ''93'', ''94'', ''95'', ''96'', ''97'', ''98'', ''99''] ! k of
        [hi, lo] \<Rightarrow> (of_char hi, of_char lo))"

function put_digits :: "nat \<Rightarrow> nat \<Rightarrow> octets \<Rightarrow> octets" where
  "put_digits p abs_value buf =
     (if 100 \<le> abs_value then
        (case digits_to_99 (abs_value mod 100) of (hi, lo) \<Rightarrow>
         put_digits (p - 2) (abs_value div 100) (buf[p - 1 := lo, p - 2 := hi]))
      else if 10 \<le> abs_value then
        (case digits_to_99 abs_value of (hi, lo) \<Rightarrow> buf[p - 1 := lo, p - 2 := hi])
      else buf[p - 1 := of_nat (0x30 + abs_value)])"
  by auto
termination by (relation "measure (\<lambda>(p, n, buf). n)") auto

declare put_digits.simps [simp del]

text \<open>The magnitude of a negative \<^verbatim>\<open>number_integer_t\<close>, computed so that the smallest one does not overflow.\<close>

definition remove_sign :: "int \<Rightarrow> dump_error + u64" where
  "remove_sign x =
     (if x < 0 then Inr ((word_of_int (- (x + 1)) :: u64) + 1) else Inl NumberAssert)"

text \<open>\<open>x\<close> is a \<^verbatim>\<open>number_integer_t\<close>, a \<^verbatim>\<open>number_unsigned_t\<close> or a byte; the buffer has 64 bytes.\<close>

definition dump_integer :: "int \<Rightarrow> dump_error + octets" where
  "dump_integer x =
     (if x = 0 then Inr [0x30]
      else
        let neg = x < 0 in
        bindE (if neg then remove_sign x else Inr (word_of_int x)) (\<lambda>w.
        let abs_value = unat w;
            n_chars = (if neg then 1 else 0) + count_digits abs_value 1;
            buf = (replicate 64 0)[0 := if neg then 0x2D else 0]
        in
          if n_chars < 64 - 1 then Inr (take n_chars (put_digits n_chars abs_value buf))
          else Inl NumberAssert))"

section \<open>Values\<close>

record dump_opts =
  pretty_print :: bool
  ensure_ascii :: bool
  indent_step :: nat
  indent_char :: u8
  error_handler :: error_handler_t

definition indent_new :: "dump_opts \<Rightarrow> octets" where
  "indent_new o1 = replicate 512 (indent_char o1)"

text \<open>
  \<open>ind\<close> is \<^verbatim>\<open>indent_string\<close>: it is doubled once, with blanks, when a container needs more of it,
  and as many characters are written from it as the level demands.
\<close>

definition new_indent :: "dump_opts \<Rightarrow> nat \<Rightarrow> nat" where
  "new_indent o1 current_indent = (current_indent + indent_step o1) mod 2 ^ 32"

definition indent_grow :: "nat \<Rightarrow> octets \<Rightarrow> octets" where
  "indent_grow n ind = (if length ind < n then ind @ replicate (length ind) 0x20 else ind)"

definition indent :: "dump_opts \<Rightarrow> nat \<Rightarrow> octets \<Rightarrow> dump_error + octets" where
  "indent o1 n ind =
     (if \<not> pretty_print o1 then Inr []
      else if length ind < n then Inl IndentOverread else Inr (take n ind))"

fun join :: "octets \<Rightarrow> octets list \<Rightarrow> octets" where
  "join sep [] = []"
| "join sep [x] = x"
| "join sep (x # y # ys) = x @ sep @ join sep (y # ys)"

text \<open>\<^verbatim>\<open>to_chars\<close> writes into a buffer of 64 bytes.\<close>

definition dump_float :: "u64 \<Rightarrow> dump_error + octets" where
  "dump_float d =
     (if is_finite d then
        (case to_chars d of
           Inl _ \<Rightarrow> Inl NumberAssert
         | Inr t \<Rightarrow> if 64 < length t then Inl BufferOverrun else Inr t)
      else Inr (lit ''null''))"

definition dump_subtype :: "u8 option \<Rightarrow> dump_error + octets" where
  "dump_subtype t = (case t of None \<Rightarrow> Inr (lit ''null'') | Some n \<Rightarrow> dump_integer (int (unat n)))"

fun dump_bytes :: "octets \<Rightarrow> dump_error + octets list" where
  "dump_bytes [] = Inr []"
| "dump_bytes (x # b) =
     bindE (dump_integer (int (unat x))) (\<lambda>t. bindE (dump_bytes b) (\<lambda>ts. Inr (t # ts)))"

definition dump_binary :: "dump_opts \<Rightarrow> nat \<Rightarrow> octets \<Rightarrow> u8 option \<Rightarrow> octets \<Rightarrow> dump_error + octets \<times> octets" where
  "dump_binary o1 cur b t ind =
     (if pretty_print o1 then
        let ind1 = indent_grow (new_indent o1 cur) ind in
        bindE (indent o1 (new_indent o1 cur) ind1) (\<lambda>i1.
        bindE (dump_bytes b) (\<lambda>bytes.
        bindE (dump_subtype t) (\<lambda>sub.
        bindE (indent o1 cur ind1) (\<lambda>i2.
        Inr (lit ''{\<newline>'' @ i1 @ [0x22] @ lit ''bytes'' @ [0x22] @ lit '': ['' @ join (lit '', '') bytes @
             lit ''],\<newline>'' @ i1 @ [0x22] @ lit ''subtype'' @ [0x22] @ lit '': '' @ sub @
             lit ''\<newline>'' @ i2 @ lit ''}'', ind1)))))
      else
        bindE (dump_bytes b) (\<lambda>bytes.
        bindE (dump_subtype t) (\<lambda>sub.
        Inr (lit ''{'' @ [0x22] @ lit ''bytes'' @ [0x22] @ lit '':['' @ join (lit '','') bytes @
             lit ''],'' @ [0x22] @ lit ''subtype'' @ [0x22] @ lit '':'' @ sub @ lit ''}'', ind))))"

text \<open>The line breaks after an opening and before a closing bracket, and the separators.\<close>

definition break :: "dump_opts \<Rightarrow> octets" where
  "break o1 = (if pretty_print o1 then [0x0A] else [])"

definition colon :: "dump_opts \<Rightarrow> octets" where
  "colon o1 = (if pretty_print o1 then [0x22, 0x3A, 0x20] else [0x22, 0x3A])"

definition inner_indent :: "dump_opts \<Rightarrow> nat \<Rightarrow> nat" where
  "inner_indent o1 cur = (if pretty_print o1 then new_indent o1 cur else cur)"

fun dump :: "dump_opts \<Rightarrow> nat \<Rightarrow> json \<Rightarrow> octets \<Rightarrow> dump_error + octets \<times> octets"
  and dump_elements :: "dump_opts \<Rightarrow> nat \<Rightarrow> json list \<Rightarrow> octets \<Rightarrow> dump_error + octets \<times> octets"
  and dump_entries :: "dump_opts \<Rightarrow> nat \<Rightarrow> (octets \<times> json) list \<Rightarrow> octets \<Rightarrow> dump_error + octets \<times> octets"
where
  "dump o1 cur (JObject m) ind =
     (if m = [] then Inr (lit ''{}'', ind)
      else
        let new = inner_indent o1 cur; ind1 = (if pretty_print o1 then indent_grow new ind else ind) in
        bindE (dump_entries o1 new m ind1) (\<lambda>(t, ind2).
        bindE (indent o1 cur ind2) (\<lambda>i.
        Inr ([0x7B] @ break o1 @ t @ break o1 @ i @ [0x7D], ind2))))"
| "dump o1 cur (JArray xs) ind =
     (if xs = [] then Inr (lit ''[]'', ind)
      else
        let new = inner_indent o1 cur; ind1 = (if pretty_print o1 then indent_grow new ind else ind) in
        bindE (dump_elements o1 new xs ind1) (\<lambda>(t, ind2).
        bindE (indent o1 cur ind2) (\<lambda>i.
        Inr ([0x5B] @ break o1 @ t @ break o1 @ i @ [0x5D], ind2))))"
| "dump o1 cur (JString s) ind =
     bindE (dump_escaped (error_handler o1) (ensure_ascii o1) s) (\<lambda>t. Inr ([0x22] @ t @ [0x22], ind))"
| "dump o1 cur (JBinary b t) ind = dump_binary o1 cur b t ind"
| "dump o1 cur (JBool b) ind = Inr (if b then lit ''true'' else lit ''false'', ind)"
| "dump o1 cur (JInt i) ind = bindE (dump_integer i) (\<lambda>t. Inr (t, ind))"
| "dump o1 cur (JUint n) ind = bindE (dump_integer (int n)) (\<lambda>t. Inr (t, ind))"
| "dump o1 cur (JFloat d) ind = bindE (dump_float d) (\<lambda>t. Inr (t, ind))"
| "dump o1 cur JDiscarded ind = Inr (lit ''<discarded>'', ind)"
| "dump o1 cur JNull ind = Inr (lit ''null'', ind)"
| "dump_elements o1 cur [] ind = Inr ([], ind)"
| "dump_elements o1 cur (x # xs) ind =
     bindE (indent o1 cur ind) (\<lambda>i.
     bindE (dump o1 cur x ind) (\<lambda>(t, ind1).
     if xs = [] then Inr (i @ t, ind1)
     else
       bindE (dump_elements o1 cur xs ind1) (\<lambda>(u, ind2).
       Inr (i @ t @ [0x2C] @ break o1 @ u, ind2))))"
| "dump_entries o1 cur [] ind = Inr ([], ind)"
| "dump_entries o1 cur ((k, x) # m) ind =
     bindE (indent o1 cur ind) (\<lambda>i.
     bindE (dump_escaped (error_handler o1) (ensure_ascii o1) k) (\<lambda>kt.
     bindE (dump o1 cur x ind) (\<lambda>(t, ind1).
     if m = [] then Inr (i @ [0x22] @ kt @ colon o1 @ t, ind1)
     else
       bindE (dump_entries o1 cur m ind1) (\<lambda>(u, ind2).
       Inr (i @ [0x22] @ kt @ colon o1 @ t @ [0x2C] @ break o1 @ u, ind2)))))"

text \<open>The member function \<^verbatim>\<open>dump\<close> of a value: a negative indentation gives one line.\<close>

definition json_dump ::
  "int \<Rightarrow> u8 \<Rightarrow> bool \<Rightarrow> error_handler_t \<Rightarrow> json \<Rightarrow> dump_error + octets" where
  "json_dump ind ind_char ascii handler v =
     (let o1 = \<lparr>pretty_print = 0 \<le> ind, ensure_ascii = ascii, indent_step = (if 0 \<le> ind then nat ind else 0),
                indent_char = ind_char, error_handler = handler\<rparr>
      in bindE (dump o1 0 v (indent_new o1)) (\<lambda>(t, _). Inr t))"

end
