(* ===== verification/Json_Escape.thy ===== *)
theory Json_Escape
  imports Json_Dump
begin

text \<open>
  The escaping of strings against a reference: \<open>decode_all\<close> cuts a string into characters and
  ill-formed parts, and \<^verbatim>\<open>dump_escaped\<close> writes the escape sequence or the bytes of every character.
  The buffer of 512 bytes is never overrun, and strict mode accepts exactly UTF-8.
\<close>

section \<open>Characters of a string\<close>

text \<open>How many bytes are as the ranges demand.\<close>

fun take_ranges :: "(u8 \<times> u8) list \<Rightarrow> octets \<Rightarrow> nat" where
  "take_ranges ((lo, hi) # rs) (b # s) = (if lo \<le> b \<and> b \<le> hi then Suc (take_ranges rs s) else 0)"
| "take_ranges _ _ = 0"

lemma take_ranges_le: "take_ranges rs s \<le> length rs" "take_ranges rs s \<le> length s"
  by (induction rs s rule: take_ranges.induct) auto

lemma take_ranges_in: "take_ranges rs s = length rs \<longleftrightarrow> in_ranges rs (take (length rs) s)"
proof (induction rs arbitrary: s)
  case (Cons r rs)
  then show ?case by (cases r; cases s) auto
qed simp

text \<open>A code point, or nothing for a part that cannot be continued to a character.\<close>

fun decode_all :: "octets \<Rightarrow> nat option list" where
  "decode_all [] = []"
| "decode_all (b # s) =
     (case lead_ranges b of
        None \<Rightarrow> None # decode_all s
      | Some rs \<Rightarrow>
          let n = take_ranges rs s in
          (if n = length rs then Some (continue (lead_value (unat b)) (take n s)) else None) # decode_all (drop n s))"

declare decode_all.simps(2) [simp del]

lemma decode_all_char:
  assumes "scalar cp"
  shows "decode_all (utf8_bytes cp @ s) = Some cp # decode_all s"
proof -
  obtain b cs rs where u: "utf8_bytes cp = b # cs" "lead_ranges b = Some rs" "in_ranges rs cs"
      "continue (lead_value (unat b)) cs = cp"
    using lead_of_scalar [OF assms] by blast
  have l: "length rs = length cs" using u(3) by (simp add: in_ranges_def list_all2_lengthD)
  then have "take_ranges rs (cs @ s) = length cs" using u(3) take_ranges_in [of rs "cs @ s"] by simp
  with u l show ?thesis by (simp add: decode_all.simps(2) Let_def)
qed

lemma decode_all_utf8: "list_all scalar cps \<Longrightarrow> decode_all (concat (map utf8_bytes cps)) = map Some cps"
  by (induction cps) (simp_all add: decode_all_char)

lemma decode_all_scalar:
  "None \<notin> set (decode_all s) \<Longrightarrow>
     \<exists>cps. decode_all s = map Some cps \<and> list_all scalar cps \<and> s = concat (map utf8_bytes cps)"
proof (induction s rule: decode_all.induct)
  case (2 b s)
  obtain rs where rs: "lead_ranges b = Some rs" using 2(3) by (auto simp: decode_all.simps(2) split: option.splits)
  define n where "n = take_ranges rs s"
  have n: "n = length rs" "None \<notin> set (decode_all (drop n s))"
    using 2(3) rs by (auto simp: decode_all.simps(2) Let_def n_def split: if_splits)
  from 2(2) [OF rs n_def n(2)] obtain cps where cps: "decode_all (drop n s) = map Some cps" "list_all scalar cps"
      "drop n s = concat (map utf8_bytes cps)" by blast
  have "in_ranges rs (take n s)" using n(1) take_ranges_in [of rs s] by (simp add: n_def)
  note e = encode_lead [OF rs this]
  have "b # s = (b # take n s) @ drop n s" by simp
  with e cps n rs show ?case
    by (intro exI [of _ "continue (lead_value (unat b)) (take n s) # cps"])
       (simp add: decode_all.simps(2) Let_def n_def [symmetric])
qed simp

lemma utf8_decode_all: "utf8 s \<longleftrightarrow> None \<notin> set (decode_all s)"
proof
  assume "utf8 s"
  then obtain cps where "list_all scalar cps" "s = concat (map utf8_bytes cps)" by (auto simp: utf8_def)
  then show "None \<notin> set (decode_all s)" using decode_all_utf8 [of cps] by auto
next
  assume "None \<notin> set (decode_all s)"
  then show "utf8 s" using decode_all_scalar unfolding utf8_def by blast
qed

section \<open>The text of a string\<close>

definition escaped :: "bool \<Rightarrow> nat \<Rightarrow> octets" where
  "escaped ascii cp = (case escape_of ascii cp of None \<Rightarrow> utf8_bytes cp | Some t \<Rightarrow> t)"

fun escaped_part :: "error_handler_t \<Rightarrow> bool \<Rightarrow> nat option \<Rightarrow> octets" where
  "escaped_part handler ascii None = (if handler = EH_replace then replacement ascii else [])"
| "escaped_part handler ascii (Some cp) = escaped ascii cp"

text \<open>
  Between characters, and inside one whose remaining bytes have the ranges \<open>rs\<close> and of which the
  bytes \<open>pre\<close> were read: \<open>out\<close> is what was written up to the last character.
\<close>

definition between :: "octets \<Rightarrow> escaper \<Rightarrow> bool" where
  "between out e \<longleftrightarrow> es_state e = 0 \<and> es_out e @ es_buf e = out \<and> length (es_buf e) \<le> 499 \<and>
     es_last e = length (es_buf e) \<and> es_undumped e = 0"

definition inside :: "bool \<Rightarrow> octets \<Rightarrow> octets \<Rightarrow> (u8 \<times> u8) list \<Rightarrow> escaper \<Rightarrow> bool" where
  "inside ascii out pre rs e \<longleftrightarrow> rs \<in> range_lists \<and> es_state e = state_of (Some rs) \<and>
     (\<exists>kept. es_buf e = kept @ (if ascii then [] else pre) \<and> es_out e @ kept = out \<and>
        es_last e = length kept \<and> length kept \<le> 499) \<and>
     es_undumped e = length pre \<and> 0 < length pre \<and> length pre + length rs \<le> 4"

lemma state_of_list: "rs \<in> range_lists \<Longrightarrow> state_of (Some rs) \<noteq> 0 \<and> state_of (Some rs) \<noteq> 1"
  by (auto simp: range_lists_def)

lemma range_lists_bounds: "(lo, hi) # rs \<in> range_lists \<Longrightarrow> 0x80 \<le> lo \<and> hi \<le> 0xBF"
  by (auto simp: range_lists_def)

lemma cont_bits: "0x80 \<le> (b :: u8) \<Longrightarrow> b \<le> 0xBF \<Longrightarrow> unat b mod 64 = unat b - 0x80"
  using mod_window [of 2 64 "unat b"] by (simp add: u8_le)

lemma length_escape: "escape_of ascii cp = Some t \<Longrightarrow> length t + (if length t \<le> 2 then 0 else 1) \<le> 13"
  by (auto simp: escape_of_def u_escape_def split: if_splits)

text \<open>The end of a character.\<close>

lemma es_accept_ok:
  assumes "es_state e = 0" and "length (es_buf e) \<le> 502" and "escape_of ascii (es_codep e) \<noteq> None \<longrightarrow> length (es_buf e) \<le> 499"
  shows "\<exists>e'. es_accept ascii b e = Inr e' \<and>
    between (es_out e @ es_buf e @ (case escape_of ascii (es_codep e) of None \<Rightarrow> [b] | Some t \<Rightarrow> t)) e'"
proof (cases "escape_of ascii (es_codep e)")
  case None
  with assms show ?thesis by (auto simp: es_accept_def es_put_def es_mark_def es_flush_def between_def)
next
  case (Some t)
  with assms length_escape [OF Some] show ?thesis
    by (auto simp: es_accept_def es_put_def es_mark_def es_flush_def between_def)
qed

lemma escape_multi: "0x80 \<le> cp \<Longrightarrow> (escape_of ascii cp = None) = (\<not> ascii)"
  by (auto simp: escape_of_def)

lemma inside_accept:
  assumes "inside ascii out pre [r] e" and "decode (es_state e) (es_codep e) b = (0, cp)" and "0x80 \<le> cp"
    and "utf8_bytes cp = pre @ [b]"
  shows "\<exists>e'. es_accept ascii b (e\<lparr>es_state := 0, es_codep := cp\<rparr>) = Inr e' \<and> between (out @ escaped ascii cp) e'"
proof -
  let ?e = "e\<lparr>es_state := 0, es_codep := cp\<rparr>"
  obtain kept where buf: "es_buf e = kept @ (if ascii then [] else pre)" "es_out e @ kept = out"
      "length kept \<le> 499" "length pre \<le> 3"
    using assms(1) by (auto simp: inside_def)
  then have len: "length (es_buf e) \<le> 502" "ascii \<longrightarrow> length (es_buf e) \<le> 499" by (auto split: if_splits)
  have "\<exists>e'. es_accept ascii b ?e = Inr e' \<and>
      between (es_out ?e @ es_buf ?e @ (case escape_of ascii (es_codep ?e) of None \<Rightarrow> [b] | Some t \<Rightarrow> t)) e'"
    by (rule es_accept_ok) (use len escape_multi [OF assms(3), of ascii] in auto)
  moreover have "es_out e @ es_buf e @ (case escape_of ascii cp of None \<Rightarrow> [b] | Some t \<Rightarrow> t) = out @ escaped ascii cp"
  proof (cases ascii)
    case True
    then obtain t where "escape_of ascii cp = Some t" using escape_multi [OF assms(3), of ascii] by auto
    with True buf(1,2) show ?thesis by (auto simp: escaped_def)
  next
    case False
    then have "escape_of ascii cp = None" using escape_multi [OF assms(3), of ascii] by simp
    moreover have "es_out e @ es_buf e = out @ pre" using False buf(1,2) by auto
    ultimately show ?thesis using assms(4) by (simp add: escaped_def)
  qed
  ultimately show ?thesis by simp
qed

text \<open>One more byte of a character, and the first one.\<close>

definition es_more :: "bool \<Rightarrow> u8 \<Rightarrow> escaper \<Rightarrow> dump_error + escaper" where
  "es_more ascii b e =
     bindE (if ascii then Inr e else es_put 0 [b] e) (\<lambda>e1. Inr (e1\<lparr>es_undumped := Suc (es_undumped e1)\<rparr>))"

lemma escape_loop_more:
  assumes "decode (es_state e) (es_codep e) b = (st, cp)" and "st \<noteq> 0" and "st \<noteq> 1"
  shows "escape_loop h ascii i (b # s) e =
    bindE (es_more ascii b (e\<lparr>es_state := st, es_codep := cp\<rparr>)) (\<lambda>e1. escape_loop h ascii (Suc i) s e1)"
  using assms by (simp add: escape_loop.simps(2) es_more_def UTF8_ACCEPT_def UTF8_REJECT_def bindE_assoc)

lemma inside_more:
  assumes "inside ascii out pre (r # rs) e" and "rs \<in> range_lists"
  shows "\<exists>e'. es_more ascii b (e\<lparr>es_state := state_of (Some rs), es_codep := cp\<rparr>) = Inr e' \<and>
    inside ascii out (pre @ [b]) rs e' \<and> es_codep e' = cp"
proof -
  obtain kept where buf: "es_buf e = kept @ (if ascii then [] else pre)" "es_out e @ kept = out"
      "es_last e = length kept" "length kept \<le> 499" "length pre \<le> 3"
    using assms(1) by (auto simp: inside_def)
  then show ?thesis using assms by (cases ascii) (auto simp: inside_def es_more_def es_put_def)
qed

lemma between_lead:
  assumes "between out e" and "rs \<in> range_lists"
  shows "\<exists>e'. es_more ascii b (e\<lparr>es_state := state_of (Some rs), es_codep := cp\<rparr>) = Inr e' \<and>
    inside ascii out [b] rs e' \<and> es_codep e' = cp"
proof -
  have "length rs \<le> 3" using assms(2) by (auto simp: range_lists_def)
  with assms show ?thesis by (auto simp: between_def inside_def es_more_def es_put_def)
qed

lemma inside_complete:
  assumes "inside ascii out pre rs e" and "take_ranges rs s = length rs"
    and "cp = continue (es_codep e) (take (length rs) s)" and "0x80 \<le> cp" and "utf8_bytes cp = pre @ take (length rs) s"
  shows "\<exists>e'. between (out @ escaped ascii cp) e' \<and>
    escape_loop h ascii i s e = escape_loop h ascii (i + length rs) (drop (length rs) s) e'"
  using assms
proof (induction rs arbitrary: pre s e i)
  case Nil
  then show ?case by (simp add: inside_def range_lists_def)
next
  case (Cons r rs)
  obtain lo hi where r: "r = (lo, hi)" by (cases r)
  obtain b t where s: "s = b # t" using Cons.prems(2) by (cases s) (auto simp: r)
  have in_r: "lo \<le> b" "b \<le> hi" "take_ranges rs t = length rs"
    using Cons.prems(2) by (auto simp: r s split: if_splits)
  have l: "(lo, hi) # rs \<in> range_lists" and st: "es_state e = state_of (Some ((lo, hi) # rs))"
    using Cons.prems(1) by (simp_all add: inside_def r del: state_of.simps)
  have "unat b mod 64 = unat b - 0x80" using in_r range_lists_bounds [OF l] by (intro cont_bits) auto
  then have d: "decode (es_state e) (es_codep e) b = (state_of (Some rs), es_codep e * 64 + (unat b - 0x80))"
    unfolding st decode_next [OF l] using in_r by (simp del: state_of.simps)
  show ?case
  proof (cases "rs = []")
    case True
    have cp: "cp = es_codep e * 64 + (unat b - 0x80)" using Cons.prems(3) by (simp add: True s continue_def)
    from d True cp have "decode (es_state e) (es_codep e) b = (0, cp)" by simp
    moreover from inside_accept [OF _ this Cons.prems(4)] Cons.prems(1,5) True s
    obtain e' where "es_accept ascii b (e\<lparr>es_state := 0, es_codep := cp\<rparr>) = Inr e'"
      "between (out @ escaped ascii cp) e'" by fastforce
    ultimately show ?thesis
      by (intro exI [of _ e']) (simp add: True s escape_loop.simps(2) UTF8_ACCEPT_def)
  next
    case False
    then have rs: "rs \<in> range_lists" using range_lists_tl [OF l] by simp
    from inside_more [OF Cons.prems(1) rs] obtain e1 where e1:
      "es_more ascii b (e\<lparr>es_state := state_of (Some rs), es_codep := es_codep e * 64 + (unat b - 0x80)\<rparr>) = Inr e1"
      "inside ascii out (pre @ [b]) rs e1" "es_codep e1 = es_codep e * 64 + (unat b - 0x80)" by blast
    have "\<exists>e'. between (out @ escaped ascii cp) e' \<and>
        escape_loop h ascii (Suc i) t e1 = escape_loop h ascii (Suc i + length rs) (drop (length rs) t) e'"
      by (rule Cons.IH [OF e1(2) in_r(3) _ Cons.prems(4)]) (use Cons.prems(3,5) in \<open>simp_all add: s e1(3) continue_def\<close>)
    moreover have "escape_loop h ascii i s e = escape_loop h ascii (Suc i) t e1"
      unfolding s using escape_loop_more [OF d] state_of_list [OF rs] e1(1) by simp
    ultimately show ?thesis by (simp add: s)
  qed
qed

text \<open>A byte that does not continue the character.\<close>

lemma es_reject_ok:
  assumes "es_last e \<le> 499" and "es_last e \<le> length (es_buf e)" and "h \<noteq> EH_strict"
  shows "\<exists>e'. es_reject h ascii e = Inr e' \<and>
    between (es_out e @ take (es_last e) (es_buf e) @ escaped_part h ascii None) e'"
  using assms
  by (auto simp: es_reject_def es_put_def es_mark_def es_flush_def between_def replacement_def UTF8_ACCEPT_def Let_def)

lemma inside_kept:
  "inside ascii out pre rs e \<Longrightarrow>
     es_out e @ take (es_last e) (es_buf e) = out \<and> es_last e \<le> 499 \<and> es_last e \<le> length (es_buf e)"
  by (auto simp: inside_def)

lemma inside_broken:
  assumes "inside ascii out pre rs e" and "take_ranges rs s < length rs"
  shows "if take_ranges rs s = length s
    then \<exists>e'. escape_loop h ascii i s e = Inr e' \<and> es_state e' \<noteq> 0 \<and> es_out e' @ take (es_last e') (es_buf e') = out
    else if h = EH_strict then escape_loop h ascii i s e = Inl (InvalidUtf8 (i + take_ranges rs s))
    else \<exists>e'. between (out @ escaped_part h ascii None) e' \<and>
      escape_loop h ascii i s e = escape_loop h ascii (i + take_ranges rs s) (drop (take_ranges rs s) s) e'"
  using assms
proof (induction rs arbitrary: pre s e i)
  case (Cons r rs)
  obtain lo hi where r: "r = (lo, hi)" by (cases r)
  have l: "(lo, hi) # rs \<in> range_lists" and st: "es_state e = state_of (Some ((lo, hi) # rs))"
    using Cons.prems(1) by (simp_all add: inside_def r del: state_of.simps)
  show ?case
  proof (cases s)
    case Nil
    then show ?thesis
      using inside_kept [OF Cons.prems(1)] state_of_list [OF l] by (simp add: st del: state_of.simps)
  next
    case s: (Cons b t)
    show ?thesis
    proof (cases "lo \<le> b \<and> b \<le> hi")
      case True
      then have n: "take_ranges (r # rs) s = Suc (take_ranges rs t)" by (simp add: r s)
      with Cons.prems(2) have lt: "take_ranges rs t < length rs" by simp
      then have rs: "rs \<in> range_lists" using range_lists_tl [OF l] by auto
      have d: "decode (es_state e) (es_codep e) b = (state_of (Some rs), es_codep e * 64 + unat b mod 64)"
        unfolding st decode_next [OF l] using True by (simp del: state_of.simps)
      from inside_more [OF Cons.prems(1) rs] obtain e1 where e1:
        "es_more ascii b (e\<lparr>es_state := state_of (Some rs), es_codep := es_codep e * 64 + unat b mod 64\<rparr>) = Inr e1"
        "inside ascii out (pre @ [b]) rs e1" by blast
      have "escape_loop h ascii i s e = escape_loop h ascii (Suc i) t e1"
        unfolding s using escape_loop_more [OF d] state_of_list [OF rs] e1(1) by simp
      then have loop: "escape_loop h ascii i (b # t) e = escape_loop h ascii (Suc i) t e1" unfolding s .
      show ?thesis
        using Cons.IH [OF e1(2) lt, of "Suc i"] unfolding n unfolding s loop
        by (simp del: escaped_part.simps neq0_conv cong: if_cong)
    next
      case False
      then have n: "take_ranges (r # rs) s = 0" by (simp add: r s)
      define e0 where "e0 = e\<lparr>es_state := 1, es_codep := es_codep e * 64 + unat b mod 64\<rparr>"
      have d: "decode (es_state e) (es_codep e) b = (1, es_codep e * 64 + unat b mod 64)"
        unfolding st decode_next [OF l] using False by auto
      have "0 < es_undumped e" using Cons.prems(1) by (auto simp: inside_def)
      with d have loop: "escape_loop h ascii i s e = (if h = EH_strict then Inl (InvalidUtf8 i)
          else bindE (es_reject h ascii e0) (\<lambda>e1. escape_loop h ascii i s e1))"
        unfolding s by (subst escape_loop.simps(2)) (simp add: UTF8_ACCEPT_def UTF8_REJECT_def e0_def Let_def)
      have re: "h \<noteq> EH_strict \<Longrightarrow> \<exists>e'. es_reject h ascii e0 = Inr e' \<and> between (out @ escaped_part h ascii None) e'"
        using es_reject_ok [of e0 h ascii] inside_kept [OF Cons.prems(1)] by (auto simp: e0_def)
      show ?thesis
      proof (cases "h = EH_strict")
        case True
        with loop n show ?thesis by (simp add: s)
      next
        case False
        with re obtain e' where "es_reject h ascii e0 = Inr e'" "between (out @ escaped_part h ascii None) e'" by blast
        with loop n False show ?thesis
          by (simp add: s del: escaped_part.simps) (rule exI [of _ e'], simp)
      qed
    qed
  qed
qed simp

section \<open>The whole string\<close>

definition es_finish :: "error_handler_t \<Rightarrow> bool \<Rightarrow> escaper \<Rightarrow> dump_error + octets" where
  "es_finish handler ascii e =
     (if es_state e = UTF8_ACCEPT then Inr (es_out e @ es_buf e)
      else
        case handler of
          EH_strict \<Rightarrow> Inl IncompleteUtf8
        | EH_ignore \<Rightarrow> Inr (es_out e @ take (es_last e) (es_buf e))
        | EH_replace \<Rightarrow> Inr (es_out e @ take (es_last e) (es_buf e) @ replacement ascii))"

text \<open>What a string is to be written as: nothing but the error 316 in strict mode if it is no UTF-8.\<close>

definition escapes_to :: "error_handler_t \<Rightarrow> bool \<Rightarrow> nat option list \<Rightarrow> octets \<Rightarrow> dump_error + octets \<Rightarrow> bool" where
  "escapes_to handler ascii cs out r \<longleftrightarrow>
     (if handler = EH_strict \<and> None \<in> set cs then r = Inl IncompleteUtf8 \<or> (\<exists>i. r = Inl (InvalidUtf8 i))
      else r = Inr (out @ concat (map (escaped_part handler ascii) cs)))"

lemma escapes_to_Some:
  "escapes_to h ascii cs (out @ escaped ascii cp) r \<Longrightarrow> escapes_to h ascii (Some cp # cs) out r"
  by (simp add: escapes_to_def split: if_splits)

lemma escapes_to_None:
  "h \<noteq> EH_strict \<Longrightarrow> escapes_to h ascii cs (out @ escaped_part h ascii None) r \<Longrightarrow> escapes_to h ascii (None # cs) out r"
  by (simp add: escapes_to_def split: if_splits)

lemma escapes_to_strict: "escapes_to EH_strict ascii (None # cs) out (Inl (InvalidUtf8 i))"
  by (simp add: escapes_to_def)

lemma finish_inside:
  "es_state e \<noteq> 0 \<Longrightarrow> es_out e @ take (es_last e) (es_buf e) = out \<Longrightarrow> escapes_to h ascii [None] out (es_finish h ascii e)"
  by (cases h) (auto simp: es_finish_def escapes_to_def UTF8_ACCEPT_def)

lemma one_byte_char:
  assumes "lead_ranges b = Some []"
  shows "continue (lead_value (unat b)) [] = unat b" "utf8_bytes (unat b) = [b]" "unat b < 0x80"
  using assms by (auto elim!: lead_ranges_cases simp: continue_def lead_value_def utf8_bytes_def)

lemma escape_loop_reference:
  "between out e \<Longrightarrow> escapes_to h ascii (decode_all s) out (bindE (escape_loop h ascii i s e) (es_finish h ascii))"
proof (induction s arbitrary: out e i rule: decode_all.induct)
  case 1
  then show ?case by (simp add: es_finish_def between_def escapes_to_def UTF8_ACCEPT_def)
next
  case (2 b s)
  have st: "es_state e = 0" "es_undumped e = 0" using 2(3) by (simp_all add: between_def)
  show ?case
  proof (cases "lead_ranges b")
    case None
    obtain cp where d: "decode (es_state e) (es_codep e) b = (1, cp)"
      using decode_lead_None [OF None, of "es_codep e"] st by (cases "decode 0 (es_codep e) b") simp
    define e0 where "e0 = e\<lparr>es_state := 1, es_codep := cp\<rparr>"
    have loop: "escape_loop h ascii i (b # s) e = (if h = EH_strict then Inl (InvalidUtf8 i)
        else bindE (es_reject h ascii e0) (\<lambda>e1. escape_loop h ascii (Suc i) s e1))"
      using d st by (subst escape_loop.simps(2)) (simp add: UTF8_ACCEPT_def UTF8_REJECT_def e0_def Let_def)
    show ?thesis
    proof (cases "h = EH_strict")
      case True
      then show ?thesis using loop None escapes_to_strict by (simp add: decode_all.simps(2))
    next
      case False
      obtain e' where e': "es_reject h ascii e0 = Inr e'" "between (out @ escaped_part h ascii None) e'"
        using es_reject_ok [of e0 h ascii] False 2(3) by (auto simp: between_def e0_def)
      from escapes_to_None [OF False 2(1) [OF None e'(2)]] loop e'(1) None False show ?thesis
        by (simp add: decode_all.simps(2))
    qed
  next
    case (Some rs)
    have d: "decode (es_state e) (es_codep e) b = (state_of (Some rs), lead_value (unat b))"
      unfolding st by (rule decode_lead_Some [OF Some])
    define n where "n = take_ranges rs s"
    define cp where "cp = continue (lead_value (unat b)) (take n s)"
    have all: "decode_all (b # s) = (if n = length rs then Some cp else None) # decode_all (drop n s)"
      by (simp add: decode_all.simps(2) Some Let_def n_def cp_def)
    show ?thesis
    proof (cases "rs = []")
      case True
      note c = one_byte_char [OF Some [unfolded True]]
      have cp: "n = 0" "cp = unat b" using True c(1) by (simp_all add: cp_def n_def)
      let ?e = "e\<lparr>es_state := 0, es_codep := unat b\<rparr>"
      from 2(3) obtain e' where e': "es_accept ascii b ?e = Inr e'"
          "between (es_out ?e @ es_buf ?e @ (case escape_of ascii (es_codep ?e) of None \<Rightarrow> [b] | Some t \<Rightarrow> t)) e'"
        using es_accept_ok [of ?e ascii b] by (auto simp: between_def)
      then have b': "between (out @ escaped ascii cp) e'"
        using 2(3) c(2) cp by (simp add: between_def escaped_def split: option.splits)
      have "escape_loop h ascii i (b # s) e = escape_loop h ascii (Suc i) s e'"
        using d True e'(1) c(1) by (simp add: escape_loop.simps(2) UTF8_ACCEPT_def continue_def)
      with escapes_to_Some [OF 2(2) [OF Some n_def b']] show ?thesis using all True cp by simp
    next
      case False
      then have rs: "rs \<in> range_lists" using lead_ranges_lists [OF Some] by simp
      from between_lead [OF 2(3) rs] obtain e1 where e1:
        "es_more ascii b (e\<lparr>es_state := state_of (Some rs), es_codep := lead_value (unat b)\<rparr>) = Inr e1"
        "inside ascii out [b] rs e1" "es_codep e1 = lead_value (unat b)" by blast
      have loop: "escape_loop h ascii i (b # s) e = escape_loop h ascii (Suc i) s e1"
        using escape_loop_more [OF d] state_of_list [OF rs] e1(1) by simp
      show ?thesis
      proof (cases "n = length rs")
        case True
        then have "in_ranges rs (take n s)" using take_ranges_in [of rs s] by (simp add: n_def)
        with encode_lead [OF Some] have u: "utf8_bytes cp = [b] @ take (length rs) s" by (simp add: cp_def True)
        have "length (utf8_bytes cp) \<noteq> 1" using u False True take_ranges_le(2) [of rs s] by (cases s) (auto simp: n_def)
        then have "0x80 \<le> cp" by (auto simp: utf8_bytes_def split: if_splits)
        from inside_complete [OF e1(2) _ _ this u, of h "Suc i"] True obtain e' where
          "between (out @ escaped ascii cp) e'"
          "escape_loop h ascii (Suc i) s e1 = escape_loop h ascii (Suc i + length rs) (drop (length rs) s) e'"
          by (auto simp: n_def cp_def e1(3))
        with escapes_to_Some [OF 2(2) [OF Some n_def]] loop True all show ?thesis by simp
      next
        case bad: False
        then have "take_ranges rs s < length rs" using take_ranges_le(1) [of rs s] by (simp add: n_def)
        note br = inside_broken [OF e1(2) this, of h "Suc i", folded n_def]
        show ?thesis
        proof (cases "n = length s")
          case True
          with br loop all bad show ?thesis using finish_inside by auto
        next
          case more: False
          show ?thesis
          proof (cases "h = EH_strict")
            case True
            with br more loop all bad show ?thesis using escapes_to_strict by simp
          next
            case False
            with br more obtain e' where "between (out @ escaped_part h ascii None) e'"
              "escape_loop h ascii (Suc i) s e1 = escape_loop h ascii (Suc i + n) (drop n s) e'" by auto
            with escapes_to_None [OF False 2(2) [OF Some n_def]] loop bad all show ?thesis by simp
          qed
        qed
      qed
    qed
  qed
qed

lemma dump_escaped_reference: "escapes_to h ascii (decode_all s) [] (dump_escaped h ascii s)"
proof -
  let ?e = "\<lparr>es_state = UTF8_ACCEPT, es_codep = 0, es_out = [], es_buf = [], es_last = 0, es_undumped = 0\<rparr>"
  have "between [] ?e" by (simp add: between_def UTF8_ACCEPT_def)
  from escape_loop_reference [OF this, of h ascii s 0] show ?thesis
    by (simp add: dump_escaped_def es_finish_def [abs_def])
qed

text \<open>
  C11: The escaping of a string, with its buffer of 512 bytes and its table-driven decoder, writes what
  the reference says: the escape sequence or the bytes of every character, and for every ill-formed
  part the replacement character or nothing. In strict mode a string that is not UTF-8 is the error
  316. The buffer is never overrun.
\<close>

theorem dump_escaped_correct:
  "if handler = EH_strict \<and> \<not> utf8 s
   then dump_escaped handler ascii s = Inl IncompleteUtf8 \<or> (\<exists>i. dump_escaped handler ascii s = Inl (InvalidUtf8 i))
   else dump_escaped handler ascii s = Inr (concat (map (escaped_part handler ascii) (decode_all s)))"
  using dump_escaped_reference [of handler ascii s] unfolding escapes_to_def utf8_decode_all not_not append_Nil .

end
