(* ===== verification/Json_Scan.thy ===== *)
theory Json_Scan
  imports Json_Escape
begin

text \<open>
  What the lexer reads: strings as the serializer escapes them come back, and every string that is
  scanned is UTF-8. The lexer is seen through the bytes that it will still deliver.
\<close>

unbundle bit_operations_syntax

section \<open>Reading\<close>

text \<open>
  \<open>lx_at dp lx bs\<close>: the coming bytes are \<open>bs\<close> and the decimal point is \<open>dp\<close>. The end of the
  input is only put back when nothing follows.
\<close>

definition lx_at :: "u8 \<Rightarrow> lexer \<Rightarrow> octets \<Rightarrow> bool" where
  "lx_at dp lx bs \<longleftrightarrow> pending lx = bs \<and> decimal_point_char lx = dp \<and> (next_unget lx \<and> lx_current lx = None \<longrightarrow> lx_input lx = [])"

text \<open>The current byte is \<open>c\<close>, it was not put back, \<open>bs\<close> follow, and more than \<open>n\<close> bytes were read.\<close>

definition lx_on :: "u8 \<Rightarrow> lexer \<Rightarrow> u8 option \<Rightarrow> octets \<Rightarrow> nat \<Rightarrow> bool" where
  "lx_on dp lx c bs n \<longleftrightarrow> lx_current lx = c \<and> \<not> next_unget lx \<and> lx_input lx = bs \<and> n < chars_read_total lx \<and>
     decimal_point_char lx = dp"

lemma lget_at: "lx_at dp lx (b # bs) \<Longrightarrow> n \<le> chars_read_total lx \<Longrightarrow> lx_on dp (lget lx) (Some b) bs n"
  by (auto simp: lx_at_def lx_on_def lget_def pending_def Let_def split: option.splits list.splits if_splits)

lemma lget_at_end: "lx_at dp lx [] \<Longrightarrow> n \<le> chars_read_total lx \<Longrightarrow> lx_on dp (lget lx) None [] n"
  by (auto simp: lx_at_def lx_on_def lget_def pending_def Let_def split: option.splits list.splits if_splits)

lemma lx_on_at: "lx_on dp lx c bs n \<Longrightarrow> lx_at dp lx bs"
  by (simp add: lx_at_def lx_on_def pending_def)

lemma lx_on_current: "lx_on dp lx c bs n \<Longrightarrow> lx_current lx = c"
  by (simp add: lx_on_def)

lemma lx_on_read: "lx_on dp lx c bs n \<Longrightarrow> n < chars_read_total lx"
  by (simp add: lx_on_def)

lemma lx_on_mono: "lx_on dp lx c bs n \<Longrightarrow> m \<le> n \<Longrightarrow> lx_on dp lx c bs m"
  by (simp add: lx_on_def)

lemma lget_on: "lx_on dp lx c (b # bs) n \<Longrightarrow> lx_on dp (lget lx) (Some b) bs (Suc n)"
  by (rule lget_at) (auto intro: lx_on_at dest: lx_on_read)

lemma lget_next: "lx_on dp lx c (b # bs) n \<Longrightarrow> lx_on dp (lget lx) (Some b) bs n"
  using lget_on lx_on_mono by (metis Suc_n_not_le_n nat_le_linear)

lemma lget_on_end: "lx_on dp lx c [] n \<Longrightarrow> lx_on dp (lget lx) None [] (Suc n)"
  by (rule lget_at_end) (auto intro: lx_on_at dest: lx_on_read)

lemma unget_on: "lx_on dp lx c bs (Suc n) \<Longrightarrow> (c = None \<longrightarrow> bs = []) \<Longrightarrow>
    lx_at dp (unget lx) (case c of None \<Rightarrow> [] | Some b \<Rightarrow> b # bs) \<and> n < chars_read_total (unget lx)"
  by (auto simp: lx_on_def lx_at_def unget_def pending_def split: option.splits)

section \<open>Escape sequences\<close>

lemma hex_value_digit: "d < 16 \<Longrightarrow> hex_value (hex_digit d) = Some d"
  using byte_val [of "0x30 + d"] byte_val [of "0x57 + d"]
  by (auto simp: hex_value_def hex_digit_def u8_le simp del: of_nat_add)

lemma codepoint_loop_digits:
  "list_all (\<lambda>d. d < 16) ds \<Longrightarrow> length ds = length fs \<Longrightarrow> lx_on dp lx c (map hex_digit ds @ bs) n \<Longrightarrow>
     \<exists>lx' c'. codepoint_loop fs cp lx = (Some (cp + (\<Sum>(f, d) \<leftarrow> zip fs ds. push_bit f d)), lx') \<and> lx_on dp lx' c' bs n"
proof (induction ds arbitrary: fs cp lx c n)
  case (Cons d ds)
  obtain f fs' where fs: "fs = f # fs'" using Cons.prems(2) by (cases fs) auto
  have on: "lx_on dp (lget lx) (Some (hex_digit d)) (map hex_digit ds @ bs) n"
    using Cons.prems(3) by (auto intro: lget_next)
  with Cons.IH [of fs' "lget lx" "Some (hex_digit d)" n "cp + push_bit f d"] Cons.prems show ?case
    by (simp add: fs lx_on_current [OF on] hex_value_digit add.assoc)
qed auto

lemma get_codepoint_digits:
  assumes "k < 65536" and "lx_on dp lx c (drop 2 (u_escape k) @ bs) n"
  shows "\<exists>lx' c'. get_codepoint lx = (Some k, lx') \<and> lx_on dp lx' c' bs n"
proof -
  let ?ds = "[k div 4096 mod 16, k div 256 mod 16, k div 16 mod 16, k mod 16]"
  have "(\<Sum>(f, d) \<leftarrow> zip [12, 8, 4, 0] ?ds. push_bit f d) = k"
  proof -
    have "k div 4096 < 16" using assms(1) by (simp add: less_mult_imp_div_less)
    moreover have "k div 4096 = k div 16 div 16 div 16" "k div 256 = k div 16 div 16"
      by (simp_all add: div_mult2_eq [symmetric])
    moreover have "k = k div 16 * 16 + k mod 16" "k div 16 = k div 16 div 16 * 16 + k div 16 mod 16"
      "k div 16 div 16 = k div 16 div 16 div 16 * 16 + k div 16 div 16 mod 16" by simp_all
    ultimately show ?thesis by (simp add: push_bit_eq_mult; linarith)
  qed
  with codepoint_loop_digits [of ?ds "[12, 8, 4, 0]" dp lx c bs n 0] assms(2) show ?thesis
    by (simp add: get_codepoint_def u_escape_def)
qed

lemma scan_unicode_plain:
  assumes "k < 65536" and "scalar k" and "lx_on dp lx c (drop 2 (u_escape k) @ bs) n"
  shows "\<exists>lx' c'. scan_unicode buf lx = (Some (buf @ utf8_bytes k), lx') \<and> lx_on dp lx' c' bs n"
proof -
  obtain lx' c' where "get_codepoint lx = (Some k, lx')" "lx_on dp lx' c' bs n"
    using get_codepoint_digits [OF assms(1,3)] by blast
  with assms(2) show ?thesis by (auto simp: scan_unicode_def scalar_def)
qed

lemma and_10: "(x :: nat) AND 0x3FF = x mod 1024"
  using take_bit_eq_mask [of 10 x] by (simp add: mask_eq_exp_minus_1 take_bit_eq_mod)

lemma scan_unicode_pair:
  assumes "0xFFFF < cp" and "cp \<le> 0x10FFFF"
    and "lx_on dp lx c (drop 2 (u_escape (0xD7C0 + drop_bit 10 cp)) @ u_escape (0xDC00 + (cp AND 0x3FF)) @ bs) n"
  shows "\<exists>lx' c'. scan_unicode buf lx = (Some (buf @ utf8_bytes cp), lx') \<and> lx_on dp lx' c' bs n"
proof -
  define h l where "h = 0xD7C0 + drop_bit 10 cp" and "l = 0xDC00 + (cp AND 0x3FF)"
  have cp: "cp = cp div 1024 * 1024 + cp mod 1024" by simp
  have q: "64 \<le> cp div 1024" "cp div 1024 < 1088"
    using div_le_mono [of "0x10000" cp 1024] assms(1,2) by (simp_all add: less_mult_imp_div_less)
  have h: "0xD800 \<le> h" "h \<le> 0xDBFF" "h < 65536" using q by (simp_all add: h_def drop_bit_eq_div)
  have l: "0xDC00 \<le> l" "l \<le> 0xDFFF" "l < 65536"
    using mod_less_divisor [of 1024 cp] by (auto simp: l_def and_10)
  have "push_bit 10 h + l - 0x35FDC00 = cp"
    using cp by (simp add: h_def l_def push_bit_eq_mult drop_bit_eq_div and_10 algebra_simps)
  moreover obtain lx1 c1 where 1: "get_codepoint lx = (Some h, lx1)" "lx_on dp lx1 c1 (u_escape l @ bs) n"
    using get_codepoint_digits [OF h(3)] assms(3) by (metis h_def l_def)
  then have 2: "lx_on dp (lget lx1) (Some 0x5C) (tl (u_escape l) @ bs) n"
    by (auto simp: u_escape_def intro: lget_next)
  then have 3: "lx_on dp (lget (lget lx1)) (Some 0x75) (drop 2 (u_escape l) @ bs) n"
    by (auto simp: u_escape_def intro: lget_next)
  obtain lx2 c2 where 4: "get_codepoint (lget (lget lx1)) = (Some l, lx2)" "lx_on dp lx2 c2 bs n"
    using get_codepoint_digits [OF l(3) 3] by blast
  ultimately show ?thesis
    using h l 1(1) 4 by (auto simp: scan_unicode_def lx_on_current [OF 2] lx_on_current [OF 3] Let_def)
qed

section \<open>Strings read back\<close>

lemma next_byte_in_ranges:
  "in_ranges rs cs \<Longrightarrow> lx_on dp lx c (cs @ bs) n \<Longrightarrow>
     \<exists>lx' c'. next_byte_in_range rs buf lx = (Some (buf @ cs), lx') \<and> lx_on dp lx' c' bs n"
proof (induction rs buf lx arbitrary: cs c rule: next_byte_in_range.induct)
  case (2 lo hi rs buf lx)
  from 2(2) obtain b ds where cs: "cs = b # ds" "lo \<le> b" "b \<le> hi" "in_ranges rs ds" by (auto simp: in_ranges_Cons)
  with 2(3) have "lx_on dp (lget lx) (Some b) (ds @ bs) n" by (auto intro: lget_next)
  from 2(1) [OF refl lx_on_current [OF this] _ cs(4) this] cs lx_on_current [OF this] show ?case by simp
qed auto

lemma scan_char_raw:
  assumes "scalar cp" and "escape_of ascii cp = None" and "lx_at dp lx (utf8_bytes cp @ bs)" and "n \<le> chars_read_total lx"
  shows "\<exists>b lx' c'. lx_current (lget lx) = Some b \<and> b \<noteq> 0x22 \<and>
    scan_char b buf (lget lx) = (Some (buf @ utf8_bytes cp), lx') \<and> lx_on dp lx' c' bs n"
proof -
  obtain b cs rs where u: "utf8_bytes cp = b # cs" "lead_ranges b = Some rs" "in_ranges rs cs"
      "continue (lead_value (unat b)) cs = cp"
    using lead_of_scalar [OF assms(1)] by blast
  have small: "unat b < 0x80 \<Longrightarrow> unat b = cp"
    using u by (auto elim!: lead_ranges_cases simp: continue_def lead_value_def)
  have "0x20 \<le> cp" "cp \<noteq> 0x22" "cp \<noteq> 0x5C" using assms(2) by (auto simp: escape_of_def split: if_splits)
  with small have b: "\<not> b < 0x20" "b \<noteq> 0x22" "b \<noteq> 0x5C" by (auto simp: u8_less)
  then have ranges: "utf8_ranges b = Some rs" using u(2) by (simp add: lead_ranges_def)
  have on: "lx_on dp (lget lx) (Some b) (cs @ bs) n" using assms(3,4) u(1) by (auto intro: lget_at)
  from next_byte_in_ranges [OF u(3) on, of "buf @ [b]"] b ranges u(1) lx_on_current [OF on] show ?thesis
    by (auto simp: scan_char_def)
qed

lemma scan_char_simple:
  assumes "simple_escape e = Some c" and "lx_at dp lx (0x5C # e # bs)" and "n \<le> chars_read_total lx"
  shows "\<exists>b lx' c'. lx_current (lget lx) = Some b \<and> b \<noteq> 0x22 \<and>
    scan_char b buf (lget lx) = (Some (buf @ [c]), lx') \<and> lx_on dp lx' c' bs n"
proof -
  have on: "lx_on dp (lget lx) (Some 0x5C) (e # bs) n" using assms(2,3) by (auto intro: lget_at)
  then have on2: "lx_on dp (lget (lget lx)) (Some e) bs n" by (rule lget_next)
  have "e \<noteq> 0x75" using assms(1) by (auto simp: simple_escape_def)
  with on2 assms(1) show ?thesis
    by (simp add: scan_char_def scan_escape_def lx_on_current [OF on] lx_on_current [OF on2]) (blast intro: on2)
qed

lemma scan_char_unicode:
  assumes "lx_at dp lx (0x5C # 0x75 # ds)" and "n \<le> chars_read_total lx"
    and "\<And>lx c. lx_on dp lx c ds n \<Longrightarrow> \<exists>lx' c'. scan_unicode buf lx = (Some t, lx') \<and> lx_on dp lx' c' bs n"
  shows "\<exists>b lx' c'. lx_current (lget lx) = Some b \<and> b \<noteq> 0x22 \<and>
    scan_char b buf (lget lx) = (Some t, lx') \<and> lx_on dp lx' c' bs n"
proof -
  have on: "lx_on dp (lget lx) (Some 0x5C) (0x75 # ds) n" using assms(1,2) by (auto intro: lget_at)
  then have on2: "lx_on dp (lget (lget lx)) (Some 0x75) ds n" by (rule lget_next)
  with assms(3) [OF on2] show ?thesis
    by (auto simp: scan_char_def scan_escape_def lx_on_current [OF on] lx_on_current [OF on2])
qed

lemma escape_of_cases:
  assumes "escape_of ascii cp = Some t"
  obtains e c where "t = [0x5C, e]" "simple_escape e = Some c" "utf8_bytes cp = [c]"
  | "cp \<le> 0xFFFF" "t = u_escape cp"
  | "0xFFFF < cp" "t = u_escape (0xD7C0 + drop_bit 10 cp) @ u_escape (0xDC00 + (cp AND 0x3FF))"
proof -
  consider "cp \<in> {0x08, 0x09, 0x0A, 0x0C, 0x0D, 0x22, 0x5C}"
    | "t = (if cp \<le> 0xFFFF then u_escape cp
              else u_escape (0xD7C0 + drop_bit 10 cp) @ u_escape (0xDC00 + (cp AND 0x3FF)))"
    using assms by (auto simp: escape_of_def split: if_splits)
  then show thesis
  proof cases
    case 1
    then show thesis using assms that(1) by (auto simp: escape_of_def simple_escape_def utf8_bytes_def)
  next
    case 2
    then show thesis using that(2,3) by (auto split: if_splits)
  qed
qed

lemma scan_char_escaped:
  assumes "scalar cp" and "lx_at dp lx (escaped ascii cp @ bs)" and "n \<le> chars_read_total lx"
  shows "\<exists>b lx' c'. lx_current (lget lx) = Some b \<and> b \<noteq> 0x22 \<and>
    scan_char b buf (lget lx) = (Some (buf @ utf8_bytes cp), lx') \<and> lx_on dp lx' c' bs n"
proof (cases "escape_of ascii cp")
  case None
  with assms scan_char_raw [OF assms(1) None _ assms(3)] show ?thesis by (simp add: escaped_def)
next
  case (Some t)
  with assms(2) have at: "lx_at dp lx (t @ bs)" by (simp add: escaped_def)
  from Some show ?thesis
  proof (cases rule: escape_of_cases)
    case (1 e c)
    with scan_char_simple [of e c dp lx bs n] at assms(3) show ?thesis by simp
  next
    case 2
    have "u_escape cp @ bs = 0x5C # 0x75 # drop 2 (u_escape cp) @ bs" by (simp add: u_escape_def)
    with 2 at have "lx_at dp lx (0x5C # 0x75 # drop 2 (u_escape cp) @ bs)" by simp
    from scan_char_unicode [OF this assms(3) scan_unicode_plain] 2(1) assms(1) show ?thesis by simp
  next
    case 3
    let ?l = "u_escape (0xDC00 + (cp AND 0x3FF))"
    have "t @ bs = 0x5C # 0x75 # drop 2 (u_escape (0xD7C0 + drop_bit 10 cp)) @ ?l @ bs" by (simp add: 3(2) u_escape_def)
    with at have "lx_at dp lx (0x5C # 0x75 # drop 2 (u_escape (0xD7C0 + drop_bit 10 cp)) @ ?l @ bs)" by simp
    from scan_char_unicode [OF this assms(3) scan_unicode_pair] 3(1) assms(1) show ?thesis by (simp add: scalar_def)
  qed
qed

lemma scan_string_escaped:
  "list_all scalar cps \<Longrightarrow> lx_at dp lx (concat (map (escaped ascii) cps) @ 0x22 # bs) \<Longrightarrow> n \<le> chars_read_total lx \<Longrightarrow>
     \<exists>lx'. scan_string_loop buf lx = (Some (buf @ concat (map utf8_bytes cps)), lx') \<and> lx_on dp lx' (Some 0x22) bs n"
proof (induction cps arbitrary: buf lx)
  case Nil
  then have "lx_on dp (lget lx) (Some 0x22) bs n" by (auto intro: lget_at)
  then show ?case by (subst scan_string_loop.simps) (simp add: lx_on_current [OF \<open>lx_on dp (lget lx) (Some 0x22) bs n\<close>])
next
  case (Cons cp cps)
  obtain b lx1 c1 where 1: "lx_current (lget lx) = Some b" "b \<noteq> 0x22"
      "scan_char b buf (lget lx) = (Some (buf @ utf8_bytes cp), lx1)"
      "lx_on dp lx1 c1 (concat (map (escaped ascii) cps) @ 0x22 # bs) n"
    using scan_char_escaped [of cp dp lx ascii "concat (map (escaped ascii) cps) @ 0x22 # bs" n buf] Cons.prems by auto
  have "scan_string_loop buf lx = scan_string_loop (buf @ utf8_bytes cp) lx1"
    by (subst scan_string_loop.simps) (simp add: 1 Let_def)
  with Cons.IH [OF _ lx_on_at [OF 1(4)], of "buf @ utf8_bytes cp"] lx_on_read [OF 1(4)] Cons.prems(1) show ?case
    by simp
qed

section \<open>Scanned strings are UTF-8\<close>

lemma codepoint_loop_bound:
  "codepoint_loop fs cp lx = (Some r, lx') \<Longrightarrow> r \<le> cp + (\<Sum>f \<leftarrow> fs. push_bit f 15)"
proof (induction fs cp lx rule: codepoint_loop.induct)
  case (2 f fs cp lx)
  from 2(2) obtain b d where b: "lx_current (lget lx) = Some b" "hex_value b = Some d"
      "codepoint_loop fs (cp + push_bit f d) (lget lx) = (Some r, lx')"
    by (auto simp: Let_def split: option.splits Option.bind_splits)
  have "d \<le> 15" using b(2) by (auto simp: hex_value_def u8_le split: if_splits)
  then have "push_bit f d \<le> push_bit f 15" by (simp add: push_bit_eq_mult)
  with 2(1) [OF refl _ b(3)] b show ?case by simp
qed simp

lemma get_codepoint_bound: "get_codepoint lx = (Some r, lx') \<Longrightarrow> r \<le> 0xFFFF"
  using codepoint_loop_bound [of "[12, 8, 4, 0]" 0 lx r lx'] by (simp add: get_codepoint_def push_bit_eq_mult)

lemma surrogate_pair:
  assumes "0xD800 \<le> h" "h \<le> 0xDBFF" "0xDC00 \<le> l" "l \<le> (0xDFFF :: nat)"
  shows "scalar (push_bit 10 h + l - 0x35FDC00)"
  using assms by (auto simp: scalar_def push_bit_eq_mult)

lemma scan_unicode_utf8: "scan_unicode buf lx = (Some t, lx') \<Longrightarrow> utf8 buf \<Longrightarrow> utf8 t"
proof -
  assume s: "scan_unicode buf lx = (Some t, lx')" and u: "utf8 buf"
  obtain k lx1 where k: "get_codepoint lx = (Some k, lx1)"
    using s by (auto simp: scan_unicode_def split: prod.splits option.splits)
  have "k \<le> 0xFFFF" by (rule get_codepoint_bound [OF k])
  have "\<exists>cp. scalar cp \<and> t = buf @ utf8_bytes cp"
  proof (cases "0xD800 \<le> k \<and> k \<le> 0xDFFF")
    case True
    then show ?thesis
      using s k surrogate_pair [of k] by (auto simp: scan_unicode_def Let_def split: prod.splits option.splits if_splits)
  next
    case False
    then show ?thesis using s k \<open>k \<le> 0xFFFF\<close> by (intro exI [of _ k]) (auto simp: scan_unicode_def scalar_def split: if_splits)
  qed
  with u show "utf8 t" by (auto intro: utf8_append utf8_one)
qed

lemma next_byte_in_range_Some:
  "next_byte_in_range rs buf lx = (Some t, lx') \<Longrightarrow> \<exists>cs. t = buf @ cs \<and> in_ranges rs cs"
proof (induction rs buf lx rule: next_byte_in_range.induct)
  case (2 lo hi rs buf lx)
  then show ?case by (fastforce simp: Let_def in_ranges_Cons split: option.splits if_splits)
qed auto

lemma scan_char_utf8:
  assumes "scan_char b buf lx = (Some t, lx')" and "utf8 buf"
  shows "utf8 t"
proof (cases "b = 0x5C")
  case True
  have one: "utf8 [c]" if "simple_escape e = Some c" for e c
  proof -
    have "unat c < 0x80" using that by (auto simp: simple_escape_def split: if_splits)
    then show ?thesis using utf8_one [of "unat c"] by (simp add: utf8_bytes_def scalar_def)
  qed
  from assms True show ?thesis
    by (auto simp: scan_char_def scan_escape_def Let_def split: option.splits if_splits
        intro: scan_unicode_utf8 utf8_append one)
next
  case False
  then obtain rs cs where "utf8_ranges b = Some rs" "t = (buf @ [b]) @ cs" "in_ranges rs cs"
    using assms(1) next_byte_in_range_Some by (fastforce simp: scan_char_def split: option.splits)
  moreover from this(1) have "lead_ranges b = Some rs" by (cases "b < 0x20") (simp_all add: lead_ranges_def utf8_ranges_def [of b])
  ultimately show ?thesis using encode_lead [of b rs cs] assms(2) by (metis append_assoc append_Cons append_Nil utf8_append utf8_one)
qed

lemma scan_string_utf8: "scan_string_loop buf lx = (Some t, lx') \<Longrightarrow> utf8 buf \<Longrightarrow> utf8 t"
proof (induction buf lx rule: scan_string_loop.induct)
  case (1 buf lx)
  obtain b where b: "lx_current (lget lx) = Some b"
    using 1(2) by (subst (asm) scan_string_loop.simps) (auto simp: Let_def split: option.splits)
  show ?case
  proof (cases "b = 0x22")
    case True
    then show ?thesis using 1(2,3) b by (subst (asm) scan_string_loop.simps) simp
  next
    case False
    then obtain buf' lx1 where s: "scan_char b buf (lget lx) = (Some buf', lx1)" "scan_string_loop buf' lx1 = (Some t, lx')"
      using 1(2) b by (subst (asm) scan_string_loop.simps) (auto simp: Let_def split: option.splits prod.splits)
    from 1(1) [OF refl b False s(1) [symmetric] refl s(2)] scan_char_utf8 [OF s(1) 1(3)] show ?thesis .
  qed
qed

end
