(* ===== verification/Json_Number.thy ===== *)
theory Json_Number
  imports Json_Scan Cpp_Text
begin

text \<open>
  Numbers: the serializer's integers, written by pairs of digits into a buffer, are the decimal
  texts of \<^verbatim>\<open>std::to_string\<close>; and what the lexer makes of the text of a number, for every path
  through the states of \<^verbatim>\<open>scan_number\<close>.
\<close>

section \<open>Decimal text\<close>

definition decimal :: "nat \<Rightarrow> octets" where
  "decimal n = lit (nat_string n)"

lemma digit_byte: "d < 10 \<Longrightarrow> (of_char (digit_char d) :: u8) = of_nat (0x30 + d)"
  by (drule less_10_cases) (auto simp: digit_char_def)

lemma decimal_small: "n < 10 \<Longrightarrow> decimal n = [of_nat (0x30 + n)]"
  by (subst decimal_def, subst nat_string.simps) (simp add: lit_def digit_byte del: of_nat_add)

lemma decimal_step: "10 \<le> n \<Longrightarrow> decimal n = decimal (n div 10) @ [of_nat (0x30 + n mod 10)]"
  by (subst decimal_def, subst nat_string.simps) (simp add: lit_def decimal_def digit_byte del: of_nat_add)

lemma decimal_two: "10 \<le> n \<Longrightarrow> n < 100 \<Longrightarrow> decimal n = [of_nat (0x30 + n div 10), of_nat (0x30 + n mod 10)]"
  using decimal_small [of "n div 10"] by (simp add: decimal_step less_mult_imp_div_less del: of_nat_add)

lemma decimal_pair:
  assumes "100 \<le> n"
  shows "decimal n = decimal (n div 100) @ [of_nat (0x30 + n mod 100 div 10), of_nat (0x30 + n mod 100 mod 10)]"
proof -
  have "n div 10 mod 10 = n mod 100 div 10" "n mod 100 mod 10 = n mod 10"
    using mod_mult2_eq [of n 10 10] by (simp_all add: mod_mod_cancel)
  then show ?thesis
    using assms decimal_step [of n] decimal_step [of "n div 10"] by (simp add: div_mult2_eq [symmetric] del: of_nat_add)
qed

lemma decimal_length_pos: "0 < length (decimal n)"
  by (simp add: decimal_def lit_def)

lemma decimal_length_10: "10 \<le> n \<Longrightarrow> length (decimal n) = Suc (length (decimal (n div 10)))"
  by (simp add: decimal_step)

lemma count_digits_decimal: "count_digits n k + 1 = k + length (decimal n)"
proof (induction n k rule: count_digits.induct)
  case (1 n k)
  have one: "length (decimal m) = 1" if "m < 10" for m using that by (simp add: decimal_small)
  have q: "n div 10 div 10 = n div 100" "n div 10 div 10 div 10 = n div 1000" "n div 100 div 10 = n div 1000"
      "n div 1000 div 10 = n div 10000"
    by (simp_all add: div_mult2_eq [symmetric])
  show ?case
  proof (cases "n < 10000")
    case True
    consider "n < 10" | "10 \<le> n" "n < 100" | "100 \<le> n" "n < 1000" | "1000 \<le> n" by linarith
    then show ?thesis
      using True by cases (simp_all add: count_digits.simps [of n] decimal_length_10 one q less_mult_imp_div_less)
  next
    case False
    with 1 [OF _ _ _ False] show ?thesis
      by (simp add: count_digits.simps [of n] decimal_length_10 q)
  qed
qed

lemma two_updates:
  assumes "2 \<le> p" and "p \<le> length buf"
  shows "buf[p - 1 := lo, p - 2 := hi] = take (p - 2) buf @ [hi, lo] @ drop p buf"
proof -
  have "buf = take (p - 2) buf @ take 2 (drop (p - 2) buf) @ drop p buf"
    using assms by (metis append_take_drop_id drop_drop le_add_diff_inverse2 add.commute)
  moreover obtain x y where "take 2 (drop (p - 2) buf) = [x, y]"
  proof -
    have "length (take 2 (drop (p - 2) buf)) = Suc (Suc 0)" using assms by simp
    then show thesis using that by (metis length_0_conv length_Suc_conv)
  qed
  ultimately have "buf = take (p - 2) buf @ [x, y] @ drop p buf" by simp
  moreover have "length (take (p - 2) buf) = p - 2" using assms by simp
  ultimately have "buf[p - 1 := lo, p - 2 := hi] =
      (take (p - 2) buf @ [x, y] @ drop p buf)[p - 1 := lo, p - 2 := hi]" by simp
  also have "\<dots> = take (p - 2) buf @ [hi, lo] @ drop p buf"
    using assms \<open>length (take (p - 2) buf) = p - 2\<close>
    by (simp add: list_update_append numeral_2_eq_2 Suc_diff_Suc Suc_diff_le split: nat.split) linarith
  finally show ?thesis .
qed

lemma digits_to_99_entry:
  assumes "k < 100"
  shows "digits_to_99 k = (of_nat (0x30 + k div 10), of_nat (0x30 + k mod 10))"
proof -
  have "list_all (\<lambda>k. digits_to_99 k = (of_nat (0x30 + k div 10), of_nat (0x30 + k mod 10))) [0..<100]"
    by code_simp
  then show ?thesis using assms by (simp add: list_all_iff)
qed

lemma put_digits_decimal:
  "length (decimal n) \<le> p \<Longrightarrow> p \<le> length buf \<Longrightarrow>
     put_digits p n buf = take (p - length (decimal n)) buf @ decimal n @ drop p buf"
proof (induction p n buf rule: put_digits.induct)
  case (1 p n buf)
  show ?case
  proof (cases "100 \<le> n")
    case True
    define hi lo where "hi = (of_nat (0x30 + n mod 100 div 10) :: u8)" and "lo = (of_nat (0x30 + n mod 100 mod 10) :: u8)"
    have d: "digits_to_99 (n mod 100) = (hi, lo)" "decimal n = decimal (n div 100) @ [hi, lo]"
      using decimal_pair [OF True] by (simp_all add: digits_to_99_entry hi_def lo_def del: of_nat_add)
    let ?buf = "buf[p - 1 := lo, p - 2 := hi]"
    have p: "2 \<le> p" "length (decimal (n div 100)) \<le> p - 2" using "1.prems"(1) d(2) by simp_all
    from "1.IH" [OF True d(1) [symmetric]] p "1.prems"(2)
    have "put_digits (p - 2) (n div 100) ?buf =
        take (p - 2 - length (decimal (n div 100))) ?buf @ decimal (n div 100) @ drop (p - 2) ?buf" by simp
    also have "\<dots> = take (p - length (decimal n)) buf @ decimal n @ drop p buf"
      using p "1.prems"(2) d(2) by (simp add: two_updates [OF p(1) "1.prems"(2), unfolded One_nat_def])
    finally show ?thesis using True d(1) by (subst put_digits.simps) simp
  next
    case False
    show ?thesis
    proof (cases "10 \<le> n")
      case True
      then show ?thesis
        using False "1.prems" two_updates [of p buf]
        by (subst put_digits.simps) (simp add: decimal_two digits_to_99_entry numeral_2_eq_2 del: of_nat_add)
    next
      case less: False
      then have "buf[p - 1 := x] = take (p - 1) buf @ [x] @ drop p buf" for x
        using "1.prems" by (cases p) (simp_all add: decimal_small upd_conv_take_nth_drop)
      then show ?thesis using less False by (subst put_digits.simps) (simp add: decimal_small del: of_nat_add)
    qed
  qed
qed

lemma decimal_length_bound: "n < 10 ^ k \<Longrightarrow> 0 < k \<Longrightarrow> length (decimal n) \<le> k"
proof (induction k arbitrary: n)
  case (Suc k)
  show ?case
  proof (cases "n < 10")
    case False
    then have "n div 10 < 10 ^ k" using Suc.prems(1) by (simp add: less_mult_imp_div_less mult.commute)
    moreover from this False have "0 < k" by (cases k) simp_all
    ultimately show ?thesis using Suc.IH [of "n div 10"] False by (simp add: decimal_length_10)
  qed (simp add: decimal_small)
qed simp

text \<open>A signed 64-bit integer or an unsigned one.\<close>

definition is_number :: "int \<Rightarrow> bool" where
  "is_number x \<longleftrightarrow> - (2 ^ 63) \<le> x \<and> x < 2 ^ 64"

definition int_text :: "int \<Rightarrow> octets" where
  "int_text x = (if x < 0 then [0x2D] else []) @ decimal (nat \<bar>x\<bar>)"

lemma unat_u64_of_int:
  assumes "0 \<le> y" and "y < 2 ^ 64"
  shows "unat (word_of_int y :: u64) = nat y"
proof -
  have "uint (word_of_int y :: u64) = take_bit LENGTH(64) y" by (rule uint_word_of_int_eq)
  also have "\<dots> = y" using assms by (intro take_bit_int_eq_self) simp_all
  finally show ?thesis by (simp only: unat_eq_nat_uint)
qed

lemma remove_sign_magnitude:
  assumes "is_number x" and "x < 0"
  shows "\<exists>w. remove_sign x = Inr w \<and> unat w = nat \<bar>x\<bar>"
proof -
  have "(word_of_int (- (x + 1)) :: u64) + 1 = word_of_int (- x)" by (simp add: wi_hom_syms)
  moreover have "- x < 2 ^ 64" "0 \<le> - x" using assms by (simp_all add: is_number_def)
  then have "unat (word_of_int (- x) :: u64) = nat (- x)" by (intro unat_u64_of_int)
  ultimately show ?thesis using assms by (simp add: remove_sign_def)
qed

lemma dump_integer_decimal:
  assumes "is_number x"
  shows "dump_integer x = Inr (int_text x)"
proof (cases "x = 0")
  case True
  then show ?thesis by (simp add: dump_integer_def int_text_def decimal_small)
next
  case False
  let ?n = "nat \<bar>x\<bar>"
  have "?n < 10 ^ 20" using assms by (auto simp: is_number_def)
  then have len: "length (decimal ?n) \<le> 20" by (rule decimal_length_bound) simp
  have c: "count_digits ?n 1 = length (decimal ?n)" using count_digits_decimal [of ?n 1] by simp
  show ?thesis
  proof (cases "x < 0")
    case True
    obtain w where w: "remove_sign x = Inr w" "unat w = ?n" using remove_sign_magnitude [OF assms True] by blast
    have "dump_integer x = Inr (take (1 + length (decimal ?n))
        (put_digits (1 + length (decimal ?n)) ?n ((replicate 64 0)[0 := 0x2D])))"
      using True c len w by (simp add: dump_integer_def Let_def)
    also have "\<dots> = Inr (0x2D # decimal ?n)" using len by (simp add: put_digits_decimal numeral_eq_Suc)
    finally show ?thesis using True by (simp add: int_text_def)
  next
    case nonneg: False
    then have "unat (word_of_int x :: u64) = ?n"
      using assms unat_u64_of_int [of x] by (simp add: is_number_def)
    then have "dump_integer x =
        Inr (take (length (decimal ?n)) (put_digits (length (decimal ?n)) ?n ((replicate 64 0)[0 := 0])))"
      using nonneg False c len by (simp add: dump_integer_def Let_def)
    also have "\<dots> = Inr (decimal ?n)" using len by (simp add: put_digits_decimal)
    finally show ?thesis using nonneg by (simp add: int_text_def)
  qed
qed

section \<open>The text of a number\<close>

text \<open>The states after the first byte, for a text that is read to its end.\<close>

fun number_run :: "number_state \<Rightarrow> number_kind \<Rightarrow> octets \<Rightarrow> (number_state \<times> number_kind) option" where
  "number_run q k [] = Some (q, k)"
| "number_run q k (b # bs) =
     (case number_next q (Some b) of N_goto q' \<Rightarrow> number_run q' (enter_kind q' k) bs | _ \<Rightarrow> None)"

definition number_final :: "number_state \<Rightarrow> bool" where
  "number_final q \<longleftrightarrow> q \<in> {N_zero, N_any1, N_decimal2, N_any2}"

definition first_state :: "u8 \<Rightarrow> number_state" where
  "first_state b = (if b = 0x2D then N_minus else if b = 0x30 then N_zero else N_any1)"

definition number_text :: "number_kind \<Rightarrow> octets \<Rightarrow> bool" where
  "number_text kind t \<longleftrightarrow>
     (case t of
        [] \<Rightarrow> False
      | b # bs \<Rightarrow>
          (b = 0x2D \<or> is_digit_byte b) \<and>
          (case number_run (first_state b) (enter_kind (first_state b) K_unsigned) bs of
             None \<Rightarrow> False
           | Some (q, k) \<Rightarrow> number_final q \<and> k = kind))"

text \<open>A byte that cannot continue a number, or the end.\<close>

definition ends_number :: "octets \<Rightarrow> bool" where
  "ends_number bs \<longleftrightarrow>
     (case bs of [] \<Rightarrow> True | b # _ \<Rightarrow> \<not> is_digit_byte b \<and> b \<noteq> 0x2E \<and> b \<noteq> 0x65 \<and> b \<noteq> 0x45)"

definition localized :: "u8 \<Rightarrow> octets \<Rightarrow> octets" where
  "localized dp t = map (\<lambda>b. if b = 0x2E then dp else b) t"

lemma number_done: "number_final q \<Longrightarrow> number_next q None = N_done"
  by (cases q) (simp_all add: number_final_def)

lemma number_done_byte: "number_final q \<Longrightarrow> ends_number (b # bs) \<Longrightarrow> number_next q (Some b) = N_done"
  by (cases q) (auto simp: number_final_def ends_number_def)

lemma scan_number_loop_run:
  "number_run q k t = Some (q', k') \<Longrightarrow> number_final q' \<Longrightarrow> ends_number bs \<Longrightarrow> lx_on dp lx c (t @ bs) n \<Longrightarrow>
     \<exists>lx'. scan_number_loop q k buf lx = (Some (k', buf @ localized dp t), lx') \<and> lx_at dp lx' bs \<and> n < chars_read_total lx'"
proof (induction t arbitrary: q k buf lx c)
  case Nil
  show ?case
  proof (cases bs)
    case Nil2: Nil
    then have on: "lx_on dp (lget lx) None [] (Suc n)" using Nil.prems(4) by (auto intro: lget_on_end)
    have "scan_number_loop q k buf lx = (Some (k, buf), unget (lget lx))"
      using Nil.prems(1,2) by (subst scan_number_loop.simps) (simp add: lx_on_current [OF on] number_done del: number_next.simps)
    with unget_on [OF on] Nil.prems(1) Nil2 show ?thesis by (simp add: localized_def)
  next
    case (Cons b cs)
    then have on: "lx_on dp (lget lx) (Some b) cs (Suc n)" using Nil.prems(4) by (auto intro: lget_on)
    have "scan_number_loop q k buf lx = (Some (k, buf), unget (lget lx))"
      using Nil.prems(1-3) Cons by (subst scan_number_loop.simps) (simp add: lx_on_current [OF on] number_done_byte)
    with unget_on [OF on] Nil.prems(1) Cons show ?thesis by (simp add: localized_def)
  qed
next
  case (Cons b t)
  from Cons.prems(1) obtain q1 where q1: "number_next q (Some b) = N_goto q1" "number_run q1 (enter_kind q1 k) t = Some (q', k')"
    by (auto split: number_move.splits)
  have on: "lx_on dp (lget lx) (Some b) (t @ bs) n" using Cons.prems(4) by (auto intro: lget_next)
  have dp: "decimal_point_char (lget lx) = dp" using on by (simp add: lx_on_def)
  have "scan_number_loop q k buf lx =
      scan_number_loop q1 (enter_kind q1 k) (buf @ [if b = 0x2E then dp else b]) (lget lx)"
    by (subst scan_number_loop.simps) (simp add: lx_on_current [OF on] q1(1) dp)
  with Cons.IH [OF q1(2) Cons.prems(2,3) on, of "buf @ [if b = 0x2E then dp else b]"] show ?case
    by (simp add: localized_def)
qed

lemma digit_no_point: "is_digit_byte b \<Longrightarrow> b \<noteq> 0x2E \<and> b \<noteq> 0x2D"
  by (auto simp: is_digit_byte_def)

lemma scan_number_text:
  assumes "number_text k (b # t)" and "ends_number bs" and "lx_on dp lx (Some b) (t @ bs) n"
  shows "\<exists>lx'. scan_number strtod lx = (number_token strtod k (localized dp (b # t)), lx') \<and>
    lx_at dp lx' bs \<and> n < chars_read_total lx'"
proof -
  obtain q where q: "number_run (first_state b) (enter_kind (first_state b) K_unsigned) t = Some (q, k)" "number_final q"
      "b \<noteq> 0x2E"
    using assms(1) digit_no_point [of b] by (auto simp: number_text_def split: option.splits)
  from scan_number_loop_run [OF q(1,2) assms(2,3), of "[b]"] q(3) show ?thesis
    by (auto simp: scan_number_def lx_on_current [OF assms(3)] first_state_def localized_def Let_def)
qed

section \<open>Integers read back\<close>

lemma decimal_digits: "list_all is_digit_byte (decimal n)"
proof (induction n rule: nat_string.induct)
  case (1 n)
  have d: "is_digit_byte (of_nat (0x30 + d))" if "d < 10" for d
    using that byte_val [of "0x30 + d"] by (simp add: is_digit_byte_def u8_le del: of_nat_add)
  show ?case
  proof (cases "n < 10")
    case False
    with 1 d [of "n mod 10"] show ?thesis by (simp add: decimal_step del: of_nat_add)
  qed (use d [of n] in \<open>simp add: decimal_small del: of_nat_add\<close>)
qed

lemma number_run_digits: "list_all is_digit_byte ds \<Longrightarrow> number_run N_any1 k ds = Some (N_any1, k)"
  by (induction ds) auto

lemma localized_digits: "list_all is_digit_byte ds \<Longrightarrow> localized dp ds = ds"
  by (induction ds) (auto simp: localized_def digit_no_point)

lemma decimal_head: "0 < n \<Longrightarrow> \<exists>b ds. decimal n = b # ds \<and> b \<noteq> 0x30 \<and> is_digit_byte b \<and> list_all is_digit_byte ds"
proof (induction n rule: nat_string.induct)
  case (1 n)
  show ?case
  proof (cases "n < 10")
    case True
    have "(of_nat (0x30 + n) :: u8) \<noteq> 0x30"
      using True 1(2) byte_val [of "0x30 + n"] by (simp add: word_unat_eq_iff del: of_nat_add)
    with True decimal_digits [of n] show ?thesis by (simp add: decimal_small del: of_nat_add)
  next
    case False
    then obtain b ds where "decimal (n div 10) = b # ds" "b \<noteq> 0x30"
      using 1(1) div_le_mono [of 10 n 10] by auto
    with False decimal_digits [of n] show ?thesis by (simp add: decimal_step del: of_nat_add)
  qed
qed

lemma decimal_value_snoc: "decimal_value (ds @ [b]) = 10 * decimal_value ds + (unat b - 0x30)"
  by (simp add: decimal_value_def)

lemma decimal_value_decimal: "decimal_value (decimal n) = n"
proof (induction n rule: nat_string.induct)
  case (1 n)
  have d: "unat (of_nat (0x30 + d) :: u8) - 0x30 = d" if "d < 10" for d
    using that byte_val [of "0x30 + d"] by (simp del: of_nat_add)
  show ?case
  proof (cases "n < 10")
    case True
    then show ?thesis using d [of n] by (simp add: decimal_small decimal_value_def del: of_nat_add)
  next
    case False
    then show ?thesis using 1 d [of "n mod 10"] by (simp add: decimal_step decimal_value_snoc del: of_nat_add)
  qed
qed

lemma int_text_number: "number_text (if x < 0 then K_integer else K_unsigned) (int_text x)"
proof (cases "x = 0")
  case False
  then obtain b ds where b: "decimal (nat \<bar>x\<bar>) = b # ds" "b \<noteq> 0x30" "is_digit_byte b" "list_all is_digit_byte ds"
    using decimal_head [of "nat \<bar>x\<bar>"] by auto
  then show ?thesis
    using digit_no_point [OF b(3)]
    by (simp add: int_text_def number_text_def first_state_def number_run_digits number_final_def)
qed (simp add: int_text_def decimal_small number_text_def first_state_def number_final_def is_digit_byte_def)

lemma int_text_token:
  assumes "is_number x"
  shows "number_token strtod (if x < 0 then K_integer else K_unsigned) (localized dp (int_text x)) =
    (if x < 0 then T_integer x else T_unsigned (nat x))"
proof -
  have "localized dp (int_text x) = int_text x"
    using localized_digits [OF decimal_digits, of dp] by (simp add: int_text_def localized_def)
  moreover have "nat (- x) \<le> 2 ^ 63" "nat x < 2 ^ 64" using assms by (auto simp: is_number_def)
  ultimately show ?thesis
    using assms by (simp add: number_token_def int_text_def decimal_value_decimal)
qed

lemma to_string_decimal: "lit (to_string x) = int_text x"
  by (simp add: to_string_def int_text_def decimal_def lit_def)

text \<open>
  C12: For every 64-bit integer, signed or unsigned, \<^verbatim>\<open>dump_integer\<close> fails no assertion, and the digits
  that are counted in steps of four and then written in pairs from the back of the buffer, of the
  magnitude that \<^verbatim>\<open>remove_sign\<close> computes in 64 bits, are the decimal text of \<^verbatim>\<open>std::to_string\<close>.
\<close>

theorem dump_integer_to_string: "is_number x \<Longrightarrow> dump_integer x = Inr (lit (to_string x))"
  unfolding to_string_decimal by (rule dump_integer_decimal)

theorem dump_integer_to_string_witness:
  "is_number (- 9223372036854775808) \<and> dump_integer (- 9223372036854775808) = Inr (lit (to_string (- 9223372036854775808)))"
  using dump_integer_to_string [of "- 9223372036854775808"] by (simp add: is_number_def)

end
