(* ===== verification/Json_Grisu_Digits.thy ===== *)
theory Json_Grisu_Digits
  imports Json_Grisu_Num Json_Number
begin

text \<open>
  The digits that Grisu2 generates: no assertion fails, no 64-bit operation wraps around, the loop
  over the fraction ends, and the digits denote a number between the two bounds.
\<close>

section \<open>Rounding\<close>

lemma digit_value: "d \<le> 9 \<Longrightarrow> unat (of_nat (0x30 + d) :: u8) - 0x30 = d"
  using byte_val [of "0x30 + d"] by (simp del: of_nat_add)

lemma digit_is_digit: "d \<le> 9 \<Longrightarrow> is_digit_byte (of_nat (0x30 + d))"
  using byte_val [of "0x30 + d"] by (simp add: is_digit_byte_def u8_le del: of_nat_add)

lemma digit_zero: "d \<le> 9 \<Longrightarrow> (of_nat (0x30 + d) = (0x30 :: u8)) = (d = 0)"
  using byte_val [of "0x30 + d"] by (simp add: word_unat_eq_iff del: of_nat_add)

lemma round_loop_ok:
  assumes "rest \<le> delta" and "dst \<le> delta" and "delta < 2 ^ 64" and "delta < d * ten_k + rest" and "d \<le> 9"
  shows "\<exists>j<d. round_loop dst delta ten_k rest (of_nat (0x30 + d)) = Inr (of_nat (0x30 + (d - j))) \<and>
    rest + j * ten_k \<le> delta"
  using assms
proof (induction d arbitrary: rest)
  case (Suc d)
  show ?case
  proof (cases "rest < dst \<and> ten_k \<le> delta - rest \<and>
      ((rest + ten_k) mod 2 ^ 64 < dst \<or> (rest + ten_k - dst) mod 2 ^ 64 < dst - rest)")
    case False
    then have "round_loop dst delta ten_k rest (of_nat (0x30 + Suc d)) = Inr (of_nat (0x30 + Suc d))"
      by (subst round_loop.simps) (simp only: if_False)
    with Suc.prems(1) show ?thesis by (intro exI [of _ 0]) simp
  next
    case True
    then have le: "rest + ten_k \<le> delta" using Suc.prems(1) by auto
    then have m: "(rest + ten_k) mod 2 ^ 64 = rest + ten_k" using Suc.prems(3) by simp
    have b: "(of_nat (0x30 + Suc d) :: u8) \<noteq> 0x30" "(of_nat (0x30 + Suc d) :: u8) - 1 = of_nat (0x30 + d)"
      using digit_zero [OF Suc.prems(5)] by simp_all
    have "round_loop dst delta ten_k rest (of_nat (0x30 + Suc d)) =
        bindE (json_assert ((of_nat (0x30 + Suc d) :: u8) \<noteq> 0x30))
          (\<lambda>_. round_loop dst delta ten_k ((rest + ten_k) mod 2 ^ 64) (of_nat (0x30 + Suc d) - 1))"
      using True by (subst round_loop.simps) (simp only: if_True simp_thms)
    then have eq: "round_loop dst delta ten_k rest (of_nat (0x30 + Suc d)) =
        round_loop dst delta ten_k (rest + ten_k) (of_nat (0x30 + d))"
      using b(1) unfolding b(2) m by (simp del: of_nat_add)
    obtain j where "j < d" "round_loop dst delta ten_k (rest + ten_k) (of_nat (0x30 + d)) = Inr (of_nat (0x30 + (d - j)))"
        "rest + ten_k + j * ten_k \<le> delta"
      using Suc.IH [OF le Suc.prems(2,3)] Suc.prems(4,5) by (auto simp: algebra_simps)
    with eq show ?thesis by (intro exI [of _ "Suc j"]) auto
  qed
qed simp

lemma grisu2_round_ok:
  assumes "rest \<le> delta" and "dst \<le> delta" and "delta < 2 ^ 64" and "delta < d * ten_k + rest" and "d \<le> 9"
  shows "\<exists>j<d. grisu2_round (ds @ [of_nat (0x30 + d)]) dst delta rest ten_k = Inr (ds @ [of_nat (0x30 + (d - j))]) \<and>
    rest + j * ten_k \<le> delta"
proof -
  have "0 < ten_k" using assms(1,4) by (cases ten_k) auto
  then show ?thesis
    using round_loop_ok [OF assms] assms(1,2) by (auto simp: grisu2_round_def simp del: of_nat_add)
qed

section \<open>The integral part\<close>

abbreviation digits :: "octets \<Rightarrow> bool" where
  "digits ds \<equiv> list_all is_digit_byte ds"

text \<open>
  What a complete buffer stands for: with the exponent \<open>n\<close> it differs from the number \<open>total\<close> by at
  most \<open>delta\<close>.
\<close>

lemma gen_integral_ok:
  assumes "p1 < 10 ^ n" and "0 < n \<longrightarrow> pow10 = 10 ^ (n - 1)" and "p1 * 2 ^ s + p2 < 2 ^ 64" and "delta < p1 * 2 ^ s + p2"
    and "dst \<le> delta"
  shows "(\<exists>ds n' R. gen_integral s dst delta p2 n p1 pow10 buf = Inr (D_done (buf @ ds) (int n')) \<and> n' < n \<and>
      digits ds \<and> length ds = n - n' \<and> R \<le> delta \<and>
      decimal_value (buf @ ds) * 10 ^ n' * 2 ^ s + R = (decimal_value buf * 10 ^ n + p1) * 2 ^ s + p2 \<and>
      (10 ^ (n - 1) \<le> p1 \<longrightarrow> hd ds \<noteq> 0x30)) \<or>
    (\<exists>ds. gen_integral s dst delta p2 n p1 pow10 buf = Inr (D_more (buf @ ds)) \<and> digits ds \<and> length ds = n \<and> delta < p2 \<and>
      decimal_value (buf @ ds) = decimal_value buf * 10 ^ n + p1 \<and> (0 < n \<and> 10 ^ (n - 1) \<le> p1 \<longrightarrow> hd ds \<noteq> 0x30))"
  using assms
proof (induction n arbitrary: p1 pow10 buf)
  case 0
  then show ?case by (intro disjI2 exI [of _ "[]"]) simp
next
  case (Suc n)
  have pow: "pow10 = 10 ^ n" using Suc.prems(2) by simp
  define d r where "d = p1 div 10 ^ n" and "r = p1 mod 10 ^ n"
  have p1: "p1 = d * 10 ^ n + r" unfolding d_def r_def by (rule div_mult_mod_eq [symmetric])
  have d9: "d \<le> 9" using Suc.prems(1) by (simp add: d_def less_mult_imp_div_less mult.commute flip: less_Suc_eq_le)
  have r: "r < 10 ^ n" by (simp add: r_def)
  have tot: "p1 * 2 ^ s + p2 = d * (10 ^ n * 2 ^ s) + (r * 2 ^ s + p2)" by (simp add: p1 algebra_simps)
  have "r * 2 ^ s + p2 < 2 ^ 64" using Suc.prems(3) unfolding tot by linarith
  then have rest: "(r * 2 ^ s mod 2 ^ 64 + p2) mod 2 ^ 64 = r * 2 ^ s + p2" by (simp add: mod_add_left_eq)
  have delta: "delta < 2 ^ 64" using Suc.prems(3,4) by linarith
  let ?b = "of_nat (0x30 + d) :: u8"
  have step: "gen_integral s dst delta p2 (Suc n) p1 pow10 buf =
      (if r * 2 ^ s + p2 \<le> delta
       then bindE (grisu2_round (buf @ [?b]) dst delta (r * 2 ^ s + p2) (10 ^ n * 2 ^ s mod 2 ^ 64)) (\<lambda>buf2. Inr (D_done buf2 (int n)))
       else gen_integral s dst delta p2 n r (10 ^ n div 10) (buf @ [?b]))"
    using d9 unfolding gen_integral.simps Let_def pow d_def [symmetric] r_def [symmetric] rest by (simp del: of_nat_add)
  show ?case
  proof (cases "r * 2 ^ s + p2 \<le> delta")
    case True
    have d: "0 < d" using True Suc.prems(4) unfolding tot by (cases d) auto
    then have "10 ^ n * 2 ^ s \<le> d * (10 ^ n * 2 ^ s)" by (cases d) auto
    then have "10 ^ n * 2 ^ s < (2 ^ 64 :: nat)" using Suc.prems(3) unfolding tot by linarith
    then have ten: "10 ^ n * 2 ^ s mod 2 ^ 64 = (10 ^ n * 2 ^ s :: nat)" by (rule mod_less)
    obtain j where j: "j < d" "grisu2_round (buf @ [?b]) dst delta (r * 2 ^ s + p2) (10 ^ n * 2 ^ s) = Inr (buf @ [of_nat (0x30 + (d - j))])"
        "r * 2 ^ s + p2 + j * (10 ^ n * 2 ^ s) \<le> delta"
      using grisu2_round_ok [OF True Suc.prems(5) delta _ d9, of "10 ^ n * 2 ^ s" buf] Suc.prems(4) unfolding tot by blast
    have dj: "d - j \<le> 9" using d9 by simp
    have val: "decimal_value (buf @ [of_nat (0x30 + (d - j))]) = 10 * decimal_value buf + (d - j)"
      unfolding decimal_value_snoc digit_value [OF dj] ..
    obtain i where i: "d = i + j" "d - j = i" using j(1) by (metis add_diff_cancel_right' le_add_diff_inverse2 less_imp_le)
    have "decimal_value (buf @ [of_nat (0x30 + (d - j))]) * 10 ^ n * 2 ^ s + (r * 2 ^ s + p2 + j * (10 ^ n * 2 ^ s)) =
        (decimal_value buf * 10 ^ Suc n + p1) * 2 ^ s + p2"
      unfolding val unfolding p1 i(2) unfolding i(1) by (simp add: algebra_simps)
    then show ?thesis
      using True step j ten dj digit_is_digit [OF dj] digit_zero [OF dj]
      by (intro disjI1 exI [of _ "[of_nat (0x30 + (d - j))]"] exI [of _ n] exI [of _ "r * 2 ^ s + p2 + j * (10 ^ n * 2 ^ s)"])
         (auto simp del: of_nat_add)
  next
    case False
    have val: "decimal_value (buf @ [?b]) = 10 * decimal_value buf + d" unfolding decimal_value_snoc digit_value [OF d9] ..
    then have same: "decimal_value (buf @ [?b]) * 10 ^ n + r = decimal_value buf * 10 ^ Suc n + p1"
      by (simp add: p1 algebra_simps)
    have hd: "10 ^ n \<le> p1 \<Longrightarrow> ?b \<noteq> 0x30" using digit_zero [OF d9] r by (auto simp: p1 simp del: of_nat_add)
    have ih: "0 < n \<longrightarrow> 10 ^ n div 10 = (10 :: nat) ^ (n - 1)" by (cases n) simp_all
    have more: "delta < r * 2 ^ s + p2" using False by simp
    have eq: "gen_integral s dst delta p2 (Suc n) p1 pow10 buf = gen_integral s dst delta p2 n r (10 ^ n div 10) (buf @ [?b])"
      using step False by (simp del: of_nat_add)
    show ?thesis
      using Suc.IH [OF r ih \<open>r * 2 ^ s + p2 < 2 ^ 64\<close> more Suc.prems(5), of "buf @ [?b]"]
    proof (elim disjE exE conjE)
      fix ds n' R
      assume a: "gen_integral s dst delta p2 n r (10 ^ n div 10) (buf @ [?b]) = Inr (D_done ((buf @ [?b]) @ ds) (int n'))" "n' < n"
        "digits ds" "length ds = n - n'" "R \<le> delta"
        "decimal_value ((buf @ [?b]) @ ds) * 10 ^ n' * 2 ^ s + R = (decimal_value (buf @ [?b]) * 10 ^ n + r) * 2 ^ s + p2"
      then show ?thesis
        using eq hd same digit_is_digit [OF d9]
        by (intro disjI1 exI [of _ "?b # ds"] exI [of _ n'] exI [of _ R]) (auto simp del: of_nat_add)
    next
      fix ds
      assume a: "gen_integral s dst delta p2 n r (10 ^ n div 10) (buf @ [?b]) = Inr (D_more ((buf @ [?b]) @ ds))" "digits ds"
        "length ds = n" "delta < p2" "decimal_value ((buf @ [?b]) @ ds) = decimal_value (buf @ [?b]) * 10 ^ n + r"
      then show ?thesis
        using eq hd same digit_is_digit [OF d9] by (intro disjI2 exI [of _ "?b # ds"]) (auto simp del: of_nat_add)
    qed
  qed
qed

section \<open>The fraction\<close>

lemma gen_fraction_ok:
  assumes "p2 < 2 ^ s" and "delta < p2" and "dst \<le> delta" and "s \<le> 60" and "2 ^ s \<le> delta * 10 ^ fuel"
  shows "\<exists>ds R j. gen_fraction fuel s dst delta p2 m buf = Inr (buf @ ds, - int (m + j)) \<and> digits ds \<and> length ds = j \<and> 0 < j \<and>
    R \<le> 10 ^ j * delta \<and> decimal_value (buf @ ds) * 2 ^ s + R = 10 ^ j * (decimal_value buf * 2 ^ s + p2) \<and>
    10 ^ (j - 1) * delta < 2 ^ s"
  using assms
proof (induction fuel arbitrary: delta dst p2 m buf)
  case 0
  then show ?case by simp
next
  case (Suc fuel)
  have le: "(2 :: nat) ^ s \<le> 2 ^ 60" using Suc.prems(4) by (intro power_increasing) auto
  define d r where "d = p2 * 10 div 2 ^ s" and "r = p2 * 10 mod 2 ^ s"
  have p: "p2 * 10 = d * 2 ^ s + r" unfolding d_def r_def by (rule div_mult_mod_eq [symmetric])
  have d9: "d \<le> 9" using Suc.prems(1) by (simp add: d_def less_mult_imp_div_less mult.commute flip: less_Suc_eq_le)
  have m: "p2 * 10 mod 2 ^ 64 = p2 * 10" "delta * 10 mod 2 ^ 64 = delta * 10" "dst * 10 mod 2 ^ 64 = dst * 10"
    using Suc.prems(1-3) le by simp_all
  have bound: "p2 \<le> (2 ^ 64 - 1) div 10" using Suc.prems(1) le by simp
  let ?b = "of_nat (0x30 + d) :: u8"
  have step: "gen_fraction (Suc fuel) s dst delta p2 m buf =
      (if r \<le> delta * 10
       then bindE (grisu2_round (buf @ [?b]) (dst * 10) (delta * 10) r (2 ^ s)) (\<lambda>buf2. Inr (buf2, - int (Suc m)))
       else gen_fraction fuel s (dst * 10) (delta * 10) r (Suc m) (buf @ [?b]))"
    using d9 bound unfolding gen_fraction.simps Let_def m d_def [symmetric] r_def [symmetric] by (simp del: of_nat_add)
  show ?case
  proof (cases "r \<le> delta * 10")
    case True
    have h: "dst * 10 \<le> delta * 10" "delta * 10 < 2 ^ 64" "delta * 10 < d * 2 ^ s + r"
      using Suc.prems(1-3) le unfolding p [symmetric] by simp_all
    obtain j where j: "j < d" "grisu2_round (buf @ [?b]) (dst * 10) (delta * 10) r (2 ^ s) = Inr (buf @ [of_nat (0x30 + (d - j))])"
        "r + j * 2 ^ s \<le> delta * 10"
      using grisu2_round_ok [OF True h d9] by blast
    have dj: "d - j \<le> 9" using d9 by simp
    have val: "decimal_value (buf @ [of_nat (0x30 + (d - j))]) = 10 * decimal_value buf + (d - j)"
      unfolding decimal_value_snoc digit_value [OF dj] ..
    obtain i where i: "d = i + j" "d - j = i" using j(1) by (metis add_diff_cancel_right' le_add_diff_inverse2 less_imp_le)
    have "decimal_value (buf @ [of_nat (0x30 + (d - j))]) * 2 ^ s + (r + j * 2 ^ s) = 10 * (decimal_value buf * 2 ^ s + p2)"
      using p unfolding val unfolding i(2) unfolding i(1) by (simp add: algebra_simps)
    then have "R \<le> 10 * delta \<and> decimal_value (buf @ [of_nat (0x30 + (d - j))]) * 2 ^ s + R = 10 * (decimal_value buf * 2 ^ s + p2)"
      if "R = r + j * 2 ^ s" for R using that j(3) by simp
    moreover have "gen_fraction (Suc fuel) s dst delta p2 m buf = Inr (buf @ [of_nat (0x30 + (d - j))], - int (m + 1))"
      using True step j(2) by (simp del: of_nat_add)
    moreover have "delta < 2 ^ s" using Suc.prems(1,2) by linarith
    ultimately show ?thesis
      using digit_is_digit [OF dj]
      by (intro exI [of _ "[of_nat (0x30 + (d - j))]"] exI [of _ "r + j * 2 ^ s"] exI [of _ 1]) (simp del: of_nat_add)
  next
    case False
    have h: "r < 2 ^ s" "delta * 10 < r" "dst * 10 \<le> delta * 10" "2 ^ s \<le> delta * 10 * 10 ^ fuel"
      using Suc.prems(3,5) False by (simp_all add: r_def mult.assoc)
    from Suc.IH [OF h(1-3) Suc.prems(4) h(4), of "Suc m" "buf @ [?b]"]
    obtain ds R j where a: "gen_fraction fuel s (dst * 10) (delta * 10) r (Suc m) (buf @ [?b]) = Inr ((buf @ [?b]) @ ds, - int (Suc m + j))"
        "digits ds" "length ds = j" "0 < j" "R \<le> 10 ^ j * (delta * 10)"
        "decimal_value ((buf @ [?b]) @ ds) * 2 ^ s + R = 10 ^ j * (decimal_value (buf @ [?b]) * 2 ^ s + r)"
        "10 ^ (j - 1) * (delta * 10) < 2 ^ s"
      by blast
    have val: "decimal_value (buf @ [?b]) = 10 * decimal_value buf + d" unfolding decimal_value_snoc digit_value [OF d9] ..
    have "10 ^ j * (decimal_value (buf @ [?b]) * 2 ^ s + r) = 10 ^ Suc j * (decimal_value buf * 2 ^ s + p2)"
      unfolding val power_Suc using arg_cong [OF p, of "\<lambda>x. 10 ^ j * x"] by (simp add: algebra_simps)
    moreover have "10 ^ (Suc j - 1) * delta < 2 ^ s" using a(4,7) by (cases j) (simp_all add: mult.assoc mult.commute mult.left_commute)
    moreover have "gen_fraction (Suc fuel) s dst delta p2 m buf = Inr (buf @ ?b # ds, - int (m + Suc j))"
      using step False a(1) by (simp del: of_nat_add)
    moreover have "R \<le> 10 ^ Suc j * delta" using a(5) by (simp add: ac_simps)
    moreover have "digits (?b # ds)" using a(2) digit_is_digit [OF d9] by (simp del: of_nat_add)
    ultimately show ?thesis
      using a(3,6) unfolding append_assoc append_Cons append_Nil
      by (intro exI [of _ "?b # ds"] exI [of _ R] exI [of _ "Suc j"] conjI) (simp_all only: list.size length_Cons zero_less_Suc)
  qed
qed

section \<open>Digit generation\<close>

lemma find_largest_pow10_ok:
  assumes "0 < n" and "n < 2 ^ 32"
  shows "\<exists>k. find_largest_pow10 n = (k, 10 ^ (k - 1)) \<and> 10 ^ (k - 1) \<le> n \<and> n < 10 ^ k \<and> 0 < k \<and> k \<le> 10"
proof -
  consider "n < 10" | "10 \<le> n" "n < 100" | "100 \<le> n" "n < 1000" | "1000 \<le> n" "n < 10000" | "10000 \<le> n" "n < 100000"
    | "100000 \<le> n" "n < 1000000" | "1000000 \<le> n" "n < 10000000" | "10000000 \<le> n" "n < 100000000"
    | "100000000 \<le> n" "n < 1000000000" | "1000000000 \<le> n" by linarith
  then have "\<exists>k\<in>{1, 2, 3, 4, 5, 6, 7, 8, 9, 10}. find_largest_pow10 n = (k, 10 ^ (k - 1)) \<and> 10 ^ (k - 1) \<le> n \<and> n < 10 ^ k"
    using assms by cases (simp_all add: find_largest_pow10_def)
  then show ?thesis by fastforce
qed

lemma digit_count:
  assumes "10 ^ (j - 1) * delta < 2 ^ s" and "10 ^ (k - 1) * 2 ^ s \<le> (10 :: nat) ^ 16 * delta" and "0 < j" and "0 < k"
  shows "k + j \<le> 17"
proof -
  have "10 ^ (k - 1) * (10 ^ (j - 1) * delta) < 10 ^ (k - 1) * (2 :: nat) ^ s" using assms(1) by simp
  then have "10 ^ (k - 1) * (10 ^ (j - 1) * delta) < 10 ^ 16 * delta" using assms(2) by (rule order_less_le_trans)
  then have "(10 :: nat) ^ (k - 1 + (j - 1)) * delta < 10 ^ 16 * delta" by (simp add: power_add mult.assoc)
  then have "(10 :: nat) ^ (k - 1 + (j - 1)) < 10 ^ 16" by simp
  then have "k - 1 + (j - 1) < 16" by (subst (asm) power_strict_increasing_iff) simp
  with assms(3,4) show ?thesis by linarith
qed

text \<open>The digits \<open>ds\<close> with the exponent \<open>n\<close>, in units of \<open>2 ^ s\<close>, lie at most \<open>delta\<close> below \<open>T\<close>.\<close>

definition near :: "nat \<Rightarrow> nat \<Rightarrow> nat \<Rightarrow> octets \<Rightarrow> int \<Rightarrow> bool" where
  "near s T delta ds n \<longleftrightarrow>
     digits ds \<and> ds \<noteq> [] \<and> hd ds \<noteq> 0x30 \<and> length ds \<le> 17 \<and>
     real T - real delta \<le> real (decimal_value ds) * 10 powi n * 2 ^ s \<and> real (decimal_value ds) * 10 powi n * 2 ^ s \<le> real T"

lemma near_integral:
  assumes "decimal_value ds * 10 ^ n * 2 ^ s + R = T" and "R \<le> delta" and "digits ds" and "ds \<noteq> []" and "hd ds \<noteq> 0x30" and "length ds \<le> 17"
  shows "near s T delta ds (int n)"
proof -
  have "real (decimal_value ds) * 10 powi int n * 2 ^ s + real R = real T"
    using arg_cong [OF assms(1), of real] by simp
  with assms show ?thesis by (simp add: near_def)
qed

lemma near_fraction:
  assumes "decimal_value ds * 2 ^ s + R = 10 ^ j * T" and "R \<le> 10 ^ j * delta" and "digits ds" and "ds \<noteq> []" and "hd ds \<noteq> 0x30" and "length ds \<le> 17"
  shows "near s T delta ds (- int j)"
proof -
  let ?v = "real (decimal_value ds) * 10 powi (- int j) * 2 ^ s"
  have "real (decimal_value ds) * 2 ^ s + real R = 10 ^ j * real T" using arg_cong [OF assms(1), of real] by simp
  then have "?v + real R / 10 ^ j = real T" by (simp add: powi_minus_nat field_simps)
  moreover have "real R / 10 ^ j \<le> real delta"
    using assms(2) by (simp add: field_simps flip: of_nat_le_iff [where 'a = real])
  moreover have "0 \<le> real R / 10 ^ j" by simp
  ultimately have "real T - real delta \<le> ?v" "?v \<le> real T" by linarith+
  with assms show ?thesis by (simp add: near_def)
qed

lemma digit_gen_ok:
  assumes "32 \<le> s" and "s \<le> 60" and "2 ^ s \<le> T" and "T < 2 ^ 64" and "dst \<le> delta" and "delta < T" and "T \<le> 10 ^ 16 * delta"
  shows "\<exists>ds n. grisu2_digit_gen \<lparr>fp_f = T - delta, fp_e = - int s\<rparr> \<lparr>fp_f = T - dst, fp_e = - int s\<rparr> \<lparr>fp_f = T, fp_e = - int s\<rparr> =
    Inr (ds, n) \<and> near s T delta ds n"
proof -
  define p1 p2 where "p1 = T div 2 ^ s" and "p2 = T mod 2 ^ s"
  have T: "p1 * 2 ^ s + p2 = T" unfolding p1_def p2_def by (rule div_mult_mod_eq)
  have "(2 :: nat) ^ 64 \<le> 2 ^ 32 * 2 ^ s" using assms(1) power_increasing [of 32 s "2 :: nat"] by simp
  then have p1_less: "p1 < 2 ^ 32" using assms(4) by (simp add: p1_def less_mult_imp_div_less)
  have p1_pos: "0 < p1" using assms(3) by (simp add: p1_def div_greater_zero_iff)
  obtain k where k: "find_largest_pow10 p1 = (k, 10 ^ (k - 1))" "10 ^ (k - 1) \<le> p1" "p1 < 10 ^ k" "0 < k" "k \<le> 10"
    using find_largest_pow10_ok [OF p1_pos p1_less] by blast
  have eq: "grisu2_digit_gen \<lparr>fp_f = T - delta, fp_e = - int s\<rparr> \<lparr>fp_f = T - dst, fp_e = - int s\<rparr> \<lparr>fp_f = T, fp_e = - int s\<rparr> =
      bindE (gen_integral s dst delta p2 k p1 (10 ^ (k - 1)) []) (\<lambda>out.
      case out of D_done buf n \<Rightarrow> Inr (buf, n)
      | D_more buf \<Rightarrow> bindE (json_assert (delta < p2)) (\<lambda>_. gen_fraction 20 s dst delta p2 0 buf))"
    using assms(1,2,5,6) p1_less p1_pos k(1)
    by (simp add: grisu2_digit_gen_def kAlpha_def kGamma_def fp_sub_def Let_def p1_def [symmetric] p2_def [symmetric])
  from gen_integral_ok [of p1 k "10 ^ (k - 1)" s p2 delta dst "[]"] k(3) assms(4-6) T
  consider ds n' R where "gen_integral s dst delta p2 k p1 (10 ^ (k - 1)) [] = Inr (D_done ds (int n'))" "n' < k" "digits ds"
      "length ds = k - n'" "R \<le> delta" "decimal_value ds * 10 ^ n' * 2 ^ s + R = T" "hd ds \<noteq> 0x30"
    | ds where "gen_integral s dst delta p2 k p1 (10 ^ (k - 1)) [] = Inr (D_more ds)" "digits ds" "length ds = k" "delta < p2"
      "decimal_value ds = p1" "hd ds \<noteq> 0x30"
    using k(2,4) by (auto simp: decimal_value_def)
  then show ?thesis
  proof cases
    case (1 ds n' R)
    then have "ds \<noteq> []" "length ds \<le> 17" using k(5) by auto
    with near_integral [OF 1(6,5,3)] 1 eq show ?thesis by auto
  next
    case (2 ds)
    have p2: "p2 < 2 ^ s" by (simp add: p2_def)
    have "delta \<noteq> 0" using assms(3,7) by (cases delta) auto
    then have "(2 :: nat) ^ s \<le> delta * 10 ^ 20"
      using power_increasing [OF assms(2), of "2 :: nat"] by (cases delta) auto
    from gen_fraction_ok [OF p2 2(4) assms(5,2) this, of 0 ds]
    obtain ds' R j where f: "gen_fraction 20 s dst delta p2 0 ds = Inr (ds @ ds', - int j)" "digits ds'" "length ds' = j" "0 < j"
        "R \<le> 10 ^ j * delta" "decimal_value (ds @ ds') * 2 ^ s + R = 10 ^ j * T" "10 ^ (j - 1) * delta < 2 ^ s"
      using T 2(5) by auto
    have "10 ^ (k - 1) * 2 ^ s \<le> T" using k(2) T by (metis mult_le_mono1 trans_le_add1)
    then have "10 ^ (k - 1) * 2 ^ s \<le> 10 ^ 16 * delta" using assms(7) by (rule order_trans)
    from digit_count [OF f(7) this f(4) k(4)] near_fraction [OF f(6,5)] f 2 eq k(4) show ?thesis by auto
  qed
qed

end
