(* ===== verification/Json_Grisu_Spec.thy ===== *)
theory Json_Grisu_Spec
  imports Json_Grisu_Digits
begin

text \<open>
  Grisu2 is correct: for every positive finite number its digits denote a decimal number that is nearer
  to it than to its neighbours, and the formatted text is a floating-point literal for that number.
\<close>

section \<open>Scaling by a cached power\<close>

definition scaled :: "nat \<Rightarrow> nat \<Rightarrow> nat" where
  "scaled cf x = (x * cf + 2 ^ 63) div 2 ^ 64"

lemma scaled_bounds64: "x * cf + 2 ^ 63 < 2 ^ 64 * scaled cf x + 2 ^ 64" "2 ^ 64 * scaled cf x \<le> x * cf + 2 ^ 63"
proof -
  have "x * cf + 2 ^ 63 = 2 ^ 64 * scaled cf x + (x * cf + 2 ^ 63) mod 2 ^ 64" unfolding scaled_def by (rule mult_div_mod_eq [symmetric])
  moreover have "(x * cf + 2 ^ 63) mod 2 ^ 64 < (2 :: nat) ^ 64" by simp
  ultimately show "x * cf + 2 ^ 63 < 2 ^ 64 * scaled cf x + 2 ^ 64" "2 ^ 64 * scaled cf x \<le> x * cf + 2 ^ 63" by linarith+
qed

lemma scaled_close:
  assumes "x < 2 ^ 64" and "power_close (cf, ce, ck)"
  shows "\<bar>real (scaled cf x) * 2 powi (ce + e + 64) - real x * 2 powi e * 10 powi ck\<bar> < 2 powi (ce + e + 64)"
proof -
  let ?u = "2 powi (ce + e) :: real"
  have u: "0 < ?u" by simp
  have E: "2 powi (ce + e + 64) = 2 ^ 64 * ?u" by (simp add: power_int_add)
  have "real (x * cf + 2 ^ 63) < real (2 ^ 64 * scaled cf x + 2 ^ 64)"
    using scaled_bounds64(1) [of x cf] by (simp only: of_nat_less_iff)
  moreover have "real (2 ^ 64 * scaled cf x) \<le> real (x * cf + 2 ^ 63)"
    using scaled_bounds64(2) [of cf x] by (simp only: of_nat_le_iff)
  ultimately have "\<bar>real (scaled cf x) * 2 ^ 64 - real x * real cf\<bar> \<le> 2 ^ 63" by (simp add: abs_le_iff)
  then have "\<bar>real (scaled cf x) * 2 ^ 64 - real x * real cf\<bar> * ?u \<le> 2 ^ 63 * ?u" using u by (intro mult_right_mono) simp_all
  then have a: "\<bar>real (scaled cf x) * (2 ^ 64 * ?u) - real x * real cf * ?u\<bar> \<le> 2 ^ 63 * ?u"
    by (simp only: abs_mult_pos [OF less_imp_le [OF u]] left_diff_distrib mult.assoc)
  have "\<bar>real cf * 2 powi ce - 10 powi ck\<bar> \<le> 2 powi ce / 2" using assms(2) by (simp add: power_close_def)
  then have "real x * 2 powi e * \<bar>real cf * 2 powi ce - 10 powi ck\<bar> \<le> real x * 2 powi e * (2 powi ce / 2)"
    by (intro mult_left_mono) simp_all
  moreover have "real x * 2 powi e * \<bar>real cf * 2 powi ce - 10 powi ck\<bar> = \<bar>real x * real cf * ?u - real x * 2 powi e * 10 powi ck\<bar>"
    by (simp add: abs_mult_pos' power_int_add right_diff_distrib mult.assoc mult.commute mult.left_commute)
  moreover have "real x * 2 powi e * (2 powi ce / 2) = real x / 2 * ?u" by (simp add: power_int_add mult.commute mult.left_commute)
  moreover have "real x / 2 * ?u < 2 ^ 63 * ?u"
    using assms(1) u of_nat_less_iff [of x "2 ^ 64", where 'a = real] by (intro mult_strict_right_mono) simp_all
  ultimately have "\<bar>real x * real cf * ?u - real x * 2 powi e * 10 powi ck\<bar> < 2 ^ 63 * ?u" by linarith
  with a show ?thesis unfolding E by (simp add: abs_le_iff abs_less_iff)
qed

text \<open>
  The three scaled numbers, for a number \<open>f\<close> with room \<open>s\<close> for its bits and a lower boundary at the
  distance \<open>g\<close>.
\<close>

lemma scaled_less: "x < 2 ^ 64 \<Longrightarrow> cf < 2 ^ 64 \<Longrightarrow> scaled cf x < 2 ^ 64"
proof -
  assume "x < 2 ^ 64" "cf < 2 ^ 64"
  then have "x * cf \<le> (2 ^ 64 - 1) * (2 ^ 64 - 1)" by (intro mult_le_mono) simp_all
  then have "x * cf + 2 ^ 63 < 2 ^ 64 * 2 ^ 64" by simp
  then show ?thesis by (simp add: scaled_def less_mult_imp_div_less)
qed

lemma scaled_large: "2 ^ 63 \<le> x \<Longrightarrow> 2 ^ 63 \<le> cf \<Longrightarrow> 2 ^ 62 \<le> scaled cf x"
proof -
  assume "2 ^ 63 \<le> x" "2 ^ 63 \<le> cf"
  then have "2 ^ 63 * 2 ^ 63 \<le> x * cf" by (rule mult_le_mono)
  then have "2 ^ 62 * 2 ^ 64 \<le> x * cf + 2 ^ 63" by simp
  then show ?thesis unfolding scaled_def by (subst less_eq_div_iff_mult_less_eq) simp_all
qed

lemma scaled_distances:
  fixes f s g cf :: nat
  defines "W \<equiv> scaled cf (2 * f * 2 ^ s)" and "Wm \<equiv> scaled cf (2 * f * 2 ^ s - g)" and "Wp \<equiv> scaled cf ((2 * f + 1) * 2 ^ s)"
  assumes "10 \<le> s" and "2 ^ 63 \<le> cf" and "0 < f"
    and "g = 2 ^ s \<and> f < 2 ^ 53 \<or> 2 * g = 2 ^ s \<and> f = 2 ^ 52"
  shows "Wm + 1 \<le> W" and "W + 1 \<le> Wp" and "Wm + 3 \<le> Wp" and "Wp \<le> 10 ^ 16 * (Wp - Wm - 2)"
proof -
  define Y where "Y = 2 ^ s * cf"
  have "2 ^ 10 * 2 ^ 63 \<le> Y" unfolding Y_def using assms(4,5) power_increasing [of 10 s "2 :: nat"] by (intro mult_le_mono) simp_all
  then have Y: "2 ^ 73 \<le> Y" by simp
  have g: "g \<le> 2 * f * 2 ^ s"
  proof -
    have "g \<le> 2 ^ s" "1 * 2 ^ s \<le> 2 * f * 2 ^ s" using assms(6,7) by auto
    then show ?thesis by linarith
  qed
  have p: "(2 * f + 1) * 2 ^ s * cf = 2 * (f * Y) + Y" "2 * f * 2 ^ s * cf = 2 * (f * Y)" "(2 * f * 2 ^ s - g) * cf = 2 * (f * Y) - g * cf"
    by (simp_all add: Y_def algebra_simps diff_mult_distrib)
  have gcf: "g * cf \<le> 2 * (f * Y)" using mult_le_mono1 [OF g, of cf] by (simp add: p(2))
  have gY: "g * cf = Y \<and> f < 2 ^ 53 \<or> 2 * (g * cf) = Y \<and> f = 2 ^ 52"
    using assms(7) by (auto simp: Y_def mult.assoc [symmetric])
  note bw = scaled_bounds64(1) [of "2 * f * 2 ^ s" cf, folded W_def, unfolded p] scaled_bounds64(2) [of cf "2 * f * 2 ^ s", folded W_def, unfolded p]
  note bp = scaled_bounds64(1) [of "(2 * f + 1) * 2 ^ s" cf, folded Wp_def, unfolded p] scaled_bounds64(2) [of cf "(2 * f + 1) * 2 ^ s", folded Wp_def, unfolded p]
  note bm = scaled_bounds64(1) [of "2 * f * 2 ^ s - g" cf, folded Wm_def, unfolded p] scaled_bounds64(2) [of cf "2 * f * 2 ^ s - g", folded Wm_def, unfolded p]
  have Y3: "Y \<le> 2 * (g * cf)" using gY by linarith
  show "Wm + 1 \<le> W" using bm bw gcf Y3 Y by simp
  show "W + 1 \<le> Wp" using bp bw Y by simp
  show "Wm + 3 \<le> Wp" using bm bp gcf Y3 Y by simp
  show "Wp \<le> 10 ^ 16 * (Wp - Wm - 2)"
  proof -
    define D where "D = Wp - Wm - 2"
    have D: "Wp = D + Wm + 2" using \<open>Wm + 3 \<le> Wp\<close> by (simp add: D_def)
    have "2 * (g * cf) + 2 * Y < 2 ^ 65 * D + 3 * 2 ^ 65" using bm bp gcf unfolding D by simp
    moreover have "2 ^ 64 * Wp \<le> 10 ^ 16 * (2 ^ 64 * D)"
      using gY
    proof (elim disjE conjE)
      assume "g * cf = Y" "f < 2 ^ 53"
      define Z where "Z = f * Y"
      have "Z \<le> 9007199254740991 * Y" unfolding Z_def using \<open>f < 2 ^ 53\<close> by (intro mult_le_mono1) simp
      then show ?thesis
        using \<open>2 * (g * cf) + 2 * Y < 2 ^ 65 * D + 3 * 2 ^ 65\<close> bp [folded Z_def] \<open>g * cf = Y\<close> Y by simp
    next
      assume "2 * (g * cf) = Y" "f = 2 ^ 52"
      then show ?thesis using \<open>2 * (g * cf) + 2 * Y < 2 ^ 65 * D + 3 * 2 ^ 65\<close> bp Y by simp
    qed
    ultimately show ?thesis by (simp add: D_def)
  qed
qed

section \<open>The digits of a number\<close>

definition fp_real :: "diyfp \<Rightarrow> real" where
  "fp_real x = real (fp_f x) * 2 powi fp_e x"

lemma grisu2_scaled_ok:
  fixes f s g :: nat and e :: int
  defines "x \<equiv> 2 * f * 2 ^ s" and "xm \<equiv> 2 * f * 2 ^ s - g" and "xp \<equiv> (2 * f + 1) * 2 ^ s"
  assumes "10 \<le> s" and "0 < f" and "g = 2 ^ s \<and> f < 2 ^ 53 \<or> 2 * g = 2 ^ s \<and> f = 2 ^ 52"
    and "2 ^ 63 \<le> xp" and "xp < 2 ^ 64" and "- 1137 \<le> e" and "e \<le> 960"
  shows "\<exists>ds n. grisu2_scaled \<lparr>fp_f = xm, fp_e = e\<rparr> \<lparr>fp_f = x, fp_e = e\<rparr> \<lparr>fp_f = xp, fp_e = e\<rparr> = Inr (ds, n) \<and>
    digits ds \<and> ds \<noteq> [] \<and> hd ds \<noteq> 0x30 \<and> length ds \<le> 17 \<and>
    real xm * 2 powi e < real (decimal_value ds) * 10 powi n \<and> real (decimal_value ds) * 10 powi n < real xp * 2 powi e"
proof -
  obtain cf ce ck where c: "get_cached_power_for_binary_exponent e = Inr (cf, ce, ck)" "power_close (cf, ce, ck)"
      "2 ^ 63 \<le> cf" "cf < 2 ^ 64" "- 60 \<le> ce + e + 64" "ce + e + 64 \<le> - 32"
    using cached_power_ok [OF assms(9,10)] by blast
  define W Wm Wp where "W = scaled cf x" and "Wm = scaled cf xm" and "Wp = scaled cf xp"
  note W_defs = W_def Wm_def Wp_def
  note d = scaled_distances [OF assms(4) c(3) assms(5,6), folded x_def xm_def xp_def, folded W_defs]
  have lt: "x < 2 ^ 64" "xm < 2 ^ 64" using assms(8) by (simp_all add: x_def xm_def xp_def)
  define s' where "s' = nat (- (ce + e + 64))"
  have s': "ce + e + 64 = - int s'" "32 \<le> s'" "s' \<le> 60" using c(5,6) by (simp_all add: s'_def)
  have Wp: "2 ^ 62 \<le> Wp" "Wp < 2 ^ 64"
    using scaled_large [OF assms(7) c(3)] scaled_less [OF assms(8) c(4)] by (simp_all add: Wp_def)
  let ?T = "Wp - 1" and ?delta = "Wp - Wm - 2" and ?dst = "Wp - 1 - W"
  have m: "(Wm + 1) mod 2 ^ 64 = ?T - ?delta" "(Wp + 2 ^ 64 - 1) mod 2 ^ 64 = ?T" "W = ?T - ?dst"
  proof -
    have "Wm + 1 < 2 ^ 64" "Wm + 1 = ?T - ?delta" using d(1,2) Wp(2) by linarith+
    then show "(Wm + 1) mod 2 ^ 64 = ?T - ?delta" by simp
    have "Wp + 2 ^ 64 - 1 = 2 ^ 64 + ?T" using Wp(1) by simp
    then show "(Wp + 2 ^ 64 - 1) mod 2 ^ 64 = ?T" using Wp(2) by (metis less_imp_diff_less mod_add_self1 mod_less)
    show "W = ?T - ?dst" using d(2) by linarith
  qed
  have "(2 :: nat) ^ s' \<le> 2 ^ 60" using s'(3) by (intro power_increasing) simp_all
  then have T: "2 ^ s' \<le> ?T" using Wp(1) by simp
  have T': "?T < 2 ^ 64" "?dst \<le> ?delta" "?delta < ?T" using Wp d(1-3) by simp_all
  have "?T \<le> 10 ^ 16 * ?delta" using d(4) by (rule order_trans [OF diff_le_self])
  from digit_gen_ok [OF s'(2,3) T T' this] obtain ds n where g:
      "grisu2_digit_gen \<lparr>fp_f = ?T - ?delta, fp_e = - int s'\<rparr> \<lparr>fp_f = ?T - ?dst, fp_e = - int s'\<rparr> \<lparr>fp_f = ?T, fp_e = - int s'\<rparr> = Inr (ds, n)"
      "near s' ?T ?delta ds n" by blast
  have mul: "fp_mul \<lparr>fp_f = y, fp_e = e\<rparr> \<lparr>fp_f = cf, fp_e = ce\<rparr> = \<lparr>fp_f = scaled cf y, fp_e = - int s'\<rparr>" if "y < 2 ^ 64" for y
    using that c(4) s'(1) by (simp add: fp_mul_exact scaled_def add.commute)
  have gr: "grisu2_scaled \<lparr>fp_f = xm, fp_e = e\<rparr> \<lparr>fp_f = x, fp_e = e\<rparr> \<lparr>fp_f = xp, fp_e = e\<rparr> = Inr (ds, n - ck)"
    using g(1) c(1) mul [OF lt(1)] mul [OF lt(2)] mul [OF assms(8)] m(3)
    by (simp only: grisu2_scaled_def Let_def diyfp.simps json_assert_simps bindE.simps prod.case W_defs [symmetric] m(1,2) simp_thms)
  let ?v = "real (decimal_value ds) * 10 powi n" and ?u = "2 powi (ce + e + 64) :: real"
  have E: "?u = 1 / 2 ^ s'" unfolding s'(1) by (rule powi_minus_nat)
  have "real (Wm + 1) \<le> ?v * 2 ^ s'" "?v * 2 ^ s' \<le> real (Wp - 1)"
    using g(2) d(3) Wp(1) by (simp_all add: near_def of_nat_diff)
  then have v: "real (Wm + 1) * ?u \<le> ?v" "?v \<le> real (Wp - 1) * ?u" unfolding E by (simp_all add: field_simps)
  have "real xm * 2 powi e * 10 powi ck < real (Wm + 1) * ?u"
    using scaled_close [OF lt(2) c(2), of e, folded W_defs] by (simp add: abs_less_iff algebra_simps)
  moreover have "real (Wp - 1) * ?u < real xp * 2 powi e * 10 powi ck"
    using scaled_close [OF assms(8) c(2), of e, folded W_defs] Wp(1) by (simp add: abs_less_iff algebra_simps of_nat_diff)
  ultimately have "real xm * 2 powi e * 10 powi ck < ?v" "?v < real xp * 2 powi e * 10 powi ck" using v by linarith+
  then have "real xm * 2 powi e < real (decimal_value ds) * 10 powi (n - ck)" "real (decimal_value ds) * 10 powi (n - ck) < real xp * 2 powi e"
    by (simp_all add: power_int_diff field_simps)
  with gr g(2) show ?thesis by (auto simp: near_def)
qed

text \<open>Digits without a leading zero for a number between the two boundaries of the bits.\<close>

definition rounds_to :: "nat \<Rightarrow> octets \<Rightarrow> int \<Rightarrow> bool" where
  "rounds_to bits ds n \<longleftrightarrow>
     digits ds \<and> ds \<noteq> [] \<and> hd ds \<noteq> 0x30 \<and> length ds \<le> 17 \<and>
     fp_real (m_minus bits) < real (decimal_value ds) * 10 powi n \<and> real (decimal_value ds) * 10 powi n < fp_real (m_plus bits)"

lemma lower_boundary:
  assumes "m_minus bits = \<lparr>fp_f = 4 * fp_f (fp_of_bits bits) - 1, fp_e = fp_e (fp_of_bits bits) - 2\<rparr>"
  shows "fp_f (fp_of_bits bits) = 2 ^ 52"
proof -
  have "bits mod 2 ^ 52 = 0 \<and> 1 < bits div 2 ^ 52"
    using assms by (auto simp: m_minus_def Let_def split: if_splits)
  then show ?thesis by (auto simp: fp_of_bits_def Let_def)
qed

lemma grisu2_ok:
  assumes "0 < bits" and "bits div 2 ^ 52 < 2047"
  shows "\<exists>ds n. grisu2 bits = Inr (ds, n) \<and> rounds_to bits ds n"
proof -
  define f where "f = fp_f (fp_of_bits bits)"
  define ev where "ev = fp_e (fp_of_bits bits)"
  obtain s g b where b: "compute_boundaries bits = Inr b" "scaled_bounds bits s g b" "10 \<le> s"
      "2 ^ 63 \<le> (2 * f + 1) * 2 ^ s" "(2 * f + 1) * 2 ^ s < 2 ^ 64" "- 1137 \<le> fp_e (b_plus b)" "fp_e (b_plus b) \<le> 960"
      "g = 2 ^ s \<and> m_minus bits = \<lparr>fp_f = 2 * f - 1, fp_e = ev - 1\<rparr> \<or> 2 * g = 2 ^ s \<and> m_minus bits = \<lparr>fp_f = 4 * f - 1, fp_e = ev - 2\<rparr>"
    using compute_boundaries_ok [OF assms] unfolding f_def ev_def by blast
  have f: "0 < f" "f < 2 ^ 53" using fp_of_bits_bounds [OF assms] by (simp_all add: f_def)
  define e where "e = ev - 1 - int s"
  have b_eq: "b = \<lparr>b_w = \<lparr>fp_f = 2 * f * 2 ^ s, fp_e = e\<rparr>, b_minus = \<lparr>fp_f = 2 * f * 2 ^ s - g, fp_e = e\<rparr>,
      b_plus = \<lparr>fp_f = (2 * f + 1) * 2 ^ s, fp_e = e\<rparr>\<rparr>"
    using b(2) by (simp add: scaled_bounds_def Let_def f_def ev_def e_def)
  have g: "g = 2 ^ s \<and> f < 2 ^ 53 \<or> 2 * g = 2 ^ s \<and> f = 2 ^ 52"
    using b(8) f(2) lower_boundary [of bits] by (auto simp: f_def ev_def)
  have e: "- 1137 \<le> e" "e \<le> 960" using b(6,7) by (simp_all add: b_eq)
  from grisu2_scaled_ok [OF b(3) f(1) g b(4,5) e] obtain ds n where r:
      "grisu2_scaled (b_minus b) (b_w b) (b_plus b) = Inr (ds, n)" "digits ds" "ds \<noteq> []" "hd ds \<noteq> 0x30" "length ds \<le> 17"
      "real (2 * f * 2 ^ s - g) * 2 powi e < real (decimal_value ds) * 10 powi n"
      "real (decimal_value ds) * 10 powi n < real ((2 * f + 1) * 2 ^ s) * 2 powi e"
    by (auto simp: b_eq)
  have u: "2 ^ s * 2 powi e = (2 powi (ev - 1) :: real)"
    by (simp add: e_def flip: power_int_of_nat power_int_add)
  have "real ((2 * f + 1) * 2 ^ s) * 2 powi e = real (2 * f + 1) * 2 powi (ev - 1)"
    unfolding u [symmetric] of_nat_mult [of "2 * f + 1"] by simp
  then have "fp_real (m_plus bits) = real ((2 * f + 1) * 2 ^ s) * 2 powi e"
    by (simp add: fp_real_def m_plus_def Let_def f_def [symmetric] ev_def [symmetric])
  moreover have "fp_real (m_minus bits) = real (2 * f * 2 ^ s - g) * 2 powi e"
    using b(8)
  proof (elim disjE conjE)
    assume a: "g = 2 ^ s" "m_minus bits = \<lparr>fp_f = 2 * f - 1, fp_e = ev - 1\<rparr>"
    have "2 * f * 2 ^ s - g = (2 * f - 1) * 2 ^ s" by (simp add: a(1) diff_mult_distrib)
    then show ?thesis by (simp add: a(2) fp_real_def mult.assoc u)
  next
    assume a: "2 * g = 2 ^ s" "m_minus bits = \<lparr>fp_f = 4 * f - 1, fp_e = ev - 2\<rparr>"
    have "2 * f * 2 ^ s - g = (4 * f - 1) * g" by (simp add: a(1) [symmetric] diff_mult_distrib)
    moreover have "real g * 2 powi e = 2 powi (ev - 2)"
    proof -
      have "2 * real g = 2 ^ s" using arg_cong [OF a(1), of real] by simp
      then have "2 * (real g * 2 powi e) = 2 powi (ev - 1)" using u by (metis mult.assoc)
      also have "2 powi (ev - 1) = 2 * (2 powi (ev - 2) :: real)" using power_int_add [of "2 :: real" 1 "ev - 2"] by simp
      finally show ?thesis by simp
    qed
    ultimately show ?thesis by (simp add: a(2) fp_real_def mult.assoc)
  qed
  ultimately have "rounds_to bits ds n" using r(2-7) by (simp add: rounds_to_def)
  moreover have "grisu2 bits = Inr (ds, n)" using b(1) r(1) by (simp add: grisu2_def)
  ultimately show ?thesis by blast
qed

end
