(* ===== verification/Json_Grisu_Text.thy ===== *)
theory Json_Grisu_Text
  imports Json_Grisu_Spec
begin

text \<open>
  The text of a floating-point number: \<^verbatim>\<open>to_chars\<close> never fails, its result is a floating-point literal
  of at most 24 bytes, and the literal denotes a number that rounds to the given one.
\<close>

section \<open>The number that a literal denotes\<close>

definition exponent_value :: "octets \<Rightarrow> int" where
  "exponent_value t =
     (case t of
        b # c # ds \<Rightarrow> if c = 0x2D then - int (decimal_value ds) else if c = 0x2B then int (decimal_value ds) else int (decimal_value (c # ds))
      | _ \<Rightarrow> 0)"

definition fraction_digits :: "octets \<Rightarrow> octets" where
  "fraction_digits t = (case t of b # bs \<Rightarrow> if b = 0x2E then takeWhile is_digit_byte bs else [] | [] \<Rightarrow> [])"

definition after_fraction :: "octets \<Rightarrow> octets" where
  "after_fraction t = (case t of b # bs \<Rightarrow> if b = 0x2E then dropWhile is_digit_byte bs else t | [] \<Rightarrow> [])"

text \<open>The absolute value, without the sign.\<close>

definition literal_value :: "octets \<Rightarrow> real" where
  "literal_value t =
     (let u = (if t \<noteq> [] \<and> hd t = 0x2D then tl t else t);
          ip = takeWhile is_digit_byte u; r = dropWhile is_digit_byte u; fp = fraction_digits r
      in real (decimal_value (ip @ fp)) * 10 powi (exponent_value (after_fraction r) - int (length fp)))"

lemma digits_span:
  assumes "digits ds" and "\<not> is_digit_byte b"
  shows "takeWhile is_digit_byte (ds @ b # r) = ds" "dropWhile is_digit_byte (ds @ b # r) = b # r"
  using assms by (simp_all add: list_all_iff)

lemma digits_all: "digits ds \<Longrightarrow> takeWhile is_digit_byte ds = ds" "digits ds \<Longrightarrow> dropWhile is_digit_byte ds = []"
  by (simp_all add: list_all_iff)

lemma no_digit [simp]: "\<not> is_digit_byte 0x2E" "\<not> is_digit_byte 0x65" "\<not> is_digit_byte 0x2D" "\<not> is_digit_byte 0x2B"
  by (simp_all add: is_digit_byte_def)

lemma literal_sign: "literal_value (0x2D # t) = literal_value t" if "t \<noteq> [] \<Longrightarrow> hd t \<noteq> 0x2D"
  using that by (cases t) (simp_all add: literal_value_def)

lemma digits_no_sign: "digits ip \<Longrightarrow> ip \<noteq> [] \<Longrightarrow> hd ip \<noteq> 0x2D"
  by (cases ip) auto

lemma literal_point:
  assumes "digits ip" and "ip \<noteq> []" and "digits fp"
  shows "literal_value (ip @ 0x2E # fp) = real (decimal_value (ip @ fp)) * 10 powi (- int (length fp))"
  using assms digits_no_sign [OF assms(1,2)]
  by (simp add: literal_value_def digits_span digits_all fraction_digits_def after_fraction_def exponent_value_def Let_def)

lemma literal_point_exponent:
  assumes "digits ip" and "ip \<noteq> []" and "digits fp" and "c = 0x2D \<or> c = 0x2B"
  shows "literal_value (ip @ 0x2E # fp @ 0x65 # c # ed) =
    real (decimal_value (ip @ fp)) * 10 powi ((if c = 0x2D then - 1 else 1) * int (decimal_value ed) - int (length fp))"
  using assms digits_no_sign [OF assms(1,2)]
  by (auto simp add: literal_value_def digits_span digits_all fraction_digits_def after_fraction_def exponent_value_def Let_def)

lemma literal_exponent:
  assumes "digits ip" and "ip \<noteq> []" and "c = 0x2D \<or> c = 0x2B"
  shows "literal_value (ip @ 0x65 # c # ed) = real (decimal_value ip) * 10 powi ((if c = 0x2D then - 1 else 1) * int (decimal_value ed))"
  using assms digits_no_sign [OF assms(1,2)]
  by (auto simp add: literal_value_def digits_span digits_all fraction_digits_def after_fraction_def exponent_value_def Let_def)

section \<open>Literals\<close>

lemma number_run_append:
  "number_run q k (a @ b) = (case number_run q k a of None \<Rightarrow> None | Some (q', k') \<Rightarrow> number_run q' k' b)"
  by (induction q k a rule: number_run.induct) (auto split: number_move.splits)

lemma number_run_fraction: "digits ds \<Longrightarrow> ds \<noteq> [] \<Longrightarrow> number_run N_decimal1 k ds = Some (N_decimal2, k)"
proof -
  have "digits ds \<Longrightarrow> number_run N_decimal2 k ds = Some (N_decimal2, k)" for ds by (induction ds) auto
  then show "digits ds \<Longrightarrow> ds \<noteq> [] \<Longrightarrow> number_run N_decimal1 k ds = Some (N_decimal2, k)" by (cases ds) auto
qed

lemma number_run_exponent:
  assumes "c = 0x2D \<or> c = 0x2B" and "digits ed" and "ed \<noteq> []"
  shows "number_run N_exponent k (c # ed) = Some (N_any2, k)"
proof -
  have "digits ds \<Longrightarrow> number_run N_any2 k ds = Some (N_any2, k)" for ds by (induction ds) auto
  with assms show ?thesis by (cases ed) auto
qed

text \<open>An integral part is a zero or has no leading zero.\<close>

definition integral_part :: "octets \<Rightarrow> bool" where
  "integral_part ip \<longleftrightarrow> ip = [0x30] \<or> digits ip \<and> ip \<noteq> [] \<and> hd ip \<noteq> 0x30"

lemma integral_part_digits: "integral_part ip \<Longrightarrow> digits ip \<and> ip \<noteq> []"
  by (auto simp: integral_part_def is_digit_byte_def)

definition number_rest :: "octets \<Rightarrow> bool" where
  "number_rest r \<longleftrightarrow> (\<forall>q\<in>{N_zero, N_any1}. \<forall>k. case number_run q k r of None \<Rightarrow> False | Some (q', k') \<Rightarrow> number_final q' \<and> k' = K_float)"

lemma number_text_rest:
  assumes "integral_part ip" and "number_rest r"
  shows "number_text K_float (ip @ r)"
proof (cases "ip = [0x30]")
  case True
  then show ?thesis using assms(2) by (auto simp: number_text_def number_rest_def first_state_def is_digit_byte_def split: option.splits)
next
  case False
  then obtain b ds where ip: "ip = b # ds" "is_digit_byte b" "digits ds" "b \<noteq> 0x30"
    using assms(1) by (cases ip) (auto simp: integral_part_def)
  moreover from this have "b \<noteq> 0x2D" by auto
  ultimately show ?thesis
    using assms(2) by (auto simp: number_text_def number_rest_def first_state_def number_run_append number_run_digits split: option.splits)
qed

lemma number_text_sign:
  assumes "integral_part ip" and "number_rest r"
  shows "number_text K_float (0x2D # ip @ r)"
proof (cases "ip = [0x30]")
  case True
  then show ?thesis using assms(2) by (auto simp: number_text_def number_rest_def first_state_def is_digit_byte_def split: option.splits)
next
  case False
  then obtain b ds where ip: "ip = b # ds" "is_digit_byte b" "digits ds" "b \<noteq> 0x30"
    using assms(1) by (cases ip) (auto simp: integral_part_def)
  then show ?thesis
    using assms(2) by (auto simp: number_text_def number_rest_def first_state_def number_run_append number_run_digits split: option.splits)
qed

lemma number_rest_forms:
  assumes "digits fp" and "fp \<noteq> []"
  shows "number_rest (0x2E # fp)"
    and "c = 0x2D \<or> c = 0x2B \<Longrightarrow> digits ed \<Longrightarrow> ed \<noteq> [] \<Longrightarrow> number_rest (0x2E # fp @ 0x65 # c # ed)"
    and "c = 0x2D \<or> c = 0x2B \<Longrightarrow> digits ed \<Longrightarrow> ed \<noteq> [] \<Longrightarrow> number_rest (0x65 # c # ed)"
  using number_run_fraction [OF assms] number_run_exponent [of c ed]
  by (simp_all add: number_rest_def number_run_append number_final_def del: number_run.simps(2) add: number_run.simps(2) [of _ _ "0x2E"] number_run.simps(2) [of _ _ "0x65"])

section \<open>Values of digits\<close>

lemma decimal_value_append: "decimal_value (a @ b) = decimal_value a * 10 ^ length b + decimal_value b"
proof (induction b rule: rev_induct)
  case (snoc x b)
  then show ?case unfolding append_assoc [symmetric] decimal_value_snoc by (simp add: algebra_simps)
qed (simp add: decimal_value_def)

lemma decimal_value_zeros: "decimal_value (replicate n 0x30) = 0"
proof (induction n)
  case (Suc n)
  then show ?case unfolding replicate_Suc replicate_app_Cons_same [of _ _ "[]", simplified, symmetric] decimal_value_snoc by simp
qed (simp add: decimal_value_def)

lemma digits_zeros: "digits (replicate n 0x30)"
  by (simp add: list_all_iff is_digit_byte_def)

lemma decimal_value_less: "digits ds \<Longrightarrow> decimal_value ds < 10 ^ length ds"
proof (induction ds rule: rev_induct)
  case (snoc b ds)
  then have "unat b - 0x30 \<le> 9" by (auto simp: is_digit_byte_def u8_le)
  with snoc show ?case unfolding decimal_value_snoc by simp
qed (simp add: decimal_value_def)

lemma decimal_value_ge:
  assumes "digits ds" and "ds \<noteq> []" and "hd ds \<noteq> 0x30"
  shows "10 ^ (length ds - 1) \<le> decimal_value ds"
proof -
  obtain b r where ds: "ds = [b] @ r" using assms(2) by (cases ds) auto
  have "unat b \<noteq> 0x30" using assms(3) ds by (simp add: word_unat_eq_iff)
  then have "1 \<le> decimal_value [b]" using assms(1) ds by (auto simp: decimal_value_def is_digit_byte_def u8_le)
  then have "1 * 10 ^ length r \<le> decimal_value [b] * 10 ^ length r" by (rule mult_le_mono1)
  then have "10 ^ length r \<le> decimal_value [b] * 10 ^ length r + decimal_value r" by linarith
  then show ?thesis unfolding ds decimal_value_append by simp
qed

lemma decimal_value_digits: "list_all (\<lambda>d. d \<le> 9) ns \<Longrightarrow> decimal_value (map (\<lambda>d. of_nat (0x30 + d)) ns) = foldl (\<lambda>n d. 10 * n + d) 0 ns"
proof (induction ns rule: rev_induct)
  case (snoc d ns)
  then show ?case unfolding map_append list.map decimal_value_snoc using digit_value [of d] by (simp del: of_nat_add)
qed (simp add: decimal_value_def)

section \<open>Formatting\<close>

lemma append_exponent_ok:
  assumes "- 1000 < e" and "e < 1000"
  shows "\<exists>c ed. append_exponent e = Inr (c # ed) \<and> (c = 0x2D \<or> c = 0x2B) \<and> digits ed \<and> ed \<noteq> [] \<and> length ed \<le> 3 \<and>
    (if c = 0x2D then - 1 else 1) * int (decimal_value ed) = e"
proof -
  define k where "k = nat \<bar>e\<bar>"
  have k: "k < 1000" using assms by (simp add: k_def)
  define ns where "ns = (if k < 10 then [0, k] else if k < 100 then [k div 10, k mod 10] else [k div 100, k mod 100 div 10, k mod 100 mod 10])"
  let ?ed = "map (\<lambda>d. of_nat (0x30 + d) :: u8) ns"
  have le: "list_all (\<lambda>d. d \<le> 9) ns" using k by (auto simp: ns_def)
  have "decimal_value ?ed = k" unfolding decimal_value_digits [OF le] by (auto simp: ns_def)
  moreover have "digits ?ed" using le digit_is_digit by (auto simp: list_all_iff simp del: of_nat_add)
  moreover have "append_exponent e = Inr ((if e < 0 then 0x2D else 0x2B) # ?ed)"
    using assms by (auto simp: append_exponent_def Let_def k_def [symmetric] ns_def)
  moreover have "?ed \<noteq> []" "length ?ed \<le> 3" by (auto simp: ns_def)
  ultimately show ?thesis
    by (intro exI [of _ "if e < 0 then 0x2D else 0x2B"] exI [of _ ?ed]) (auto simp: k_def simp del: of_nat_add)
qed

text \<open>A literal that denotes \<open>x\<close> and has no sign.\<close>

definition literal_for :: "octets \<Rightarrow> real \<Rightarrow> bool" where
  "literal_for t x \<longleftrightarrow>
     (\<exists>ip r. t = ip @ r \<and> integral_part ip \<and> number_rest r) \<and> literal_value t = x \<and> length t \<le> 23"

lemma literal_forI: "t = ip @ r \<Longrightarrow> integral_part ip \<Longrightarrow> number_rest r \<Longrightarrow> literal_value t = x \<Longrightarrow> length t \<le> 23 \<Longrightarrow> literal_for t x"
  by (auto simp: literal_for_def)

lemma format_buffer_ok:
  assumes "digits ds" and "ds \<noteq> []" and "hd ds \<noteq> 0x30" and "length ds \<le> 17"
    and "- 999 < int (length ds) + x" and "int (length ds) + x < 1000"
  shows "\<exists>t. format_buffer ds x (- 4) 15 = Inr t \<and> literal_for t (real (decimal_value ds) * 10 powi x)"
proof -
  define k where "k = int (length ds)"
  define n where "n = k + x"
  have ip: "integral_part ds" using assms(1-3) by (simp add: integral_part_def)
  have step: "format_buffer ds x (- 4) 15 =
     (if k \<le> n \<and> n \<le> 15 then Inr (ds @ replicate (nat (n - k)) 0x30 @ [0x2E, 0x30])
      else if 0 < n \<and> n \<le> 15 then bindE (json_assert (n < k)) (\<lambda>_. Inr (take (nat n) ds @ [0x2E] @ drop (nat n) ds))
      else if - 4 < n \<and> n \<le> 0 then Inr ([0x30, 0x2E] @ replicate (nat (- n)) 0x30 @ ds)
      else bindE (append_exponent (n - 1)) (\<lambda>ex. Inr ((if k = 1 then ds else take 1 ds @ [0x2E] @ drop 1 ds) @ [0x65] @ ex)))"
    by (simp add: format_buffer_def k_def n_def Let_def)
  consider "k \<le> n" "n \<le> 15" | "n < k" "0 < n" "n \<le> 15" | "- 4 < n" "n \<le> 0" | "n \<le> - 4 \<or> 15 < n"
    by linarith
  then show ?thesis
  proof cases
    case 1
    let ?ip = "ds @ replicate (nat (n - k)) 0x30"
    have i: "integral_part ?ip" using assms(1-3) digits_zeros by (auto simp: integral_part_def)
    have z: "digits [0x30]" by (simp add: is_digit_byte_def)
    have "literal_value (?ip @ 0x2E # [0x30]) = real (decimal_value ds) * 10 powi x"
    proof -
      have "decimal_value (?ip @ [0x30]) = decimal_value ds * 10 ^ nat (n - k) * 10"
        unfolding decimal_value_append decimal_value_zeros by (simp add: decimal_value_def)
      moreover have "(10 :: real) ^ nat (n - k) = 10 powi x" using 1 by (simp add: n_def power_int_def)
      ultimately show ?thesis using literal_point [OF _ _ z, of ?ip] integral_part_digits [OF i] by (simp del: append_assoc)
    qed
    then have "literal_for (?ip @ 0x2E # [0x30]) (real (decimal_value ds) * 10 powi x)"
      using 1 i number_rest_forms(1) [OF z] by (intro literal_forI) (auto simp: k_def)
    with 1 step show ?thesis by simp
  next
    case 2
    let ?ip = "take (nat n) ds" and ?fp = "drop (nat n) ds"
    have len: "0 < nat n" "nat n < length ds" using 2 by (auto simp: k_def)
    have i: "integral_part ?ip" using assms(1-3) len by (auto simp: integral_part_def list_all_iff dest: in_set_takeD)
    have fp: "digits ?fp" "?fp \<noteq> []" using assms(1) len by (auto simp: list_all_iff dest: in_set_dropD)
    have "literal_value (?ip @ 0x2E # ?fp) = real (decimal_value ds) * 10 powi x"
      using integral_part_digits [OF i] fp 2 by (simp add: literal_point n_def k_def of_nat_diff)
    then have "literal_for (?ip @ 0x2E # ?fp) (real (decimal_value ds) * 10 powi x)"
      using i number_rest_forms(1) [OF fp] assms(4) len by (intro literal_forI) auto
    with 2 step show ?thesis by simp
  next
    case 3
    let ?fp = "replicate (nat (- n)) 0x30 @ ds"
    have i: "integral_part [0x30]" by (simp add: integral_part_def)
    have fp: "digits ?fp" "?fp \<noteq> []" using assms(1,2) digits_zeros by simp_all
    have "decimal_value ([0x30] @ ?fp) = decimal_value ds"
      unfolding decimal_value_append decimal_value_zeros by (simp add: decimal_value_def)
    then have "literal_value ([0x30] @ 0x2E # ?fp) = real (decimal_value ds) * 10 powi x"
      using literal_point [of "[0x30]" ?fp] integral_part_digits [OF i] fp 3 by (simp add: n_def k_def)
    then have "literal_for ([0x30] @ 0x2E # ?fp) (real (decimal_value ds) * 10 powi x)"
      using i number_rest_forms(1) [OF fp] assms(4) 3 by (intro literal_forI) auto
    moreover have "\<not> k \<le> n" using 3 assms(2) by (cases ds) (simp_all add: k_def)
    ultimately show ?thesis using 3 step by simp
  next
    case 4
    obtain c ed where ex: "append_exponent (n - 1) = Inr (c # ed)" "c = 0x2D \<or> c = 0x2B" "digits ed" "ed \<noteq> []" "length ed \<le> 3"
        "(if c = 0x2D then - 1 else 1) * int (decimal_value ed) = n - 1"
      using append_exponent_ok [of "n - 1"] assms(5,6) by (auto simp: n_def k_def)
    show ?thesis
    proof (cases "k = 1")
      case True
      have "literal_value (ds @ 0x65 # c # ed) = real (decimal_value ds) * 10 powi x"
        using literal_exponent [OF assms(1,2) ex(2)] ex(6) True by (simp add: n_def)
      then have "literal_for (ds @ 0x65 # c # ed) (real (decimal_value ds) * 10 powi x)"
        using ip number_rest_forms(3) [OF assms(1,2) ex(2-4)] assms(4) ex(5) by (intro literal_forI) (auto simp: k_def)
      with True 4 step ex(1) show ?thesis by (auto simp: k_def)
    next
      case False
      let ?ip = "take 1 ds" and ?fp = "drop 1 ds"
      have len: "1 < length ds" using False assms(2) by (cases ds) (auto simp: k_def)
      have i: "integral_part ?ip" using assms(1-3) by (cases ds) (auto simp: integral_part_def)
      have fp: "digits ?fp" "?fp \<noteq> []" using assms(1) len by (auto simp: list_all_iff dest: in_set_dropD)
      have "literal_value (?ip @ 0x2E # ?fp @ 0x65 # c # ed) = real (decimal_value ds) * 10 powi x"
        using literal_point_exponent [OF _ _ fp(1) ex(2), of ?ip ed] integral_part_digits [OF i] ex(6) len
        by (simp add: n_def k_def of_nat_diff)
      then have "literal_for (?ip @ 0x2E # ?fp @ 0x65 # c # ed) (real (decimal_value ds) * 10 powi x)"
        using i number_rest_forms(2) [OF fp ex(2-4)] assms(4) ex(5) len by (intro literal_forI) auto
      with False 4 step ex(1) show ?thesis using len by (auto simp: k_def)
    qed
  qed
qed

section \<open>The text of a number\<close>

lemma boundary_range:
  assumes "0 < bits" and "bits div 2 ^ 52 < 2047"
  shows "10 powi (- 330) < fp_real (m_minus bits)" and "fp_real (m_plus bits) < 10 powi 309"
proof -
  let ?f = "fp_f (fp_of_bits bits)" and ?e = "fp_e (fp_of_bits bits)"
  note b = fp_of_bits_bounds [OF assms]
  have "fp_e (m_minus bits) \<ge> - 1076" "1 \<le> fp_f (m_minus bits)" using b(1,3) by (auto simp: m_minus_def Let_def)
  then have "1 * 2 powi (- 1076) \<le> fp_real (m_minus bits)"
    unfolding fp_real_def by (intro mult_mono power_int_increasing) simp_all
  moreover have "(1 :: real) / 10 ^ 330 < 1 / 2 ^ 1076" by (intro divide_strict_left_mono) simp_all
  ultimately show "10 powi (- 330) < fp_real (m_minus bits)" using powi_minus_nat [of 2 1076] powi_minus_nat [of 10 330] by simp
  have "fp_f (m_plus bits) \<le> 2 ^ 54" "fp_e (m_plus bits) \<le> 970" using b(2,4) by (simp_all add: m_plus_def Let_def)
  then have "real (fp_f (m_plus bits)) \<le> 2 ^ 54" by (metis of_nat_le_iff of_nat_numeral of_nat_power)
  then have "fp_real (m_plus bits) \<le> 2 ^ 54 * 2 powi 970"
    unfolding fp_real_def using \<open>fp_e (m_plus bits) \<le> 970\<close> by (intro mult_mono power_int_increasing) simp_all
  also have "\<dots> < 10 powi 309" by simp
  finally show "fp_real (m_plus bits) < 10 powi 309" .
qed

lemma powi_less_iff: "(10 :: real) powi a < 10 powi b \<longleftrightarrow> a < b"
  using power_int_strict_increasing [of a b "10 :: real"] power_int_increasing [of b a "10 :: real"] by (cases "a < b") auto

lemma rounds_to_exponent:
  assumes "rounds_to bits ds n" and "0 < bits" and "bits div 2 ^ 52 < 2047"
  shows "- 330 < int (length ds) + n" and "int (length ds) + n < 310"
proof -
  let ?v = "real (decimal_value ds)"
  have ds: "digits ds" "ds \<noteq> []" "hd ds \<noteq> 0x30" "10 powi (- 330) < ?v * 10 powi n" "?v * 10 powi n < 10 powi 309"
    using assms(1) boundary_range [OF assms(2,3)] unfolding rounds_to_def by (blast intro: order_less_trans)+
  have "?v < real (10 ^ length ds)" using decimal_value_less [OF ds(1)] by (simp only: of_nat_less_iff)
  then have "?v < 10 powi int (length ds)" by simp
  then have "?v * 10 powi n < 10 powi int (length ds) * 10 powi n" by (intro mult_strict_right_mono) simp_all
  then have "10 powi (- 330) < (10 :: real) powi int (length ds) * 10 powi n" by (rule order_less_trans [OF ds(4)])
  also have "\<dots> = 10 powi (int (length ds) + n)" by (simp add: power_int_add)
  finally show "- 330 < int (length ds) + n" unfolding powi_less_iff .
  have "real (10 ^ (length ds - 1)) \<le> ?v" using decimal_value_ge [OF ds(1-3)] by (simp only: of_nat_le_iff)
  then have "10 powi (int (length ds) - 1) \<le> ?v" using ds(2) by (cases ds) simp_all
  then have "10 powi (int (length ds) - 1) * 10 powi n \<le> ?v * 10 powi n" by (intro mult_right_mono) simp_all
  then have "10 powi (int (length ds) - 1) * 10 powi n < (10 :: real) powi 309" using ds(5) by (rule order_le_less_trans)
  moreover have "10 powi (int (length ds) - 1) * 10 powi n = (10 :: real) powi (int (length ds) - 1 + n)" by (simp add: power_int_add)
  ultimately have "int (length ds) - 1 + n < 309" by (metis powi_less_iff)
  then show "int (length ds) + n < 310" by simp
qed

text \<open>
  A literal rounds to the number with the bits \<open>d\<close>: its sign is that of \<open>d\<close>, and its absolute value is
  zero, or lies between the middles to the neighbours.
\<close>

definition negative :: "u64 \<Rightarrow> bool" where
  "negative d \<longleftrightarrow> 2 ^ 63 \<le> unat d"

definition magnitude :: "u64 \<Rightarrow> nat" where
  "magnitude d = unat d mod 2 ^ 63"

definition literal_rounds :: "octets \<Rightarrow> u64 \<Rightarrow> bool" where
  "literal_rounds t d \<longleftrightarrow>
     number_text K_float t \<and> (hd t = 0x2D \<longleftrightarrow> negative d) \<and>
     (if magnitude d = 0 then literal_value t = 0
      else fp_real (m_minus (magnitude d)) < literal_value t \<and> literal_value t < fp_real (m_plus (magnitude d)))"

lemma literal_for_sign:
  assumes "literal_for t x"
  shows "hd t \<noteq> 0x2D" and "literal_value (0x2D # t) = x" and "literal_value t = x"
    and "number_text K_float (0x2D # t)" and "number_text K_float t" and "length t \<le> 23"
proof -
  obtain ip r where t: "t = ip @ r" "integral_part ip" "number_rest r" "literal_value t = x" "length t \<le> 23"
    using assms by (auto simp: literal_for_def)
  show h: "hd t \<noteq> 0x2D" using t(1) integral_part_digits [OF t(2)] digits_no_sign by (cases ip) auto
  show "literal_value t = x" "length t \<le> 23" by (rule t)+
  show "literal_value (0x2D # t) = x" using literal_sign [of t] h t(4) by simp
  show "number_text K_float (0x2D # t)" unfolding t(1) by (rule number_text_sign [OF t(2,3)])
  show "number_text K_float t" unfolding t(1) by (rule number_text_rest [OF t(2,3)])
qed

lemma literal_for_zero: "literal_for [0x30, 0x2E, 0x30] 0"
proof -
  have z: "digits [0x30]" by (simp add: is_digit_byte_def)
  then have "literal_value ([0x30] @ 0x2E # [0x30]) = 0" using literal_point [OF z _ z] by (simp add: decimal_value_def)
  then show ?thesis
    using number_rest_forms(1) [OF z] by (intro literal_forI [of _ "[0x30]" "[0x2E, 0x30]"]) (simp_all add: integral_part_def)
qed

lemma finite_exponent: "is_finite d \<Longrightarrow> magnitude d div 2 ^ 52 < 2047"
proof -
  assume a: "is_finite d"
  have "magnitude d = 2 ^ 52 * (unat d div 2 ^ 52 mod 2 ^ 11) + unat d mod 2 ^ 52"
    unfolding magnitude_def using mod_mult2_eq [of "unat d" "2 ^ 52" "2 ^ 11"] by simp
  then have "magnitude d div 2 ^ 52 = unat d div 2 ^ 52 mod 2 ^ 11" by (simp add: div_add1_eq)
  then show ?thesis using a by (simp add: is_finite_def)
qed

lemma to_chars_ok:
  assumes "is_finite d"
  shows "\<exists>t. to_chars d = Inr t \<and> literal_rounds t d \<and> length t \<le> 24"
proof -
  define bits where "bits = magnitude d"
  define sign where "sign = (if negative d then [0x2D :: u8] else [])"
  note chars = to_chars_def [of d, folded negative_def magnitude_def, folded bits_def sign_def, unfolded Let_def]
  have rounds: "literal_rounds (sign @ t) d \<and> length (sign @ t) \<le> 24"
    if "literal_for t x" and "if bits = 0 then x = 0 else fp_real (m_minus bits) < x \<and> x < fp_real (m_plus bits)" for t x
    using literal_for_sign [OF that(1)] that(2) by (auto simp: literal_rounds_def sign_def bits_def)
  show ?thesis
  proof (cases "bits = 0")
    case True
    have "to_chars d = Inr (sign @ [0x30, 0x2E, 0x30])"
      using assms True by (simp add: chars)
    with rounds [OF literal_for_zero] True show ?thesis by simp
  next
    case False
    have fin: "bits div 2 ^ 52 < 2047" unfolding bits_def using assms by (rule finite_exponent)
    obtain ds n where g: "grisu2 bits = Inr (ds, n)" "rounds_to bits ds n" using grisu2_ok fin False by blast
    note r = g(2) [unfolded rounds_to_def]
    note e = rounds_to_exponent [OF g(2) _ fin]
    obtain t where t: "format_buffer ds n (- 4) 15 = Inr t" "literal_for t (real (decimal_value ds) * 10 powi n)"
      using format_buffer_ok [of ds n] r e False by auto
    have "to_chars d = Inr (sign @ t)"
      using assms False g(1) t(1) r by (simp add: chars)
    with rounds [OF t(2)] r False show ?thesis by simp
  qed
qed

end
