(* ===== verification/Json_Tokens.thy ===== *)
theory Json_Tokens
  imports Json_Grisu_Text
begin

text \<open>
  The tokens of a dumped value: for every way of printing, the text that \<^verbatim>\<open>dump\<close> writes is read by
  \<^verbatim>\<open>scan\<close> as the tokens of the value.
\<close>

section \<open>Reading tokens\<close>

fun reads_tokens :: "(octets \<Rightarrow> u64) \<Rightarrow> bool \<Rightarrow> token list \<Rightarrow> lexer \<Rightarrow> lexer \<Rightarrow> bool" where
  "reads_tokens strtod ic [] lx lx' \<longleftrightarrow> lx' = lx"
| "reads_tokens strtod ic (t # ts) lx lx' \<longleftrightarrow> (\<exists>lx1. scan strtod ic lx = (t, lx1) \<and> reads_tokens strtod ic ts lx1 lx')"

lemma reads_tokens_append:
  "reads_tokens strtod ic (ts @ us) lx lx' \<longleftrightarrow>
     (\<exists>lx1. reads_tokens strtod ic ts lx lx1 \<and> reads_tokens strtod ic us lx1 lx')"
  by (induction ts arbitrary: lx) auto

text \<open>A lexer that looks for no byte order mark any more, or finds none.\<close>

definition no_bom :: "lexer \<Rightarrow> bool" where
  "no_bom lx \<longleftrightarrow> 0 < chars_read_total lx \<or> skip_bom lx = (True, lx)"

lemma lx_on_no_bom: "lx_on dp lx c bs n \<Longrightarrow> no_bom lx"
  by (auto simp: no_bom_def dest: lx_on_read)

text \<open>
  A text lexes to tokens wherever it stands; with \<open>num\<close> only if what follows cannot continue a
  number.
\<close>

definition lexes :: "(octets \<Rightarrow> u64) \<Rightarrow> u8 \<Rightarrow> bool \<Rightarrow> bool \<Rightarrow> octets \<Rightarrow> token list \<Rightarrow> bool" where
  "lexes strtod dp ic num bs ts \<longleftrightarrow>
     (\<forall>lx rest. lx_at dp lx (bs @ rest) \<and> no_bom lx \<and> (num \<longrightarrow> ends_number rest) \<longrightarrow>
        (\<exists>lx'. reads_tokens strtod ic ts lx lx' \<and> lx_at dp lx' rest \<and> no_bom lx'))"

lemma lexesI:
  assumes "\<And>lx rest. lx_at dp lx (bs @ rest) \<Longrightarrow> no_bom lx \<Longrightarrow> (num \<Longrightarrow> ends_number rest) \<Longrightarrow>
    \<exists>lx'. reads_tokens strtod ic ts lx lx' \<and> lx_at dp lx' rest \<and> no_bom lx'"
  shows "lexes strtod dp ic num bs ts"
  using assms by (simp add: lexes_def)

lemma lexes_weaken: "lexes strtod dp ic num bs ts \<Longrightarrow> lexes strtod dp ic True bs ts"
  by (simp add: lexes_def)

lemma ends_number_append: "b \<noteq> [] \<Longrightarrow> ends_number (b @ rest) = ends_number b"
  by (cases b) (simp_all add: ends_number_def)

lemma lexes_append:
  assumes "lexes strtod dp ic m a ts" and "lexes strtod dp ic n b us" and "m \<Longrightarrow> b \<noteq> [] \<and> ends_number b"
  shows "lexes strtod dp ic n (a @ b) (ts @ us)"
proof (rule lexesI)
  fix lx rest assume l: "lx_at dp lx ((a @ b) @ rest)" "no_bom lx" "n \<Longrightarrow> ends_number rest"
  from assms(1,3) l obtain lx1 where 1: "reads_tokens strtod ic ts lx lx1" "lx_at dp lx1 (b @ rest)" "no_bom lx1"
    unfolding lexes_def by (metis append_assoc ends_number_append)
  with assms(2) l(3) obtain lx2 where "reads_tokens strtod ic us lx1 lx2" "lx_at dp lx2 rest" "no_bom lx2"
    unfolding lexes_def by metis
  with 1 show "\<exists>lx'. reads_tokens strtod ic (ts @ us) lx lx' \<and> lx_at dp lx' rest \<and> no_bom lx'"
    by (auto simp: reads_tokens_append)
qed

section \<open>White space\<close>

lemma skip_white: "lx_on dp (lget lx) (Some b) bs n \<Longrightarrow> \<not> is_white b \<Longrightarrow> skip_whitespace lx = lget lx"
  by (subst skip_whitespace.simps) (simp add: lx_on_current Let_def)

lemma skip_white_step: "lx_current (lget lx) = Some b \<Longrightarrow> is_white b \<Longrightarrow> skip_whitespace lx = skip_whitespace (lget lx)"
  by (subst skip_whitespace.simps) simp

lemma scan_cong:
  "skip_whitespace lx = skip_whitespace lx' \<Longrightarrow> no_bom lx \<Longrightarrow> no_bom lx' \<Longrightarrow>
     scan strtod ic lx = scan strtod ic lx'"
  by (auto simp: scan_def no_bom_def)

lemma lexes_space:
  assumes "is_white w" and "lexes strtod dp ic n b us" and "us \<noteq> []"
  shows "lexes strtod dp ic n (w # b) us"
proof (rule lexesI)
  fix lx rest assume l: "lx_at dp lx ((w # b) @ rest)" "no_bom lx" "n \<Longrightarrow> ends_number rest"
  have on: "lx_on dp (lget lx) (Some w) (b @ rest) 0" using l by (auto intro: lget_at)
  obtain lx' where lx': "reads_tokens strtod ic us (lget lx) lx'" "lx_at dp lx' rest" "no_bom lx'"
    using assms(2) l(3) lx_on_at [OF on] lx_on_no_bom [OF on] unfolding lexes_def by metis
  have "scan strtod ic lx = scan strtod ic (lget lx)"
    by (rule scan_cong) (use skip_white_step [OF lx_on_current [OF on] assms(1)] l(2) lx_on_no_bom [OF on] in auto)
  with lx' assms(3) show "\<exists>lx'. reads_tokens strtod ic us lx lx' \<and> lx_at dp lx' rest \<and> no_bom lx'"
    by (cases us) auto
qed

lemma lexes_white:
  "list_all is_white ws \<Longrightarrow> lexes strtod dp ic n b us \<Longrightarrow> us \<noteq> [] \<Longrightarrow> lexes strtod dp ic n (ws @ b) us"
  by (induction ws) (auto intro: lexes_space)

text \<open>A token that starts with the byte \<open>b\<close>.\<close>

lemma lexes_token:
  assumes "\<And>lx rest. lx_on dp lx (Some b) (bs @ rest) 0 \<Longrightarrow> (num \<Longrightarrow> ends_number rest) \<Longrightarrow>
      \<exists>lx'. scan_token strtod lx = (t, lx') \<and> lx_at dp lx' rest \<and> no_bom lx'"
    and "\<not> is_white b" and "b \<noteq> 0x2F"
  shows "lexes strtod dp ic num (b # bs) [t]"
proof (rule lexesI)
  fix lx rest assume l: "lx_at dp lx ((b # bs) @ rest)" "no_bom lx" "num \<Longrightarrow> ends_number rest"
  have on: "lx_on dp (lget lx) (Some b) (bs @ rest) 0" using l by (auto intro: lget_at)
  have "scan strtod ic lx = scan_token strtod (lget lx)"
    using l(2) assms(3) skip_white [OF on assms(2)] by (auto simp: scan_def no_bom_def lx_on_current [OF on])
  with assms(1) [OF on l(3)] show "\<exists>lx'. reads_tokens strtod ic [t] lx lx' \<and> lx_at dp lx' rest \<and> no_bom lx'"
    by auto
qed

lemma lexes_punctuation:
  "lexes strtod dp ic num [0x5B] [T_begin_array]" "lexes strtod dp ic num [0x5D] [T_end_array]"
  "lexes strtod dp ic num [0x7B] [T_begin_object]" "lexes strtod dp ic num [0x7D] [T_end_object]"
  "lexes strtod dp ic num [0x3A] [T_name_separator]" "lexes strtod dp ic num [0x2C] [T_value_separator]"
  by (rule lexes_token; auto simp: is_white_def scan_token_def lx_on_current dest: lx_on_at lx_on_no_bom)+

lemma scan_literal_text:
  "lx_on dp lx c (cs @ rest) n \<Longrightarrow> \<exists>lx' c'. scan_literal cs t lx = (t, lx') \<and> lx_on dp lx' c' rest n"
proof (induction cs arbitrary: lx c)
  case (Cons b cs)
  then have on: "lx_on dp (lget lx) (Some b) (cs @ rest) n" by (auto intro: lget_next)
  with Cons.IH [OF on] show ?case by (simp add: lx_on_current [OF on])
qed auto

lemma lexes_literals:
  "lexes strtod dp ic num (lit ''true'') [T_true]" "lexes strtod dp ic num (lit ''false'') [T_false]"
  "lexes strtod dp ic num (lit ''null'') [T_null]"
proof -
  have w: "lit ''true'' = [0x74, 0x72, 0x75, 0x65]" "lit ''false'' = [0x66, 0x61, 0x6C, 0x73, 0x65]"
      "lit ''null'' = [0x6E, 0x75, 0x6C, 0x6C]" by (simp_all add: lit_def)
  show "lexes strtod dp ic num (lit ''true'') [T_true]" "lexes strtod dp ic num (lit ''false'') [T_false]"
    "lexes strtod dp ic num (lit ''null'') [T_null]"
    unfolding w
    by (rule lexes_token;
        fastforce simp: is_white_def scan_token_def lx_on_current simp del: scan_literal.simps append_Cons
          dest: scan_literal_text lx_on_at lx_on_no_bom)+
qed

lemma lexes_string:
  assumes "list_all scalar cps"
  shows "lexes strtod dp ic num (0x22 # concat (map (escaped ascii) cps) @ [0x22]) [T_string (concat (map utf8_bytes cps))]"
proof (rule lexes_token)
  fix lx rest assume "lx_on dp lx (Some 0x22) ((concat (map (escaped ascii) cps) @ [0x22]) @ rest) 0"
  then have on: "lx_on dp lx (Some 0x22) (concat (map (escaped ascii) cps) @ 0x22 # rest) 0" by simp
  obtain lx' where "scan_string_loop [] lx = (Some (concat (map utf8_bytes cps)), lx')" "lx_on dp lx' (Some 0x22) rest 0"
    using scan_string_escaped [OF assms lx_on_at [OF on], of 0 "[]"] by auto
  then show "\<exists>lx'. scan_token strtod lx = (T_string (concat (map utf8_bytes cps)), lx') \<and> lx_at dp lx' rest \<and>
      no_bom lx'"
    by (auto simp: scan_token_def lx_on_current [OF on] dest: lx_on_at lx_on_no_bom)
qed (simp_all add: is_white_def)

lemma lexes_number:
  assumes "number_text k t"
  shows "lexes strtod dp ic True t [number_token strtod k (localized dp t)]"
proof -
  obtain b bs where t: "t = b # bs" and b: "b = 0x2D \<or> is_digit_byte b"
    using assms by (cases t) (auto simp: number_text_def)
  have "b \<notin> {0x5B, 0x5D, 0x7B, 0x7D, 0x3A, 0x2C, 0x74, 0x66, 0x6E, 0x22, 0x20, 0x09, 0x0A, 0x0D, 0x2F}"
    using b by (auto simp: is_digit_byte_def)
  then show ?thesis
    unfolding t using b
    by (intro lexes_token)
       (use assms scan_number_text in \<open>fastforce simp: t is_white_def scan_token_def lx_on_current no_bom_def\<close>)+
qed

lemma lexes_integer:
  assumes "is_number x"
  shows "lexes strtod dp ic True (int_text x) [if x < 0 then T_integer x else T_unsigned (nat x)]"
  using int_text_token [OF assms] lexes_number [OF int_text_number] by metis

section \<open>The tokens of a value\<close>

fun sep_tokens :: "token list list \<Rightarrow> token list" where
  "sep_tokens [] = []"
| "sep_tokens [x] = x"
| "sep_tokens (x # y # ys) = x @ T_value_separator # sep_tokens (y # ys)"

fun toks :: "json \<Rightarrow> token list" where
  "toks JNull = [T_null]"
| "toks (JBool b) = [if b then T_true else T_false]"
| "toks (JInt i) = [T_integer i]"
| "toks (JUint n) = [T_unsigned n]"
| "toks (JFloat d) = [T_float d]"
| "toks (JString s) = [T_string s]"
| "toks (JArray xs) = T_begin_array # sep_tokens (map toks xs) @ [T_end_array]"
| "toks (JObject m) = T_begin_object # sep_tokens (map (\<lambda>(k, v). T_string k # T_name_separator # toks v) m) @ [T_end_object]"
| "toks _ = []"

text \<open>
  What the text keeps of a value: an integer that is not negative becomes unsigned, infinities and
  NaN become null, and a binary value becomes an object with its bytes and its subtype.
\<close>

fun text_norm :: "json \<Rightarrow> json" where
  "text_norm (JInt i) = (if i < 0 then JInt i else JUint (nat i))"
| "text_norm (JFloat d) = (if is_finite d then JFloat d else JNull)"
| "text_norm (JBinary b t) =
     JObject [(lit ''bytes'', JArray (map (\<lambda>x. JUint (unat x)) b)),
              (lit ''subtype'', case t of None \<Rightarrow> JNull | Some n \<Rightarrow> JUint (unat n))]"
| "text_norm (JArray xs) = JArray (map text_norm xs)"
| "text_norm (JObject m) = JObject (map (\<lambda>(k, v). (k, text_norm v)) m)"
| "text_norm v = v"

text \<open>Strings and keys are UTF-8.\<close>

fun json_utf8 :: "json \<Rightarrow> bool" where
  "json_utf8 (JString s) \<longleftrightarrow> utf8 s"
| "json_utf8 (JArray xs) \<longleftrightarrow> list_all json_utf8 xs"
| "json_utf8 (JObject m) \<longleftrightarrow> list_all (\<lambda>(k, v). utf8 k \<and> json_utf8 v) m"
| "json_utf8 _ \<longleftrightarrow> True"

fun json_floats :: "json \<Rightarrow> u64 list" where
  "json_floats (JFloat d) = [d]"
| "json_floats (JArray xs) = concat (map json_floats xs)"
| "json_floats (JObject m) = concat (map (\<lambda>(k, v). json_floats v) m)"
| "json_floats _ = []"

text \<open>
  \<^verbatim>\<open>strtod\<close> is documented to round correctly: it reads every literal that is nearer to \<open>d\<close> than to the
  other numbers as \<open>d\<close>.
\<close>

definition float_reads :: "(octets \<Rightarrow> u64) \<Rightarrow> u8 \<Rightarrow> u64 \<Rightarrow> bool" where
  "float_reads strtod dp d \<longleftrightarrow> (\<forall>t. literal_rounds t d \<longrightarrow> strtod (localized dp t) = d)"

section \<open>Dumped values\<close>

lemma lexes_then: "lexes strtod dp ic False a ts \<Longrightarrow> lexes strtod dp ic n b us \<Longrightarrow> lexes strtod dp ic n (a @ b) (ts @ us)"
  using lexes_append [of strtod dp ic False a ts n b us] by simp

lemma lexes_Nil: "lexes strtod dp ic n [] []"
  by (rule lexesI) auto

lemma dump_escaped_utf8:
  assumes "list_all scalar cps"
  shows "dump_escaped h ascii (concat (map utf8_bytes cps)) = Inr (concat (map (escaped ascii) cps))"
proof -
  have "escapes_to h ascii (map Some cps) [] (dump_escaped h ascii (concat (map utf8_bytes cps)))"
    using dump_escaped_reference [of h ascii "concat (map utf8_bytes cps)"] by (simp add: decode_all_utf8 [OF assms])
  moreover have "map (escaped_part h ascii) (map Some cps) = map (escaped ascii) cps" by simp
  moreover have "None \<notin> set (map Some cps)" by auto
  ultimately show ?thesis unfolding escapes_to_def by (simp del: map_map)
qed

lemma lexes_dumped_string:
  assumes "utf8 s"
  shows "\<exists>t. dump_escaped h ascii s = Inr t \<and> (\<forall>num. lexes strtod dp ic num ([0x22] @ t @ [0x22]) [T_string s])"
proof -
  obtain cps where "list_all scalar cps" "s = concat (map utf8_bytes cps)" using assms by (auto simp: utf8_def)
  then show ?thesis using dump_escaped_utf8 lexes_string by auto
qed

lemma plain_string:
  assumes "list_all (\<lambda>cp. 0x23 \<le> cp \<and> cp < 0x5C \<or> 0x5C < cp \<and> cp < 0x7F) cps"
  shows "lexes strtod dp ic num (0x22 # map of_nat cps @ [0x22]) [T_string (map of_nat cps)]"
proof -
  have "utf8_bytes cp = [of_nat cp] \<and> escaped True cp = [of_nat cp] \<and> scalar cp"
    if "0x23 \<le> cp \<and> cp < 0x5C \<or> 0x5C < cp \<and> cp < 0x7F" for cp
    using that by (auto simp: escaped_def escape_of_def utf8_bytes_def scalar_def)
  then have "concat (map utf8_bytes cps) = map of_nat cps" "concat (map (escaped True) cps) = map of_nat cps"
    "list_all scalar cps"
    using assms by (induction cps) auto
  with lexes_string [of cps strtod dp ic num True] show ?thesis by simp
qed

lemma lexes_names:
  "lexes strtod dp ic num ([0x22] @ lit ''bytes'' @ [0x22]) [T_string (lit ''bytes'')]"
  "lexes strtod dp ic num ([0x22] @ lit ''subtype'' @ [0x22]) [T_string (lit ''subtype'')]"
  using plain_string [of "[0x62, 0x79, 0x74, 0x65, 0x73]" strtod dp ic num]
    plain_string [of "[0x73, 0x75, 0x62, 0x74, 0x79, 0x70, 0x65]" strtod dp ic num]
  by (simp_all add: lit_def)

lemma ends_number_white: "list_all is_white ws \<Longrightarrow> ends_number b \<Longrightarrow> ends_number (ws @ b)"
  by (cases ws) (auto simp: ends_number_def is_white_def is_digit_byte_def)

lemma ends_number_punctuation [simp]:
  "ends_number (0x2C # bs)" "ends_number (0x5D # bs)" "ends_number (0x7D # bs)" "ends_number []"
  by (simp_all add: ends_number_def is_digit_byte_def)

text \<open>Lists with their separators; \<open>ws\<close> is the white space after a comma.\<close>

lemma sep_tokens_Cons: "ts \<noteq> [] \<Longrightarrow> sep_tokens (t # ts) = t @ T_value_separator # sep_tokens ts"
  by (cases ts) auto

lemma lexes_comma:
  assumes "lexes strtod dp ic True a ts" and "lexes strtod dp ic n b us" and "us \<noteq> []" and "list_all is_white ws"
  shows "lexes strtod dp ic n (a @ [0x2C] @ ws @ b) (ts @ T_value_separator # us)"
proof -
  have "lexes strtod dp ic n ([0x2C] @ ws @ b) ([T_value_separator] @ us)"
    by (rule lexes_then [OF lexes_punctuation(6) lexes_white]) (use assms in auto)
  from lexes_append [OF assms(1) this] show ?thesis by simp
qed

lemma lexes_join:
  assumes "list_all is_white ws" and "list_all2 (lexes strtod dp ic True) xs tss" and "[] \<notin> set tss"
  shows "lexes strtod dp ic True (join (0x2C # ws) xs) (sep_tokens tss)"
  using assms
proof (induction "0x2C # ws" xs arbitrary: tss rule: join.induct)
  case 1
  then show ?case by (simp add: lexes_Nil)
next
  case (2 x)
  then show ?case by (auto simp: list_all2_Cons1)
next
  case (3 x y ys)
  then obtain ts us where tss: "tss = ts # us" "lexes strtod dp ic True x ts" "list_all2 (lexes strtod dp ic True) (y # ys) us"
    by (auto simp: list_all2_Cons1)
  then have "us \<noteq> []" by auto
  moreover have "sep_tokens us \<noteq> []" using 3(4) tss(1) \<open>us \<noteq> []\<close> by (cases us rule: sep_tokens.cases) auto
  ultimately show ?case
    using lexes_comma [OF tss(2) "3.hyps" [OF "3.prems"(1) tss(3)] _ "3.prems"(1)] 3(4) tss(1)
    by (simp add: sep_tokens_Cons)
qed

lemma lexes_brackets:
  assumes "lexes strtod dp ic True t ts" and "list_all is_white ws"
    and "lexes strtod dp ic False [l] [L]" and "lexes strtod dp ic n' [r] [R]" and "ends_number [r]"
  shows "lexes strtod dp ic n' ([l] @ t @ ws @ [r]) (L # ts @ [R])"
proof -
  have "lexes strtod dp ic n' (ws @ [r]) [R]" by (rule lexes_white) (use assms in auto)
  with assms(1) have "lexes strtod dp ic n' (t @ ws @ [r]) (ts @ [R])"
    by (rule lexes_append) (use assms ends_number_white in auto)
  from lexes_then [OF assms(3) this] show ?thesis by simp
qed

text \<open>
  The indentation string is white, reaches the current level, and is long enough to be doubled for
  the next one.
\<close>

definition indent_ok :: "dump_opts \<Rightarrow> nat \<Rightarrow> octets \<Rightarrow> bool" where
  "indent_ok o1 cur ind \<longleftrightarrow> pretty_print o1 \<longrightarrow>
     list_all is_white ind \<and> cur \<le> length ind \<and> 512 \<le> length ind \<and> indent_step o1 \<le> 1024 \<and>
     (cur = 0 \<or> indent_step o1 \<le> length ind)"

definition grown :: "dump_opts \<Rightarrow> octets \<Rightarrow> octets \<Rightarrow> bool" where
  "grown o1 ind ind' \<longleftrightarrow> pretty_print o1 \<longrightarrow> length ind \<le> length ind' \<and> list_all is_white ind'"

lemma indent_ok_grown: "indent_ok o1 cur ind \<Longrightarrow> grown o1 ind ind' \<Longrightarrow> indent_ok o1 cur ind'"
  by (auto simp: indent_ok_def grown_def)

lemma grown_refl: "indent_ok o1 cur ind \<Longrightarrow> grown o1 ind ind"
  by (auto simp: indent_ok_def grown_def)

lemma grown_trans: "grown o1 a b \<Longrightarrow> grown o1 b c \<Longrightarrow> grown o1 a c"
  by (auto simp: grown_def)

lemma indent_white: "indent_ok o1 cur ind \<Longrightarrow> \<exists>i. indent o1 cur ind = Inr i \<and> list_all is_white i"
  by (auto simp: indent_ok_def indent_def list_all_iff dest: in_set_takeD)

lemma break_white: "list_all is_white (break o1)"
  by (simp add: break_def is_white_def)

lemma indent_inner:
  assumes "indent_ok o1 cur ind"
  defines "ind1 \<equiv> if pretty_print o1 then indent_grow (inner_indent o1 cur) ind else ind"
  shows "indent_ok o1 (inner_indent o1 cur) ind1 \<and> grown o1 ind ind1"
proof (cases "pretty_print o1")
  case True
  have le: "inner_indent o1 cur \<le> cur + indent_step o1" by (simp add: inner_indent_def new_indent_def True)
  have first: "indent_step o1 \<le> 1024 \<Longrightarrow> inner_indent o1 0 = indent_step o1"
    by (simp add: inner_indent_def new_indent_def True)
  have w: "list_all is_white (replicate k 0x20)" for k by (simp add: list_all_iff is_white_def)
  show ?thesis
    using assms(1) True le first w unfolding indent_ok_def grown_def ind1_def indent_grow_def by auto
qed (simp add: indent_ok_def grown_def)

text \<open>What a part of a dumped value is: a text that lexes to tokens, starting with an ASCII character.\<close>

definition dumps_as ::
  "(octets \<Rightarrow> u64) \<Rightarrow> u8 \<Rightarrow> bool \<Rightarrow> dump_opts \<Rightarrow> octets \<Rightarrow> dump_error + octets \<times> octets \<Rightarrow> token list \<Rightarrow> bool" where
  "dumps_as strtod dp ic o1 ind r ts \<longleftrightarrow>
     (\<exists>t ind'. r = Inr (t, ind') \<and> lexes strtod dp ic True t ts \<and> t \<noteq> [] \<and> hd t < 0x80 \<and> grown o1 ind ind')"

lemma dumps_asI:
  "lexes strtod dp ic n t ts \<Longrightarrow> t \<noteq> [] \<Longrightarrow> hd t < 0x80 \<Longrightarrow> grown o1 ind ind' \<Longrightarrow>
     dumps_as strtod dp ic o1 ind (Inr (t, ind')) ts"
  by (auto simp: dumps_as_def intro: lexes_weaken)

lemma white_ascii: "is_white b \<Longrightarrow> b < 0x80"
  by (auto simp: is_white_def)

lemma hd_white: "list_all is_white ws \<Longrightarrow> b \<noteq> [] \<Longrightarrow> hd b < 0x80 \<Longrightarrow> hd (ws @ b) < 0x80"
  by (cases ws) (auto simp: white_ascii)

lemma byte_is_number: "is_number (int (unat (x :: u8)))"
proof -
  have "int (unat x) < 256" using unat_u8 [of x] by linarith
  then have "int (unat x) < 2 ^ 64" by (rule order_less_trans) simp
  moreover have "- (2 ^ 63) \<le> (0 :: int)" by simp
  then have "- (2 ^ 63) \<le> int (unat x)" by (rule order_trans) (rule of_nat_0_le_iff)
  ultimately show ?thesis unfolding is_number_def by blast
qed

definition subtype_text :: "u8 option \<Rightarrow> octets" where
  "subtype_text t = (case t of None \<Rightarrow> lit ''null'' | Some n \<Rightarrow> int_text (int (unat n)))"

lemma dump_subtype_text: "dump_subtype t = Inr (subtype_text t)"
  by (cases t) (simp_all only: dump_subtype_def subtype_text_def dump_integer_decimal byte_is_number option.case)

lemma dump_bytes_text: "dump_bytes b = Inr (map (\<lambda>x. int_text (int (unat x))) b)"
  by (induction b) (simp_all only: dump_bytes.simps list.map bindE.simps dump_integer_decimal byte_is_number)

lemma dumps_binary:
  assumes "indent_ok o1 cur ind"
  shows "dumps_as strtod dp ic o1 ind (dump_binary o1 cur b t ind) (toks (text_norm (JBinary b t)))"
proof -
  let ?bytes = "map (\<lambda>x. int_text (int (unat x))) b" and ?bt = "map (\<lambda>x. [T_unsigned (unat x)]) b"
  define st where "st = toks (case t of None \<Rightarrow> JNull | Some n \<Rightarrow> JUint (unat n))"
  have byte: "lexes strtod dp ic True (int_text (int (unat x))) [T_unsigned (unat x)]" for x :: u8
    using lexes_integer [OF byte_is_number [of x], of strtod dp ic] by simp
  have list: "lexes strtod dp ic n ([0x5B] @ join (0x2C # ws) ?bytes @ [0x5D]) (T_begin_array # sep_tokens ?bt @ [T_end_array])"
    if "list_all is_white ws" for ws n
  proof -
    have "list_all2 (lexes strtod dp ic True) ?bytes ?bt" using byte by (simp add: list_all2_conv_all_nth)
    then have "lexes strtod dp ic True (join (0x2C # ws) ?bytes) (sep_tokens ?bt)" by (intro lexes_join that) auto
    from lexes_brackets [OF this, of "[]", OF _ lexes_punctuation(1) lexes_punctuation(2)] show ?thesis by simp
  qed
  have sub: "lexes strtod dp ic True (subtype_text t) st"
    using lexes_literals(3) byte by (cases t) (simp_all add: subtype_text_def st_def)
  have toks: "toks (text_norm (JBinary b t)) =
      T_begin_object # ([T_string (lit ''bytes''), T_name_separator] @ (T_begin_array # sep_tokens ?bt @ [T_end_array]) @
        [T_value_separator] @ [T_string (lit ''subtype''), T_name_separator] @ st) @ [T_end_object]"
    by (simp add: st_def comp_def)
  have body: "lexes strtod dp ic True
      ([0x7B] @ (w1 @ (([0x22] @ lit ''bytes'' @ [0x22]) @ [0x3A]) @ w2 @ ([0x5B] @ join (0x2C # w2) ?bytes @ [0x5D]) @
        ([0x2C] @ w1 @ (([0x22] @ lit ''subtype'' @ [0x22]) @ [0x3A]) @ w2 @ subtype_text t)) @ w3 @ [0x7D])
      (toks (text_norm (JBinary b t)))"
    if w: "list_all is_white w1" "list_all is_white w2" "list_all is_white w3" for w1 w2 w3
  proof -
    have st: "st \<noteq> []" by (simp add: st_def split: option.split)
    have A: "lexes strtod dp ic True ((([0x22] @ lit ''subtype'' @ [0x22]) @ [0x3A]) @ w2 @ subtype_text t)
        (([T_string (lit ''subtype'')] @ [T_name_separator]) @ st)"
      by (intro lexes_then lexes_names lexes_punctuation lexes_white sub w st)
    have B: "lexes strtod dp ic True ([0x2C] @ w1 @ (([0x22] @ lit ''subtype'' @ [0x22]) @ [0x3A]) @ w2 @ subtype_text t)
        ([T_value_separator] @ ([T_string (lit ''subtype'')] @ [T_name_separator]) @ st)"
      by (rule lexes_then [OF lexes_punctuation(6) lexes_white [OF w(1) A]]) simp
    have "lexes strtod dp ic True
        ((([0x22] @ lit ''bytes'' @ [0x22]) @ [0x3A]) @ (w2 @ ([0x5B] @ join (0x2C # w2) ?bytes @ [0x5D])) @
          ([0x2C] @ w1 @ (([0x22] @ lit ''subtype'' @ [0x22]) @ [0x3A]) @ w2 @ subtype_text t))
        (([T_string (lit ''bytes'')] @ [T_name_separator]) @ (T_begin_array # sep_tokens ?bt @ [T_end_array]) @
          ([T_value_separator] @ ([T_string (lit ''subtype'')] @ [T_name_separator]) @ st))"
      by (rule lexes_then [OF lexes_then [OF lexes_names(1) lexes_punctuation(5)]
            lexes_then [OF lexes_white [OF w(2) list [OF w(2)]] B]]) simp
    from lexes_brackets [OF lexes_white [OF w(1) this] w(3) lexes_punctuation(3) lexes_punctuation(4)]
    show ?thesis unfolding toks by simp
  qed
  show ?thesis
  proof (cases "pretty_print o1")
    case True
    define ind1 where "ind1 = indent_grow (new_indent o1 cur) ind"
    have ok: "indent_ok o1 (new_indent o1 cur) ind1" "grown o1 ind ind1"
      using indent_inner [OF assms] True by (simp_all add: inner_indent_def ind1_def)
    obtain i1 i2 where i: "indent o1 (new_indent o1 cur) ind1 = Inr i1" "list_all is_white i1"
        "indent o1 cur ind1 = Inr i2" "list_all is_white i2"
      using indent_white [OF ok(1)] indent_white [OF indent_ok_grown [OF assms ok(2)]] by blast
    have w: "list_all is_white (0x0A # i1)" "list_all is_white [0x20]" "list_all is_white (0x0A # i2)"
      using i by (simp_all add: is_white_def)
    show ?thesis
      unfolding dump_binary_def Let_def dump_bytes_text dump_subtype_text bindE.simps using True i body [OF w] ok(2)
      by (auto simp: ind1_def [symmetric] lit_def simp del: toks.simps text_norm.simps intro!: dumps_asI)
  next
    case False
    then show ?thesis
      unfolding dump_binary_def Let_def dump_bytes_text dump_subtype_text bindE.simps using body [of "[]" "[]" "[]"] grown_refl [OF assms]
      by (auto simp: lit_def simp del: toks.simps text_norm.simps intro!: dumps_asI)
  qed
qed

lemma toks_not_Nil: "toks (text_norm v) \<noteq> [] \<or> v = JDiscarded"
  by (cases v) (auto split: option.splits)

lemma json_typed_toks: "json_typed v \<Longrightarrow> toks (text_norm v) \<noteq> []"
  using toks_not_Nil [of v] by auto

text \<open>Values that can be dumped and read back.\<close>

definition printable :: "(octets \<Rightarrow> u64) \<Rightarrow> u8 \<Rightarrow> json \<Rightarrow> bool" where
  "printable strtod dp v \<longleftrightarrow>
     json_typed v \<and> json_utf8 v \<and> list_all (\<lambda>d. is_finite d \<longrightarrow> float_reads strtod dp d) (json_floats v)"

lemma printable_toks: "list_all (printable strtod dp) xs \<Longrightarrow> [] \<notin> set (map (\<lambda>v. toks (text_norm v)) xs)"
  using json_typed_toks by (fastforce simp: list_all_iff printable_def)

lemma printable_array: "printable strtod dp (JArray xs) \<longleftrightarrow> list_all (printable strtod dp) xs"
  by (auto simp: printable_def list_all_iff)

lemma printable_object:
  "printable strtod dp (JObject m) \<longleftrightarrow>
     keys_sorted m \<and> list_all (\<lambda>(k, v). utf8 k \<and> printable strtod dp v) m"
  by (fastforce simp: printable_def list_all_iff)

lemma number_text_head: "number_text k t \<Longrightarrow> t \<noteq> [] \<and> hd t < 0x80"
  by (auto simp: number_text_def is_digit_byte_def u8_le u8_less split: list.splits)

lemma dumps_number:
  assumes "is_number x" and "indent_ok o1 cur ind"
  shows "dumps_as strtod dp ic o1 ind (bindE (dump_integer x) (\<lambda>t. Inr (t, ind))) [if x < 0 then T_integer x else T_unsigned (nat x)]"
  unfolding dump_integer_decimal [OF assms(1)] bindE.simps using number_text_head [OF int_text_number [of x]]
  by (intro dumps_asI [OF lexes_integer [OF assms(1)]] grown_refl [OF assms(2)]) auto

lemma dumps_float:
  assumes "is_finite d \<Longrightarrow> float_reads strtod dp d" and "indent_ok o1 cur ind"
  shows "dumps_as strtod dp ic o1 ind (bindE (dump_float d) (\<lambda>t. Inr (t, ind))) (toks (text_norm (JFloat d)))"
proof (cases "is_finite d")
  case True
  then obtain t where t: "to_chars d = Inr t" "literal_rounds t d" "length t \<le> 24" using to_chars_ok by blast
  then have n: "number_text K_float t" "strtod (localized dp t) = d"
    using assms(1) True by (auto simp: float_reads_def literal_rounds_def)
  from lexes_number [OF n(1), of strtod dp ic] number_text_head [OF n(1)] n(2) True t(1,3) grown_refl [OF assms(2)]
  show ?thesis by (auto simp: dump_float_def number_token_def intro!: dumps_asI)
next
  case False
  with lexes_literals(3) grown_refl [OF assms(2)] show ?thesis
    by (auto simp: dump_float_def lit_def intro!: dumps_asI)
qed

lemma dumps_string:
  assumes "utf8 s" and "indent_ok o1 cur ind"
  shows "dumps_as strtod dp ic o1 ind
    (bindE (dump_escaped h ascii s) (\<lambda>t. Inr ([0x22] @ t @ [0x22], ind))) [T_string s]"
  using lexes_dumped_string [OF assms(1), of h ascii strtod dp ic] grown_refl [OF assms(2)]
  by (auto intro!: dumps_asI)

text \<open>An element with its indentation, and those that follow.\<close>

lemma dumps_indented:
  assumes "list_all is_white i" and "dumps_as strtod dp ic o1 ind r ts" and "ts \<noteq> []"
  shows "dumps_as strtod dp ic o1 ind (bindE r (\<lambda>(t, ind1). Inr (i @ t, ind1))) ts"
  using assms lexes_white [OF assms(1)] by (fastforce simp: dumps_as_def intro: hd_white)

lemma dumps_more:
  assumes "dumps_as strtod dp ic o1 ind r ts" and "ts \<noteq> []" and "us \<noteq> []" and "list_all is_white i"
    and "\<And>t ind1. r = Inr (t, ind1) \<Longrightarrow> grown o1 ind ind1 \<Longrightarrow> dumps_as strtod dp ic o1 ind1 (g ind1) us"
  shows "dumps_as strtod dp ic o1 ind
    (bindE r (\<lambda>(t, ind1). bindE (g ind1) (\<lambda>(u, ind2). Inr (i @ t @ [0x2C] @ break o1 @ u, ind2))))
    (ts @ T_value_separator # us)"
proof -
  obtain t ind1 where t: "r = Inr (t, ind1)" "lexes strtod dp ic True t ts" "t \<noteq> []" "hd t < 0x80" "grown o1 ind ind1"
    using assms(1) by (auto simp: dumps_as_def)
  obtain u ind2 where u: "g ind1 = Inr (u, ind2)" "lexes strtod dp ic True u us" "grown o1 ind1 ind2"
    using assms(5) [OF t(1,5)] by (auto simp: dumps_as_def)
  have "lexes strtod dp ic True (i @ (t @ [0x2C] @ break o1 @ u)) (ts @ T_value_separator # us)"
    by (rule lexes_white [OF assms(4) lexes_comma [OF t(2) u(2) assms(3) break_white]]) (use assms(2) in simp)
  moreover have "hd (i @ t @ [0x2C] @ break o1 @ u) < 0x80" using hd_white [OF assms(4), of "t @ [0x2C] @ break o1 @ u"] t(3,4) by simp
  ultimately show ?thesis
    using t(1,3,5) u(1,3) grown_trans unfolding dumps_as_def by fastforce
qed

lemma dumps_container:
  assumes "dumps_as strtod dp ic o1 ind1 r ts" and "grown o1 ind ind1" and "ts \<noteq> []" and "indent_ok o1 cur ind"
    and "lexes strtod dp ic False [l] [L]" and "lexes strtod dp ic True [c] [C]" and "ends_number [c]" and "l < 0x80"
  shows "dumps_as strtod dp ic o1 ind
    (bindE r (\<lambda>(t, ind2). bindE (indent o1 cur ind2) (\<lambda>i. Inr ([l] @ break o1 @ t @ break o1 @ i @ [c], ind2))))
    (L # ts @ [C])"
proof -
  obtain t ind2 where t: "r = Inr (t, ind2)" "lexes strtod dp ic True t ts" "grown o1 ind1 ind2"
    using assms(1) by (auto simp: dumps_as_def)
  have g: "grown o1 ind ind2" using assms(2) t(3) by (rule grown_trans)
  obtain i where i: "indent o1 cur ind2 = Inr i" "list_all is_white i"
    using indent_white [OF indent_ok_grown [OF assms(4) g]] by blast
  have "list_all is_white (break o1 @ i)" using i(2) break_white by simp
  from lexes_brackets [OF lexes_white [OF break_white t(2) assms(3)] this assms(5-7)]
  have "lexes strtod dp ic True ([l] @ break o1 @ t @ break o1 @ i @ [c]) (L # ts @ [C])" by simp
  then show ?thesis using t(1) i(1) g assms(8) by (auto intro!: dumps_asI)
qed

lemma dump_entry_text:
  assumes "utf8 k" and "dumps_as strtod dp ic o1 ind r ts" and "ts \<noteq> []"
  shows "\<exists>kt. dump_escaped h ascii k = Inr kt \<and>
    dumps_as strtod dp ic o1 ind (bindE r (\<lambda>(t, ind1). Inr ([0x22] @ kt @ colon o1 @ t, ind1)))
      (T_string k # T_name_separator # ts)"
proof -
  obtain t ind1 where t: "r = Inr (t, ind1)" "lexes strtod dp ic True t ts" "grown o1 ind ind1"
    using assms(2) by (auto simp: dumps_as_def)
  obtain kt where kt: "dump_escaped h ascii k = Inr kt" "\<And>num. lexes strtod dp ic num ([0x22] @ kt @ [0x22]) [T_string k]"
    using lexes_dumped_string [OF assms(1)] by blast
  define w where "w = (if pretty_print o1 then [0x20] else [] :: octets)"
  have w: "list_all is_white w" "colon o1 = [0x22, 0x3A] @ w" by (simp_all add: w_def is_white_def colon_def)
  have "lexes strtod dp ic True (([0x22] @ kt @ [0x22]) @ [0x3A] @ (w @ t)) ([T_string k] @ [T_name_separator] @ ts)"
    by (intro lexes_then kt lexes_punctuation lexes_white w t assms)
  then show ?thesis using kt(1) t(1,3) by (auto simp: w(2) intro!: dumps_asI)
qed

definition entry_tokens :: "octets \<times> json \<Rightarrow> token list" where
  "entry_tokens e = (case e of (k, v) \<Rightarrow> T_string k # T_name_separator # toks (text_norm v))"

lemma sep_tokens_not_Nil: "xs \<noteq> [] \<Longrightarrow> [] \<notin> set xs \<Longrightarrow> sep_tokens xs \<noteq> []"
  by (cases xs rule: sep_tokens.cases) auto

lemma dump_lexes:
  "printable strtod dp v \<Longrightarrow> indent_ok o1 cur ind \<Longrightarrow>
     dumps_as strtod dp ic o1 ind (dump o1 cur v ind) (toks (text_norm v))"
  "list_all (printable strtod dp) xs \<Longrightarrow> xs \<noteq> [] \<Longrightarrow> indent_ok o1 cur ind \<Longrightarrow>
     dumps_as strtod dp ic o1 ind (dump_elements o1 cur xs ind) (sep_tokens (map (\<lambda>v. toks (text_norm v)) xs))"
  "list_all (\<lambda>(k, v). utf8 k \<and> printable strtod dp v) m \<Longrightarrow> m \<noteq> [] \<Longrightarrow> indent_ok o1 cur ind \<Longrightarrow>
     dumps_as strtod dp ic o1 ind (dump_entries o1 cur m ind) (sep_tokens (map entry_tokens m))"
proof (induction o1 cur v ind and o1 cur xs ind and o1 cur m ind
    rule: dump_dump_elements_dump_entries.induct)
  case (1 o1 cur m ind)
  show ?case
  proof (cases "m = []")
    case True
    have "lexes strtod dp ic True ([0x7B] @ [0x7D]) ([T_begin_object] @ [T_end_object])"
      by (intro lexes_then lexes_punctuation)
    then show ?thesis using True grown_refl [OF 1(3)] by (auto simp: lit_def intro!: dumps_asI)
  next
    case False
    note inner = indent_inner [OF 1(3)]
    have es: "list_all (\<lambda>(k, v). utf8 k \<and> printable strtod dp v) m" using 1(2) by (simp add: printable_object)
    have ne: "sep_tokens (map entry_tokens m) \<noteq> []"
      using False by (intro sep_tokens_not_Nil) (auto simp: entry_tokens_def)
    have "toks (text_norm (JObject m)) = T_begin_object # sep_tokens (map entry_tokens m) @ [T_end_object]"
      by (simp add: comp_def case_prod_unfold entry_tokens_def [abs_def])
    with dumps_container [OF 1(1) [OF False refl refl es False] _ ne 1(3) lexes_punctuation(3) lexes_punctuation(4)]
      inner False show ?thesis by (simp add: Let_def)
  qed
next
  case (2 o1 cur xs ind)
  show ?case
  proof (cases "xs = []")
    case True
    have "lexes strtod dp ic True ([0x5B] @ [0x5D]) ([T_begin_array] @ [T_end_array])"
      by (intro lexes_then lexes_punctuation)
    then show ?thesis using True grown_refl [OF 2(3)] by (auto simp: lit_def intro!: dumps_asI)
  next
    case False
    note inner = indent_inner [OF 2(3)]
    have es: "list_all (printable strtod dp) xs" using 2(2) by (simp add: printable_array)
    have ne: "sep_tokens (map (\<lambda>v. toks (text_norm v)) xs) \<noteq> []"
      using False printable_toks [OF es] by (intro sep_tokens_not_Nil) auto
    have "toks (text_norm (JArray xs)) = T_begin_array # sep_tokens (map (\<lambda>v. toks (text_norm v)) xs) @ [T_end_array]"
      by (simp add: comp_def)
    with dumps_container [OF 2(1) [OF False refl refl es False] _ ne 2(3) lexes_punctuation(1) lexes_punctuation(2)]
      inner False show ?thesis by (simp add: Let_def)
  qed
next
  case (3 o1 cur s ind)
  then show ?case using dumps_string by (simp add: printable_def)
next
  case (4 o1 cur b t ind)
  then show ?case using dumps_binary by simp
next
  case (5 o1 cur b ind)
  then show ?case using lexes_literals(1,2) grown_refl by (auto simp: lit_def intro!: dumps_asI)
next
  case (6 o1 cur i ind)
  then have "is_number i" by (simp add: printable_def is_number_def)
  from dumps_number [OF this 6(2), of strtod dp ic] show ?case by (simp split: if_splits)
next
  case (7 o1 cur n ind)
  then have "is_number (int n)" by (simp add: printable_def is_number_def)
  from dumps_number [OF this 7(2), of strtod dp ic] show ?case by simp
next
  case (8 o1 cur d ind)
  then show ?case using dumps_float by (simp add: printable_def)
next
  case (9 o1 cur ind)
  then show ?case by (simp add: printable_def)
next
  case (10 o1 cur ind)
  then show ?case using lexes_literals(3) grown_refl by (auto simp: lit_def intro!: dumps_asI)
next
  case (11 o1 cur ind)
  then show ?case by simp
next
  case (12 o1 cur x xs ind)
  obtain i where i: "indent o1 cur ind = Inr i" "list_all is_white i" using indent_white [OF 12(5)] by blast
  have x: "printable strtod dp x" "list_all (printable strtod dp) xs" using 12(3) by simp_all
  have ne: "toks (text_norm x) \<noteq> []" using x(1) json_typed_toks by (simp add: printable_def)
  note d = 12(1) [OF i(1) x(1) 12(5)]
  show ?case
  proof (cases "xs = []")
    case True
    with dumps_indented [OF i(2) d ne] i(1) show ?thesis by simp
  next
    case False
    have ne2: "sep_tokens (map (\<lambda>v. toks (text_norm v)) xs) \<noteq> []"
      using False printable_toks [OF x(2)] by (intro sep_tokens_not_Nil) auto
    have "dumps_as strtod dp ic o1 ind1 (dump_elements o1 cur xs ind1) (sep_tokens (map (\<lambda>v. toks (text_norm v)) xs))"
      if "dump o1 cur x ind = Inr (t, ind1)" "grown o1 ind ind1" for t ind1
      using 12(2) [OF i(1) that(1) refl False x(2) False indent_ok_grown [OF 12(5) that(2)]] .
    from dumps_more [OF d ne ne2 i(2) this] i(1) False show ?thesis by (simp add: sep_tokens_Cons)
  qed
next
  case (13 o1 cur ind)
  then show ?case by simp
next
  case (14 o1 cur k x m ind)
  obtain i where i: "indent o1 cur ind = Inr i" "list_all is_white i" using indent_white [OF 14(5)] by blast
  have x: "utf8 k" "printable strtod dp x" "list_all (\<lambda>(k, v). utf8 k \<and> printable strtod dp v) m"
    using 14(3) by simp_all
  have ne: "toks (text_norm x) \<noteq> []" using x(2) json_typed_toks by (simp add: printable_def)
  obtain kt where esc: "dump_escaped (error_handler o1) (ensure_ascii o1) k = Inr kt"
    using lexes_dumped_string [OF x(1)] by blast
  note d = 14(1) [OF i(1) esc x(2) 14(5)]
  from dump_entry_text [OF x(1) d ne, of "error_handler o1" "ensure_ascii o1"] esc
  have e: "dumps_as strtod dp ic o1 ind
      (bindE (dump o1 cur x ind) (\<lambda>(t, ind1). Inr ([0x22] @ kt @ colon o1 @ t, ind1))) (entry_tokens (k, x))"
    by (simp add: entry_tokens_def)
  have ne1: "entry_tokens (k, x) \<noteq> []" by (simp add: entry_tokens_def)
  show ?case
  proof (cases "m = []")
    case True
    with dumps_indented [OF i(2) e ne1] i(1) esc show ?thesis by (simp add: bindE_assoc case_prod_unfold)
  next
    case False
    have ne2: "sep_tokens (map entry_tokens m) \<noteq> []"
      using False by (intro sep_tokens_not_Nil) (auto simp: entry_tokens_def)
    have "dumps_as strtod dp ic o1 ind1 (dump_entries o1 cur m ind1) (sep_tokens (map entry_tokens m))"
      if "bindE (dump o1 cur x ind) (\<lambda>(t, ind1). Inr ([0x22] @ kt @ colon o1 @ t, ind1)) = Inr (u, ind1)"
        "grown o1 ind ind1" for u ind1
    proof -
      from that(1) obtain t where t: "dump o1 cur x ind = Inr (t, ind1)" by (auto simp: bindE_Inr_iff)
      from 14(2) [OF i(1) esc t refl False x(3) False indent_ok_grown [OF 14(5) that(2)]] show ?thesis .
    qed
    from dumps_more [OF e ne1 ne2 i(2) this] i(1) esc False show ?thesis
      by (simp add: sep_tokens_Cons bindE_assoc case_prod_unfold)
  qed
qed

end
