(* ===== verification/Json_Text.thy ===== *)
theory Json_Text
  imports Json_Tokens
begin

text \<open>
  The parser over the tokens of a value reports the events of that value, and the text format as a
  whole: what \<^verbatim>\<open>dump\<close> writes, \<^verbatim>\<open>parse\<close> reads back.
\<close>

section \<open>The loop of the parser\<close>

lemma emit_Nil [simp]: "emit [] r = r"
  by (cases r) (auto simp: emit_def)

lemma emit_emit [simp]: "emit es (emit es' r) = emit (es @ es') r"
  by (cases r) (auto simp: emit_def)

lemma parse_skip: "sax_parse_internal strtod ic states True tok lx = sax_parse_internal strtod ic states True tok' lx"
  by (subst (1 2) sax_parse_internal.simps) simp

lemma parse_done:
  assumes "parse_value (scan strtod ic) t lx = Inr (V_done es lx1)"
  shows "sax_parse_internal strtod ic states False t lx = emit es (sax_parse_internal strtod ic states True tok lx1)"
proof (cases states)
  case Nil
  then show ?thesis using assms by (subst (1 2) sax_parse_internal.simps) (simp add: emit_def)
next
  case (Cons b states')
  then show ?thesis
    using assms
    by (cases "state_step (scan strtod ic) b lx1"; subst (1 2) sax_parse_internal.simps)
       (auto simp: emit_def [of es "Inl _"] split: state_out.split)
qed

lemma parse_open:
  "parse_value (scan strtod ic) t lx = Inr (V_open es b t1 lx1) \<Longrightarrow>
     sax_parse_internal strtod ic states False t lx = emit es (sax_parse_internal strtod ic (b # states) False t1 lx1)"
  by (subst sax_parse_internal.simps) simp

lemma parse_next:
  "state_step (scan strtod ic) b lx = Inr (S_next es t lx1) \<Longrightarrow>
     sax_parse_internal strtod ic (b # states) True tok lx = emit es (sax_parse_internal strtod ic (b # states) False t lx1)"
  by (subst sax_parse_internal.simps) simp

lemma parse_close:
  "state_step (scan strtod ic) b lx = Inr (S_close e t lx1) \<Longrightarrow>
     sax_parse_internal strtod ic (b # states) True tok lx = emit [e] (sax_parse_internal strtod ic states True tok' lx1)"
  by (subst sax_parse_internal.simps) (simp add: parse_skip [of strtod ic states t lx1 tok'])

section \<open>Tokens of a value\<close>

text \<open>Values that a text can denote: finite numbers, no binary values.\<close>

fun text_value :: "json \<Rightarrow> bool" where
  "text_value (JFloat d) \<longleftrightarrow> is_finite d"
| "text_value (JBinary b t) \<longleftrightarrow> False"
| "text_value JDiscarded \<longleftrightarrow> False"
| "text_value (JArray xs) \<longleftrightarrow> list_all text_value xs"
| "text_value (JObject m) \<longleftrightarrow> list_all (\<lambda>(k, v). text_value v) m"
| "text_value _ \<longleftrightarrow> True"

lemma text_value_toks: "text_value v \<Longrightarrow> toks v \<noteq> []"
  by (cases v) auto

definition parses_as :: "(octets \<Rightarrow> u64) \<Rightarrow> bool \<Rightarrow> json \<Rightarrow> bool" where
  "parses_as strtod ic v \<longleftrightarrow>
     (\<forall>states t ts lx lx' tok. toks v = t # ts \<and> reads_tokens strtod ic ts lx lx' \<longrightarrow>
        sax_parse_internal strtod ic states False t lx = emit (events v) (sax_parse_internal strtod ic states True tok lx'))"

lemma parses_asD:
  "parses_as strtod ic v \<Longrightarrow> toks v = t # ts \<Longrightarrow> reads_tokens strtod ic ts lx lx' \<Longrightarrow>
     sax_parse_internal strtod ic states False t lx = emit (events v) (sax_parse_internal strtod ic states True tok lx')"
  by (simp add: parses_as_def)

lemma parse_elements:
  assumes "xs \<noteq> []" and "\<And>x. x \<in> set xs \<Longrightarrow> parses_as strtod ic x \<and> toks x \<noteq> []"
    and "sep_tokens (map toks xs) @ [T_end_array] = t # ts" and "reads_tokens strtod ic ts lx lx'"
  shows "sax_parse_internal strtod ic (True # states) False t lx =
    emit (concat (map events xs) @ [EEndArray]) (sax_parse_internal strtod ic states True tok lx')"
  using assms
proof (induction xs arbitrary: t ts lx)
  case (Cons x xs)
  obtain t0 ts0 where x: "toks x = t0 # ts0" "parses_as strtod ic x" using Cons.prems(2) by (cases "toks x") fastforce+
  show ?case
  proof (cases "xs = []")
    case True
    then have ts: "t = t0" "ts = ts0 @ [T_end_array]" using Cons.prems(3) x by simp_all
    with Cons.prems(4) obtain lx1 where lx1: "reads_tokens strtod ic ts0 lx lx1" "scan strtod ic lx1 = (T_end_array, lx')"
      by (auto simp: reads_tokens_append)
    have "state_step (scan strtod ic) True lx1 = Inr (S_close EEndArray T_end_array lx')"
      by (simp add: state_step_def lx1(2))
    from parses_asD [OF x(2,1) lx1(1), of "True # states" tok] parse_close [OF this, of states tok tok] ts(1) True
    show ?thesis by simp
  next
    case False
    then have ts: "t = t0" "ts = ts0 @ T_value_separator # sep_tokens (map toks xs) @ [T_end_array]"
      using Cons.prems(3) x by (simp_all add: sep_tokens_Cons)
    with Cons.prems(4) obtain lx1 lx2 where lx: "reads_tokens strtod ic ts0 lx lx1"
        "scan strtod ic lx1 = (T_value_separator, lx2)"
        "reads_tokens strtod ic (sep_tokens (map toks xs) @ [T_end_array]) lx2 lx'"
      by (auto simp: reads_tokens_append)
    obtain t1 ts1 where t1: "sep_tokens (map toks xs) @ [T_end_array] = t1 # ts1"
      by (cases "sep_tokens (map toks xs) @ [T_end_array]") auto
    with lx(3) obtain lx3 where lx3: "scan strtod ic lx2 = (t1, lx3)" "reads_tokens strtod ic ts1 lx3 lx'" by auto
    have "state_step (scan strtod ic) True lx1 = Inr (S_next [] t1 lx3)" by (simp add: state_step_def lx(2) lx3(1))
    from parse_next [OF this] Cons.IH [OF False _ t1 lx3(2)] Cons.prems(2)
      parses_asD [OF x(2,1) lx(1), of "True # states" tok] ts(1) show ?thesis by simp
  qed
qed simp

lemma after_key_reads:
  "reads_tokens strtod ic (T_name_separator # t # ts) lx lx' \<Longrightarrow>
     \<exists>lx1. after_key (scan strtod ic) lx = Inr (t, lx1) \<and> reads_tokens strtod ic ts lx1 lx'"
  by (auto simp: after_key_def)

definition entry_toks :: "octets \<times> json \<Rightarrow> token list" where
  "entry_toks e = (case e of (k, v) \<Rightarrow> T_string k # T_name_separator # toks v)"

text \<open>The entries after the first key.\<close>

lemma parse_entries:
  assumes "\<And>k v. (k, v) \<in> set ((k0, x) # m) \<Longrightarrow> parses_as strtod ic v \<and> toks v \<noteq> []"
    and "sep_tokens (map entry_toks ((k0, x) # m)) @ [T_end_object] = T_string k0 # T_name_separator # t # ts"
    and "reads_tokens strtod ic ts lx lx'"
  shows "sax_parse_internal strtod ic (False # states) False t lx =
    emit (tl (concat (map (\<lambda>(k, v). EKey k # events v) ((k0, x) # m))) @ [EEndObject])
      (sax_parse_internal strtod ic states True tok lx')"
  using assms
proof (induction m arbitrary: k0 x t ts lx)
  case Nil
  obtain t0 ts0 where x: "toks x = t0 # ts0" "parses_as strtod ic x" using Nil.prems(1) [of k0 x] by (cases "toks x") auto
  then have ts: "t = t0" "ts = ts0 @ [T_end_object]" using Nil.prems(2) by (simp_all add: entry_toks_def)
  with Nil.prems(3) obtain lx1 where lx1: "reads_tokens strtod ic ts0 lx lx1" "scan strtod ic lx1 = (T_end_object, lx')"
    by (auto simp: reads_tokens_append)
  have "state_step (scan strtod ic) False lx1 = Inr (S_close EEndObject T_end_object lx')"
    by (simp add: state_step_def lx1(2))
  from parses_asD [OF x(2,1) lx1(1), of "False # states" tok] parse_close [OF this, of states tok tok] ts(1)
  show ?case by simp
next
  case (Cons e m)
  obtain k1 x1 where e: "e = (k1, x1)" by (cases e)
  obtain t0 ts0 where x: "toks x = t0 # ts0" "parses_as strtod ic x" using Cons.prems(1) [of k0 x] by (cases "toks x") auto
  define us where "us = sep_tokens (map entry_toks ((k1, x1) # m)) @ [T_end_object]"
  have ts: "t = t0" "ts = ts0 @ T_value_separator # us"
    using Cons.prems(2) x(1) by (simp_all add: e us_def entry_toks_def [of "(k0, x)"])
  have "\<exists>t1 ts1. us = T_string k1 # T_name_separator # t1 # ts1"
    using Cons.prems(1) [of k1 x1] by (cases m; cases "toks x1") (auto simp: us_def entry_toks_def e)
  then obtain t1 ts1 where us: "us = T_string k1 # T_name_separator # t1 # ts1" by blast
  with Cons.prems(3) ts obtain lx1 lx2 lx3 where lx: "reads_tokens strtod ic ts0 lx lx1"
      "scan strtod ic lx1 = (T_value_separator, lx2)" "scan strtod ic lx2 = (T_string k1, lx3)"
      "reads_tokens strtod ic (T_name_separator # t1 # ts1) lx3 lx'"
    by (auto simp: reads_tokens_append)
  obtain lx4 where lx4: "after_key (scan strtod ic) lx3 = Inr (t1, lx4)" "reads_tokens strtod ic ts1 lx4 lx'"
    using after_key_reads [OF lx(4)] by blast
  have "state_step (scan strtod ic) False lx1 = Inr (S_next [EKey k1] t1 lx4)"
    by (simp add: state_step_def lx(2,3) lx4(1))
  moreover have "sax_parse_internal strtod ic (False # states) False t1 lx4 =
      emit (tl (concat (map (\<lambda>(k, v). EKey k # events v) ((k1, x1) # m))) @ [EEndObject])
        (sax_parse_internal strtod ic states True tok lx')"
    by (rule Cons.IH) (use Cons.prems(1) us lx4(2) in \<open>auto simp: us_def e\<close>)
  ultimately show ?case
    using parse_next [of strtod ic False lx1 "[EKey k1]" t1 lx4 states tok]
      parses_asD [OF x(2,1) lx(1), of "False # states" tok] ts(1) by (simp add: e)
qed

lemma parses_atom:
  "toks v = [t] \<Longrightarrow> (\<And>lx. parse_value (scan strtod ic) t lx = Inr (V_done (events v) lx)) \<Longrightarrow> parses_as strtod ic v"
  unfolding parses_as_def using parse_done by simp

lemma text_value_first: "text_value v \<Longrightarrow> toks v = t # ts \<Longrightarrow> t \<noteq> T_end_array"
  by (cases v) (auto split: if_splits)

lemma sep_tokens_head: "t = a # b \<Longrightarrow> \<exists>us. sep_tokens (t # ts) = a # us"
  by (cases ts) auto

lemma parse_array_value:
  assumes "list_all text_value xs" and "\<And>x. x \<in> set xs \<Longrightarrow> parses_as strtod ic x"
    and t: "toks (JArray xs) = t # ts" and r: "reads_tokens strtod ic ts lx lx'"
  shows "sax_parse_internal strtod ic states False t lx =
    emit (events (JArray xs)) (sax_parse_internal strtod ic states True tok lx')"
proof (cases xs)
  case Nil
  then have "parse_value (scan strtod ic) t lx = Inr (V_done [EStartArray, EEndArray] lx')" using t r by auto
  from parse_done [OF this] Nil show ?thesis by simp
next
  case (Cons x ys)
  have el: "parses_as strtod ic x \<and> toks x \<noteq> []" if "x \<in> set xs" for x
    using that assms(1,2) text_value_toks by (auto simp: list_all_iff)
  obtain t1 us where x: "toks x = t1 # us" using el [of x] Cons by (cases "toks x") auto
  then obtain ts1 where t1: "sep_tokens (map toks xs) @ [T_end_array] = t1 # ts1"
    using sep_tokens_head [OF x, of "map toks ys"] Cons by auto
  obtain lx1 where lx1: "scan strtod ic lx = (t1, lx1)" "reads_tokens strtod ic ts1 lx1 lx'" using t r by (auto simp: t1)
  have "t1 \<noteq> T_end_array" using assms(1) Cons text_value_first [OF _ x] by simp
  with lx1(1) t have "parse_value (scan strtod ic) t lx = Inr (V_open [EStartArray] True t1 lx1)" by auto
  from parse_open [OF this, of states] parse_elements [OF _ el t1 lx1(2), of states tok] Cons show ?thesis by simp
qed

lemma parse_object_value:
  assumes "\<And>k v. (k, v) \<in> set m \<Longrightarrow> text_value v \<and> parses_as strtod ic v"
    and t: "toks (JObject m) = t # ts" and r: "reads_tokens strtod ic ts lx lx'"
  shows "sax_parse_internal strtod ic states False t lx =
    emit (events (JObject m)) (sax_parse_internal strtod ic states True tok lx')"
proof (cases m)
  case Nil
  then have "parse_value (scan strtod ic) t lx = Inr (V_done [EStartObject, EEndObject] lx')" using t r by auto
  from parse_done [OF this] Nil show ?thesis by simp
next
  case (Cons e m')
  obtain k x where e: "e = (k, x)" by (cases e)
  have el: "parses_as strtod ic v \<and> toks v \<noteq> []" if "(k, v) \<in> set m" for k v
    using that assms(1) text_value_toks by blast
  obtain t1 us where x: "toks x = t1 # us" using el [of k x] Cons e by (cases "toks x") auto
  have tok_eq: "toks (JObject m) = T_begin_object # sep_tokens (map entry_toks m) @ [T_end_object]"
    by (simp add: entry_toks_def [abs_def])
  obtain ts1 where t1: "sep_tokens (map entry_toks ((k, x) # m')) @ [T_end_object] = T_string k # T_name_separator # t1 # ts1"
    using x by (cases m') (auto simp: entry_toks_def)
  have ts: "t = T_begin_object" "ts = T_string k # T_name_separator # t1 # ts1"
    using t t1 tok_eq by (simp_all only: Cons e list.inject)
  obtain lx1 where lx1: "scan strtod ic lx = (T_string k, lx1)" "reads_tokens strtod ic (T_name_separator # t1 # ts1) lx1 lx'"
    using r ts(2) by auto
  obtain lx2 where lx2: "after_key (scan strtod ic) lx1 = Inr (t1, lx2)" "reads_tokens strtod ic ts1 lx2 lx'"
    using after_key_reads [OF lx1(2)] by blast
  have "parse_value (scan strtod ic) t lx = Inr (V_open [EStartObject, EKey k] False t1 lx2)"
    by (simp add: ts(1) lx1(1) lx2(1))
  from parse_open [OF this, of states] parse_entries [OF _ t1 lx2(2), of states tok] el Cons e show ?thesis by auto
qed

lemma parse_text_value: "text_value v \<Longrightarrow> parses_as strtod ic v"
proof (induction v)
  case (JArray xs)
  then show ?case
    unfolding parses_as_def [of _ _ "JArray xs"]
    by (auto simp: list_all_iff simp del: toks.simps events.simps intro!: parse_array_value)
next
  case (JObject m)
  then have "text_value v \<and> parses_as strtod ic v" if "(k, v) \<in> set m" for k v
    using that by (fastforce simp: list_all_iff)
  then show ?case
    unfolding parses_as_def [of _ _ "JObject m"]
    by (auto simp del: toks.simps events.simps intro!: parse_object_value)
qed (auto intro: parses_atom)

section \<open>The text format\<close>

lemma text_norm_value: "json_typed v \<Longrightarrow> text_value (text_norm v)"
  by (induction v rule: text_norm.induct) (auto simp: list_all_iff split: option.splits)

lemma text_norm_keys: "map fst (map (\<lambda>(k, v). (k, text_norm v)) m) = map fst m"
  by (induction m) auto

lemma byte_less_64: "unat (x :: u8) < 2 ^ 64"
  using unat_u8 [of x] by (rule order_less_trans) simp

lemma text_norm_typed: "json_typed v \<Longrightarrow> json_typed (text_norm v)"
proof (induction v rule: text_norm.induct)
  case (5 m)
  have "keys_sorted (map (\<lambda>(k, v). (k, text_norm v)) m)" using 5(2) unfolding keys_sorted_def text_norm_keys by (simp add: keys_sorted_def)
  moreover have "json_typed (text_norm v)" if "(k, v) \<in> set m" for k v
    using that 5 by (fastforce simp: list_all_iff)
  ultimately show ?case by (auto simp: list_all_iff)
next
  case (3 b t)
  have "lit ''bytes'' < lit ''subtype''" by (simp add: lit_def)
  then show ?case using byte_less_64 by (auto simp: list_all_iff keys_sorted_def split: option.splits)
qed (auto simp: list_all_iff)

lemma scan_new:
  assumes "t \<noteq> []" and "hd t < 0x80"
  shows "\<exists>lx. lx_at dp lx t \<and> no_bom lx \<and> scan strtod ic (lexer_new dp t) = scan strtod ic lx"
proof -
  obtain b bs where t: "t = b # bs" using assms(1) by (cases t) auto
  define lx where "lx = unget (lget (lexer_new dp t))"
  have "b \<noteq> 0xEF" using assms(2) t by auto
  then have b: "skip_bom (lexer_new dp t) = (True, lx)" "skip_bom lx = (True, lx)"
    by (simp_all add: skip_bom_def lx_def lget_def unget_def lexer_new_def t Let_def)
  have "chars_read_total lx = 0" "chars_read_total (lexer_new dp t) = 0" by (simp_all add: lx_def lget_def unget_def lexer_new_def t)
  with b have "scan strtod ic (lexer_new dp t) = scan strtod ic lx" by (simp add: scan_def)
  moreover have "lx_at dp lx t" by (simp add: lx_at_def lx_def lget_def unget_def lexer_new_def t pending_def)
  ultimately show ?thesis using b(2) by (auto simp: no_bom_def)
qed

lemma scan_end:
  assumes "lx_at dp lx []" and "no_bom lx"
  shows "\<exists>lx'. scan strtod ic lx = (T_end_of_input, lx')"
proof -
  have "lx_on dp (lget lx) None [] 0" using assms(1) by (auto intro: lget_at_end)
  then have "lx_current (lget lx) = None" by (rule lx_on_current)
  moreover from this have "skip_whitespace lx = lget lx" by (subst skip_whitespace.simps) simp
  ultimately show ?thesis using assms(2) by (auto simp: scan_def no_bom_def scan_token_end)
qed

lemma json_parse_tokens:
  assumes "lexes strtod dp ic True t (toks v)" and "t \<noteq> []" and "hd t < 0x80" and "text_value v" and "json_typed v"
  shows "json_parse strtod dp ic strict ex t = Inr v"
proof -
  obtain lx where lx: "lx_at dp lx t" "no_bom lx" "scan strtod ic (lexer_new dp t) = scan strtod ic lx"
    using scan_new [OF assms(2,3)] by blast
  then obtain lx' where lx': "reads_tokens strtod ic (toks v) lx lx'" "lx_at dp lx' []" "no_bom lx'"
    using assms(1) unfolding lexes_def by (metis append_Nil2 ends_number_punctuation(4))
  obtain t0 ts where t0: "toks v = t0 # ts" using text_value_toks [OF assms(4)] by (cases "toks v") auto
  with lx' obtain lx1 where lx1: "scan strtod ic lx = (t0, lx1)" "reads_tokens strtod ic ts lx1 lx'" by auto
  have "sax_parse_internal strtod ic [] False t0 lx1 = emit (events v) (sax_parse_internal strtod ic [] True T_null lx')"
    by (rule parses_asD [OF parse_text_value [OF assms(4)] t0 lx1(2)])
  also have "sax_parse_internal strtod ic [] True T_null lx' = Inr ([], lx')"
    by (subst sax_parse_internal.simps) simp
  finally have p: "sax_parse_internal strtod ic [] False t0 lx1 = Inr (events v, lx')" by (simp add: emit_def)
  obtain lx2 where "scan strtod ic lx' = (T_end_of_input, lx2)" using scan_end [OF lx'(2,3)] by blast
  then show ?thesis by (simp add: json_parse_def lx(3) lx1(1) p build_typed [OF assms(5)])
qed

lemma json_dump_parse:
  assumes "printable strtod dp v" and "is_white ch" and "ind \<le> 1024"
  shows "\<exists>t. json_dump ind ch ascii h v = Inr t \<and> json_parse strtod dp ic strict ex t = Inr (text_norm v)"
proof -
  define o1 where "o1 = \<lparr>pretty_print = 0 \<le> ind, ensure_ascii = ascii, indent_step = (if 0 \<le> ind then nat ind else 0),
    indent_char = ch, error_handler = h\<rparr>"
  have "indent_ok o1 0 (indent_new o1)"
    using assms(2,3) by (simp add: indent_ok_def indent_new_def o1_def list_all_iff nat_le_iff)
  from dump_lexes(1) [OF assms(1) this, of ic] obtain t ind' where
    t: "dump o1 0 v (indent_new o1) = Inr (t, ind')" "lexes strtod dp ic True t (toks (text_norm v))" "t \<noteq> []"
      "hd t < 0x80"
    by (auto simp: dumps_as_def)
  have "json_typed v" using assms(1) by (simp add: printable_def)
  from json_parse_tokens [OF t(2-4) text_norm_value [OF this] text_norm_typed [OF this]] t(1) show ?thesis
    by (simp add: json_dump_def o1_def)
qed

text \<open>
  C9: What \<^verbatim>\<open>dump\<close> writes for a value is read back by \<^verbatim>\<open>parse\<close>, with any indentation of at most 1024
  white characters and with or without escapes for all that is not ASCII, up to what the text does not
  keep: the signedness of integers that are not negative, numbers that are not finite, and binary values,
  which become objects. Its strings are UTF-8, and \<^verbatim>\<open>strtod\<close> of the C library rounds a literal that is
  nearest to one of its finite numbers to that number.
\<close>

theorem json_text_roundtrip:
  assumes "json_typed v" and "json_utf8 v" and "\<forall>d\<in>set (json_floats v). is_finite d \<longrightarrow> float_reads strtod dp d"
    and "is_white ch" and "ind \<le> 1024"
  shows "\<exists>t. json_dump ind ch ascii h v = Inr t \<and> json_parse strtod dp ic strict ex t = Inr (text_norm v)"
  using json_dump_parse [of strtod dp v ch ind] assms by (simp add: printable_def list_all_iff)

text \<open>The sample has the numbers 0.5 and -2.\<close>

definition sample_text_value :: json where
  "sample_text_value =
     JObject [(lit ''a'', JArray [JInt (- 7), JFloat 0x3FE0000000000000, JFloat 0xC000000000000000, JNull]),
              (lit ''b'', JString [0x22, 0xC3, 0xA9, 0x0A])]"

definition sample_strtod :: "octets \<Rightarrow> u64" where
  "sample_strtod t = (if hd t = 0x2D then 0xC000000000000000 else 0x3FE0000000000000)"

lemma localized_point: "localized 0x2E t = t"
  by (induction t) (simp_all add: localized_def)

lemma sample_printable:
  shows "json_utf8 sample_text_value" and "json_typed sample_text_value"
    and "\<forall>d\<in>set (json_floats sample_text_value). is_finite d \<longrightarrow> float_reads sample_strtod 0x2E d"
proof -
  have "utf8 [0x22, 0xC3, 0xA9, 0x0A]" unfolding utf8_decode_all by code_simp
  moreover have "utf8 (lit ''a'')" "utf8 (lit ''b'')" unfolding utf8_decode_all by code_simp+
  ultimately show "json_utf8 sample_text_value" by (simp add: sample_text_value_def)
  show "json_typed sample_text_value" by (simp add: sample_text_value_def keys_sorted_def lit_def)
  show "\<forall>d\<in>set (json_floats sample_text_value). is_finite d \<longrightarrow> float_reads sample_strtod 0x2E d"
    by (simp add: sample_text_value_def float_reads_def sample_strtod_def localized_point literal_rounds_def negative_def)
qed

theorem json_text_roundtrip_witness:
  "\<exists>t. json_dump 2 0x20 True EH_strict sample_text_value = Inr t \<and>
       json_parse sample_strtod 0x2E False True True t = Inr sample_text_value"
proof -
  have "is_white 0x20" by code_simp
  moreover have "text_norm sample_text_value = sample_text_value" by (simp add: sample_text_value_def is_finite_def)
  ultimately show ?thesis
    using json_text_roundtrip [OF sample_printable(2,1,3), of "0x20" 2 True EH_strict False True True] by simp
qed

end
