(* ===== verification/Json_Parser_Spec.thy ===== *)
theory Json_Parser_Spec
  imports Json_Text
begin

text \<open>
  What the parser delivers for any bytes: a well-typed value with UTF-8 strings and finite numbers,
  or one of two errors. The assertions of the handler that builds the value never fail, because its
  stack of open containers follows the parser's stack of states.
\<close>

section \<open>Tokens\<close>

fun token_ok :: "token \<Rightarrow> bool" where
  "token_ok (T_string s) \<longleftrightarrow> utf8 s"
| "token_ok (T_unsigned n) \<longleftrightarrow> n < 2 ^ 64"
| "token_ok (T_integer i) \<longleftrightarrow> - (2 ^ 63) \<le> i \<and> i < 2 ^ 63"
| "token_ok _ \<longleftrightarrow> True"

lemma scan_literal_ok: "token_ok t \<Longrightarrow> token_ok (fst (scan_literal cs t lx))"
  by (induction cs t lx rule: scan_literal.induct) (auto simp: Let_def)

lemma number_token_ok: "token_ok (number_token strtod k buf)"
  by (auto simp: number_token_def)

lemma scan_number_ok: "token_ok (fst (scan_number strtod lx))"
  by (auto simp: scan_number_def Let_def number_token_ok split: option.splits prod.splits)

lemma scan_token_ok: "token_ok (fst (scan_token strtod lx))"
  using scan_string_utf8 [of "[]" lx] scan_number_ok [of strtod lx]
  by (auto simp: scan_token_def scan_literal_ok simp del: scan_literal.simps split: option.splits prod.splits)

lemma scan_token_ok': "scan_token strtod lx = (t, lx') \<Longrightarrow> token_ok t"
  using scan_token_ok [of strtod lx] by simp

lemma scan_ok: "scan strtod ic lx = (t, lx') \<Longrightarrow> token_ok t"
  by (auto simp: scan_def Let_def dest: scan_token_ok' split: prod.splits bool.splits if_splits)

section \<open>The stack of the parser and the stack of the handler\<close>

definition text_json :: "json \<Rightarrow> bool" where
  "text_json v \<longleftrightarrow> json_typed v \<and> json_utf8 v \<and> text_value v"

lemma text_json_array: "text_json (JArray xs) \<longleftrightarrow> list_all text_json xs"
  by (auto simp: text_json_def list_all_iff)

lemma text_json_object: "text_json (JObject m) \<longleftrightarrow> keys_sorted m \<and> list_all (\<lambda>(k, v). utf8 k \<and> text_json v) m"
  by (fastforce simp: text_json_def list_all_iff)

fun frame_ok :: "bool \<Rightarrow> open_frame \<Rightarrow> bool" where
  "frame_ok b (FArray xs) \<longleftrightarrow> b \<and> text_json (JArray xs)"
| "frame_ok b (FObject m k) \<longleftrightarrow> \<not> b \<and> text_json (JObject m) \<and> (case k of None \<Rightarrow> True | Some k \<Rightarrow> utf8 k)"

fun waiting :: "open_frame \<Rightarrow> bool" where
  "waiting (FObject m None) \<longleftrightarrow> False"
| "waiting _ \<longleftrightarrow> True"

fun settled :: "open_frame \<Rightarrow> bool" where
  "settled (FObject m (Some k)) \<longleftrightarrow> False"
| "settled _ \<longleftrightarrow> True"

text \<open>A value is expected, and a value was just completed.\<close>

definition expects :: "bool list \<Rightarrow> dom \<Rightarrow> bool" where
  "expects states d \<longleftrightarrow> list_all2 frame_ok states (ref_stack d) \<and> list_all waiting (ref_stack d)"

definition completed :: "bool list \<Rightarrow> dom \<Rightarrow> bool" where
  "completed states d \<longleftrightarrow> list_all2 frame_ok states (ref_stack d) \<and>
     (case ref_stack d of [] \<Rightarrow> text_json (dom_root d) | f # fs \<Rightarrow> settled f \<and> list_all waiting fs)"

lemma text_json_put:
  "text_json (JObject m) \<Longrightarrow> utf8 k \<Longrightarrow> text_json v \<Longrightarrow> text_json (JObject (map_put k v m))"
  using map_put_sorted [of m k v] map_put_set [of k v m] by (fastforce simp: text_json_object list_all_iff)

lemma text_json_index: "text_json (JObject m) \<Longrightarrow> utf8 k \<Longrightarrow> text_json (JObject (map_index k JNull m))"
  using text_json_put [of m k JNull] by (simp add: map_index_def text_json_def [of JNull])

lemma handle_value_completes:
  assumes "expects states d" and "text_json v"
  shows "\<exists>d'. handle_value v d = Inr d' \<and> completed states d'"
proof (cases "ref_stack d")
  case Nil
  then show ?thesis using assms by (auto simp: expects_def completed_def handle_value_def)
next
  case (Cons f fs)
  then obtain b states' where st: "states = b # states'" "frame_ok b f" "list_all2 frame_ok states' fs" "waiting f"
      "list_all waiting fs"
    using assms(1) by (auto simp: expects_def list_all2_Cons2)
  show ?thesis
  proof (cases f)
    case (FArray xs)
    then show ?thesis using Cons st assms(2) by (auto simp: completed_def handle_value_def text_json_array)
  next
    case (FObject m k)
    with st(4) obtain k' where "k = Some k'" by (cases k) auto
    then show ?thesis using Cons FObject st assms(2) text_json_put by (auto simp: completed_def handle_value_def)
  qed
qed

lemma dom_key_expects:
  assumes "completed (False # states) d \<or> ref_stack d = FObject [] None # fs \<and> list_all2 frame_ok states fs \<and> list_all waiting fs"
    and "utf8 k"
  shows "\<exists>d'. dom_key k d = Inr d' \<and> expects (False # states) d'"
proof -
  obtain m e gs where "ref_stack d = FObject m e # gs" "text_json (JObject m)" "list_all2 frame_ok states gs" "list_all waiting gs"
  proof -
    show thesis
    proof (cases "ref_stack d = FObject [] None # fs \<and> list_all2 frame_ok states fs \<and> list_all waiting fs")
      case True
      then show thesis using that [of "[]" None fs] by (simp add: text_json_object keys_sorted_def)
    next
      case False
      then obtain f gs where g: "ref_stack d = f # gs" "frame_ok False f" "list_all2 frame_ok states gs" "list_all waiting gs"
        using assms(1) by (auto simp: completed_def list_all2_Cons1)
      then show thesis using that by (cases f) auto
    qed
  qed
  then show ?thesis
    using text_json_index [OF _ assms(2)] assms(2) by (auto simp: dom_key_def expects_def)
qed

lemma dom_pop_completes:
  assumes "completed (b # states) d"
  shows "\<exists>d'. dom_pop d = Inr d' \<and> completed states d'"
proof -
  obtain f fs where f: "ref_stack d = f # fs" "frame_ok b f" "list_all2 frame_ok states fs" "list_all waiting fs"
    using assms by (auto simp: completed_def list_all2_Cons1)
  let ?v = "case f of FArray xs \<Rightarrow> JArray xs | FObject m k \<Rightarrow> JObject m"
  have "dom_pop d = handle_value ?v (d\<lparr>ref_stack := fs\<rparr>)" using f(1) by (simp add: dom_pop_def split: open_frame.split)
  moreover have "text_json ?v" using f(2) by (cases f) auto
  moreover have "expects states (d\<lparr>ref_stack := fs\<rparr>)" using f(3,4) by (simp add: expects_def)
  ultimately show ?thesis using handle_value_completes by metis
qed

section \<open>Every run of the loop\<close>

lemma push_completed:
  assumes "expects states d"
  shows "completed (True # states) (d\<lparr>ref_stack := FArray [] # ref_stack d\<rparr>)"
    and "completed (False # states) (d\<lparr>ref_stack := FObject [] None # ref_stack d\<rparr>)"
  using assms by (simp_all add: expects_def completed_def text_json_array text_json_object keys_sorted_def)

fun atom_of :: "sax_event \<Rightarrow> json" where
  "atom_of (EBool b) = JBool b"
| "atom_of (EInt i) = JInt i"
| "atom_of (EUint n) = JUint n"
| "atom_of (EFloat f) = JFloat f"
| "atom_of (EString s) = JString s"
| "atom_of _ = JNull"

lemma value_done_completes:
  assumes "parse_value (scan strtod ic) t lx = Inr (V_done es lx1)" and "token_ok t" and "expects states d"
  shows "\<exists>d'. foldE dom_event es d = Inr d' \<and> completed states d'"
proof -
  show ?thesis
  proof (cases "es = [EStartArray, EEndArray] \<or> es = [EStartObject, EEndObject]")
    case True
    then show ?thesis
      using dom_pop_completes [OF push_completed(1) [OF assms(3)]] dom_pop_completes [OF push_completed(2) [OF assms(3)]]
      by (auto simp: dom_push_def)
  next
    case False
    with assms(1,2) have "\<exists>e. es = [e] \<and> dom_event e = handle_value (atom_of e) \<and> text_json (atom_of e)"
      by (cases t) (auto simp: syntax_error_def text_json_def bindE_Inr_iff split: if_splits prod.splits token.splits)
    then obtain e where "es = [e]" "dom_event e = handle_value (atom_of e)" "text_json (atom_of e)" by blast
    with handle_value_completes [OF assms(3)] show ?thesis by auto
  qed
qed

lemma after_key_ok: "after_key (scan strtod ic) lx = Inr (t, lx') \<Longrightarrow> token_ok t"
  by (auto simp: after_key_def syntax_error_def split: prod.splits if_splits dest: scan_ok)

lemma value_open_expects:
  assumes "parse_value (scan strtod ic) t lx = Inr (V_open es b t1 lx1)" and "expects states d"
  shows "token_ok t1 \<and> (\<exists>d'. foldE dom_event es d = Inr d' \<and> expects (b # states) d')"
proof -
  obtain t0 lx0 where s: "scan strtod ic lx = (t0, lx0)" by fastforce
  consider "t = T_begin_object" | "t = T_begin_array"
    using assms(1) by (cases t) (auto simp: syntax_error_def split: if_splits)
  then show ?thesis
  proof cases
    case 1
    then obtain k where k: "t0 = T_string k" "after_key (scan strtod ic) lx0 = Inr (t1, lx1)" "es = [EStartObject, EKey k]" "\<not> b"
      using assms(1) s by (auto simp: syntax_error_def bindE_Inr_iff split: token.splits)
    have "utf8 k" using scan_ok [OF s] k(1) by simp
    with dom_key_expects [of states "d\<lparr>ref_stack := FObject [] None # ref_stack d\<rparr>" "ref_stack d" k] assms(2) k(3,4)
      after_key_ok [OF k(2)] show ?thesis by (auto simp: dom_push_def expects_def)
  next
    case 2
    then have "b" "t1 = t0" "es = [EStartArray]" using assms(1) s by (auto split: if_splits)
    with scan_ok [OF s] assms(2) show ?thesis by (auto simp: dom_push_def expects_def text_json_array)
  qed
qed

lemma completed_array_expects: "completed (True # states) d \<Longrightarrow> expects (True # states) d"
proof -
  assume c: "completed (True # states) d"
  then obtain f fs where f: "ref_stack d = f # fs" "frame_ok True f" by (auto simp: completed_def list_all2_Cons1)
  then obtain xs where "f = FArray xs" by (cases f) auto
  with c f show "expects (True # states) d" by (simp add: completed_def expects_def)
qed

lemma state_next_expects:
  assumes "state_step (scan strtod ic) b lx = Inr (S_next es t lx1)" and "completed (b # states) d"
  shows "token_ok t \<and> (\<exists>d'. foldE dom_event es d = Inr d' \<and> expects (b # states) d')"
proof -
  obtain t0 lx0 where s: "scan strtod ic lx = (t0, lx0)" by fastforce
  obtain t2 lx2 where s2: "scan strtod ic lx0 = (t2, lx2)" by fastforce
  show ?thesis
  proof (cases b)
    case True
    then have "es = []" "t = t2" using assms(1) s s2 by (auto simp: state_step_def syntax_error_def split: if_splits)
    with True scan_ok [OF s2] completed_array_expects assms(2) show ?thesis by auto
  next
    case False
    then obtain k where k: "t2 = T_string k" "after_key (scan strtod ic) lx2 = Inr (t, lx1)" "es = [EKey k]"
      using assms(1) s s2 by (auto simp: state_step_def syntax_error_def bindE_Inr_iff split: if_splits token.splits)
    have "utf8 k" using scan_ok [OF s2] k(1) by simp
    with dom_key_expects [of states d _ k] assms(2) False k(3) after_key_ok [OF k(2)] show ?thesis by auto
  qed
qed

lemma state_close_pop:
  "state_step (scan strtod ic) b lx = Inr (S_close e t lx1) \<Longrightarrow> dom_event e = dom_pop"
  by (auto simp: state_step_def syntax_error_def bindE_Inr_iff split: prod.splits if_splits token.splits)

lemma emit_Inr: "emit es r = Inr (es', lx) \<longleftrightarrow> (\<exists>es2. r = Inr (es2, lx) \<and> es' = es @ es2)"
  by (auto simp: emit_def bindE_Inr_iff)

lemma parse_builds:
  "sax_parse_internal strtod ic states skip t lx = Inr (es, lx') \<Longrightarrow>
     (if skip then completed states d else expects states d \<and> token_ok t) \<Longrightarrow>
     \<exists>d'. foldE dom_event es d = Inr d' \<and> completed [] d'"
proof (induction strtod ic states skip t lx arbitrary: es d rule: sax_parse_internal.induct)
  case (1 strtod ic states skip t lx)
  obtain v where v: "(if skip then Inr (V_done [] lx) else parse_value (scan strtod ic) t lx) = Inr v"
    using "1.prems"(1) by (subst (asm) sax_parse_internal.simps) (auto simp: bindE_Inr_iff)
  show ?case
  proof (cases v)
    case (V_open es1 b t1 lx1)
    then have p: "\<not> skip" "parse_value (scan strtod ic) t lx = Inr (V_open es1 b t1 lx1)" using v by (auto split: if_splits)
    then obtain es2 where es2: "sax_parse_internal strtod ic (b # states) False t1 lx1 = Inr (es2, lx')" "es = es1 @ es2"
      using "1.prems"(1) parse_open [OF p(2), of states] by (auto simp: emit_Inr)
    obtain d1 where "foldE dom_event es1 d = Inr d1" "expects (b # states) d1" "token_ok t1"
      using value_open_expects [OF p(2)] "1.prems"(2) p(1) by auto
    with "1.IH"(3) [OF v V_open es2(1), of d1] es2(2) show ?thesis by (simp add: foldE_append)
  next
    case (V_done es1 lx1)
    obtain d1 where d1: "foldE dom_event es1 d = Inr d1" "completed states d1"
    proof (cases skip)
      case True
      then show thesis using v V_done "1.prems"(2) that by simp
    next
      case False
      then show thesis using v V_done "1.prems"(2) value_done_completes [of strtod ic t lx es1 lx1 states d] that by auto
    qed
    show ?thesis
    proof (cases states)
      case Nil
      then have "es = es1" using "1.prems"(1) v V_done by (subst (asm) sax_parse_internal.simps) simp
      with d1 Nil show ?thesis by auto
    next
      case (Cons b states')
      then obtain n where n: "state_step (scan strtod ic) b lx1 = Inr n"
        using "1.prems"(1) v V_done by (subst (asm) sax_parse_internal.simps) (auto simp: bindE_Inr_iff)
      show ?thesis
      proof (cases n)
        case (S_next es2 t2 lx2)
        then obtain es3 where es3: "sax_parse_internal strtod ic states False t2 lx2 = Inr (es3, lx')" "es = (es1 @ es2) @ es3"
          using "1.prems"(1) v V_done Cons n by (subst (asm) sax_parse_internal.simps) (auto simp: emit_Inr)
        obtain d2 where "foldE dom_event es2 d1 = Inr d2" "expects states d2" "token_ok t2"
          using state_next_expects [of strtod ic b lx1 es2 t2 lx2 states' d1] n S_next d1(2) Cons by auto
        with "1.IH"(1) [OF v V_done Cons n S_next es3(1), of d2] es3(2) d1(1) show ?thesis by (simp add: foldE_append)
      next
        case (S_close e t2 lx2)
        then obtain es3 where es3: "sax_parse_internal strtod ic states' True t2 lx2 = Inr (es3, lx')" "es = (es1 @ [e]) @ es3"
          using "1.prems"(1) v V_done Cons n by (subst (asm) sax_parse_internal.simps) (auto simp: emit_Inr)
        obtain d2 where "dom_pop d1 = Inr d2" "completed states' d2" using dom_pop_completes d1(2) Cons by blast
        with "1.IH"(2) [OF v V_done Cons n S_close es3(1), of d2] es3(2) d1(1) state_close_pop n S_close show ?thesis
          by (simp add: foldE_append)
      qed
    qed
  qed
qed

text \<open>The errors that are thrown.\<close>

definition text_error :: "json_error \<Rightarrow> bool" where
  "text_error e \<longleftrightarrow> e = OutOfRangeError 406 \<or> (\<exists>n. e = ParseError 101 n)"

lemma syntax_error_text: "syntax_error lx = Inl e \<Longrightarrow> text_error e"
  by (auto simp: syntax_error_def text_error_def)

lemma after_key_error: "after_key g lx = Inl e \<Longrightarrow> text_error e"
  by (auto simp: after_key_def dest: syntax_error_text split: prod.splits if_splits)

lemma parse_value_error: "parse_value g t lx = Inl e \<Longrightarrow> text_error e"
  by (cases t) (auto simp: bindE_Inl_iff text_error_def [of "OutOfRangeError 406"]
      dest: syntax_error_text after_key_error split: prod.splits token.splits if_splits)

lemma state_step_error: "state_step g b lx = Inl e \<Longrightarrow> text_error e"
  by (auto simp: state_step_def bindE_Inl_iff dest: syntax_error_text after_key_error
      split: prod.splits token.splits if_splits)

lemma emit_Inl: "emit es r = Inl e \<longleftrightarrow> r = Inl e"
  by (auto simp: emit_def bindE_Inl_iff)

lemma parse_error: "sax_parse_internal strtod ic states skip t lx = Inl e \<Longrightarrow> text_error e"
proof (induction strtod ic states skip t lx rule: sax_parse_internal.induct)
  case (1 strtod ic states skip t lx)
  let ?v = "if skip then Inr (V_done [] lx) else parse_value (scan strtod ic) t lx"
  show ?case
  proof (cases ?v)
    case (Inl e')
    then have "e' = e" using "1.prems" by (subst (asm) sax_parse_internal.simps) simp
    with Inl show ?thesis by (auto dest: parse_value_error split: if_splits)
  next
    case v: (Inr v)
    show ?thesis
    proof (cases v)
      case (V_open es b t1 lx1)
      from "1.IH"(3) [OF v V_open] "1.prems" v V_open show ?thesis
        by (subst (asm) (2) sax_parse_internal.simps) (simp add: emit_Inl)
    next
      case (V_done es lx1)
      show ?thesis
      proof (cases states)
        case Nil
        then show ?thesis using "1.prems" v V_done by (subst (asm) sax_parse_internal.simps) simp
      next
        case (Cons b states')
        show ?thesis
        proof (cases "state_step (scan strtod ic) b lx1")
          case (Inl e')
          then have "e' = e" using "1.prems" v V_done Cons by (subst (asm) sax_parse_internal.simps) simp
          with Inl show ?thesis by (auto dest: state_step_error)
        next
          case (Inr n)
          have "(case n of
              S_next es' t lx2 \<Rightarrow> emit (es @ es') (sax_parse_internal strtod ic (b # states') False t lx2)
            | S_close e t lx2 \<Rightarrow> emit (es @ [e]) (sax_parse_internal strtod ic states' True t lx2)) = Inl e"
            using "1.prems" v V_done Cons Inr by (subst (asm) sax_parse_internal.simps) simp
          then show ?thesis
            using "1.IH"(1,2) [OF v V_done Cons Inr] Cons by (cases n) (simp_all add: emit_Inl)
        qed
      qed
    qed
  qed
qed

section \<open>The interface\<close>

lemma build_parsed:
  assumes "scan strtod ic (lexer_new dp bs) = (t, lx)" and "sax_parse_internal strtod ic [] False t lx = Inr (es, lx1)"
  shows "\<exists>v. build es = Inr v \<and> text_json v"
proof -
  have "expects [] dom_new" by (simp add: expects_def dom_new_def)
  with parse_builds [OF assms(2), of dom_new] scan_ok [OF assms(1)]
  obtain d where "foldE dom_event es dom_new = Inr d" "completed [] d" by auto
  then show ?thesis by (auto simp: build_def completed_def)
qed

lemma text_json_not_discarded: "text_json v \<Longrightarrow> v \<noteq> JDiscarded"
  by (auto simp: text_json_def)

text \<open>
  C10: For every sequence of bytes the parser returns. With exceptions the only errors are the syntax
  error 101 and the range error 406 of a number that is too large; without them such an error gives
  the discarded value. Any other result is a value whose integers fit 64 bits, whose objects have
  ordered keys, whose strings and keys are UTF-8 and whose numbers are finite. (The documentation of
  \<^verbatim>\<open>parse\<close> also lists the errors 102 and 103 for wrong surrogates and code points; these are reported as
  101.)
\<close>

theorem json_parse_total:
  "case json_parse strtod dp ic strict allow_exceptions bs of
     Inl e \<Rightarrow> allow_exceptions \<and> text_error e
   | Inr v \<Rightarrow> (if v = JDiscarded then \<not> allow_exceptions else json_typed v \<and> json_utf8 v \<and> text_value v)"
proof -
  obtain t lx where s: "scan strtod ic (lexer_new dp bs) = (t, lx)" by fastforce
  show ?thesis
  proof (cases "sax_parse_internal strtod ic [] False t lx")
    case (Inl e)
    with parse_error [OF Inl] s show ?thesis by (simp add: json_parse_def)
  next
    case (Inr r)
    obtain es lx1 where r: "r = (es, lx1)" by (cases r)
    with build_parsed [OF s] Inr obtain v where v: "build es = Inr v" "text_json v" by auto
    show ?thesis
      using s Inr r v text_json_not_discarded [OF v(2)] syntax_error_text
      by (auto simp: json_parse_def text_json_def syntax_error_def split: prod.splits sum.splits)
  qed
qed

text \<open>
  C13: \<^verbatim>\<open>accept\<close>, which builds no value, says yes exactly when \<^verbatim>\<open>parse\<close> with exceptions returns a value.
\<close>

theorem json_accept_parse:
  "json_accept strtod dp ic strict bs \<longleftrightarrow> (\<exists>v. json_parse strtod dp ic strict True bs = Inr v)"
proof -
  obtain t lx where s: "scan strtod ic (lexer_new dp bs) = (t, lx)" by fastforce
  show ?thesis
  proof (cases "sax_parse_internal strtod ic [] False t lx")
    case (Inr r)
    obtain es lx1 where r: "r = (es, lx1)" by (cases r)
    with build_parsed [OF s] Inr obtain v where v: "build es = Inr v" by auto
    obtain t2 lx2 where "scan strtod ic lx1 = (t2, lx2)" by fastforce
    with s Inr r v show ?thesis by (auto simp: json_accept_def json_parse_def syntax_error_def)
  qed (use s in \<open>simp add: json_accept_def json_parse_def\<close>)
qed

end
