(* ===== verification/Json_Grisu_Unique.thy ===== *)
theory Json_Grisu_Unique
  imports Json_Grisu_Text
begin

text \<open>
  The intervals of numbers that round to different floating-point numbers do not overlap, so that a
  text that \<^verbatim>\<open>to_chars\<close> writes belongs to one number only.
\<close>

section \<open>Neighbours\<close>

text \<open>The upper boundary of a number is the lower boundary of the next one.\<close>

lemma powi_two: "(2 :: real) powi (e - 1) = 2 * 2 powi (e - 2)"
  using power_int_add [of "2 :: real" 1 "e - 2"] by simp

lemma boundary_adjacent: "fp_real (m_minus (Suc bits)) = fp_real (m_plus bits)"
proof -
  define E F where "E = bits div 2 ^ 52" and "F = bits mod 2 ^ 52"
  have F: "F < 2 ^ 52" by (simp add: F_def)
  show ?thesis
  proof (cases "Suc F < 2 ^ 52")
    case True
    then have s: "Suc bits div 2 ^ 52 = E" "Suc bits mod 2 ^ 52 = Suc F"
      by (simp_all add: E_def F_def div_Suc mod_Suc)
    show ?thesis
      unfolding m_minus_def m_plus_def fp_of_bits_def Let_def s E_def [symmetric] F_def [symmetric] fp_real_def by simp
  next
    case False
    then have F_eq: "F = 2 ^ 52 - 1" using F by simp
    then have s: "Suc bits div 2 ^ 52 = Suc E" "Suc bits mod 2 ^ 52 = 0"
      by (simp_all add: E_def F_def div_Suc mod_Suc)
    show ?thesis
      unfolding m_minus_def m_plus_def fp_of_bits_def Let_def s E_def [symmetric] F_def [symmetric] fp_real_def F_eq
      using powi_two [of "int E - 1075"] by (cases "E = 0") (simp_all add: algebra_simps)
  qed
qed

lemma boundary_less: "fp_real (m_minus bits) < fp_real (m_plus bits)"
proof -
  define f e where "f = fp_f (fp_of_bits bits)" and "e = fp_e (fp_of_bits bits)"
  have p: "fp_real (m_plus bits) = real (2 * f + 1) * 2 powi (e - 1)"
    by (simp add: fp_real_def m_plus_def Let_def f_def e_def)
  have "real (2 * f - 1) * 2 powi (e - 1) < fp_real (m_plus bits)"
    unfolding p by (intro mult_strict_right_mono) simp_all
  moreover have "real (4 * f - 1) * 2 powi (e - 2) < fp_real (m_plus bits)"
  proof -
    have "real (4 * f - 1) * 2 powi (e - 2) < real (4 * f + 2) * 2 powi (e - 2)" by (intro mult_strict_right_mono) simp_all
    also have "\<dots> = fp_real (m_plus bits)" unfolding p powi_two by (simp add: algebra_simps)
    finally show ?thesis .
  qed
  ultimately show ?thesis by (auto simp: m_minus_def Let_def f_def [symmetric] e_def [symmetric] fp_real_def)
qed

lemma boundary_ordered: "bits < bits' \<Longrightarrow> fp_real (m_plus bits) \<le> fp_real (m_minus bits')"
proof (induction bits' rule: less_induct)
  case (less bits')
  then obtain b where b: "bits' = Suc b" by (cases bits') auto
  show ?case
  proof (cases "bits = b")
    case False
    then have "fp_real (m_plus bits) \<le> fp_real (m_minus b)" using less b by simp
    also have "\<dots> \<le> fp_real (m_plus b)" using boundary_less by (rule less_imp_le)
    finally show ?thesis unfolding b boundary_adjacent .
  qed (simp add: b boundary_adjacent)
qed

section \<open>One number for a text\<close>

lemma fp_real_nonneg: "0 \<le> fp_real x"
  by (simp add: fp_real_def)

lemma literal_rounds_magnitude:
  assumes "literal_rounds t d" and "literal_rounds t d'"
  shows "magnitude d \<le> magnitude d'"
proof (rule ccontr)
  assume "\<not> magnitude d \<le> magnitude d'"
  then have lt: "magnitude d' < magnitude d" by simp
  then have l: "fp_real (m_minus (magnitude d)) < literal_value t" using assms(1) by (auto simp: literal_rounds_def split: if_splits)
  then have "literal_value t \<noteq> 0" using fp_real_nonneg [of "m_minus (magnitude d)"] by linarith
  then have "literal_value t < fp_real (m_plus (magnitude d'))" using assms(2) by (auto simp: literal_rounds_def split: if_splits)
  with l boundary_ordered [OF lt] show False by linarith
qed

lemma magnitude_sign: "unat d = (if negative d then 2 ^ 63 else 0) + magnitude d"
proof -
  have "unat d < 2 ^ 64" using unsigned_less [of d] by simp
  then show ?thesis by (auto simp: negative_def magnitude_def mod_if le_mod_geq)
qed

lemma literal_rounds_unique:
  assumes "literal_rounds t d" and "literal_rounds t d'"
  shows "d = d'"
proof -
  have "magnitude d = magnitude d'" using literal_rounds_magnitude assms by (intro order_antisym)
  moreover have "negative d = negative d'" using assms by (simp add: literal_rounds_def)
  ultimately have "unat d = unat d'" using magnitude_sign [of d] magnitude_sign [of d'] by simp
  then show ?thesis unfolding word_unat_eq_iff .
qed

text \<open>
  C30: The text that \<^verbatim>\<open>to_chars\<close> computes for a finite number. No assertion of the Grisu2 algorithm fails, its
  loop over the digits ends, at most 24 bytes of the buffer are used, and the text is a floating-point
  literal that is nearer to the number than to any other: a reader that rounds correctly gets exactly
  the number back.
\<close>

theorem to_chars_correct:
  assumes "is_finite d"
  shows "\<exists>t. to_chars d = Inr t \<and> length t \<le> 24 \<and> number_text K_float t \<and> literal_rounds t d \<and> (\<forall>d'. literal_rounds t d' \<longrightarrow> d' = d)"
  using to_chars_ok [OF assms] literal_rounds_unique by (fastforce simp: literal_rounds_def [of _ d])

text \<open>The number nearest to 0.1.\<close>

theorem to_chars_correct_witness:
  "\<exists>t. to_chars 0x3FB999999999999A = Inr t \<and> length t \<le> 24 \<and> number_text K_float t \<and>
       literal_rounds t 0x3FB999999999999A \<and> \<not> literal_rounds t 0x3FB999999999999B"
proof -
  have "is_finite 0x3FB999999999999A" by (simp add: is_finite_def)
  from to_chars_correct [OF this] obtain t where
    "to_chars 0x3FB999999999999A = Inr t" "length t \<le> 24" "number_text K_float t" "literal_rounds t 0x3FB999999999999A"
    "literal_rounds t 0x3FB999999999999B \<longrightarrow> (0x3FB999999999999B :: u64) = 0x3FB999999999999A" by blast
  then show ?thesis by auto
qed

end
