(* ===== verification/Spec2Isabelle.thy ===== *)
theory Spec2Isabelle
  imports Skip_List_Faults Session Server_Setup Stress_Test Rpc_Client Thread_Pool
    Json_Cbor_Spec Json_Msgpack_Spec Json_Parser_Spec Json_Grisu_Unique
begin

text \<open>
  A verification library for a small sorted-set server in the manner of Redis, written in C++
  (\<^verbatim>\<open>src/\<close>), for the RPC layer beside it (\<^verbatim>\<open>src/rpc/protorpc\<close>) and for the text and binary formats of
  the JSON library that is vendored with it (\<^verbatim>\<open>src/include/hv/json.hpp\<close>).

  \<^bold>\<open>The program.\<close> \<^verbatim>\<open>client.cpp\<close> reads lines and sends them over TCP to \<^verbatim>\<open>server.cpp\<close>. The server
  is one \<^verbatim>\<open>epoll\<close> loop: it splits a request into words and runs \<^verbatim>\<open>ZADD\<close>, \<^verbatim>\<open>ZREM\<close>, \<^verbatim>\<open>ZSCORE\<close>,
  \<^verbatim>\<open>ZCARD\<close>, \<^verbatim>\<open>ZDIS\<close>, \<^verbatim>\<open>SAVE\<close>, \<^verbatim>\<open>CONFIG\<close> or \<^verbatim>\<open>EXPIRE\<close> on a hash map from keys to skip lists
  (\<^verbatim>\<open>skiplist.h\<close>). A list bounds its size with an LRU cache (\<^verbatim>\<open>lru.h\<close>) whose limit comes from the
  configuration singleton (\<^verbatim>\<open>configs.h\<close>); keys expire through a list of deadlines (\<^verbatim>\<open>timer.h\<close>) that
  an alarm signal ticks, which reaches the loop through a pipe (\<^verbatim>\<open>signal.h\<close>). \<^verbatim>\<open>thread_pool.h\<close> and
  \<^verbatim>\<open>work_queue.h\<close> are a pool that the server does not use yet, \<^verbatim>\<open>stress_test.cpp\<close> is a load generator.
  The RPC layer frames protocol-buffer messages (\<^verbatim>\<open>protorpc.c\<close>), routes them to handlers
  (\<^verbatim>\<open>protorpc_server.cpp\<close>, \<^verbatim>\<open>handler/\<close>) and offers blocking calls (\<^verbatim>\<open>protorpc_client.cpp\<close>).

  \<^bold>\<open>Conventions.\<close> Code that can go wrong returns \<open>'a res\<close>: \<open>Inl\<close> of a \<open>fault\<close> (null pointer, use
  after free, double free, index out of range, uninitialised read, uncaught exception, undefined
  arithmetic, failed assertion, endless loop, blocking for ever) or \<open>Inr\<close> of the value and the new
  state. Pointer structures live on explicit heaps, so that a freed address is a fault when it is
  used. \<^verbatim>\<open>int\<close> scores are integers that are only compared; lengths, counters and wire fields that
  can wrap are words. Everything is executable; the examples are evaluated in the kernel.

  \<^bold>\<open>Theories.\<close>
  \<^item> \<open>Prelude\<close>: faults, results, sequencing and folding. \<open>Cpp_Containers\<close>: \<^verbatim>\<open>unordered_map\<close> and
    \<^verbatim>\<open>list\<close> with stable iterators. \<open>Cpp_Text\<close>: \<^verbatim>\<open>to_string\<close>, \<^verbatim>\<open>stoi\<close>, \<^verbatim>\<open>atoi\<close>, \<^verbatim>\<open>getline\<close>, words of
    a stream and their round trips. \<open>Step_Systems\<close>: the interface of invariants of step relations.
  \<^item> \<open>Lru\<close>: \<^verbatim>\<open>LRUCache\<close>, every method, and the interface \<open>recency_cache\<close> that the skip list needs.
    The cache reads the key of a cell after erasing it, which is undefined: the result of that read is
    the argument \<open>stale\<close>, which may fault or yield any key. The theorems hold for every \<open>stale\<close>; where
    the outcome depends on it, they say how.
  \<^item> \<open>Skip_Node\<close>, \<open>Skip_List\<close>: \<^verbatim>\<open>SkipListNode\<close> and \<^verbatim>\<open>SkipList\<close> operation by operation on a heap of
    nodes. \<open>Skip_List_Search\<close>, \<open>_Link\<close>, \<open>_Ops\<close>: the walks find the neighbours, linking and
    unlinking keep the chain of each level, and so the representation invariant. \<open>Skip_List_Spec\<close>:
    each operation against the sorted list of its members. \<open>Zset\<close>: the interface of a sorted set as a
    finite map, which the skip list refines. \<open>Skip_List_Reach\<close>: all reachable lists and the
    properties of the operations on them. \<open>Skip_List_Back\<close>: the backward pointers and the
    tail under insertion and deletion. \<open>Skip_List_Faults\<close>: the destructor, exactly which deletions make it
    free the header twice, and exactly which insertions break the backward chain. \<open>Skip_List_File\<close>: display, dump, save and load with their
    text format.
  \<^item> \<open>Timer\<close>: the doubly linked deadlines, the interface \<open>expiry_queue\<close>. \<open>Configs\<close>: the settings and
    the double-checked singleton as an interleaving of threads.
  \<^item> \<open>Server\<close>: tokeniser, commands, events, timeout and update steps, rounds, the end of \<^verbatim>\<open>main\<close>.
    \<open>Server_Spec\<close>: the abstract server, a map of maps. \<open>Server_Safety\<close>: the refinement for any
    interleaving of clients, exactly which requests fault, expiry, configuration updates, and the expiry
    that ends the server. \<open>Server_Setup\<close>: the start of \<^verbatim>\<open>main\<close>,
    the signal object, the way of signals into the loop, accepting.
  \<^item> \<open>Client\<close>: the client's loop on the standard input with its state bits. \<open>Session\<close>: client and
    server connected; the interface \<open>request_service\<close> that the client needs is provided by the
    server's model, and what the user sees follows. \<open>Stress_Test\<close>: the load generator.
  \<^item> \<open>Work_Queue\<close>, \<open>Thread_Pool\<close>: the queue as a fifo, the pool as an interleaving of atomic actions
    of workers, submitters and \<^verbatim>\<open>Shutdown\<close>, with notifications that can be lost.
  \<^item> \<open>Protorpc\<close>: packing and unpacking on 32-bit words. \<open>Rpc_Server\<close>: message handler, the table of
    \<^verbatim>\<open>src/rpc/protorpc/protorpc_server.cpp\<close> with its four handlers as arguments, and the handlers \<^verbatim>\<open>calc\<close>
    and \<^verbatim>\<open>login\<close>, which the table does not name. \<open>Rpc_Client\<close>: contexts, \<^verbatim>\<open>call\<close>, \<^verbatim>\<open>onMessage\<close> with its
    lock, a call end to end, and that the calls of the client's own \<^verbatim>\<open>main\<close> are answered with 404. The
    generated protocol-buffer code is a parameter; that parsing inverts serialising is a hypothesis.
  \<^item> \<open>Json_Value\<close>: values, SAX events and the handler that builds a value from them.
    \<open>Json_Binary\<close>: the byte reader, numbers, floats as bit patterns, the interface \<open>binary_format\<close>.
    \<open>Json_Cbor\<close>, \<open>Json_Msgpack\<close>: writers and readers; the theories \<open>_Spec\<close>: round trips, and that every input
    gives a value or a parse error.
  \<^item> \<open>Json_Lexer\<close>, \<open>Json_Parser\<close>: scanning and parsing of JSON text byte by byte, with the stack of the
    parser's loop. \<open>Json_Utf8\<close>: what UTF-8 is, and the table-driven decoder. \<open>Json_Dump\<close>: the
    serialiser. \<open>Json_Escape\<close>: the buffered escaping of strings against a reference on code points.
    \<open>Json_Scan\<close>, \<open>Json_Number\<close>: scanning undoes escaping, printed integers are decimal and are read
    back. \<open>Json_Tokens\<close>: the tokens of a dumped value. \<open>Json_Text\<close>: the round trip.
    \<open>Json_Parser_Spec\<close>: what the parser delivers for any input.
  \<^item> \<open>Json_Grisu\<close>: the shortest decimal text of a floating-point number, as \<^verbatim>\<open>dtoa_impl\<close> computes it.
    \<open>Json_Grisu_Num\<close>: its arithmetic on 64-bit numbers and its table of powers of ten. \<open>_Digits\<close>:
    the digits it generates stay between the boundaries. \<open>_Spec\<close>, \<open>_Text\<close>: the text denotes a number in the
    rounding interval of the argument, and the layout of the text. \<open>_Unique\<close>: these intervals
    are disjoint, so a correctly rounding reader gets the argument back.

  \<^bold>\<open>Bounds.\<close> Walks along pointers take as fuel the number of addresses ever given out
  (\<open>sl_next_addr\<close>, \<open>tm_fresh\<close>), which no chain exceeds; the theorems show that no operation runs
  out of it. The level of a new node ends with the first of the coming \<^verbatim>\<open>random()\<close> outputs whose
  lower 16 bits exceed 32767: \<open>stops rs\<close> counts these, and theorems about sequences ask for one per
  insertion. Sets have fewer than \<open>2\<^sup>3\<^sup>1\<close> members where \<^verbatim>\<open>ZCARD\<close> prints their number. The JSON
  readers nest at most as deep as the input is long; that \<open>Suc (length bs)\<close> is enough is proved.
  The digit loop of Grisu2 has fuel 20, which is proved to be enough.
  The client's loop is run for a number of rounds; that it ends is proved with that number, and
  that it does not end for every number.

  \<^bold>\<open>What is assumed about the surroundings.\<close> A request arrives at the server
  in one \<^verbatim>\<open>recv\<close>; how many bytes a \<^verbatim>\<open>read\<close> of the
  client gets is a parameter. The clock, the random numbers, \<^verbatim>\<open>strtod\<close> (a
  theorem about floating-point numbers in a text assumes that it rounds correctly), which files
  and calls succeed, the read of an erased cache cell and the indeterminate score of a list's
  header are arguments. Operations under a mutex are atomic; the two places where the code relies
  on unlocked reads, the singleton and the thread pool, are interleaved.

  \<^bold>\<open>Not modelled.\<close> Console diagnostics of the server and the lists; UBJSON,
  BSON, JSON pointers and the container interface of the JSON library, none of which the program
  uses; the size of the C++ stack, which the recursive readers of the binary formats and
  \<^verbatim>\<open>dump\<close> can exhaust on deeply nested input; the event loop, sockets and
  HTTP of libhv, of which only headers are in the repository; the RPC handler
  \<^verbatim>\<open>zadd.h\<close>, which does not match its declaration, and
  \<^verbatim>\<open>zrem\<close>, \<^verbatim>\<open>zrank\<close> and
  \<^verbatim>\<open>zscore\<close>, which are declared only; the build files.
\<close>

end
